(* ===== verification/Prelude.thy ===== *)
theory Prelude
  imports Main "HOL-Library.Word" "HOL-Library.Char_ord" "HOL-Library.List_Lexorder"
    "HOL-Library.Multiset" "HOL-Library.Signed_Division"
begin

text \<open>
  Shared ground of the development: how a C++ computation can fail, the two signed machine
  integer types the sources use (\<open>int\<close> and \<open>long\<close>), checked element access, and the generic
  list facts that the component theories rely on. Nothing here models a particular source file.
\<close>

section \<open>Failing computations\<close>

text \<open>
  \<open>Exit_Failure\<close> is a call of \<open>exit(1)\<close>; \<open>Out_Of_Range\<close> is the exception of
  \<open>vector::at\<close> and \<open>string::substr\<close>; \<open>Undefined\<close> marks a step the C++ standard leaves
  undefined (dereferencing \<open>end()\<close>, reading past a buffer); \<open>Div_By_Zero\<close> is the trap of an
  integer division by zero; \<open>Blocks\<close> is a call that waits for a message nobody sends. None of the
  sources catches one of the others, so each ends the process.
\<close>

datatype fault = Exit_Failure | Out_Of_Range | Undefined | Div_By_Zero | Blocks

type_synonym 'a res = "fault + 'a"

definition bind_res :: "'a res \<Rightarrow> ('a \<Rightarrow> 'b res) \<Rightarrow> 'b res" where
  "bind_res m f = (case m of Inl e \<Rightarrow> Inl e | Inr a \<Rightarrow> f a)"

lemma bind_res_simps [simp]:
  "bind_res (Inl e) f = Inl e"
  "bind_res (Inr a) f = f a"
  by (simp_all add: bind_res_def)

lemma bind_res_eq_Inr: "bind_res m f = Inr b \<longleftrightarrow> (\<exists>a. m = Inr a \<and> f a = Inr b)"
  by (cases m) simp_all

fun map_res :: "('a \<Rightarrow> 'b res) \<Rightarrow> 'a list \<Rightarrow> 'b list res" where
  "map_res f [] = Inr []"
| "map_res f (x # xs) = bind_res (f x) (\<lambda>y. bind_res (map_res f xs) (\<lambda>ys. Inr (y # ys)))"

lemma map_res_Inr: "(\<And>x. x \<in> set xs \<Longrightarrow> f x = Inr (g x)) \<Longrightarrow> map_res f xs = Inr (map g xs)"
  by (induction xs) simp_all

lemma map_res_length: "map_res f xs = Inr ys \<Longrightarrow> length ys = length xs"
  by (induction xs arbitrary: ys) (auto simp: bind_res_eq_Inr)

definition vec_at :: "'a list \<Rightarrow> nat \<Rightarrow> 'a res" where
  "vec_at xs i = (if i < length xs then Inr (xs ! i) else Inl Out_Of_Range)"

lemma vec_at_Cons [simp]:
  "vec_at (x # xs) 0 = Inr x"
  "vec_at (x # xs) (Suc i) = vec_at xs i"
  "vec_at [] i = Inl Out_Of_Range"
  by (simp_all add: vec_at_def)

lemma vec_at_numeral [simp]: "vec_at (x # xs) (numeral k) = vec_at xs (pred_numeral k)"
  by (simp add: numeral_eq_Suc)

lemma vec_at_in: "i < length xs \<Longrightarrow> vec_at xs i = Inr (xs ! i)"
  by (simp add: vec_at_def)

section \<open>Machine integers\<close>

text \<open>
  \<open>long\<close> has 64 bits and \<open>int\<close> 32 (the LP64 model of the supported platforms). A value is an
  \<open>int\<close> of HOL together with a range; narrowing a \<open>long\<close> to an \<open>int\<close> keeps the low 32 bits.
\<close>

definition long_min :: int where "long_min = - (2 ^ 63)"
definition long_max :: int where "long_max = 2 ^ 63 - 1"
definition int_min :: int where "int_min = - (2 ^ 31)"
definition int_max :: int where "int_max = 2 ^ 31 - 1"

definition is_long :: "int \<Rightarrow> bool" where
  "is_long i \<longleftrightarrow> long_min \<le> i \<and> i \<le> long_max"

definition is_int :: "int \<Rightarrow> bool" where
  "is_int i \<longleftrightarrow> int_min \<le> i \<and> i \<le> int_max"

lemmas int_range_defs = is_long_def is_int_def long_min_def long_max_def int_min_def int_max_def

definition to_int32 :: "int \<Rightarrow> int" where
  "to_int32 i = (i + 2 ^ 31) mod 2 ^ 32 - 2 ^ 31"

lemma to_int32_id: "is_int i \<Longrightarrow> to_int32 i = i"
  by (simp add: to_int32_def int_range_defs)

lemma to_int32_range: "is_int (to_int32 i)"
  by (simp add: to_int32_def int_range_defs)

lemma is_int_is_long: "is_int i \<Longrightarrow> is_long i"
  by (simp add: int_range_defs)

lemma is_int_of_nat: "n \<le> 2147483647 \<Longrightarrow> is_int (int n)"
  by (simp add: int_range_defs)

section \<open>C strings\<close>

definition c_str :: "string \<Rightarrow> string" where
  "c_str s = takeWhile (\<lambda>c. c \<noteq> CHR 0x00) s"

lemma c_str_id: "CHR 0x00 \<notin> set s \<Longrightarrow> c_str s = s"
  by (auto simp: c_str_def)

text \<open>\<open>char\<close> is signed: a byte above 127 is sign-extended when it meets a 64-bit operand.\<close>

definition char_sext :: "char \<Rightarrow> 64 word" where
  "char_sext c = (let n = (of_char c :: nat)
                  in if n < 128 then of_nat n else of_int (int n - 256))"

section \<open>Lists\<close>

named_theorems fault_free \<open>facts that a decoding or a call does not fail\<close>

lemma foldl_snoc: "foldl (\<lambda>acc x. acc @ [f x]) ys xs = ys @ map f xs"
  by (induction xs arbitrary: ys) simp_all

lemma concat_map_append_Nil: "concat (map (\<lambda>x. []) xs) = []"
  by (induction xs) simp_all

lemma sum_list_map_Suc_0: "sum_list (map (\<lambda>_. Suc 0) xs) = length xs"
  by (induction xs) simp_all

end
