(* ===== verification/Cxx_Map.thy ===== *)
theory Cxx_Map
  imports Prelude
begin

text \<open>
  \<open>std::map\<close> as the sources use it: an association list in ascending key order, which is also
  its iteration order. \<open>insert\<close> leaves an existing entry alone, \<open>operator[]\<close> creates or
  overwrites it, \<open>find\<close> returns the entry or \<open>end()\<close>. The laws the components rely on are
  the locale \<open>dictionary\<close>, interpreted on the model at the end.
\<close>

type_synonym ('k, 'v) cmap = "('k \<times> 'v) list"

fun cmap_insert :: "'k::linorder \<Rightarrow> 'v \<Rightarrow> ('k, 'v) cmap \<Rightarrow> ('k, 'v) cmap" where
  "cmap_insert k v [] = [(k, v)]"
| "cmap_insert k v ((k', v') # m) =
     (if k < k' then (k, v) # (k', v') # m
      else if k = k' then (k', v') # m
      else (k', v') # cmap_insert k v m)"

fun cmap_set :: "'k::linorder \<Rightarrow> 'v \<Rightarrow> ('k, 'v) cmap \<Rightarrow> ('k, 'v) cmap" where
  "cmap_set k v [] = [(k, v)]"
| "cmap_set k v ((k', v') # m) =
     (if k < k' then (k, v) # (k', v') # m
      else if k = k' then (k', v) # m
      else (k', v') # cmap_set k v m)"

definition cmap_find :: "('k::linorder, 'v) cmap \<Rightarrow> 'k \<Rightarrow> 'v option" where
  "cmap_find m k = map_of m k"

definition cmap_erase :: "'k::linorder \<Rightarrow> ('k, 'v) cmap \<Rightarrow> ('k, 'v) cmap" where
  "cmap_erase k m = filter (\<lambda>e. fst e \<noteq> k) m"

definition cmap_ok :: "('k::linorder, 'v) cmap \<Rightarrow> bool" where
  "cmap_ok m \<longleftrightarrow> sorted (map fst m) \<and> distinct (map fst m)"

section \<open>The interface\<close>

locale dictionary =
  fixes empty :: "'m"
    and find :: "'m \<Rightarrow> 'k \<Rightarrow> 'v option"
    and ins :: "'k \<Rightarrow> 'v \<Rightarrow> 'm \<Rightarrow> 'm"
    and upd :: "'k \<Rightarrow> 'v \<Rightarrow> 'm \<Rightarrow> 'm"
    and del :: "'k \<Rightarrow> 'm \<Rightarrow> 'm"
    and invar :: "'m \<Rightarrow> bool"
  assumes find_empty: "find empty k = None"
    and find_ins: "invar m \<Longrightarrow>
      find (ins k v m) k' = (if k' = k \<and> find m k = None then Some v else find m k')"
    and find_upd: "invar m \<Longrightarrow> find (upd k v m) k' = (if k' = k then Some v else find m k')"
    and find_del: "invar m \<Longrightarrow> find (del k m) k' = (if k' = k then None else find m k')"
    and invar_empty: "invar empty"
    and invar_ins: "invar m \<Longrightarrow> invar (ins k v m)"
    and invar_upd: "invar m \<Longrightarrow> invar (upd k v m)"
    and invar_del: "invar m \<Longrightarrow> invar (del k m)"
begin

lemma invar_fold_ins: "invar m \<Longrightarrow> invar (fold (\<lambda>(k, v). ins k v) kvs m)"
  by (induction kvs arbitrary: m) (auto intro: invar_ins)

text \<open>Inserting a list of entries: what is there stays, and of several entries for a key the
  first one counts.\<close>

lemma find_fold_ins: "invar m \<Longrightarrow>
    find (fold (\<lambda>(k, v). ins k v) kvs m) k =
      (case find m k of None \<Rightarrow> map_of kvs k | Some v \<Rightarrow> Some v)"
  by (induction kvs arbitrary: m) (auto simp: find_ins invar_ins split: option.splits)

lemma find_build: "find (fold (\<lambda>(k, v). ins k v) kvs empty) k = map_of kvs k"
  by (simp add: find_fold_ins invar_empty find_empty)

lemma invar_fold_upd: "invar m \<Longrightarrow> invar (fold (\<lambda>k. upd k (f k)) ks m)"
  by (induction ks arbitrary: m) (auto intro: invar_upd)

lemma find_fold_upd: "invar m \<Longrightarrow>
    find (fold (\<lambda>k. upd k (f k)) ks m) k = (if k \<in> set ks then Some (f k) else find m k)"
  by (induction ks arbitrary: m) (auto simp: find_upd invar_upd)

end

section \<open>The model satisfies the interface\<close>

lemma map_of_insert:
  "sorted (map fst m) \<Longrightarrow>
     map_of (cmap_insert k v m) k' = (if k' = k \<and> map_of m k = None then Some v else map_of m k')"
proof (induction m)
  case (Cons e m)
  obtain k0 v0 where e: "e = (k0, v0)" by (cases e)
  have "map_of m k = None" if "k < k0"
    using Cons.prems that by (auto simp: e map_of_eq_None_iff)
  with Cons e show ?case by (auto split: if_splits)
qed simp

lemma map_of_cmap_set: "map_of (cmap_set k v m) k' = (if k' = k then Some v else map_of m k')"
  by (induction m) auto

lemma fst_set_insert: "fst ` set (cmap_insert k v m) = insert k (fst ` set m)"
  by (induction k v m rule: cmap_insert.induct) auto

lemma fst_set_cmap_set: "fst ` set (cmap_set k v m) = insert k (fst ` set m)"
  by (induction k v m rule: cmap_set.induct) auto

lemma cmap_ok_insert: "cmap_ok m \<Longrightarrow> cmap_ok (cmap_insert k v m)"
  by (induction k v m rule: cmap_insert.induct)
    (auto simp: cmap_ok_def fst_set_insert dest: order.trans)

lemma cmap_ok_set: "cmap_ok m \<Longrightarrow> cmap_ok (cmap_set k v m)"
  by (induction k v m rule: cmap_set.induct)
    (auto simp: cmap_ok_def fst_set_cmap_set dest: order.trans)

lemma map_of_filter_key: "map_of (filter (\<lambda>e. fst e \<noteq> k) m) k' = (if k' = k then None else map_of m k')"
  by (induction m) auto

lemma cmap_ok_erase: "cmap_ok m \<Longrightarrow> cmap_ok (cmap_erase k m)"
  by (auto simp: cmap_ok_def cmap_erase_def distinct_map_filter sorted_filter)

interpretation cm: dictionary "[]" cmap_find cmap_insert cmap_set cmap_erase cmap_ok
proof unfold_locales
  show "cmap_find [] k = None" for k :: 'a by (simp add: cmap_find_def)
qed (auto simp: cmap_find_def cmap_erase_def cmap_ok_def map_of_insert map_of_cmap_set map_of_filter_key
    cmap_ok_insert [unfolded cmap_ok_def] cmap_ok_set [unfolded cmap_ok_def]
    cmap_ok_erase [unfolded cmap_ok_def cmap_erase_def])

text \<open>Two maps of the model with the same entries are the same list, so iteration is determined.\<close>

lemma cmap_find_map_of: "cmap_find m = map_of m"
  by (rule ext) (simp add: cmap_find_def)

lemma cmap_keys: "cmap_ok m \<Longrightarrow> map fst m = sorted_list_of_set (dom (cmap_find m))"
  using sorted_list_of_set.idem_if_sorted_distinct [of "map fst m"]
  by (simp add: cmap_ok_def cmap_find_map_of dom_map_of_conv_image_fst)

lemma cmap_in: "cmap_ok m \<Longrightarrow> (k, v) \<in> set m \<longleftrightarrow> cmap_find m k = Some v"
  by (simp add: cmap_ok_def cmap_find_def)

end
