(* ===== verification/Dag.thy ===== *)
theory Dag
  imports Cxx_Map
begin

text \<open>
  The workload graphs of the client (\<^verbatim>\<open>matrix/src/util.cpp\<close>): bag of tasks, fan-out tree, fan-in
  tree and pipelines, each an adjacency list from a task number to its children, and the in-degree
  and parent tables computed from it. \<open>long\<close> arithmetic is unbounded here; the largest
  intermediate value is at most \<open>numTask * dagArg\<close>. A \<open>for\<close> loop over a range is a fold over
  that range.
\<close>

type_synonym adj_list = "(int, int list) cmap"
type_synonym in_degree = "(int, int) cmap"

section \<open>Generators\<close>

definition gen_bot_adjlist :: "adj_list \<Rightarrow> int \<Rightarrow> adj_list" where
  "gen_bot_adjlist dag numTask = fold (\<lambda>i. cmap_insert i []) [0..numTask - 1] dag"

text \<open>The inner loop of the fan-out generator: \<open>break\<close> at the first child beyond the end.\<close>

definition fanout_children :: "int \<Rightarrow> int \<Rightarrow> int \<Rightarrow> int list" where
  "fanout_children dagArg numTask i =
     takeWhile (\<lambda>next. next < numTask) (map (\<lambda>j. i * dagArg + j) [1..dagArg])"

definition gen_fanout_adjlist :: "adj_list \<Rightarrow> int \<Rightarrow> int \<Rightarrow> adj_list" where
  "gen_fanout_adjlist dag dagArg numTask =
     fold (\<lambda>i. cmap_insert i (fanout_children dagArg numTask i)) [0..numTask - 1] dag"

text \<open>The fan-in generator turns the fan-out tree around; \<open>find(i)\<close> always succeeds, since the
  temporary list has every task number as a key.\<close>

definition gen_fanin_adjlist :: "adj_list \<Rightarrow> int \<Rightarrow> int \<Rightarrow> adj_list" where
  "gen_fanin_adjlist dag dagArg numTask =
     (let tmp = gen_fanout_adjlist [] dagArg numTask;
          body = (\<lambda>i. fold (\<lambda>c. cmap_insert (numTask - 1 - c) [numTask - 1 - i])
                       (rev (case cmap_find tmp i of None \<Rightarrow> [] | Some cs \<Rightarrow> cs)))
      in cmap_insert (numTask - 1) [] (fold body [0..numTask - 1] dag))"

definition pipeline_children :: "int \<Rightarrow> int \<Rightarrow> int \<Rightarrow> int list" where
  "pipeline_children dagArg numTask index =
     (if (index + 1) smod dagArg \<noteq> 0 \<and> index + 1 < numTask then [index + 1] else [])"

definition gen_pipeline_adjlist :: "adj_list \<Rightarrow> int \<Rightarrow> int \<Rightarrow> adj_list res" where
  "gen_pipeline_adjlist dag dagArg numTask =
     (if dagArg = 0 then Inl Div_By_Zero
      else
        (let numPipe = numTask sdiv dagArg;
             add = (\<lambda>index. cmap_insert index (pipeline_children dagArg numTask index));
             d1 = fold (\<lambda>i. fold (\<lambda>j. add (i * dagArg + j)) [0..dagArg - 1]) [0..numPipe - 1] dag
         in Inr (fold add [numPipe * dagArg..numTask - 1] d1)))"

definition gen_dag_adjlist :: "adj_list \<Rightarrow> string \<Rightarrow> int \<Rightarrow> int \<Rightarrow> adj_list res" where
  "gen_dag_adjlist dag dagType dagArg numTask =
     (if dagType = ''BOT'' then Inr (gen_bot_adjlist dag numTask)
      else if dagType = ''FanOut'' then Inr (gen_fanout_adjlist dag dagArg numTask)
      else if dagType = ''FanIn'' then Inr (gen_fanin_adjlist dag dagArg numTask)
      else if dagType = ''Pipeline'' then gen_pipeline_adjlist dag dagArg numTask
      else Inr dag)"

section \<open>Tables\<close>

definition incr_at :: "int \<Rightarrow> in_degree \<Rightarrow> in_degree" where
  "incr_at k d = cmap_set k ((case cmap_find d k of None \<Rightarrow> 0 | Some n \<Rightarrow> n) + 1) d"

definition gen_dag_indegree :: "adj_list \<Rightarrow> in_degree \<Rightarrow> in_degree" where
  "gen_dag_indegree dag deg =
     fold (\<lambda>(index, existList). fold incr_at existList) dag
       (fold (\<lambda>i. cmap_set i 0) [0..int (length dag) - 1] deg)"

definition push_parent :: "int \<Rightarrow> int \<Rightarrow> adj_list \<Rightarrow> adj_list res" where
  "push_parent index c par =
     (case cmap_find par c of None \<Rightarrow> Inl Undefined | Some ps \<Rightarrow> Inr (cmap_set c (ps @ [index]) par))"

fun push_parents :: "int \<Rightarrow> int list \<Rightarrow> adj_list \<Rightarrow> adj_list res" where
  "push_parents index [] par = Inr par"
| "push_parents index (c # cs) par = bind_res (push_parent index c par) (push_parents index cs)"

fun add_parents :: "adj_list \<Rightarrow> adj_list \<Rightarrow> adj_list res" where
  "add_parents [] par = Inr par"
| "add_parents ((index, existList) # dag) par =
     bind_res (push_parents index existList par) (add_parents dag)"

definition gen_dag_parents :: "adj_list \<Rightarrow> adj_list \<Rightarrow> adj_list res" where
  "gen_dag_parents dag par =
     add_parents dag (fold (\<lambda>i. cmap_insert i []) [0..int (length dag) - 1] par)"

section \<open>Well-formed graphs\<close>

text \<open>A graph on the tasks \<open>0 .. n-1\<close> whose edges go from a smaller to a larger number; it is
  therefore acyclic, and the numbering is a topological order.\<close>

definition children_of :: "adj_list \<Rightarrow> int \<Rightarrow> int list" where
  "children_of dag i = (case cmap_find dag i of None \<Rightarrow> [] | Some cs \<Rightarrow> cs)"

definition dag_wf :: "int \<Rightarrow> adj_list \<Rightarrow> bool" where
  "dag_wf n dag \<longleftrightarrow> map fst dag = [0..n - 1]
     \<and> list_all (\<lambda>(i, cs). distinct cs \<and> list_all (\<lambda>c. i < c \<and> c < n) cs) dag"

lemma fold_ins_pairs: "fold (\<lambda>i. cmap_insert i (f i)) ks m = fold (\<lambda>(k, v). cmap_insert k v) (map (\<lambda>i. (i, f i)) ks) m"
  by (induction ks arbitrary: m) simp_all

lemma map_of_graph: "map_of (map (\<lambda>i. (i, f i)) ks) k = (if k \<in> set ks then Some (f k) else None)"
  by (induction ks) auto

lemma sorted_list_of_upto: "sorted_list_of_set {0..n - 1::int} = [0..n - 1]"
  by (metis set_upto sorted_list_of_set.idem_if_sorted_distinct sorted_upto distinct_upto)

text \<open>How to show that a built map is a well-formed graph: describe its entries.\<close>

lemma dag_wfI:
  assumes "cmap_ok dag" and "\<And>i. cmap_find dag i = (if 0 \<le> i \<and> i < n then Some (f i) else None)"
    and "\<And>i. 0 \<le> i \<Longrightarrow> i < n \<Longrightarrow> distinct (f i) \<and> (\<forall>c \<in> set (f i). i < c \<and> c < n)"
  shows "dag_wf n dag"
proof -
  have "dom (cmap_find dag) = {0..n - 1}"
    using assms(2) by (auto simp: dom_def)
  with cmap_keys [OF assms(1)] have "map fst dag = [0..n - 1]"
    by (simp add: sorted_list_of_upto)
  moreover have "distinct cs \<and> (\<forall>c \<in> set cs. i < c \<and> c < n)" if "(i, cs) \<in> set dag" for i cs
  proof -
    from that have "(if 0 \<le> i \<and> i < n then Some (f i) else None) = Some cs"
      by (simp add: cmap_in [OF assms(1)] assms(2))
    then have i: "0 \<le> i" "i < n" and cs: "cs = f i" by (simp_all split: if_splits)
    show ?thesis unfolding cs by (rule assms(3) [OF i])
  qed
  ultimately show ?thesis
    by (auto simp: dag_wf_def list_all_iff)
qed

lemma bot_wf: "dag_wf n (gen_bot_adjlist [] n)"
proof (rule dag_wfI [where f = "\<lambda>_. []"])
  show "cmap_ok (gen_bot_adjlist [] n)"
    by (simp add: gen_bot_adjlist_def fold_ins_pairs cm.invar_fold_ins cm.invar_empty)
qed (auto simp: gen_bot_adjlist_def fold_ins_pairs cm.find_build map_of_graph)

lemma fanout_find:
  "cmap_find (gen_fanout_adjlist [] d n) i = (if 0 \<le> i \<and> i < n then Some (fanout_children d n i) else None)"
  by (auto simp: gen_fanout_adjlist_def fold_ins_pairs cm.find_build map_of_graph)

lemma fanout_children_set:
  "set (fanout_children d n i) = {c. i * d + 1 \<le> c \<and> c \<le> i * d + d \<and> c < n}"
proof -
  have "takeWhile (\<lambda>x. x < n) (map (\<lambda>j. i * d + j) [1..d]) = filter (\<lambda>x. x < n) (map (\<lambda>j. i * d + j) [1..d])"
  proof (rule takeWhile_eq_filter)
    fix x
    assume x: "x \<in> set (dropWhile (\<lambda>x. x < n) (map (\<lambda>j. i * d + j) [1..d]))"
    let ?l = "map (\<lambda>j. i * d + j) [1..d]"
    have "sorted ?l" by (simp add: sorted_map)
    then have s: "sorted (dropWhile (\<lambda>x. x < n) ?l)" by (rule sorted_dropWhile)
    from x have ne: "dropWhile (\<lambda>x. x < n) ?l \<noteq> []"
      by (metis length_greater_0_conv length_pos_if_in_set)
    then have "\<not> hd (dropWhile (\<lambda>x. x < n) ?l) < n" by (rule hd_dropWhile)
    moreover have "hd (dropWhile (\<lambda>x. x < n) ?l) \<le> x"
      using s x ne by (cases "dropWhile (\<lambda>x. x < n) ?l") auto
    ultimately show "\<not> x < n" by simp
  qed
  then show ?thesis by (auto simp: fanout_children_def)
qed

lemma fanout_children_distinct: "distinct (fanout_children d n i)"
  unfolding fanout_children_def by (rule distinct_takeWhile) (simp add: distinct_map inj_on_def)

lemma fanout_child_gt: "0 \<le> i \<Longrightarrow> 1 \<le> d \<Longrightarrow> c \<in> set (fanout_children d n i) \<Longrightarrow> i < c \<and> c < n"
proof -
  assume "0 \<le> i" "1 \<le> d" "c \<in> set (fanout_children d n i)"
  then have "i * d + 1 \<le> c" "c < n"
    by (auto simp: fanout_children_set)
  moreover have "i \<le> i * d" using \<open>0 \<le> i\<close> \<open>1 \<le> d\<close> by (simp add: mult_le_cancel_left1)
  ultimately show ?thesis by simp
qed

lemma fanout_wf: "1 \<le> d \<Longrightarrow> dag_wf n (gen_fanout_adjlist [] d n)"
proof (rule dag_wfI [where f = "fanout_children d n"])
  show "cmap_ok (gen_fanout_adjlist [] d n)"
    by (simp add: gen_fanout_adjlist_def fold_ins_pairs cm.invar_fold_ins cm.invar_empty)
qed (auto simp: fanout_find fanout_children_distinct dest: fanout_child_gt)

lemma fanout_child_iff:
  "1 \<le> d \<Longrightarrow> c \<in> set (fanout_children d n i) \<longleftrightarrow> c < n \<and> (c - 1) div d = i"
proof
  assume d: "1 \<le> d" and "c \<in> set (fanout_children d n i)"
  then have c: "i * d + 1 \<le> c" "c \<le> i * d + d" "c < n"
    by (auto simp: fanout_children_set)
  have eq: "c - 1 = (c - 1 - i * d) + i * d" by simp
  have "(c - 1) div d = i + (c - 1 - i * d) div d"
    by (subst eq, rule div_mult_self1) (use d in simp)
  moreover have "(c - 1 - i * d) div d = 0"
    using c by (intro div_pos_pos_trivial) auto
  ultimately show "c < n \<and> (c - 1) div d = i"
    using c by simp
next
  assume d: "1 \<le> d" and c: "c < n \<and> (c - 1) div d = i"
  then have "i * d + (c - 1) mod d = c - 1"
    using div_mult_mod_eq [of "c - 1" d] by simp
  moreover have "0 \<le> (c - 1) mod d" "(c - 1) mod d < d"
    using d by simp_all
  ultimately show "c \<in> set (fanout_children d n i)"
    using c by (simp add: fanout_children_set)
qed

section \<open>Fan-in and pipelines\<close>

lemma map_of_functional:
  "(\<And>v. (k, v) \<in> set kvs \<Longrightarrow> v = w) \<Longrightarrow> k \<in> fst ` set kvs \<Longrightarrow> map_of kvs k = Some w"
  by (metis map_of_SomeD map_of_eq_None_iff option.exhaust)

definition fanin_entries :: "int \<Rightarrow> int \<Rightarrow> (int \<times> int list) list" where
  "fanin_entries d n =
     concat (map (\<lambda>i. map (\<lambda>c. (n - 1 - c, [n - 1 - i])) (rev (fanout_children d n i))) [0..n - 1])
     @ [(n - 1, [])]"

lemma fold_concat_map: "fold (\<lambda>(k, v). g k v) (concat (map h is)) m = fold (\<lambda>i. fold (\<lambda>(k, v). g k v) (h i)) is m"
  by (induction "is" arbitrary: m) simp_all

lemma fanin_build: "gen_fanin_adjlist [] d n = fold (\<lambda>(k, v). cmap_insert k v) (fanin_entries d n) []"
proof -
  have body: "fold (\<lambda>i. fold (\<lambda>c. cmap_insert (n - 1 - c) [n - 1 - i])
      (rev (case cmap_find (gen_fanout_adjlist [] d n) i of None \<Rightarrow> [] | Some cs \<Rightarrow> cs))) is m
    = fold (\<lambda>i. fold (\<lambda>(k, v). cmap_insert k v)
        (map (\<lambda>c. (n - 1 - c, [n - 1 - i])) (rev (fanout_children d n i)))) is m"
    if "set is \<subseteq> {0..n - 1}" for "is" m
    using that by (induction "is" arbitrary: m) (simp_all add: fanout_find fold_map comp_def)
  show ?thesis
    unfolding gen_fanin_adjlist_def fanin_entries_def Let_def
    by (simp add: fold_concat_map body)
qed

definition fanin_child :: "int \<Rightarrow> int \<Rightarrow> int \<Rightarrow> int list" where
  "fanin_child d n k = (if k = n - 1 then [] else [n - 1 - (n - 2 - k) div d])"

lemma fanin_find:
  assumes "1 \<le> d" and "1 \<le> n"
  shows "cmap_find (gen_fanin_adjlist [] d n) k = (if 0 \<le> k \<and> k < n then Some (fanin_child d n k) else None)"
proof -
  let ?E = "fanin_entries d n"
  have ent: "(k, v) \<in> set ?E \<longleftrightarrow> (k = n - 1 \<and> v = []) \<or>
      (\<exists>i. 0 \<le> i \<and> i < n \<and> n - 1 - k \<in> set (fanout_children d n i) \<and> v = [n - 1 - i])" for v
  proof -
    have e1: "(k, v) \<in> set ?E \<longleftrightarrow> (k = n - 1 \<and> v = []) \<or> (\<exists>i \<in> {0..n - 1}.
        \<exists>c \<in> set (fanout_children d n i). k = n - 1 - c \<and> v = [n - 1 - i])"
      by (auto simp: fanin_entries_def)
    have e2: "(\<exists>c \<in> set (fanout_children d n i). k = n - 1 - c \<and> v = w) \<longleftrightarrow>
        n - 1 - k \<in> set (fanout_children d n i) \<and> v = w" for i and w :: "int list"
      by (auto intro!: bexI [of _ "n - 1 - k"])
    show ?thesis
      unfolding e1 e2
      unfolding Bex_def atLeastAtMost_iff zle_diff1_eq conj_assoc by (rule refl)
  qed
  have shape: "v = fanin_child d n k" if kv: "(k, v) \<in> set ?E" for v
  proof -
    from kv have "(k = n - 1 \<and> v = []) \<or>
      (\<exists>i. 0 \<le> i \<and> i < n \<and> n - 1 - k \<in> set (fanout_children d n i) \<and> v = [n - 1 - i])"
      by (rule ent [THEN iffD1])
    then consider "k = n - 1" "v = []"
      | i where "0 \<le> i" "n - 1 - k \<in> set (fanout_children d n i)" "v = [n - 1 - i]"
      by blast
    then show ?thesis
    proof cases
      case 2
      then have "i < n - 1 - k" "(n - 2 - k) div d = i"
        using assms fanout_child_gt [of i d "n - 1 - k" n]
        by (simp_all add: fanout_child_iff algebra_simps)
      with 2 show ?thesis by (simp add: fanin_child_def)
    qed (simp add: fanin_child_def)
  qed
  have keys: "k \<in> fst ` set ?E \<longleftrightarrow> 0 \<le> k \<and> k < n"
  proof
    assume "k \<in> fst ` set ?E"
    then obtain v where "(k, v) \<in> set ?E" by auto
    then consider "k = n - 1" | i where "0 \<le> i" "n - 1 - k \<in> set (fanout_children d n i)"
      using ent [of v] by blast
    then show "0 \<le> k \<and> k < n"
    proof cases
      case 2
      with fanout_child_gt [of i d "n - 1 - k" n] assms(1) show ?thesis by simp
    qed (use assms in simp)
  next
    assume k: "0 \<le> k \<and> k < n"
    show "k \<in> fst ` set ?E"
    proof (cases "k = n - 1")
      case False
      let ?i = "(n - 2 - k) div d"
      have "0 \<le> ?i" "?i \<le> n - 2 - k"
        using k False assms(1) zdiv_mono2 [of "n - 2 - k" 1 d]
        by (simp_all add: pos_imp_zdiv_nonneg_iff)
      moreover have "n - 1 - k \<in> set (fanout_children d n ?i)"
        using k assms(1) by (simp add: fanout_child_iff algebra_simps)
      ultimately have "(k, [n - 1 - ?i]) \<in> set ?E"
        using k by (subst ent) (intro disjI2 exI [of _ ?i], simp)
      then show ?thesis by force
    next
      case True
      then have "(k, []) \<in> set ?E" by (simp add: fanin_entries_def)
      then show ?thesis by force
    qed
  qed
  show ?thesis
    unfolding fanin_build cm.find_build
    using shape keys map_of_functional [of k ?E "fanin_child d n k"]
    by (auto simp: map_of_eq_None_iff)
qed

lemma fanin_wf: "1 \<le> d \<Longrightarrow> 1 \<le> n \<Longrightarrow> dag_wf n (gen_fanin_adjlist [] d n)"
proof (rule dag_wfI [where f = "fanin_child d n"])
  show "cmap_ok (gen_fanin_adjlist [] d n)"
    by (simp add: fanin_build cm.invar_fold_ins cm.invar_empty)
  fix i
  assume d: "1 \<le> d" and i: "0 \<le> i" "i < n"
  have "0 \<le> (n - 2 - i) div d \<and> (n - 2 - i) div d \<le> n - 2 - i" if "i \<noteq> n - 1"
    using that d i zdiv_mono2 [of "n - 2 - i" 1 d] by (simp add: pos_imp_zdiv_nonneg_iff)
  then show "distinct (fanin_child d n i) \<and> (\<forall>c \<in> set (fanin_child d n i). i < c \<and> c < n)"
    by (auto simp: fanin_child_def)
qed (simp add: fanin_find)

lemma fold_fold: "fold (\<lambda>i. fold (g i) (h i)) is m = fold (\<lambda>(i, j). g i j) (concat (map (\<lambda>i. map (Pair i) (h i)) is)) m"
  by (induction "is" arbitrary: m) (simp_all add: fold_map comp_def)

lemma pipeline_build:
  "1 \<le> d \<Longrightarrow> gen_pipeline_adjlist [] d n =
     Inr (fold (\<lambda>i. cmap_insert i (pipeline_children d n i))
       (concat (map (\<lambda>i. map (\<lambda>j. i * d + j) [0..d - 1]) [0..n sdiv d - 1]) @ [n sdiv d * d..n - 1]) [])"
  unfolding gen_pipeline_adjlist_def Let_def
proof -
  assume d: "1 \<le> d"
  have "fold (\<lambda>i. fold (\<lambda>j. cmap_insert (i * d + j) (pipeline_children d n (i * d + j))) [0..d - 1]) is m
      = fold (\<lambda>i. cmap_insert i (pipeline_children d n i))
          (concat (map (\<lambda>i. map (\<lambda>j. i * d + j) [0..d - 1]) is)) m" for "is" m
    by (induction "is" arbitrary: m) (simp_all add: fold_map comp_def)
  with d show "(if d = 0 then Inl Div_By_Zero
     else Inr (fold (\<lambda>i. cmap_insert i (pipeline_children d n i)) [n sdiv d * d..n - 1]
       (fold (\<lambda>i. fold (\<lambda>j. cmap_insert (i * d + j) (pipeline_children d n (i * d + j))) [0..d - 1])
          [0..n sdiv d - 1] []))) =
    Inr (fold (\<lambda>i. cmap_insert i (pipeline_children d n i))
       (concat (map (\<lambda>i. map (\<lambda>j. i * d + j) [0..d - 1]) [0..n sdiv d - 1]) @ [n sdiv d * d..n - 1]) [])"
    by simp
qed

lemma pipeline_indices:
  assumes "1 \<le> d" and "0 \<le> n"
  shows "set (concat (map (\<lambda>i. map (\<lambda>j. i * d + j) [0..d - 1]) [0..n sdiv d - 1])
           @ [n sdiv d * d..n - 1]) = {0..n - 1}"
proof -
  have q: "n sdiv d = n div d"
    using assms by (cases "n = 0") (simp_all add: signed_divide_int_def)
  have mem: "x \<in> (\<Union>i \<in> {0..n div d - 1}. (\<lambda>j. i * d + j) ` {0..d - 1}) \<longleftrightarrow> 0 \<le> x \<and> x < n div d * d" for x
  proof
    assume "x \<in> (\<Union>i \<in> {0..n div d - 1}. (\<lambda>j. i * d + j) ` {0..d - 1})"
    then obtain i where x: "i * d \<le> x" "x \<le> d - 1 + i * d" "0 \<le> i" "i + 1 \<le> n div d"
      by auto
    then have "(i + 1) * d \<le> n div d * d" using assms(1) by (intro mult_right_mono) auto
    then have "i * d + d \<le> n div d * d" by (simp add: distrib_right)
    moreover have "0 \<le> i * d" using x assms(1) by simp
    ultimately show "0 \<le> x \<and> x < n div d * d" using x by linarith
  next
    assume x: "0 \<le> x \<and> x < n div d * d"
    have "x div d * d \<le> x" using assms(1) div_mult_mod_eq [of x d] pos_mod_sign [of d x] by linarith
    then have "x div d < n div d"
      using x assms(1) mult_right_mono [of "n div d" "x div d" d] by linarith
    moreover have "x = x div d * d + x mod d" by simp
    moreover have "0 \<le> x div d" "0 \<le> x mod d" "x mod d \<le> d - 1"
      using x assms(1) by (simp_all add: pos_imp_zdiv_nonneg_iff zle_diff1_eq)
    ultimately show "x \<in> (\<Union>i \<in> {0..n div d - 1}. (\<lambda>j. i * d + j) ` {0..d - 1})"
      by (intro UN_I [of "x div d"] image_eqI [of _ _ "x mod d"]) auto
  qed
  then have u: "(\<Union>i \<in> {0..n div d - 1}. (\<lambda>j. i * d + j) ` {0..d - 1}) = {0..<n div d * d}"
    by (intro set_eqI) (simp only: mem atLeastLessThan_iff)
  have "0 \<le> n div d * d"
    using assms by (simp add: pos_imp_zdiv_nonneg_iff)
  moreover have "n div d * d \<le> n"
    using assms div_mult_mod_eq [of n d] pos_mod_sign [of d n] by linarith
  ultimately show ?thesis
    unfolding q set_append set_concat set_map set_upto image_image u by auto
qed

lemma pipeline_wf:
  assumes "1 \<le> d" and "0 \<le> n"
  shows "\<exists>dag. gen_pipeline_adjlist [] d n = Inr dag \<and> dag_wf n dag
    \<and> (\<forall>i. cmap_find dag i = (if 0 \<le> i \<and> i < n then Some (pipeline_children d n i) else None))"
proof -
  let ?l = "concat (map (\<lambda>i. map (\<lambda>j. i * d + j) [0..d - 1]) [0..n sdiv d - 1]) @ [n sdiv d * d..n - 1]"
  let ?dag = "fold (\<lambda>i. cmap_insert i (pipeline_children d n i)) ?l []"
  have f: "cmap_find ?dag i = (if 0 \<le> i \<and> i < n then Some (pipeline_children d n i) else None)" for i
    unfolding fold_ins_pairs cm.find_build map_of_graph pipeline_indices [OF assms] by simp
  moreover have "dag_wf n ?dag"
  proof (rule dag_wfI [OF _ f])
    show "cmap_ok ?dag"
      unfolding fold_ins_pairs by (intro cm.invar_fold_ins cm.invar_empty)
  qed (simp add: pipeline_children_def)
  ultimately show ?thesis
    using pipeline_build [OF assms(1), of n] by blast
qed

section \<open>The tables\<close>

lemma dag_wf_ok: "dag_wf n dag \<Longrightarrow> cmap_ok dag"
  by (simp add: dag_wf_def cmap_ok_def)

lemma dag_wf_children:
  assumes "dag_wf n dag"
  shows "children_of dag i = (if 0 \<le> i \<and> i < n then the (cmap_find dag i) else [])"
    and "0 \<le> i \<Longrightarrow> i < n \<Longrightarrow> (i, children_of dag i) \<in> set dag"
    and "distinct (children_of dag i)"
    and "c \<in> set (children_of dag i) \<Longrightarrow> 0 \<le> i \<and> i < c \<and> c < n"
proof -
  have keys: "fst ` set dag = {0..n - 1}"
    using assms by (metis dag_wf_def set_map set_upto)
  have none: "cmap_find dag i = None \<longleftrightarrow> \<not> (0 \<le> i \<and> i < n)"
    by (auto simp: cmap_find_def map_of_eq_None_iff keys)
  then show "children_of dag i = (if 0 \<le> i \<and> i < n then the (cmap_find dag i) else [])"
    by (auto simp: children_of_def split: option.splits)
  have mem: "(i, children_of dag i) \<in> set dag" if "0 \<le> i" "i < n"
    using that none by (auto simp: cmap_in [OF dag_wf_ok [OF assms]] children_of_def split: option.splits)
  then show "0 \<le> i \<Longrightarrow> i < n \<Longrightarrow> (i, children_of dag i) \<in> set dag" .
  have "children_of dag i = []" if "\<not> (0 \<le> i \<and> i < n)"
    using that none by (simp add: children_of_def)
  moreover have "distinct (children_of dag i) \<and> (\<forall>c \<in> set (children_of dag i). i < c \<and> c < n)"
    if "0 \<le> i" "i < n"
    using mem [OF that] assms by (auto simp: dag_wf_def list_all_iff)
  ultimately have "distinct (children_of dag i) \<and> (\<forall>c \<in> set (children_of dag i). 0 \<le> i \<and> i < c \<and> c < n)"
    by (cases "0 \<le> i \<and> i < n") simp_all
  then show "distinct (children_of dag i)"
    and "c \<in> set (children_of dag i) \<Longrightarrow> 0 \<le> i \<and> i < c \<and> c < n"
    by blast+
qed

lemma dag_wf_entries: "dag_wf n dag \<Longrightarrow> dag = map (\<lambda>i. (i, children_of dag i)) [0..n - 1]"
proof -
  assume wf: "dag_wf n dag"
  have "(fst e, children_of dag (fst e)) = e" if "e \<in> set dag" for e
    using that cmap_in [OF dag_wf_ok [OF wf], of "fst e" "snd e"] by (simp add: children_of_def)
  then have m: "map (\<lambda>i. (i, children_of dag i)) (map fst dag) = dag"
    unfolding map_map by (intro map_idI) simp
  have k: "map fst dag = [0..n - 1]" using wf by (simp add: dag_wf_def)
  show ?thesis using m unfolding k by (rule sym)
qed

lemma dag_wf_length: "dag_wf n dag \<Longrightarrow> 0 \<le> n \<Longrightarrow> int (length dag) = n"
proof -
  assume "dag_wf n dag" and "0 \<le> n"
  then have "length (map fst dag) = length [0..n - 1]" by (simp only: dag_wf_def)
  with \<open>0 \<le> n\<close> show ?thesis by simp
qed

lemma incr_at_find: "cmap_ok d \<Longrightarrow> cmap_find (incr_at k d) j =
    (if j = k then Some ((case cmap_find d k of None \<Rightarrow> 0 | Some n \<Rightarrow> n) + 1) else cmap_find d j)"
  by (simp add: incr_at_def cm.find_upd)

lemma incr_at_ok: "cmap_ok d \<Longrightarrow> cmap_ok (incr_at k d)"
  by (simp add: incr_at_def cm.invar_upd)

lemma fold_incr_find: "cmap_ok d \<Longrightarrow> cmap_find d j = Some m \<Longrightarrow>
    cmap_find (fold incr_at cs d) j = Some (m + int (count_list cs j))"
  by (induction cs arbitrary: d m) (auto simp: incr_at_find incr_at_ok)

lemma fold_snd: "fold (\<lambda>(index, existList). fold g existList) dag d = fold g (concat (map snd dag)) d"
  by (induction dag arbitrary: d) auto

text \<open>\<open>parents_of dag j\<close>: the tasks with an edge to \<open>j\<close>, in ascending order.\<close>

definition parents_of :: "adj_list \<Rightarrow> int \<Rightarrow> int list" where
  "parents_of dag j = concat (map (\<lambda>(i, cs). replicate (count_list cs j) i) dag)"

lemma length_parents_of: "length (parents_of dag j) = count_list (concat (map snd dag)) j"
  by (induction dag) (auto simp: parents_of_def)

lemma count_list_distinct: "distinct xs \<Longrightarrow> count_list xs x = (if x \<in> set xs then 1 else 0)"
  by (induction xs) auto

lemma parents_of_wf:
  assumes "dag_wf n dag"
  shows "parents_of dag j = filter (\<lambda>i. j \<in> set (children_of dag i)) [0..n - 1]"
proof -
  have f: "concat (map (\<lambda>i. if P i then [i] else []) xs) = filter P xs" for P and xs :: "int list"
    by (induction xs) auto
  have "parents_of dag j = parents_of (map (\<lambda>i. (i, children_of dag i)) [0..n - 1]) j"
    by (rule arg_cong [OF dag_wf_entries [OF assms]])
  also have "\<dots> = concat (map (\<lambda>i. replicate (count_list (children_of dag i) j) i) [0..n - 1])"
    by (simp add: parents_of_def comp_def)
  also have "\<dots> = concat (map (\<lambda>i. if j \<in> set (children_of dag i) then [i] else []) [0..n - 1])"
    by (intro arg_cong [where f = concat] map_cong refl)
      (simp add: count_list_distinct dag_wf_children(3) [OF assms])
  finally show ?thesis by (simp only: f)
qed

lemma indegree_find:
  assumes "dag_wf n dag" and "0 \<le> j" and "j < n"
  shows "cmap_find (gen_dag_indegree dag []) j = Some (int (length (parents_of dag j)))"
proof -
  let ?d0 = "fold (\<lambda>i. cmap_set i (0::int)) [0..int (length dag) - 1] []"
  have "cmap_ok ?d0"
    by (rule cm.invar_fold_upd [OF cm.invar_empty])
  moreover have "cmap_find ?d0 j = Some 0"
    using assms dag_wf_length [OF assms(1)] by (simp add: cm.find_fold_upd [OF cm.invar_empty])
  ultimately show ?thesis
    unfolding gen_dag_indegree_def fold_snd length_parents_of
    using fold_incr_find [of ?d0 j 0] by simp
qed

lemma push_parents_find:
  "cmap_ok par \<Longrightarrow> \<forall>c \<in> set cs. cmap_find par c \<noteq> None \<Longrightarrow>
     \<exists>par'. push_parents i cs par = Inr par' \<and> cmap_ok par' \<and>
       (\<forall>j. cmap_find par' j = map_option (\<lambda>ps. ps @ replicate (count_list cs j) i) (cmap_find par j))"
proof (induction cs arbitrary: par)
  case Nil
  then show ?case by (simp add: option.map_ident)
next
  case (Cons c cs)
  then obtain ps where ps: "cmap_find par c = Some ps" by auto
  let ?p = "cmap_set c (ps @ [i]) par"
  have f: "cmap_find ?p j = (if j = c then Some (ps @ [i]) else cmap_find par j)" for j
    by (rule cm.find_upd [OF Cons.prems(1)])
  have "cmap_ok ?p" by (rule cm.invar_upd [OF Cons.prems(1)])
  moreover have "\<forall>d \<in> set cs. cmap_find ?p d \<noteq> None"
    using Cons.prems(2) by (simp add: f)
  ultimately obtain par' where "push_parents i cs ?p = Inr par'" "cmap_ok par'"
    "\<forall>j. cmap_find par' j = map_option (\<lambda>ps. ps @ replicate (count_list cs j) i) (cmap_find ?p j)"
    using Cons.IH by blast
  moreover have "push_parents i (c # cs) par = push_parents i cs ?p"
    by (simp add: push_parent_def ps)
  ultimately show ?case
    using ps by (auto simp: f replicate_app_Cons_same)
qed

lemma add_parents_find:
  "cmap_ok par \<Longrightarrow> \<forall>(i, cs) \<in> set dag. \<forall>c \<in> set cs. cmap_find par c \<noteq> None \<Longrightarrow>
     \<exists>par'. add_parents dag par = Inr par' \<and>
       (\<forall>j. cmap_find par' j = map_option (\<lambda>ps. ps @ parents_of dag j) (cmap_find par j))"
proof (induction dag arbitrary: par)
  case Nil
  then show ?case by (simp add: parents_of_def option.map_ident)
next
  case (Cons e dag)
  obtain i cs where e: "e = (i, cs)" by (cases e)
  obtain p1 where p1: "push_parents i cs par = Inr p1" "cmap_ok p1"
    "\<And>j. cmap_find p1 j = map_option (\<lambda>ps. ps @ replicate (count_list cs j) i) (cmap_find par j)"
    using push_parents_find [OF Cons.prems(1), of cs i] Cons.prems(2) e by auto
  then have "\<forall>(i, cs) \<in> set dag. \<forall>c \<in> set cs. cmap_find p1 c \<noteq> None"
    using Cons.prems(2) by auto
  from Cons.IH [OF p1(2) this] obtain par' where "add_parents dag p1 = Inr par'"
    "\<forall>j. cmap_find par' j = map_option (\<lambda>ps. ps @ parents_of dag j) (cmap_find p1 j)"
    by blast
  then show ?case
    using p1 e by (auto simp: parents_of_def option.map_comp comp_def)
qed

lemma parents_find:
  assumes "dag_wf n dag" and "0 \<le> n"
  shows "\<exists>par. gen_dag_parents dag [] = Inr par
    \<and> (\<forall>j. 0 \<le> j \<longrightarrow> j < n \<longrightarrow> cmap_find par j = Some (parents_of dag j))"
proof -
  let ?p = "fold (\<lambda>i. cmap_insert i []) [0..int (length dag) - 1] []"
  have "cmap_ok ?p"
    unfolding fold_ins_pairs by (intro cm.invar_fold_ins cm.invar_empty)
  moreover have f: "cmap_find ?p j = (if 0 \<le> j \<and> j < n then Some [] else None)" for j
    unfolding fold_ins_pairs cm.find_build map_of_graph using dag_wf_length [OF assms] by simp
  moreover have "\<forall>(i, cs) \<in> set dag. \<forall>c \<in> set cs. cmap_find ?p c \<noteq> None"
  proof -
    have "0 \<le> c \<and> c < n" if "(i, cs) \<in> set dag" "c \<in> set cs" for i cs c
    proof -
      have "cs = children_of dag i"
        using that(1) cmap_in [OF dag_wf_ok [OF assms(1)]] by (simp add: children_of_def)
      then show ?thesis
        using dag_wf_children(4) [OF assms(1), of c i] that(2) by simp
    qed
    then show ?thesis by (auto simp: f)
  qed
  ultimately obtain par where "add_parents dag ?p = Inr par"
    "\<forall>j. cmap_find par j = map_option (\<lambda>ps. ps @ parents_of dag j) (cmap_find ?p j)"
    using add_parents_find by blast
  then show ?thesis
    by (simp add: gen_dag_parents_def f)
qed

lemma dag_wf_acyclic: "dag_wf n dag \<Longrightarrow> acyclic {(i, c). c \<in> set (children_of dag i)}"
proof -
  assume wf: "dag_wf n dag"
  have "{(i, c). c \<in> set (children_of dag i)} \<subseteq> {(i, c). i < c}"
    using dag_wf_children(4) [OF wf] by auto
  moreover have "acyclic {(i, c::int). i < c}"
    by (rule acyclicI_order [where f = uminus]) auto
  ultimately show ?thesis by (rule acyclic_subset [rotated])
qed

lemma gen_dag_wf:
  assumes "dagType \<in> {''BOT'', ''FanOut'', ''FanIn'', ''Pipeline''}" and "1 \<le> dagArg" and "1 \<le> numTask"
  shows "\<exists>dag. gen_dag_adjlist [] dagType dagArg numTask = Inr dag \<and> dag_wf numTask dag"
  using assms bot_wf [of numTask] fanout_wf [of dagArg numTask] fanin_wf [of dagArg numTask] pipeline_wf [of dagArg numTask]
  by (auto simp: gen_dag_adjlist_def)

section \<open>Properties\<close>







end
