(* ===== verification/Numbers.thy ===== *)
theory Numbers
  imports Prelude
begin

text \<open>
  The two conversion templates of \<^verbatim>\<open>matrix/src/util.h\<close> (\<open>num_to_str\<close>, \<open>str_to_num\<close>) and their
  copies in \<^verbatim>\<open>ZHT/src/ZHTUtil.h\<close>. Both go through a \<open>stringstream\<close>: printing writes the decimal
  digits with a leading minus sign; reading skips white space, takes an optional sign and the
  longest run of digits, and fails, with result 0, when there is no digit or when the number
  does not fit the type.
\<close>

section \<open>Printing\<close>

definition digit_char :: "nat \<Rightarrow> char" where
  "digit_char d = char_of (48 + d)"

fun digits :: "nat \<Rightarrow> string" where
  "digits n = (if n < 10 then [digit_char n] else digits (n div 10) @ [digit_char (n mod 10)])"

declare digits.simps [simp del]

definition num_to_str :: "int \<Rightarrow> string" where
  "num_to_str i = (if i < 0 then CHR ''-'' # digits (nat (- i)) else digits (nat i))"

section \<open>Reading\<close>

definition is_digit :: "char \<Rightarrow> bool" where
  "is_digit c \<longleftrightarrow> 48 \<le> (of_char c :: nat) \<and> (of_char c :: nat) \<le> 57"

definition is_space :: "char \<Rightarrow> bool" where
  "is_space c \<longleftrightarrow> (of_char c :: nat) = 32 \<or> (9 \<le> (of_char c :: nat) \<and> (of_char c :: nat) \<le> 13)"

definition digits_val :: "string \<Rightarrow> nat" where
  "digits_val ds = foldl (\<lambda>n c. 10 * n + (of_char c - 48)) 0 ds"

text \<open>\<open>read_num lo hi s\<close> is \<open>ss >> num ? num : 0\<close> for a signed type with range \<open>lo .. hi\<close>.\<close>

definition read_num :: "int \<Rightarrow> int \<Rightarrow> string \<Rightarrow> int" where
  "read_num lo hi str =
     (let s = dropWhile is_space str;
          neg = (s \<noteq> [] \<and> hd s = CHR ''-'');
          signed = (s \<noteq> [] \<and> (hd s = CHR ''-'' \<or> hd s = CHR ''+''));
          ds = takeWhile is_digit (if signed then tl s else s);
          v = (if neg then - int (digits_val ds) else int (digits_val ds))
      in if ds = [] \<or> v < lo \<or> hi < v then 0 else v)"

definition str_to_num_long :: "string \<Rightarrow> int" where
  "str_to_num_long s = read_num long_min long_max s"

definition str_to_num_int :: "string \<Rightarrow> int" where
  "str_to_num_int s = read_num int_min int_max s"

text \<open>The \<open>bool\<close> instances used by the ZHT packet: printed as 0 or 1; anything but a 0 or a 1
  makes the extraction fail, so it reads as \<open>false\<close>.\<close>

definition bool_to_str :: "bool \<Rightarrow> string" where
  "bool_to_str b = num_to_str (if b then 1 else 0)"

definition str_to_bool :: "string \<Rightarrow> bool" where
  "str_to_bool s \<longleftrightarrow> read_num 0 1 s = 1"

section \<open>Facts\<close>

lemma of_char_digit_char: "d < 10 \<Longrightarrow> (of_char (digit_char d) :: nat) = 48 + d"
  by (simp add: digit_char_def)

lemma is_digit_digit_char: "d < 10 \<Longrightarrow> is_digit (digit_char d)"
  by (simp add: is_digit_def of_char_digit_char)

lemma digits_nonempty [simp]: "digits n \<noteq> []"
  by (subst digits.simps) simp

lemma digits_are_digits: "\<forall>c \<in> set (digits n). is_digit c"
proof (induction n rule: digits.induct)
  case (1 n)
  then show ?case
    by (subst digits.simps) (auto simp: is_digit_digit_char)
qed

lemma digits_val_append: "digits_val (xs @ [c]) = 10 * digits_val xs + (of_char c - 48)"
  by (simp add: digits_val_def)

lemma digits_val_digits: "digits_val (digits n) = n"
proof (induction n rule: digits.induct)
  case (1 n)
  show ?case
  proof (cases "n < 10")
    case True
    then show ?thesis
      by (subst digits.simps) (simp add: digits_val_def of_char_digit_char)
  next
    case False
    with 1 show ?thesis
      by (subst digits.simps) (simp add: digits_val_append of_char_digit_char)
  qed
qed

lemma digit_not_space: "is_digit c \<Longrightarrow> \<not> is_space c"
  by (simp add: is_digit_def is_space_def)

lemma digit_not_sign: "is_digit c \<Longrightarrow> c \<noteq> CHR ''-'' \<and> c \<noteq> CHR ''+''"
  by (auto simp: is_digit_def)

lemma digits_Cons: "\<exists>c cs. digits n = c # cs \<and> is_digit c"
  using digits_nonempty [of n] digits_are_digits [of n] by (cases "digits n") auto

lemma takeWhile_digits: "takeWhile is_digit (digits n) = digits n"
  using digits_are_digits [of n] by simp

lemma read_num_unsigned:
  "read_num lo hi (digits n) = (if int n < lo \<or> hi < int n then 0 else int n)"
proof -
  obtain c cs where c: "digits n = c # cs" "is_digit c"
    using digits_Cons by blast
  have "takeWhile is_digit cs = cs" and v: "digits_val (c # cs) = n"
    using digits_are_digits [of n] digits_val_digits [of n] by (simp_all add: c)
  with c show ?thesis
    by (simp add: read_num_def Let_def digit_not_space digit_not_sign del: takeWhile_eq_all_conv)
qed

lemma read_num_digits:
  "lo \<le> int n \<Longrightarrow> int n \<le> hi \<Longrightarrow> read_num lo hi (digits n) = int n"
  by (simp add: read_num_unsigned)

lemma read_num_minus_digits:
  "lo \<le> - int n \<Longrightarrow> - int n \<le> hi \<Longrightarrow> read_num lo hi (CHR ''-'' # digits n) = - int n"
  by (simp add: read_num_def Let_def is_space_def takeWhile_digits digits_val_digits)

text \<open>Reading back a printed number gives the number, for every value of the type.\<close>

lemma read_num_to_str: "lo \<le> i \<Longrightarrow> i \<le> hi \<Longrightarrow> read_num lo hi (num_to_str i) = i"
  by (simp add: num_to_str_def read_num_digits read_num_minus_digits)

lemma str_to_num_long_num_to_str [simp]: "is_long i \<Longrightarrow> str_to_num_long (num_to_str i) = i"
  by (simp add: str_to_num_long_def is_long_def read_num_to_str)

lemma str_to_num_int_num_to_str [simp]: "is_int i \<Longrightarrow> str_to_num_int (num_to_str i) = i"
  by (simp add: str_to_num_int_def is_int_def read_num_to_str)

lemma str_to_bool_to_str [simp]: "str_to_bool (bool_to_str b) = b"
  by (simp add: str_to_bool_def bool_to_str_def read_num_to_str)

text \<open>A number that does not fit makes the extraction fail, and the template returns 0.\<close>

lemma read_num_overflow: "hi < i \<Longrightarrow> 0 \<le> i \<Longrightarrow> read_num lo hi (num_to_str i) = 0"
  by (simp add: num_to_str_def read_num_unsigned)

lemma num_to_str_nonempty [simp]: "num_to_str i \<noteq> []"
  by (simp add: num_to_str_def)

lemma num_to_str_chars: "c \<in> set (num_to_str i) \<Longrightarrow> is_digit c \<or> c = CHR ''-''"
  using digits_are_digits by (auto simp: num_to_str_def split: if_splits)

lemma num_to_str_inj: "num_to_str i = num_to_str j \<longleftrightarrow> i = j"
proof
  assume eq: "num_to_str i = num_to_str j"
  have "read_num (min i j) (max i j) (num_to_str i) = i"
    by (rule read_num_to_str) auto
  moreover have "read_num (min i j) (max i j) (num_to_str j) = j"
    by (rule read_num_to_str) auto
  ultimately show "i = j" using eq by metis
qed (rule arg_cong)

text \<open>The length of a printed number.\<close>

lemma digits_length: "n < 10 ^ k \<Longrightarrow> 0 < k \<Longrightarrow> length (digits n) \<le> k"
proof (induction n arbitrary: k rule: digits.induct)
  case (1 n)
  show ?case
  proof (cases "n < 10")
    case True
    then show ?thesis using 1(3) by (subst digits.simps) simp
  next
    case False
    with 1(2) have "k \<noteq> 1" by auto
    with 1(3) obtain k' where k: "k = Suc k'" "0 < k'" by (cases k) auto
    have "n div 10 < 10 ^ k'" using 1(2) k(1) by (simp add: div_less_iff_less_mult mult.commute)
    from 1(1) [OF False this k(2)] False k(1) show ?thesis by (subst digits.simps) simp
  qed
qed

lemma num_to_str_length: "\<bar>i\<bar> < 10 ^ k \<Longrightarrow> 0 < k \<Longrightarrow> length (num_to_str i) \<le> Suc k"
proof -
  assume i: "\<bar>i\<bar> < 10 ^ k" and k: "0 < k"
  have "nat \<bar>i\<bar> < 10 ^ k" using i by (simp add: nat_less_iff)
  from digits_length [OF this k] show ?thesis by (auto simp: num_to_str_def)
qed

end
