(* ===== verification/Tokenizer.thy ===== *)
theory Tokenizer
  imports Prelude
begin

text \<open>
  The tokenizers: \<open>tokenize\<close> of \<^verbatim>\<open>matrix/src/util.cpp\<close>, its copy \<open>zht_tokenize\<close> of
  \<^verbatim>\<open>ZHT/src/ZHTUtil.cpp\<close> and the class \<open>StrTokenizer\<close> of \<^verbatim>\<open>ZHT/src/StrTokenizer.cpp\<close>. The
  delimiter argument is a set of characters (\<open>find_first_of\<close>), so the two-character delimiters
  of the message formats act as the single character they repeat. The index loops are
  translated as they are and proved equal to one structural reference, \<open>tokens\<close>.
\<close>

section \<open>string::find_first_of and friends\<close>

definition find_first_of :: "string \<Rightarrow> string \<Rightarrow> nat \<Rightarrow> nat option" where
  "find_first_of s ds p =
     (let r = takeWhile (\<lambda>c. c \<notin> set ds) (drop p s)
      in if p + length r < length s then Some (p + length r) else None)"

definition find_first_not_of :: "string \<Rightarrow> string \<Rightarrow> nat \<Rightarrow> nat option" where
  "find_first_not_of s ds p =
     (let r = takeWhile (\<lambda>c. c \<in> set ds) (drop p s)
      in if p + length r < length s then Some (p + length r) else None)"

definition substr :: "string \<Rightarrow> nat \<Rightarrow> nat \<Rightarrow> string" where
  "substr s p n = take n (drop p s)"

lemma find_first_of_bounds: "find_first_of s ds p = Some q \<Longrightarrow> p \<le> q \<and> q < length s"
  by (auto simp: find_first_of_def Let_def split: if_splits)

lemma find_first_not_of_bounds: "find_first_not_of s ds p = Some q \<Longrightarrow> p \<le> q \<and> q < length s"
  by (auto simp: find_first_not_of_def Let_def split: if_splits)

section \<open>tokenize\<close>

function tok_loop :: "string \<Rightarrow> string \<Rightarrow> nat \<Rightarrow> string list \<Rightarrow> string list" where
  "tok_loop source delimiter prev results =
     (case find_first_of source delimiter prev of
        Some next \<Rightarrow>
          tok_loop source delimiter (next + 1)
            (if next - prev \<noteq> 0 then results @ [substr source prev (next - prev)] else results)
      | None \<Rightarrow> if prev < length source then results @ [drop prev source] else results)"
  by pat_completeness auto
termination
  by (relation "measure (\<lambda>(source, delimiter, prev, results). Suc (length source) - prev)")
    (auto dest: find_first_of_bounds)

declare tok_loop.simps [simp del]

definition tokenize :: "string \<Rightarrow> string \<Rightarrow> string list" where
  "tokenize source delimiter = (if source = [] then [] else tok_loop source delimiter 0 [])"

definition zht_tokenize :: "string \<Rightarrow> string \<Rightarrow> string list" where
  "zht_tokenize source delimiter = (if source = [] then [] else tok_loop source delimiter 0 [])"

text \<open>The state of a \<open>StrTokenizer\<close>: \<open>None\<close> is \<open>string::npos\<close>. The constructor sets both
  positions to 0 and calls \<open>find_next\<close>; the default delimiter is a space.\<close>

record str_tokenizer =
  the_source :: string
  the_delim :: string
  st_start :: "nat option"
  st_end :: "nat option"

definition st_find_next :: "str_tokenizer \<Rightarrow> str_tokenizer" where
  "st_find_next t =
     (let s = (case st_end t of None \<Rightarrow> None
                 | Some e \<Rightarrow> find_first_not_of (the_source t) (the_delim t) e);
          e = (case s of None \<Rightarrow> None | Some p \<Rightarrow> find_first_of (the_source t) (the_delim t) p)
      in t\<lparr>st_start := s, st_end := e\<rparr>)"

definition str_tokenizer_new :: "string \<Rightarrow> string \<Rightarrow> str_tokenizer" where
  "str_tokenizer_new source delim =
     st_find_next \<lparr>the_source = source, the_delim = delim, st_start = Some 0, st_end = Some 0\<rparr>"

definition has_more_tokens :: "str_tokenizer \<Rightarrow> bool" where
  "has_more_tokens t \<longleftrightarrow> st_start t \<noteq> None"

definition next_token :: "str_tokenizer \<Rightarrow> string \<times> str_tokenizer" where
  "next_token t =
     (case st_start t of
        None \<Rightarrow> ([], t)
      | Some p \<Rightarrow>
          ((case st_end t of None \<Rightarrow> drop p (the_source t)
              | Some e \<Rightarrow> substr (the_source t) p (e - p)),
           st_find_next t))"

section \<open>The reference\<close>

text \<open>\<open>tokens P cur s\<close> cuts \<open>s\<close> at the characters satisfying \<open>P\<close> and drops empty pieces;
  \<open>cur\<close> is the piece under construction.\<close>

fun tokens :: "(char \<Rightarrow> bool) \<Rightarrow> string \<Rightarrow> string \<Rightarrow> string list" where
  "tokens P cur [] = (if cur = [] then [] else [cur])"
| "tokens P cur (c # cs) =
     (if P c then (if cur = [] then tokens P [] cs else cur # tokens P [] cs)
      else tokens P (cur @ [c]) cs)"

lemma tokens_run: "\<forall>c \<in> set xs. \<not> P c \<Longrightarrow> tokens P cur (xs @ ys) = tokens P (cur @ xs) ys"
  by (induction xs arbitrary: cur) auto

lemma tokens_clean: "\<forall>c \<in> set xs. \<not> P c \<Longrightarrow> tokens P [] xs = (if xs = [] then [] else [xs])"
  using tokens_run [of xs P "[]" "[]"] by simp

lemma tokens_field:
  "\<forall>c \<in> set xs. \<not> P c \<Longrightarrow> xs \<noteq> [] \<Longrightarrow> P d \<Longrightarrow> tokens P [] (xs @ d # ys) = xs # tokens P [] ys"
  using tokens_run [of xs P "[]" "d # ys"] by simp

lemma tokens_empty_field:
  "\<forall>c \<in> set xs. \<not> P c \<Longrightarrow> P d \<Longrightarrow>
     tokens P [] (xs @ d # ys) = (if xs = [] then tokens P [] ys else xs # tokens P [] ys)"
  using tokens_run [of xs P "[]" "d # ys"] by simp

lemma tok_loop_tokens:
  "tok_loop s ds p acc = acc @ tokens (\<lambda>c. c \<in> set ds) [] (drop p s)"
proof (induction s ds p acc rule: tok_loop.induct)
  case (1 s ds p acc)
  define r where "r = takeWhile (\<lambda>c. c \<notin> set ds) (drop p s)"
  have r: "\<forall>c \<in> set r. c \<notin> set ds"
    by (auto simp: r_def dest: set_takeWhileD)
  show ?case
  proof (cases "p + length r < length s")
    case False
    then have "length (drop p s) \<le> length r"
      by simp
    then have "r = drop p s"
      unfolding r_def by (metis takeWhile_eq_take take_all)
    moreover have "find_first_of s ds p = None"
      using False by (simp add: find_first_of_def r_def Let_def)
    ultimately show ?thesis
      using r by (auto simp: tok_loop.simps [of s ds p] tokens_clean)
  next
    case True
    then have f: "find_first_of s ds p = Some (p + length r)"
      by (simp add: find_first_of_def r_def Let_def)
    from True have len: "length r < length (drop p s)" by simp
    then have d: "drop p s ! length r \<in> set ds"
      unfolding r_def using nth_length_takeWhile by fastforce
    have "drop p s = r @ drop (length r) (drop p s)"
      unfolding r_def by (metis append_take_drop_id takeWhile_eq_take)
    also have "drop (length r) (drop p s)
        = (drop p s ! length r) # drop (Suc (p + length r)) s"
      using len by (metis Cons_nth_drop_Suc add_Suc_right drop_drop add.commute)
    finally have split: "drop p s = r @ (drop p s ! length r) # drop (Suc (p + length r)) s" .
    have "substr s p (length r) = r"
      by (metis split append_eq_conv_conj substr_def)
    moreover have "tokens (\<lambda>c. c \<in> set ds) [] (drop p s)
        = (if r = [] then [] else [r]) @ tokens (\<lambda>c. c \<in> set ds) [] (drop (Suc (p + length r)) s)"
      using r d tokens_empty_field [of r "\<lambda>c. c \<in> set ds" "drop p s ! length r" "drop (Suc (p + length r)) s"]
      unfolding split [symmetric] by (simp split: if_splits)
    ultimately show ?thesis
      using "1.IH" [OF f] by (simp add: tok_loop.simps [of s ds p] f)
  qed
qed

lemma tokenize_tokens: "tokenize s ds = tokens (\<lambda>c. c \<in> set ds) [] s"
  by (simp add: tokenize_def tok_loop_tokens)

lemma zht_tokenize_tokens: "zht_tokenize s ds = tokens (\<lambda>c. c \<in> set ds) [] s"
  by (simp add: zht_tokenize_def tok_loop_tokens)

lemma tokens_pieces:
  "\<forall>c \<in> set cur. \<not> P c \<Longrightarrow> t \<in> set (tokens P cur s) \<Longrightarrow> t \<noteq> [] \<and> (\<forall>c \<in> set t. \<not> P c)"
proof (induction s arbitrary: cur)
  case Nil
  then show ?case by (simp split: if_splits)
next
  case (Cons c cs)
  show ?case
  proof (cases "P c")
    case True
    then have "t \<in> set (tokens P [] cs) \<or> (cur \<noteq> [] \<and> t = cur)"
      using Cons.prems(2) by (auto split: if_splits)
    then show ?thesis
      using Cons.IH [of "[]"] Cons.prems(1) by auto
  next
    case False
    then have "\<forall>d \<in> set (cur @ [c]). \<not> P d"
      using Cons.prems(1) by auto
    moreover have "t \<in> set (tokens P (cur @ [c]) cs)"
      using False Cons.prems(2) by simp
    ultimately show ?thesis by (rule Cons.IH)
  qed
qed

lemma concat_tokens: "concat (tokens P cur s) = cur @ filter (\<lambda>c. \<not> P c) s"
  by (induction P cur s rule: tokens.induct) auto

section \<open>StrTokenizer against the reference\<close>

text \<open>The tokens a \<open>StrTokenizer\<close> has still to give.\<close>

definition st_left :: "str_tokenizer \<Rightarrow> string list" where
  "st_left t = (case st_start t of None \<Rightarrow> [] | Some p \<Rightarrow> tokens (\<lambda>c. c \<in> set (the_delim t)) [] (drop p (the_source t)))"

definition st_ok :: "str_tokenizer \<Rightarrow> bool" where
  "st_ok t \<longleftrightarrow> (case st_start t of None \<Rightarrow> st_end t = None
     | Some p \<Rightarrow> p < length (the_source t) \<and> the_source t ! p \<notin> set (the_delim t) \<and> st_end t = find_first_of (the_source t) (the_delim t) p)"

lemma split_takeWhile:
  "length (takeWhile P xs) < length xs \<Longrightarrow>
     xs = takeWhile P xs @ xs ! length (takeWhile P xs) # drop (Suc (length (takeWhile P xs))) xs \<and> \<not> P (xs ! length (takeWhile P xs))"
  by (induction xs) auto

lemma tokens_skip: "\<forall>c \<in> set xs. P c \<Longrightarrow> tokens P [] (xs @ ys) = tokens P [] ys"
  by (induction xs) auto

lemma st_find_next_left:
  assumes "st_end t = Some e" and "e \<le> length (the_source t)"
  shows "st_ok (st_find_next t)" and "st_left (st_find_next t) = tokens (\<lambda>c. c \<in> set (the_delim t)) [] (drop e (the_source t))"
proof -
  let ?P = "\<lambda>c. c \<in> set (the_delim t)" and ?s = "drop e (the_source t)"
  let ?r = "takeWhile ?P ?s"
  have n: "find_first_not_of (the_source t) (the_delim t) e = (if length ?r < length ?s then Some (e + length ?r) else None)"
    using assms(2) by (auto simp: find_first_not_of_def Let_def)
  have all: "\<forall>c \<in> set ?r. ?P c" by (auto dest: set_takeWhileD)
  show "st_left (st_find_next t) = tokens ?P [] ?s"
  proof (cases "length ?r < length ?s")
    case True
    have "?s = ?r @ drop (length ?r) ?s" by (metis append_take_drop_id takeWhile_eq_take)
    then have "tokens ?P [] ?s = tokens ?P [] (drop (length ?r) ?s)" using tokens_skip [OF all] by metis
    then show ?thesis using True n assms(1) by (simp add: st_left_def st_find_next_def Let_def add.commute)
  next
    case False
    then have "?r = ?s" using length_takeWhile_le [of ?P ?s] by (metis nat_less_le take_all_iff takeWhile_eq_take)
    then have "tokens ?P [] ?s = []" using tokens_skip [OF all, of "[]"] by (metis append.right_neutral tokens.simps(1))
    then show ?thesis using False n assms(1) by (simp add: st_left_def st_find_next_def Let_def)
  qed
  show "st_ok (st_find_next t)"
  proof (cases "length ?r < length ?s")
    case True
    then have "the_source t ! (e + length ?r) \<notin> set (the_delim t)" using split_takeWhile [OF True] assms(2) by simp
    then show ?thesis using True n assms by (simp add: st_ok_def st_find_next_def Let_def)
  qed (use n assms in \<open>simp add: st_ok_def st_find_next_def Let_def\<close>)
qed

lemma st_new_left: "st_ok (str_tokenizer_new s ds)" "st_left (str_tokenizer_new s ds) = tokens (\<lambda>c. c \<in> set ds) [] s"
  using st_find_next_left [of "\<lparr>the_source = s, the_delim = ds, st_start = Some 0, st_end = Some 0\<rparr>" 0]
  by (simp_all add: str_tokenizer_new_def)

lemma st_next_left:
  assumes "st_ok t"
  shows "has_more_tokens t \<longleftrightarrow> st_left t \<noteq> []"
    and "has_more_tokens t \<Longrightarrow> st_ok (snd (next_token t)) \<and> st_left t = fst (next_token t) # st_left (snd (next_token t))"
proof -
  let ?P = "\<lambda>c. c \<in> set (the_delim t)"
  have n: "st_ok (snd (next_token t)) \<and> st_left t = fst (next_token t) # st_left (snd (next_token t))" if m: "has_more_tokens t"
  proof -
    obtain p where p: "st_start t = Some p" "p < length (the_source t)" "\<not> ?P (the_source t ! p)" "st_end t = find_first_of (the_source t) (the_delim t) p"
      using assms m by (auto simp: has_more_tokens_def st_ok_def)
    let ?s = "drop p (the_source t)"
    let ?r = "takeWhile (\<lambda>c. \<not> ?P c) ?s"
    have ne: "?r \<noteq> []" using p(2,3) by (metis Cons_nth_drop_Suc list.discI takeWhile.simps(2))
    have r: "\<forall>c \<in> set ?r. \<not> ?P c" by (auto dest: set_takeWhileD)
    show ?thesis
    proof (cases "length ?r < length ?s")
      case True
      let ?e = "p + length ?r"
      have e: "st_end t = Some ?e" using True p(2,4) by (simp add: find_first_of_def Let_def)
      have s: "?s = ?r @ ?s ! length ?r # drop (Suc (length ?r)) ?s" "?P (?s ! length ?r)" using split_takeWhile [OF True] by auto
      have "drop (length ?r) ?s = ?s ! length ?r # drop (Suc (length ?r)) ?s" using True by (metis Cons_nth_drop_Suc)
      then have "tokens ?P [] (drop ?e (the_source t)) = tokens ?P [] (drop (Suc (length ?r)) ?s)" using s(2) by (simp add: add.commute)
      moreover have "tokens ?P [] ?s = ?r # tokens ?P [] (drop (Suc (length ?r)) ?s)" using tokens_field [OF r ne s(2)] s(1) by metis
      moreover have "fst (next_token t) = ?r" using p(1) e by (simp add: next_token_def substr_def) (metis takeWhile_eq_take)
      ultimately show ?thesis using st_find_next_left [OF e] p(1) True by (simp add: next_token_def st_left_def)
    next
      case False
      then have "?r = ?s" using length_takeWhile_le [of "\<lambda>c. \<not> ?P c" ?s] by (metis nat_less_le take_all_iff takeWhile_eq_take)
      then have "tokens ?P [] ?s = [?s]" using tokens_clean [OF r] ne by metis
      moreover have e: "st_end t = None" using False p(2,4) by (simp add: find_first_of_def Let_def)
      ultimately show ?thesis using p(1) by (simp add: next_token_def st_left_def st_find_next_def st_ok_def Let_def)
    qed
  qed
  then show "has_more_tokens t \<Longrightarrow> st_ok (snd (next_token t)) \<and> st_left t = fst (next_token t) # st_left (snd (next_token t))" .
  show "has_more_tokens t \<longleftrightarrow> st_left t \<noteq> []" using n by (auto simp: has_more_tokens_def st_left_def split: option.splits)
qed

section \<open>Fields separated by a repeated delimiter\<close>

text \<open>\<open>clean d s\<close>: the field \<open>s\<close> is not empty and does not contain the delimiter character.\<close>

definition clean :: "char \<Rightarrow> string \<Rightarrow> bool" where
  "clean d s \<longleftrightarrow> s \<noteq> [] \<and> d \<notin> set s"

named_theorems wire_simps \<open>evaluation of a tokenizer on a printed message\<close>

lemma tokens_delim_Cons [wire_simps]: "P d \<Longrightarrow> tokens P [] (d # ys) = tokens P [] ys"
  by simp

lemma tokens_clean_field [wire_simps]:
  "clean d xs \<Longrightarrow> tokens (\<lambda>c. c = d) [] (xs @ d # ys) = xs # tokens (\<lambda>c. c = d) [] ys"
  by (rule tokens_field) (auto simp: clean_def)

lemma tokens_sep_fields:
  "\<forall>x \<in> set xs. clean d x \<Longrightarrow>
     tokens (\<lambda>c. c = d) [] (concat (map (\<lambda>x. x @ [d, d]) xs) @ ys) = xs @ tokens (\<lambda>c. c = d) [] ys"
proof (induction xs)
  case (Cons x xs)
  then show ?case
    using tokens_clean_field [of d x "d # concat (map (\<lambda>x. x @ [d, d]) xs) @ ys"] by simp
qed simp

lemma tokens_sep_fields_end [wire_simps]:
  "\<forall>x \<in> set xs. clean d x \<Longrightarrow>
     tokens (\<lambda>c. c = d) [] (concat (map (\<lambda>x. x @ [d, d]) xs)) = xs"
  using tokens_sep_fields [of xs d "[]"] by simp

lemma clean_append [simp]: "clean d (xs @ ys) \<longleftrightarrow>
    d \<notin> set xs \<and> d \<notin> set ys \<and> (xs \<noteq> [] \<or> ys \<noteq> [])"
  by (auto simp: clean_def)

end
