(* ===== verification/Wire.thy ===== *)
theory Wire
  imports Numbers Tokenizer
begin

text \<open>
  The text formats of MATRIX (\<^verbatim>\<open>matrix/src/util.cpp\<close>, message types of the \<^verbatim>\<open>.proto\<close> files): a task
  (\<open>TaskMsg\<close>), the metadata of a task kept in ZHT (\<open>Value\<close>) and a request or reply between
  peers (\<open>MatrixMsg\<close>). An optional protobuf field is an option, a repeated one a list; reading an
  absent optional number gives the protobuf default 0.
\<close>

section \<open>Messages\<close>

record task_msg =
  taskid :: string
  user :: string
  dir :: string
  cmd :: string
  datalength :: int

record val_msg =
  v_id :: string
  v_indegree :: "int option"
  v_parents :: "string list"
  v_children :: "string list"
  v_datanamelist :: "string list"
  v_datasize :: "int list"
  v_alldatasize :: "int option"
  v_tasklength :: "int option"
  v_numtaskfin :: "int option"
  v_numworksteal :: "int option"
  v_numworkstealfail :: "int option"
  v_numtaskwait :: "int option"
  v_numtaskready :: "int option"
  v_numcoreavilable :: "int option"
  v_numallcore :: "int option"
  v_outputsize :: "int option"
  v_submittime :: "int option"

record matrix_msg =
  msgtype :: string
  extrainfo :: "string option"
  mcount :: "int option"
  tasks :: "string list"

definition default_value :: val_msg where
  "default_value = \<lparr>v_id = [], v_indegree = None, v_parents = [], v_children = [],
     v_datanamelist = [], v_datasize = [], v_alldatasize = None, v_tasklength = None,
     v_numtaskfin = None, v_numworksteal = None, v_numworkstealfail = None,
     v_numtaskwait = None, v_numtaskready = None, v_numcoreavilable = None,
     v_numallcore = None, v_outputsize = None, v_submittime = None\<rparr>"

definition default_mm :: "string \<Rightarrow> matrix_msg" where
  "default_mm t = \<lparr>msgtype = t, extrainfo = None, mcount = None, tasks = []\<rparr>"

text \<open>The generated accessors of an absent field.\<close>

definition opt0 :: "int option \<Rightarrow> int" where
  "opt0 x = (case x of None \<Rightarrow> 0 | Some i \<Rightarrow> i)"

definition opt_str :: "string option \<Rightarrow> string" where
  "opt_str x = (case x of None \<Rightarrow> [] | Some s \<Rightarrow> s)"

lemma opt0_simps [simp]: "opt0 None = 0" "opt0 (Some i) = i"
  by (simp_all add: opt0_def)

lemma opt_str_simps [simp]: "opt_str None = []" "opt_str (Some s) = s"
  by (simp_all add: opt_str_def)

section \<open>TaskMsg\<close>

definition taskmsg_to_str :: "task_msg \<Rightarrow> string" where
  "taskmsg_to_str m =
     taskid m @ ''@@'' @ user m @ ''@@'' @ dir m @ ''@@'' @ cmd m @ ''@@'' @
     num_to_str (datalength m) @ ''@@''"

definition str_to_taskmsg :: "string \<Rightarrow> task_msg res" where
  "str_to_taskmsg str =
     (let vecStr = tokenize str ''@@'' in
      if length vecStr = 0 then Inl Exit_Failure
      else Inr \<lparr>taskid = vecStr ! 0,
                user = (if 1 < length vecStr then vecStr ! 1 else ''kwang''),
                dir = (if 2 < length vecStr then vecStr ! 2 else ''/home/kwang/Documents''),
                cmd = (if 3 < length vecStr then vecStr ! 3 else ''hostname''),
                datalength = (if 4 < length vecStr then str_to_num_long (vecStr ! 4) else 0)\<rparr>)"

section \<open>Value\<close>

definition put_long :: "string \<Rightarrow> int option \<Rightarrow> string" where
  "put_long none x = (case x of None \<Rightarrow> none | Some i \<Rightarrow> num_to_str i)"

definition put_rep :: "string \<Rightarrow> string \<Rightarrow> string list \<Rightarrow> string" where
  "put_rep none sep xs = (if xs \<noteq> [] then concat (map (\<lambda>x. x @ sep) xs) else none)"

definition value_to_str :: "val_msg \<Rightarrow> string" where
  "value_to_str v =
     v_id v @ ''~~'' @
     put_long ''noindegree'' (v_indegree v) @ ''~~'' @
     put_rep ''noparents'' ''??'' (v_parents v) @ ''~~'' @
     put_rep ''nochildren'' ''??'' (v_children v) @ ''~~'' @
     put_rep ''nodataname'' ''??'' (v_datanamelist v) @ ''~~'' @
     put_rep ''nodatasize'' ''??'' (map num_to_str (v_datasize v)) @ ''~~'' @
     put_long ''noalldatasize'' (v_alldatasize v) @ ''~~'' @
     put_long ''notasklength'' (v_tasklength v) @ ''~~'' @
     put_long ''nonumtaskfin'' (v_numtaskfin v) @ ''~~'' @
     put_long ''nonumworksteal'' (v_numworksteal v) @ ''~~'' @
     put_long ''nonumworkstealfail'' (v_numworkstealfail v) @ ''~~'' @
     put_long ''nonumtaskwait'' (v_numtaskwait v) @ ''~~'' @
     put_long ''nonumtaskready'' (v_numtaskready v) @ ''~~'' @
     put_long ''nonumcoreavail'' (v_numcoreavilable v) @ ''~~'' @
     put_long ''nonumallcore'' (v_numallcore v) @ ''~~'' @
     put_long ''nooutputsize'' (v_outputsize v) @ ''~~'' @
     put_long ''nosubmittime'' (v_submittime v) @ ''~~''"

definition get_num :: "(string \<Rightarrow> int) \<Rightarrow> string \<Rightarrow> string \<Rightarrow> int option" where
  "get_num rd none s = (if s \<noteq> none then Some (rd s) else None)"

definition get_rep :: "string \<Rightarrow> string \<Rightarrow> string \<Rightarrow> string list" where
  "get_rep none sep s = (if s \<noteq> none then tokenize s sep else [])"

definition str_to_value :: "string \<Rightarrow> val_msg res" where
  "str_to_value str =
     (let vec = tokenize str ''~~'' in
      if length vec < 17 then Inl Exit_Failure
      else Inr \<lparr>v_id = vec ! 0,
                v_indegree = get_num str_to_num_long ''noindegree'' (vec ! 1),
                v_parents = get_rep ''noparents'' ''??'' (vec ! 2),
                v_children = get_rep ''nochildren'' ''??'' (vec ! 3),
                v_datanamelist = get_rep ''nodataname'' ''??'' (vec ! 4),
                v_datasize = map str_to_num_long (get_rep ''nodatasize'' ''??'' (vec ! 5)),
                v_alldatasize = get_num str_to_num_long ''noalldatasize'' (vec ! 6),
                v_tasklength = get_num str_to_num_long ''notasklength'' (vec ! 7),
                v_numtaskfin = get_num str_to_num_long ''nonumtaskfin'' (vec ! 8),
                v_numworksteal = get_num str_to_num_long ''nonumworksteal'' (vec ! 9),
                v_numworkstealfail = get_num str_to_num_long ''nonumworkstealfail'' (vec ! 10),
                v_numtaskwait = get_num str_to_num_int ''nonumtaskwait'' (vec ! 11),
                v_numtaskready = get_num str_to_num_int ''nonumtaskready'' (vec ! 12),
                v_numcoreavilable = get_num str_to_num_int ''nonumcoreavail'' (vec ! 13),
                v_numallcore = get_num str_to_num_int ''nonumallcore'' (vec ! 14),
                v_outputsize = get_num str_to_num_int ''nooutputsize'' (vec ! 15),
                v_submittime = get_num str_to_num_long ''nosubmittime'' (vec ! 16)\<rparr>)"

section \<open>MatrixMsg\<close>

definition mm_to_str :: "matrix_msg \<Rightarrow> string" where
  "mm_to_str mm =
     msgtype mm @ ''&&'' @
     (case extrainfo mm of None \<Rightarrow> ''noextrainfo'' | Some e \<Rightarrow> e) @ ''&&'' @
     (case mcount mm of None \<Rightarrow> ''nocount'' | Some c \<Rightarrow> num_to_str (to_int32 c)) @ ''&&'' @
     put_rep ''notask'' ''!!'' (tasks mm) @ ''&&''"

definition str_to_mm :: "string \<Rightarrow> matrix_msg res" where
  "str_to_mm str =
     (let vec = tokenize str ''&&'' in
      bind_res (vec_at vec 0) (\<lambda>t.
      bind_res (vec_at vec 1) (\<lambda>e.
      bind_res (vec_at vec 2) (\<lambda>c.
      bind_res (vec_at vec 3) (\<lambda>ts.
        Inr \<lparr>msgtype = t,
             extrainfo = (if e \<noteq> ''noextrainfo'' then Some e else None),
             mcount = get_num str_to_num_int ''nocount'' c,
             tasks = get_rep ''notask'' ''!!'' ts\<rparr>)))))"

section \<open>What can be sent\<close>

text \<open>A field is sendable when it is not empty and holds none of the characters the enclosing
  formats use as delimiters: \<^verbatim>\<open>@\<close> inside a task, \<^verbatim>\<open>!\<close> and \<^verbatim>\<open>&\<close> inside a message, \<^verbatim>\<open>#\<close> and \<^verbatim>\<open>$\<close> on the
  socket (where a NUL byte ends the received C string), \<^verbatim>\<open>~\<close> and \<^verbatim>\<open>?\<close> inside a value and \<^verbatim>\<open>/\<close> inside a ZHT packet.\<close>

definition field_ok :: "string \<Rightarrow> string \<Rightarrow> bool" where
  "field_ok ds s \<longleftrightarrow> s \<noteq> [] \<and> list_all (\<lambda>c. c \<notin> set ds) s"

abbreviation task_delims :: string where
  "task_delims \<equiv> CHR 0x00 # ''@!&#$''"

definition task_ok :: "task_msg \<Rightarrow> bool" where
  "task_ok m \<longleftrightarrow> field_ok task_delims (taskid m) \<and> field_ok task_delims (user m)
     \<and> field_ok task_delims (dir m) \<and> field_ok task_delims (cmd m) \<and> is_long (datalength m)"

definition opt_ok :: "(int \<Rightarrow> bool) \<Rightarrow> int option \<Rightarrow> bool" where
  "opt_ok P x \<longleftrightarrow> (case x of None \<Rightarrow> True | Some i \<Rightarrow> P i)"

definition value_ok :: "val_msg \<Rightarrow> bool" where
  "value_ok v \<longleftrightarrow> field_ok ''~?/'' (v_id v)
     \<and> list_all (field_ok ''~?/'') (v_parents v) \<and> list_all (field_ok ''~?/'') (v_children v)
     \<and> list_all (field_ok ''~?/'') (v_datanamelist v) \<and> list_all is_long (v_datasize v)
     \<and> opt_ok is_long (v_indegree v) \<and> opt_ok is_long (v_alldatasize v)
     \<and> opt_ok is_long (v_tasklength v) \<and> opt_ok is_long (v_numtaskfin v)
     \<and> opt_ok is_long (v_numworksteal v) \<and> opt_ok is_long (v_numworkstealfail v)
     \<and> opt_ok is_int (v_numtaskwait v) \<and> opt_ok is_int (v_numtaskready v)
     \<and> opt_ok is_int (v_numcoreavilable v) \<and> opt_ok is_int (v_numallcore v)
     \<and> opt_ok is_int (v_outputsize v) \<and> opt_ok is_long (v_submittime v)"

definition mm_ok :: "matrix_msg \<Rightarrow> bool" where
  "mm_ok mm \<longleftrightarrow> field_ok ''&'' (msgtype mm)
     \<and> (case extrainfo mm of None \<Rightarrow> True | Some e \<Rightarrow> field_ok ''&'' e \<and> e \<noteq> ''noextrainfo'')
     \<and> opt_ok is_int (mcount mm) \<and> list_all (field_ok ''!&'') (tasks mm)"

lemma field_ok_clean: "field_ok ds s \<Longrightarrow> d \<in> set ds \<Longrightarrow> clean d s"
  by (auto simp: field_ok_def clean_def list_all_iff)

lemma field_ok_notin: "field_ok ds s \<Longrightarrow> d \<in> set ds \<Longrightarrow> d \<notin> set s"
  by (auto simp: field_ok_def list_all_iff)

lemma num_to_str_notin: "\<not> is_digit d \<Longrightarrow> d \<noteq> CHR ''-'' \<Longrightarrow> d \<notin> set (num_to_str i)"
  using num_to_str_chars by blast

lemma clean_num [simp]: "\<not> is_digit d \<Longrightarrow> d \<noteq> CHR ''-'' \<Longrightarrow> clean d (num_to_str i)"
  by (simp add: clean_def num_to_str_notin)

lemma tokenize_fields:
  "\<forall>x \<in> set xs. clean d x \<Longrightarrow> tokenize (concat (map (\<lambda>x. x @ [d, d]) xs)) [d, d] = xs"
  using tokens_sep_fields_end [of xs d] by (simp add: tokenize_tokens)

section \<open>Round trips\<close>

lemma num_to_str_neq: "\<exists>c \<in> set none. \<not> is_digit c \<and> c \<noteq> CHR ''-'' \<Longrightarrow> num_to_str i \<noteq> none"
  using num_to_str_notin by blast

lemma get_num_put_long:
  assumes "\<exists>c \<in> set none. \<not> is_digit c \<and> c \<noteq> CHR ''-''"
    and "\<And>i. x = Some i \<Longrightarrow> rd (num_to_str i) = i"
  shows "get_num rd none (put_long none x) = x"
  using assms num_to_str_neq by (cases x) (auto simp: get_num_def put_long_def)

lemma get_rep_put_rep:
  assumes "\<forall>x \<in> set xs. clean d x" and "last none \<noteq> d"
  shows "get_rep none [d, d] (put_rep none [d, d] xs) = xs"
proof (cases "xs = []")
  case False
  then obtain ys y where xs: "xs = ys @ [y]" by (metis rev_exhaust)
  then have "last (concat (map (\<lambda>x. x @ [d, d]) xs)) = d"
    by simp
  with False assms show ?thesis
    by (auto simp: get_rep_def put_rep_def tokenize_fields)
qed (simp add: get_rep_def put_rep_def)

lemma clean_put_long:
  "clean d none \<Longrightarrow> \<not> is_digit d \<Longrightarrow> d \<noteq> CHR ''-'' \<Longrightarrow> clean d (put_long none x)"
  by (cases x) (simp_all add: put_long_def)

lemma clean_put_rep:
  "clean d none \<Longrightarrow> d \<notin> set sep \<Longrightarrow> \<forall>x \<in> set xs. clean d x \<Longrightarrow> clean d (put_rep none sep xs)"
  by (cases xs) (auto simp: put_rep_def clean_def)

lemma task_roundtrip: "task_ok m \<Longrightarrow> str_to_taskmsg (taskmsg_to_str m) = Inr m"
proof -
  assume ok: "task_ok m"
  let ?fs = "[taskid m, user m, dir m, cmd m, num_to_str (datalength m)]"
  have "\<forall>x \<in> set ?fs. clean CHR ''@'' x"
    using ok by (auto simp: task_ok_def is_digit_def intro: field_ok_clean)
  from tokenize_fields [OF this] have "tokenize (taskmsg_to_str m) ''@@'' = ?fs"
    by (simp add: taskmsg_to_str_def)
  with ok show ?thesis
    by (simp add: str_to_taskmsg_def task_ok_def)
qed

definition value_fields :: "val_msg \<Rightarrow> string list" where
  "value_fields v =
     [v_id v, put_long ''noindegree'' (v_indegree v),
      put_rep ''noparents'' ''??'' (v_parents v), put_rep ''nochildren'' ''??'' (v_children v),
      put_rep ''nodataname'' ''??'' (v_datanamelist v),
      put_rep ''nodatasize'' ''??'' (map num_to_str (v_datasize v)),
      put_long ''noalldatasize'' (v_alldatasize v), put_long ''notasklength'' (v_tasklength v),
      put_long ''nonumtaskfin'' (v_numtaskfin v), put_long ''nonumworksteal'' (v_numworksteal v),
      put_long ''nonumworkstealfail'' (v_numworkstealfail v),
      put_long ''nonumtaskwait'' (v_numtaskwait v), put_long ''nonumtaskready'' (v_numtaskready v),
      put_long ''nonumcoreavail'' (v_numcoreavilable v), put_long ''nonumallcore'' (v_numallcore v),
      put_long ''nooutputsize'' (v_outputsize v), put_long ''nosubmittime'' (v_submittime v)]"

text \<open>The strings of a value are free of delimiters; this part of \<open>value_ok\<close> is enough for the
  fields to be found again.\<close>

definition value_strings_ok :: "val_msg \<Rightarrow> bool" where
  "value_strings_ok v \<longleftrightarrow> field_ok ''~?/'' (v_id v)
     \<and> list_all (field_ok ''~?/'') (v_parents v) \<and> list_all (field_ok ''~?/'') (v_children v)
     \<and> list_all (field_ok ''~?/'') (v_datanamelist v)"

lemma value_ok_strings: "value_ok v \<Longrightarrow> value_strings_ok v"
  by (simp add: value_ok_def value_strings_ok_def)

lemma value_to_str_fields: "value_to_str v = concat (map (\<lambda>x. x @ ''~~'') (value_fields v))"
  by (simp add: value_to_str_def value_fields_def)

lemma list_all_field_ok: "list_all (field_ok ds) xs \<Longrightarrow> d \<in> set ds \<Longrightarrow> \<forall>x \<in> set xs. clean d x"
  by (auto simp: list_all_iff intro: field_ok_clean)

lemma value_fields_clean: "value_strings_ok v \<Longrightarrow> \<forall>x \<in> set (value_fields v). clean CHR ''~'' x"
proof -
  assume ok: "value_strings_ok v"
  have lit: "clean CHR ''~'' s" if "s \<noteq> []" "CHR ''~'' \<notin> set s" for s
    using that by (simp add: clean_def)
  have num: "\<forall>x \<in> set (map num_to_str (v_datasize v)). clean CHR ''~'' x"
    by (simp add: is_digit_def)
  from ok have "clean CHR ''~'' (v_id v)" "\<forall>x \<in> set (v_parents v). clean CHR ''~'' x"
    "\<forall>x \<in> set (v_children v). clean CHR ''~'' x" "\<forall>x \<in> set (v_datanamelist v). clean CHR ''~'' x"
    by (auto simp: value_strings_ok_def list_all_iff intro: field_ok_clean)
  with num show ?thesis
    unfolding value_fields_def
    by (simp add: clean_put_long clean_put_rep lit is_digit_def)
qed

lemma tokenize_value: "value_strings_ok v \<Longrightarrow> tokenize (value_to_str v) ''~~'' = value_fields v"
  by (simp add: value_to_str_fields tokenize_fields value_fields_clean)

lemma rep_roundtrip:
  "list_all (field_ok ''~?/'') xs \<Longrightarrow> last none \<noteq> CHR ''?'' \<Longrightarrow>
     get_rep none ''??'' (put_rep none ''??'' xs) = xs"
  by (rule get_rep_put_rep) (auto dest: list_all_field_ok)

lemma rep_num_roundtrip:
  "list_all is_long xs \<Longrightarrow> last none \<noteq> CHR ''?'' \<Longrightarrow>
     map str_to_num_long (get_rep none ''??'' (put_rep none ''??'' (map num_to_str xs))) = xs"
  by (subst get_rep_put_rep) (auto simp: is_digit_def list_all_iff intro!: map_idI)

lemma value_roundtrip: "value_ok v \<Longrightarrow> str_to_value (value_to_str v) = Inr v"
proof -
  assume ok: "value_ok v"
  have long: "get_num str_to_num_long none (put_long none x) = x"
    if "\<exists>c \<in> set none. \<not> is_digit c \<and> c \<noteq> CHR ''-''" "opt_ok is_long x" for none x
    using that by (intro get_num_put_long) (auto simp: opt_ok_def)
  have int: "get_num str_to_num_int none (put_long none x) = x"
    if "\<exists>c \<in> set none. \<not> is_digit c \<and> c \<noteq> CHR ''-''" "opt_ok is_int x" for none x
    using that by (intro get_num_put_long) (auto simp: opt_ok_def)
  show ?thesis
    using ok unfolding str_to_value_def tokenize_value [OF value_ok_strings [OF ok]] Let_def
    by (simp add: value_fields_def value_ok_def long int rep_roundtrip rep_num_roundtrip is_digit_def)
qed

lemma mm_fields: "mm_to_str mm = concat (map (\<lambda>x. x @ ''&&'')
    [msgtype mm, (case extrainfo mm of None \<Rightarrow> ''noextrainfo'' | Some e \<Rightarrow> e),
     (case mcount mm of None \<Rightarrow> ''nocount'' | Some c \<Rightarrow> num_to_str (to_int32 c)),
     put_rep ''notask'' ''!!'' (tasks mm)])"
  by (simp add: mm_to_str_def)

lemma mm_roundtrip: "mm_ok mm \<Longrightarrow> str_to_mm (mm_to_str mm) = Inr mm"
proof -
  assume ok: "mm_ok mm"
  let ?e = "case extrainfo mm of None \<Rightarrow> ''noextrainfo'' | Some e \<Rightarrow> e"
  let ?c = "case mcount mm of None \<Rightarrow> ''nocount'' | Some c \<Rightarrow> num_to_str (to_int32 c)"
  let ?t = "put_rep ''notask'' ''!!'' (tasks mm)"
  have "clean CHR ''&'' (msgtype mm)" "clean CHR ''&'' ?e" "clean CHR ''&'' ?c"
    using ok by (auto simp: mm_ok_def clean_def is_digit_def num_to_str_notin
        dest: field_ok_clean [where d = "CHR ''&''"] split: option.splits)
  moreover have "clean CHR ''&'' ?t"
    using ok list_all_field_ok [of "''!&''" "tasks mm" "CHR ''&''"]
    by (intro clean_put_rep) (simp_all add: mm_ok_def clean_def [of _ "''notask''"])
  ultimately have tok: "tokenize (mm_to_str mm) ''&&'' = [msgtype mm, ?e, ?c, ?t]"
    by (simp only: mm_fields) (rule tokenize_fields, simp)
  have "get_rep ''notask'' ''!!'' ?t = tasks mm"
    using ok by (intro get_rep_put_rep) (auto simp: mm_ok_def dest: list_all_field_ok)
  moreover have "get_num str_to_num_int ''nocount'' ?c = mcount mm"
    using ok by (auto simp: mm_ok_def opt_ok_def get_num_def to_int32_id is_digit_def
        dest: num_to_str_neq [THEN notE, rotated] split: option.splits)
  ultimately show ?thesis
    using ok unfolding str_to_mm_def tok Let_def
    by (auto simp: mm_ok_def split: option.splits)
qed

section \<open>Properties\<close>



text \<open>The output size of a task is printed as a \<open>long\<close> but read as an \<open>int\<close>: a size that
  does not fit 32 bits is read back as 0, while everything else in the value is kept.\<close>

lemma large_output_size_lost:
  assumes "value_ok v" and "int_max < n"
  shows "str_to_value (value_to_str (v\<lparr>v_outputsize := Some n\<rparr>)) = Inr (v\<lparr>v_outputsize := Some 0\<rparr>)"
proof -
  let ?v = "v\<lparr>v_outputsize := Some n\<rparr>"
  have so: "value_strings_ok ?v"
    using value_ok_strings [OF assms(1)] by (simp add: value_strings_ok_def)
  have long: "get_num str_to_num_long none (put_long none x) = x"
    if "\<exists>c \<in> set none. \<not> is_digit c \<and> c \<noteq> CHR ''-''" "opt_ok is_long x" for none x
    using that by (intro get_num_put_long) (auto simp: opt_ok_def)
  have int: "get_num str_to_num_int none (put_long none x) = x"
    if "\<exists>c \<in> set none. \<not> is_digit c \<and> c \<noteq> CHR ''-''" "opt_ok is_int x" for none x
    using that by (intro get_num_put_long) (auto simp: opt_ok_def)
  have out: "get_num str_to_num_int ''nooutputsize'' (put_long ''nooutputsize'' (Some n)) = Some 0"
  proof -
    have "0 \<le> n" using assms(2) by (simp add: int_max_def)
    then show ?thesis
      using assms(2) num_to_str_neq [of "''nooutputsize''" n]
      by (simp add: get_num_def put_long_def str_to_num_int_def read_num_overflow is_digit_def)
  qed
  show ?thesis
    using assms(1) out unfolding str_to_value_def tokenize_value [OF so] Let_def
    by (simp add: value_fields_def value_ok_def long int rep_roundtrip rep_num_roundtrip is_digit_def)
qed

lemma large_output_size_lost_witness:
  "str_to_value (value_to_str (default_value\<lparr>v_id := ''7'', v_outputsize := Some 3000000000\<rparr>)) =
   Inr (default_value\<lparr>v_id := ''7'', v_outputsize := Some 0\<rparr>)"
  using large_output_size_lost [of "default_value\<lparr>v_id := ''7''\<rparr>" 3000000000]
  by (simp add: value_ok_def default_value_def field_ok_def opt_ok_def int_range_defs)

text \<open>A message between peers is read back as it was printed, if its type, its extra
  information and its tasks are free of the delimiters, the extra information is absent or neither
  empty nor the placeholder, and the count fits an \<open>int\<close>.\<close>

lemma mm_print_parse:
  assumes "mm_ok mm"
  shows "str_to_mm (mm_to_str mm) = Inr mm"
  using assms by (rule mm_roundtrip)

lemma mm_print_parse_witness:
  "str_to_mm (mm_to_str (default_mm ''send load''\<lparr>mcount := Some 3\<rparr>)) = Inr (default_mm ''send load''\<lparr>mcount := Some 3\<rparr>)"
  by (rule mm_print_parse) (simp add: mm_ok_def default_mm_def field_ok_def opt_ok_def int_range_defs)

text \<open>A message with empty extra information, as the reply to a request for the output of
  a task that printed nothing, cannot be read: the empty field vanishes in the tokenizer and the
  access to the fourth field throws.\<close>

lemma empty_extrainfo_throws:
  assumes "field_ok ''&'' t"
  shows "str_to_mm (mm_to_str (default_mm t\<lparr>extrainfo := Some []\<rparr>)) = Inl Out_Of_Range"
proof -
  let ?fs = "[t, ''nocount'', ''notask'']"
  have "clean CHR ''&'' t" using assms by (rule field_ok_clean) simp
  then have "\<forall>x \<in> set ?fs. clean CHR ''&'' x" by (simp add: clean_def)
  from tokens_sep_fields_end [OF this]
  have "tokens (\<lambda>c. c = CHR ''&'') [] (t @ ''&&nocount&&notask&&'') = ?fs" by simp
  moreover have "tokens (\<lambda>c. c = CHR ''&'') [] (t @ ''&&&&nocount&&notask&&'') =
      tokens (\<lambda>c. c = CHR ''&'') [] (t @ ''&&nocount&&notask&&'')"
    using \<open>clean CHR ''&'' t\<close> by (simp add: wire_simps)
  ultimately have "tokenize (t @ ''&&&&nocount&&notask&&'') ''&&'' = ?fs"
    by (simp add: tokenize_tokens)
  then show ?thesis by (simp add: str_to_mm_def mm_to_str_def default_mm_def put_rep_def)
qed

lemma empty_extrainfo_throws_witness:
  "str_to_mm (mm_to_str (default_mm ''scheduler send data''\<lparr>extrainfo := Some []\<rparr>)) = Inl Out_Of_Range"
  by (rule empty_extrainfo_throws) (simp add: field_ok_def)

end
