(* ===== verification/Framing.thy ===== *)
theory Framing
  imports Wire
begin

text \<open>
  How peers move text over a TCP connection (\<^verbatim>\<open>matrix/src/matrix_tcp_proxy_stub.cpp\<close>) and how a
  batch of tasks is packed into such a text and unpacked again (\<open>Peer::send_batch_tasks\<close> of
  \<^verbatim>\<open>matrix/src/util.cpp\<close>, the receiving halves in \<^verbatim>\<open>matrix/src/scheduler_stub.cpp\<close>).
  The sending side of a connection is the list of buffers given to \<open>send\<close>; the receiving side is
  the list of chunks the successive \<open>recv\<close> calls will return, whose concatenation is the stream
  but whose boundaries are arbitrary. An exhausted list is the end of the stream (\<open>recv\<close>
  returns 0).
\<close>

section \<open>Sending and receiving\<close>

definition BUF_SIZE :: nat where
  "BUF_SIZE = 8192"

text \<open>\<open>recv_bf\<close> reads at most \<open>BUF_SIZE\<close> bytes into an array of that size and takes the array
  as a C string: the text ends at the first NUL, and a completely filled array without a NUL is
  read beyond its end.\<close>

fun recv_bf :: "string list \<Rightarrow> (int \<times> string \<times> string list) res" where
  "recv_bf [] = Inr (0, [], [])"
| "recv_bf (c # cs) =
     (if BUF_SIZE \<le> length c \<and> CHR 0x00 \<notin> set c then Inl Undefined
      else Inr (int (length c), takeWhile (\<lambda>b. b \<noteq> CHR 0x00) c, cs))"

text \<open>The loop of \<open>recv_mul\<close>: append what arrives until a chunk ends in \<^verbatim>\<open>$\<close> or nothing arrives.
  Looking at the last character of an empty text is the access \<open>tmpBuf[-1]\<close>.\<close>

fun recv_mul :: "string list \<Rightarrow> string \<Rightarrow> (int \<times> string \<times> string list) res" where
  "recv_mul [] buf = Inr (0, buf, [])"
| "recv_mul (c # cs) buf =
     bind_res (recv_bf (c # cs)) (\<lambda>(count, tmpBuf, rest).
       if count \<le> 0 then Inr (0, buf, rest)
       else if tmpBuf = [] then Inl Undefined
       else if last tmpBuf = CHR ''$'' then Inr (count, buf @ tmpBuf, rest)
       else bind_res (recv_mul cs (buf @ tmpBuf)) (\<lambda>(sum, buf', rest'). Inr (count + sum, buf', rest')))"

definition send_mul :: "string \<Rightarrow> bool \<Rightarrow> string" where
  "send_mul buf e = buf @ ''##'' @ (if e then ''$'' else [])"

function send_big_loop :: "string \<Rightarrow> nat \<Rightarrow> nat \<Rightarrow> string list \<Rightarrow> nat \<times> string list" where
  "send_big_loop buf numSent len out =
     (if BUF_SIZE \<le> len
      then send_big_loop buf (numSent + BUF_SIZE) (len - BUF_SIZE) (out @ [substr buf numSent BUF_SIZE])
      else (let str = (if 0 < len then substr buf numSent len @ ''$'' else ''$'')
            in (numSent + length str, out @ [str])))"
  by pat_completeness auto
termination
  by (relation "measure (\<lambda>(buf, numSent, len, out). len)") (auto simp: BUF_SIZE_def)

declare send_big_loop.simps [simp del]

definition send_big :: "string \<Rightarrow> nat \<times> string list" where
  "send_big buf = send_big_loop buf 0 (length buf) []"

definition recv_big :: "string list \<Rightarrow> (int \<times> string) res" where
  "recv_big cs =
     bind_res (recv_mul cs []) (\<lambda>(count, buf, rest). Inr (count, take (length buf - 1) buf))"

section \<open>Batches of tasks\<close>

text \<open>One package of \<open>send_batch_tasks\<close>.\<close>

definition task_pkg :: "string \<Rightarrow> int \<Rightarrow> task_msg list \<Rightarrow> string" where
  "task_pkg peer n tms =
     mm_to_str \<lparr>msgtype = peer @ '' send tasks'', extrainfo = None, mcount = Some n,
                tasks = map taskmsg_to_str tms\<rparr>"

text \<open>The \<open>while\<close> loop; its result is the list of buffers handed to \<open>send\<close>. With a
  package size that is not positive the loop never ends, which is the value \<open>None\<close>.\<close>

partial_function (option) send_batch_loop ::
    "string \<Rightarrow> int \<Rightarrow> task_msg list \<Rightarrow> int \<Rightarrow> int \<Rightarrow> string list \<Rightarrow> string list option" where
  "send_batch_loop peer mx taskVec numTaskLeft numTaskBeenSent out =
     (if numTaskLeft > 0 then
        (let e = (numTaskLeft \<le> mx);
             n = (if e then numTaskLeft else mx);
             strTasks = task_pkg peer n (take (nat n) (drop (nat numTaskBeenSent) taskVec))
         in send_batch_loop peer mx taskVec (numTaskLeft - n) (numTaskBeenSent + n)
              (out @ [send_mul strTasks e]))
      else Some out)"

definition send_batch_tasks :: "int \<Rightarrow> task_msg list \<Rightarrow> string \<Rightarrow> string list option" where
  "send_batch_tasks mx taskVec peer =
     (let numTaskLeft = int (length taskVec);
          strNumTask = mm_to_str \<lparr>msgtype = peer @ '' send tasks'', extrainfo = None,
                                  mcount = Some numTaskLeft, tasks = []\<rparr>
      in if numTaskLeft \<le> 0 then Some [send_mul strNumTask True]
         else send_batch_loop peer mx taskVec numTaskLeft 0 [send_mul strNumTask False])"

text \<open>Unpacking, shared by \<open>recv_task_from_client\<close> and \<open>recv_task_from_scheduler\<close>: drop the
  final \<^verbatim>\<open>$\<close>, cut at \<^verbatim>\<open>#\<close>; a single piece means that no task follows (\<open>None\<close>); the first piece
  announces the number of tasks, every other one is a package whose \<open>count\<close> first tasks are
  taken.\<close>

definition unpack_pkg :: "string \<Rightarrow> task_msg list res" where
  "unpack_pkg s =
     bind_res (str_to_mm s) (\<lambda>mm.
       if int (length (tasks mm)) < opt0 (mcount mm) then Inl Undefined
       else map_res str_to_taskmsg (take (nat (opt0 (mcount mm))) (tasks mm)))"

definition unpack_tasks :: "string \<Rightarrow> (int \<times> task_msg list list) option res" where
  "unpack_tasks taskStr =
     (let stealVec = tokenize (take (length taskStr - 1) taskStr) ''##'' in
      if length stealVec = 1 then Inr None
      else bind_res (vec_at stealVec 0) (\<lambda>h.
           bind_res (str_to_mm h) (\<lambda>mmNumTask.
           bind_res (map_res unpack_pkg (tl stealVec)) (\<lambda>pkgs.
             Inr (Some (opt0 (mcount mmNumTask), pkgs))))))"

section \<open>The stream does not depend on the chunk boundaries\<close>

definition chunking :: "string list \<Rightarrow> string \<Rightarrow> bool" where
  "chunking cs s \<longleftrightarrow> concat cs = s \<and> list_all (\<lambda>c. c \<noteq> [] \<and> length c < BUF_SIZE) cs"

lemma recv_mul_chunking:
  assumes "chunking cs (s @ ''$'')" and "CHR ''$'' \<notin> set s" and "CHR 0x00 \<notin> set s"
  shows "recv_mul cs buf = Inr (int (length s) + 1, buf @ s @ ''$'', [])"
  using assms
proof (induction cs arbitrary: s buf)
  case Nil
  then show ?case by (simp add: chunking_def)
next
  case (Cons c cs)
  then have c: "c \<noteq> []" "length c < BUF_SIZE" and split: "c @ concat cs = s @ ''$''"
    by (auto simp: chunking_def)
  have "CHR 0x00 \<notin> set (c @ concat cs)"
    using Cons.prems(3) by (simp add: split)
  then have tw: "takeWhile (\<lambda>b. b \<noteq> CHR 0x00) c = c"
    by auto
  show ?case
  proof (cases "concat cs = []")
    case True
    with split have "c = s @ ''$''" by simp
    moreover from True Cons.prems(1) have "cs = []"
      by (cases cs) (auto simp: chunking_def)
    ultimately show ?thesis using c tw by simp
  next
    case False
    then obtain r where r: "concat cs = r @ ''$''" and s: "s = c @ r"
      using split by (metis append_butlast_last_id append_is_Nil_conv butlast_append
          last_appendR last_snoc butlast_snoc)
    then have "last c \<noteq> CHR ''$''"
      using Cons.prems(2) c(1) by (metis UnCI last_in_set set_append)
    moreover have "recv_mul cs (buf @ c) = Inr (int (length r) + 1, (buf @ c) @ r @ ''$'', [])"
      using Cons.prems s r by (intro Cons.IH) (auto simp: chunking_def)
    ultimately show ?thesis
      using c s by (simp add: tw)
  qed
qed

lemma send_big_loop_stream:
  assumes "numSent + len = length buf"
  shows "concat (snd (send_big_loop buf numSent len out)) = concat out @ drop numSent buf @ ''$''
       \<and> fst (send_big_loop buf numSent len out) = length buf + 1"
  using assms
proof (induction buf numSent len out rule: send_big_loop.induct)
  case (1 buf numSent len out)
  show ?case
  proof (cases "BUF_SIZE \<le> len")
    case True
    have "substr buf numSent BUF_SIZE @ drop (numSent + BUF_SIZE) buf = drop numSent buf"
      by (simp add: substr_def add.commute flip: drop_drop)
    then show ?thesis
      using "1.IH" [OF True] "1.prems" True
      by (simp add: send_big_loop.simps [of buf numSent len out])
  next
    case False
    then show ?thesis
      using "1.prems" by (auto simp: send_big_loop.simps [of buf numSent len out] substr_def)
  qed
qed

lemma send_big_loop_pieces:
  assumes "list_all (\<lambda>p. length p \<le> BUF_SIZE) out"
  shows "list_all (\<lambda>p. length p \<le> BUF_SIZE) (snd (send_big_loop buf numSent len out))"
  using assms
proof (induction buf numSent len out rule: send_big_loop.induct)
  case (1 buf numSent len out)
  show ?case
    using 1 by (subst send_big_loop.simps) (auto simp: substr_def BUF_SIZE_def)
qed

section \<open>Packing and unpacking a batch\<close>

lemma taskmsg_to_str_notin:
  "task_ok m \<Longrightarrow> c \<in> set (CHR 0x00 # ''!&#$'') \<Longrightarrow> c \<notin> set (taskmsg_to_str m)"
  by (auto simp: taskmsg_to_str_def task_ok_def is_digit_def
      dest!: num_to_str_chars dest: field_ok_notin [where d = c])

lemma mm_to_str_notin:
  assumes "c \<in> set (CHR 0x00 # ''#$'')" and "c \<notin> set (msgtype mm)" and "extrainfo mm = None"
    and "\<forall>t \<in> set (tasks mm). c \<notin> set t"
  shows "c \<notin> set (mm_to_str mm)"
  using assms
  by (auto simp: mm_to_str_def put_rep_def is_digit_def dest!: num_to_str_chars split: option.splits if_splits)

definition peer_ok :: "string \<Rightarrow> bool" where
  "peer_ok peer \<longleftrightarrow> list_all (\<lambda>c. c \<notin> set (CHR 0x00 # ''&#$'')) peer"

lemma task_pkg_ok:
  assumes "peer_ok peer" and "\<forall>t \<in> set tms. task_ok t" and "is_int n"
  shows "mm_ok \<lparr>msgtype = peer @ '' send tasks'', extrainfo = None, mcount = Some n,
                tasks = map taskmsg_to_str tms\<rparr>"
proof -
  have "field_ok ''!&'' (taskmsg_to_str t)" if "t \<in> set tms" for t
  proof -
    from that assms(2) have "task_ok t" by simp
    then have "CHR ''!'' \<notin> set (taskmsg_to_str t)" "CHR ''&'' \<notin> set (taskmsg_to_str t)"
      by (simp_all add: taskmsg_to_str_notin)
    moreover have "taskmsg_to_str t \<noteq> []" by (simp add: taskmsg_to_str_def)
    ultimately show ?thesis by (auto simp: field_ok_def list_all_iff)
  qed
  moreover have "field_ok ''&'' (peer @ '' send tasks'')"
    using assms(1) by (simp add: field_ok_def peer_ok_def list_all_iff)
  ultimately show ?thesis
    using assms(3) by (simp add: mm_ok_def opt_ok_def list_all_iff)
qed

lemma task_pkg_notin:
  assumes "peer_ok peer" and "\<forall>t \<in> set tms. task_ok t" and "c \<in> set (CHR 0x00 # ''#$'')"
  shows "c \<notin> set (task_pkg peer n tms)"
  unfolding task_pkg_def
proof (rule mm_to_str_notin)
  show "c \<notin> set (msgtype \<lparr>msgtype = peer @ '' send tasks'', extrainfo = None, mcount = Some n,
      tasks = map taskmsg_to_str tms\<rparr>)"
    using assms(1,3) by (auto simp: peer_ok_def list_all_iff)
  show "\<forall>t \<in> set (tasks \<lparr>msgtype = peer @ '' send tasks'', extrainfo = None, mcount = Some n,
      tasks = map taskmsg_to_str tms\<rparr>). c \<notin> set t"
    using assms(2,3) taskmsg_to_str_notin [of _ c] by fastforce
qed (use assms(3) in simp_all)

lemma unpack_task_pkg:
  assumes "peer_ok peer" and "\<forall>t \<in> set tms. task_ok t" and "is_int (int (length tms))"
  shows "unpack_pkg (task_pkg peer (int (length tms)) tms) = Inr tms"
proof -
  have "map_res str_to_taskmsg (map taskmsg_to_str tms) = Inr (map id tms)"
    using assms(2) by (induction tms) (auto simp: task_roundtrip)
  then show ?thesis
    unfolding unpack_pkg_def task_pkg_def
    by (simp add: mm_roundtrip [OF task_pkg_ok [OF assms]])
qed

lemma send_batch_loop_packages:
  assumes "0 < mx" and "0 < left" and "sent + left = int (length tv)" and "0 \<le> sent"
  shows "\<exists>out' ps. send_batch_loop peer mx tv left sent out = Some (out @ out')
           \<and> concat out' = concat (map (\<lambda>p. task_pkg peer (int (length p)) p @ ''##'') ps) @ ''$''
           \<and> concat ps = drop (nat sent) tv \<and> (\<forall>p \<in> set ps. p \<noteq> [] \<and> int (length p) \<le> mx)"
  using assms
proof (induction "nat left" arbitrary: left sent out rule: less_induct)
  case less
  define n where "n = (if left \<le> mx then left else mx)"
  define p where "p = take (nat n) (drop (nat sent) tv)"
  have n: "0 < n" "n \<le> left" "n \<le> mx" using less.prems by (auto simp: n_def)
  have len: "length p = nat n" "int (length p) = n"
    using less.prems n by (auto simp: p_def)
  have pne: "p \<noteq> []" using len(1) n(1) by auto
  let ?o = "out @ [send_mul (task_pkg peer n p) (left \<le> mx)]"
  have step: "send_batch_loop peer mx tv left sent out
      = send_batch_loop peer mx tv (left - n) (sent + n) ?o"
    using less.prems(2) by (subst send_batch_loop.simps) (simp add: n_def p_def Let_def)
  have rest: "p @ drop (nat (sent + n)) tv = drop (nat sent) tv"
    using n less.prems by (simp add: p_def nat_add_distrib add.commute flip: drop_drop)
  show ?case
  proof (cases "left \<le> mx")
    case True
    then have "send_batch_loop peer mx tv left sent out = Some ?o"
      using step by (simp add: n_def send_batch_loop.simps [of _ _ _ 0])
    moreover have "p = drop (nat sent) tv"
      using rest True less.prems by (simp add: n_def)
    ultimately show ?thesis
      using True len pne n
      by (intro exI [of _ "[send_mul (task_pkg peer n p) True]"] exI [of _ "[p]"])
        (simp add: send_mul_def)
  next
    case False
    then have "n = mx" by (simp add: n_def)
    with False less.prems obtain out' ps where
      "send_batch_loop peer mx tv (left - n) (sent + n) ?o = Some (?o @ out')"
      "concat out' = concat (map (\<lambda>p. task_pkg peer (int (length p)) p @ ''##'') ps) @ ''$''"
      "concat ps = drop (nat (sent + n)) tv" "\<forall>p \<in> set ps. p \<noteq> [] \<and> int (length p) \<le> mx"
      using less.hyps [of "left - n" "sent + n" ?o] n by auto
    then show ?thesis
      using False step rest len pne n
      by (intro exI [of _ "send_mul (task_pkg peer n p) False # out'"] exI [of _ "p # ps"])
        (simp add: send_mul_def)
  qed
qed

lemma send_batch_tasks_stream:
  assumes "0 < mx"
  shows "\<exists>out ps. send_batch_tasks mx tv peer = Some out \<and> concat ps = tv
     \<and> (\<forall>p \<in> set ps. p \<noteq> [] \<and> int (length p) \<le> mx)
     \<and> concat out = concat (map (\<lambda>m. m @ ''##'')
          (task_pkg peer (int (length tv)) [] # map (\<lambda>p. task_pkg peer (int (length p)) p) ps)) @ ''$''"
proof (cases "tv = []")
  case True
  then show ?thesis
    by (simp add: send_batch_tasks_def task_pkg_def send_mul_def)
next
  case False
  then obtain out' ps where
    "send_batch_loop peer mx tv (int (length tv)) 0 [send_mul (task_pkg peer (int (length tv)) []) False]
       = Some ([send_mul (task_pkg peer (int (length tv)) []) False] @ out')"
    "concat out' = concat (map (\<lambda>p. task_pkg peer (int (length p)) p @ ''##'') ps) @ ''$''"
    "concat ps = tv" "\<forall>p \<in> set ps. p \<noteq> [] \<and> int (length p) \<le> mx"
    using send_batch_loop_packages [OF assms, of "int (length tv)" 0 tv peer
        "[send_mul (task_pkg peer (int (length tv)) []) False]"] by auto
  with False show ?thesis
    by (auto simp: send_batch_tasks_def task_pkg_def send_mul_def comp_def)
qed

lemma unpack_stream:
  assumes "peer_ok peer" and "\<forall>t \<in> set tv. task_ok t" and "is_int (int (length tv))"
    and "concat ps = tv" and "\<forall>p \<in> set ps. p \<noteq> []"
    and s: "s = concat (map (\<lambda>m. m @ ''##'')
          (task_pkg peer (int (length tv)) [] # map (\<lambda>p. task_pkg peer (int (length p)) p) ps))"
  shows "unpack_tasks (s @ ''$'') = Inr (if tv = [] then None else Some (int (length tv), ps))"
    and "CHR ''$'' \<notin> set s" and "CHR 0x00 \<notin> set s"
proof -
  let ?ms = "task_pkg peer (int (length tv)) [] # map (\<lambda>p. task_pkg peer (int (length p)) p) ps"
  have sub: "t \<in> set p \<Longrightarrow> p \<in> set ps \<Longrightarrow> task_ok t" for t p
    using assms(2,4) by auto
  have ni: "c \<notin> set m" if "m \<in> set ?ms" and "c \<in> set (CHR 0x00 # ''#$'')" for m c
    using that assms(1) sub task_pkg_notin [of peer _ c] by fastforce
  have "clean CHR ''#'' m" if "m \<in> set ?ms" for m
    using that ni [of m "CHR ''#''"] by (auto simp: clean_def task_pkg_def mm_to_str_def)
  then have "\<forall>m \<in> set ?ms. clean CHR ''#'' m" by blast
  from tokenize_fields [OF this] have tok: "tokenize s ''##'' = ?ms"
    by (simp only: s)
  have len: "length p \<le> length tv" if "p \<in> set ps" for p
    using that assms(4) split_list [of p ps] by fastforce
  have "map_res unpack_pkg (map (\<lambda>p. task_pkg peer (int (length p)) p) ps) = Inr (map id ps)"
  proof -
    have "unpack_pkg (task_pkg peer (int (length p)) p) = Inr p" if "p \<in> set ps" for p
      using that sub len [of p] assms(1,3)
      by (intro unpack_task_pkg) (auto simp: int_range_defs)
    then show ?thesis
      by (induction ps) auto
  qed
  moreover have "str_to_mm (task_pkg peer (int (length tv)) [])
      = Inr \<lparr>msgtype = peer @ '' send tasks'', extrainfo = None,
             mcount = Some (int (length tv)), tasks = []\<rparr>"
    using mm_roundtrip [OF task_pkg_ok [of peer "[]" "int (length tv)"]] assms(1,3)
    by (simp add: task_pkg_def)
  moreover have "ps = [] \<longleftrightarrow> tv = []"
    using assms(4,5) by (cases ps) auto
  ultimately show "unpack_tasks (s @ ''$'') = Inr (if tv = [] then None else Some (int (length tv), ps))"
    by (auto simp: unpack_tasks_def tok Let_def)
  show "CHR ''$'' \<notin> set s" and "CHR 0x00 \<notin> set s"
    using ni unfolding s by auto
qed

text \<open>The whole way from a vector of tasks to the tasks the other peer queues.\<close>

lemma batch_transfer:
  assumes "0 < mx" and "peer_ok peer" and "list_all task_ok tv" and "is_int (int (length tv))"
  shows "\<exists>out ps. send_batch_tasks mx tv peer = Some out \<and> concat ps = tv
     \<and> (\<forall>p \<in> set ps. p \<noteq> [] \<and> int (length p) \<le> mx)
     \<and> (\<forall>cs. chunking cs (concat out) \<longrightarrow>
          (\<exists>n. recv_mul cs [] = Inr (n, concat out, [])))
     \<and> unpack_tasks (concat out) = Inr (if tv = [] then None else Some (int (length tv), ps))"
proof -
  have ok: "\<forall>t \<in> set tv. task_ok t" using assms(3) by (simp add: list_all_iff)
  obtain out ps where o: "send_batch_tasks mx tv peer = Some out" and c: "concat ps = tv"
    and p: "\<forall>p \<in> set ps. p \<noteq> [] \<and> int (length p) \<le> mx"
    and s: "concat out = concat (map (\<lambda>m. m @ ''##'')
       (task_pkg peer (int (length tv)) [] # map (\<lambda>p. task_pkg peer (int (length p)) p) ps)) @ ''$''"
    using send_batch_tasks_stream [OF assms(1), of tv peer] by (elim exE conjE) (rule that)
  let ?s = "concat (map (\<lambda>m. m @ ''##'')
       (task_pkg peer (int (length tv)) [] # map (\<lambda>p. task_pkg peer (int (length p)) p) ps))"
  have ne: "\<forall>p \<in> set ps. p \<noteq> []" using p by blast
  note u = unpack_stream [OF assms(2) ok assms(4) c ne refl]
  have r: "recv_mul cs [] = Inr (int (length ?s) + 1, concat out, [])" if "chunking cs (concat out)" for cs
    using recv_mul_chunking [OF that [unfolded s] u(2,3), of "[]"] by (simp add: s)
  have u1: "unpack_tasks (concat out) = Inr (if tv = [] then None else Some (int (length tv), ps))"
    using u(1) by (simp only: s)
  show ?thesis
    by (rule exI [of _ out], rule exI [of _ ps]) (intro conjI o c p u1 allI impI exI, erule r)
qed

text \<open>A server has read the first chunk already when it starts to collect the rest.\<close>

lemma recv_mul_rest:
  assumes "chunking (b # cs) (s @ ''$'')" and "CHR ''$'' \<notin> set s" and "CHR 0x00 \<notin> set s"
  shows "\<exists>n. recv_mul cs b = Inr (n, s @ ''$'', [])"
proof (cases "cs = []")
  case True
  then show ?thesis using assms(1) by (simp add: chunking_def)
next
  case False
  then have ne: "concat cs \<noteq> []" using assms(1) by (cases cs) (auto simp: chunking_def)
  have eq: "b @ concat cs = s @ ''$''" using assms(1) by (simp add: chunking_def)
  then have l: "last (concat cs) = CHR ''$''" using ne by (metis last_appendR last_snoc)
  define s2 where "s2 = butlast (concat cs)"
  have c: "concat cs = s2 @ ''$''" using ne l append_butlast_last_id [OF ne] by (simp add: s2_def)
  with eq have s: "s = b @ s2" by simp
  have "chunking cs (s2 @ ''$'')" using assms(1) c by (simp add: chunking_def)
  from recv_mul_chunking [OF this, of b] assms(2,3) show ?thesis by (auto simp: s)
qed

lemma batch_stream:
  assumes "0 < mx" and "peer_ok peer" and "list_all task_ok tv" and "is_int (int (length tv))"
    and "send_batch_tasks mx tv peer = Some out"
  shows "\<exists>s ps. concat out = s @ ''$'' \<and> CHR ''$'' \<notin> set s \<and> CHR 0x00 \<notin> set s \<and> concat ps = tv
    \<and> unpack_tasks (concat out) = Inr (if tv = [] then None else Some (int (length tv), ps))
    \<and> (\<exists>rest. s = peer @ '' send tasks&&'' @ rest)"
proof -
  have ok: "\<forall>t \<in> set tv. task_ok t" using assms(3) by (simp add: list_all_iff)
  obtain out' ps where o: "send_batch_tasks mx tv peer = Some out'" and c: "concat ps = tv"
    and p: "\<forall>p \<in> set ps. p \<noteq> [] \<and> int (length p) \<le> mx"
    and s: "concat out' = concat (map (\<lambda>m. m @ ''##'')
       (task_pkg peer (int (length tv)) [] # map (\<lambda>p. task_pkg peer (int (length p)) p) ps)) @ ''$''"
    using send_batch_tasks_stream [OF assms(1), of tv peer] by (elim exE conjE) (rule that)
  have ne: "\<forall>p \<in> set ps. p \<noteq> []" using p by blast
  note u = unpack_stream [OF assms(2) ok assms(4) c ne refl]
  let ?s = "concat (map (\<lambda>m. m @ ''##'')
       (task_pkg peer (int (length tv)) [] # map (\<lambda>p. task_pkg peer (int (length p)) p) ps))"
  have out: "concat out = ?s @ ''$''" using o s assms(5) by simp
  have "\<exists>rest. ?s = peer @ '' send tasks&&'' @ rest" by (simp add: task_pkg_def mm_to_str_def)
  with u c show ?thesis unfolding out by blast
qed

section \<open>Properties\<close>


definition demo_task :: "string \<Rightarrow> task_msg" where
  "demo_task i = \<lparr>taskid = i, user = ''u'', dir = ''/tmp'', cmd = ''hostname'', datalength = 0\<rparr>"


lemma send_batch_loop_diverges:
  assumes "mx \<le> 0" and "0 < left"
  shows "send_batch_loop peer mx tv left sent out = None"
proof -
  define P where "P peer' mx' tv' left' sent' out' (r :: string list) \<longleftrightarrow> (mx' \<le> 0 \<longrightarrow> 0 < left' \<longrightarrow> False)"
    for peer' :: string and mx' :: int and tv' :: "task_msg list" and left' sent' :: int and out' :: "string list" and r
  have "P peer mx tv left sent out r" if "send_batch_loop peer mx tv left sent out = Some r" for r
    using that
  proof (rule send_batch_loop.raw_induct [of P, rotated])
    fix loop peer mx tv left sent out r
    assume IH: "\<And>peer mx tv left sent out r. loop peer mx tv left sent out = Some r \<Longrightarrow> P peer mx tv left sent out r"
      and body: "(if left > 0 then
        (let e = (left \<le> mx); n = (if e then left else mx);
             strTasks = task_pkg peer n (take (nat n) (drop (nat sent) tv))
         in loop peer mx tv (left - n) (sent + n) (out @ [send_mul strTasks e]))
        else Some out) = Some r"
    show "P peer mx tv left sent out r"
      unfolding P_def
    proof (intro impI)
      assume mx: "mx \<le> 0" "0 < left"
      then have "loop peer mx tv (left - mx) (sent + mx)
          (out @ [send_mul (task_pkg peer mx (take (nat mx) (drop (nat sent) tv))) False]) = Some r"
        using body by (simp add: Let_def)
      from IH [OF this] show False using mx by (simp add: P_def)
    qed
  qed
  then show ?thesis using assms by (cases "send_batch_loop peer mx tv left sent out") (auto simp: P_def)
qed

text \<open>A configured package size that is not positive makes \<open>send_batch_tasks\<close> loop forever
  on every non-empty batch.\<close>

theorem batch_without_progress:
  assumes "mx \<le> 0" and "tv \<noteq> []"
  shows "send_batch_tasks mx tv peer = None"
  using assms by (simp add: send_batch_tasks_def send_batch_loop_diverges Let_def)

theorem batch_without_progress_witness: "send_batch_tasks 0 [demo_task ''1''] ''client'' = None"
  by (rule batch_without_progress) simp_all

text \<open>\<open>send_big\<close> hands every byte of the text to \<open>send\<close> exactly once, in buffers of at most
  the buffer size, followed by the end mark; \<open>recv_big\<close> on any chunking of that stream returns
  the text, provided it contains neither the mark nor a NUL.\<close>

lemma big_message_arrives:
  assumes "CHR ''$'' \<notin> set s" and "CHR 0x00 \<notin> set s" and "chunking cs (concat (snd (send_big s)))"
  shows "concat (snd (send_big s)) = s @ ''$'' \<and> list_all (\<lambda>p. length p \<le> BUF_SIZE) (snd (send_big s))
    \<and> recv_big cs = Inr (int (length s) + 1, s)"
proof -
  have e: "concat (snd (send_big s)) = s @ ''$''" using send_big_loop_stream [of 0 "length s" s "[]"] by (simp add: send_big_def)
  from recv_mul_chunking [OF assms(3) [unfolded e] assms(1,2), of "[]"] show ?thesis
    using send_big_loop_pieces [of "[]"] by (simp add: e recv_big_def) (simp add: send_big_def)
qed

lemma big_message_arrives_witness: "recv_big [''some '', ''output'', ''$''] = Inr (12, ''some output'')"
proof -
  have "chunking [''some '', ''output'', ''$''] (concat (snd (send_big ''some output'')))"
    by (simp add: chunking_def send_big_def send_big_loop.simps BUF_SIZE_def substr_def)
  from big_message_arrives [OF _ _ this] show ?thesis by simp
qed

end
