(* ===== verification/Config.thy ===== *)
theory Config
  imports Numbers Tokenizer Cxx_Map
begin

text \<open>
  The configuration of a MATRIX peer (\<^verbatim>\<open>matrix/src/config.cpp\<close>): the lines of the file are read into
  a map, of which every parameter is then looked up. A lookup that finds nothing dereferences the
  end iterator of the map.
\<close>

section \<open>Parameters\<close>

record matrix_conf =
  numTaskPerClient :: int
  numAllTask :: int
  numMapTask :: int
  numReduceTask :: int
  numCorePerExecutor :: int
  maxTaskPerPkg :: int
  monitorInterval :: int
  schedulerPortNo :: int
  sleepLength :: int
  workStealingOn :: int
  wsPollIntervalStart :: int
  wsPollIntervalUb :: int
  policy :: string
  dataSizeThreshold :: int
  estTimeThreadshold :: int
  schedulerMemFile :: string
  netProtoc :: string
  dagType :: string
  dagArg :: int
  hostIdType :: string
  submitMode :: string
  workloadFile :: string
  schedulerWorkloadPath :: string
  clientLog :: int
  taskLog :: int
  systemLog :: int
  schedulerLog :: int
  zhtMemFile :: string
  zhtConfigFile :: string

text \<open>The keys, in the order in which they are looked up.\<close>

definition conf_keys :: "string list" where
  "conf_keys = [''NumTaskPerClient'', ''NumAllTask'', ''NumMapTask'', ''NumReduceTask'', ''NumCorePerExecutor'',
     ''MaxTaskPerPkg'', ''MonitorInterval'', ''SchedulerPortNo'', ''SleepLength'', ''WorkStealOn'',
     ''WorkStealPollIntervalStart'', ''WorkStealPollIntervalUpperBound'', ''Policy'', ''DataSizeThreshold'',
     ''EstimatedTimeThreshold'', ''SchedulerMemlistFile'', ''NetworkProtocol'', ''DagType'', ''DagArgument'',
     ''HostIdentityType'', ''SubmissionMode'', ''WorkloadFile'', ''SchedulerWorkloadPath'', ''ClientLog'',
     ''TaskLog'', ''SystemLog'', ''SchedulerLog'', ''ZhtMemlistFile'', ''ZhtConfigFile'']"

definition conf_of :: "string list \<Rightarrow> matrix_conf" where
  "conf_of v = \<lparr>numTaskPerClient = str_to_num_long (v ! 0), numAllTask = str_to_num_long (v ! 1),
     numMapTask = str_to_num_long (v ! 2), numReduceTask = str_to_num_long (v ! 3),
     numCorePerExecutor = str_to_num_int (v ! 4), maxTaskPerPkg = str_to_num_long (v ! 5),
     monitorInterval = str_to_num_long (v ! 6), schedulerPortNo = str_to_num_long (v ! 7),
     sleepLength = str_to_num_long (v ! 8), workStealingOn = str_to_num_int (v ! 9),
     wsPollIntervalStart = str_to_num_long (v ! 10), wsPollIntervalUb = str_to_num_long (v ! 11),
     policy = v ! 12, dataSizeThreshold = str_to_num_long (v ! 13), estTimeThreadshold = str_to_num_long (v ! 14),
     schedulerMemFile = v ! 15, netProtoc = v ! 16, dagType = v ! 17, dagArg = str_to_num_long (v ! 18),
     hostIdType = v ! 19, submitMode = v ! 20, workloadFile = v ! 21, schedulerWorkloadPath = v ! 22,
     clientLog = str_to_num_int (v ! 23), taskLog = str_to_num_int (v ! 24), systemLog = str_to_num_int (v ! 25),
     schedulerLog = str_to_num_int (v ! 26), zhtMemFile = v ! 27, zhtConfigFile = v ! 28\<rparr>"

section \<open>Reading\<close>

text \<open>\<open>ss >> key >> value\<close>: the first two words of the line; a word that is missing stays empty.\<close>

definition line_words :: "string \<Rightarrow> string \<times> string" where
  "line_words line =
     (case tokens is_space [] line of [] \<Rightarrow> ([], []) | [k] \<Rightarrow> (k, []) | k # v # _ \<Rightarrow> (k, v))"

definition conf_line :: "string \<Rightarrow> (string, string) cmap \<Rightarrow> (string, string) cmap" where
  "conf_line line m =
     (case line_words line of (key, val) \<Rightarrow>
        if key \<noteq> [] \<and> hd key \<noteq> CHR ''#'' then cmap_insert key val m else m)"

definition conf_map :: "string list \<Rightarrow> (string, string) cmap" where
  "conf_map ls = fold conf_line ls []"

definition conf_find :: "(string, string) cmap \<Rightarrow> string \<Rightarrow> string res" where
  "conf_find m k = (case cmap_find m k of None \<Rightarrow> Inl Undefined | Some v \<Rightarrow> Inr v)"

text \<open>\<open>None\<close>: the file cannot be opened, and the members keep whatever they held.\<close>

definition parse_config :: "string list option \<Rightarrow> matrix_conf option res" where
  "parse_config file =
     (case file of
        None \<Rightarrow> Inr None
      | Some ls \<Rightarrow> bind_res (map_res (conf_find (conf_map ls)) conf_keys) (\<lambda>v. Inr (Some (conf_of v))))"

section \<open>What is read\<close>

text \<open>The value of a key is the second word of the first line that starts with it.\<close>

definition conf_value :: "string list \<Rightarrow> string \<Rightarrow> string option" where
  "conf_value ls k = map_of (map line_words ls) k"

lemma conf_map_find:
  assumes "cmap_ok m" and "k \<noteq> []" and "hd k \<noteq> CHR ''#''"
  shows "cmap_ok (fold conf_line ls m) \<and> cmap_find (fold conf_line ls m) k =
    (case cmap_find m k of None \<Rightarrow> conf_value ls k | Some v \<Rightarrow> Some v)"
  using assms(1)
proof (induction ls arbitrary: m)
  case Nil
  then show ?case by (simp add: conf_value_def split: option.splits)
next
  case (Cons l ls)
  obtain key val where w: "line_words l = (key, val)" by fastforce
  show ?case
  proof (cases "key \<noteq> [] \<and> hd key \<noteq> CHR ''#''")
    case True
    then have "conf_line l m = cmap_insert key val m" by (simp add: conf_line_def w)
    then show ?thesis
      using Cons.IH [of "cmap_insert key val m"] Cons.prems cm.invar_ins [of m key val] cm.find_ins [of m key val]
      by (auto simp: conf_value_def w split: option.splits)
  next
    case False
    then have "conf_line l m = m" by (auto simp: conf_line_def w)
    moreover have "key \<noteq> k" using False assms(2,3) by auto
    ultimately show ?thesis
      using Cons.IH [of m] Cons.prems by (simp add: conf_value_def w split: option.splits)
  qed
qed

lemma map_res_find:
  assumes "\<And>k. k \<in> set ks \<Longrightarrow> cmap_find m k = f k"
  shows "map_res (conf_find m) ks = (if \<exists>k \<in> set ks. f k = None then Inl Undefined else Inr (map (\<lambda>k. the (f k)) ks))"
  using assms by (induction ks) (auto simp: conf_find_def split: option.splits)

lemma conf_keys_ok: "k \<in> set conf_keys \<Longrightarrow> k \<noteq> [] \<and> hd k \<noteq> CHR ''#''"
  by (auto simp: conf_keys_def)

section \<open>Properties\<close>

text \<open>A configuration file is read completely or not at all: if for every key some line has
  it as its first word, each parameter is the conversion of the second word of the first such line
  (comments, blank lines, unknown keys and later duplicates have no effect); if a key is missing, the
  program runs into undefined behaviour.\<close>

lemma parse_config_reads_first_lines:
  "parse_config (Some ls) =
     (if \<exists>k \<in> set conf_keys. conf_value ls k = None then Inl Undefined
      else Inr (Some (conf_of (map (\<lambda>k. the (conf_value ls k)) conf_keys))))"
proof -
  have "cmap_find (conf_map ls) k = conf_value ls k" if "k \<in> set conf_keys" for k
    using conf_map_find [of "[]" k ls] conf_keys_ok [OF that]
    by (simp add: conf_map_def cmap_find_def cmap_ok_def)
  from map_res_find [OF this, of conf_keys] show ?thesis by (auto simp: parse_config_def)
qed

lemma parse_config_reads_first_lines_witness:
  "parse_config (Some [''# a comment'', ''NumAllTask 10'']) = Inl Undefined"
proof -
  have "conf_value [''# a comment'', ''NumAllTask 10''] ''Policy'' = None" by code_simp
  then show ?thesis
    using parse_config_reads_first_lines [of "[''# a comment'', ''NumAllTask 10'']"] by (auto simp: conf_keys_def)
qed

end
