(* ===== verification/Task_Queue.thy ===== *)
theory Task_Queue
  imports Wire
begin

text \<open>
  The ready queues of a scheduler: \<open>std::priority_queue\<close> with the comparison
  \<open>HighPriorityByDataSize\<close> of \<^verbatim>\<open>matrix/src/util.h\<close>, which puts the task with the \<^emph>\<open>smallest\<close> data
  length on top. The standard leaves the order of equal elements open; the model keeps them in
  order of arrival, and the schedulers' proofs use only the contract \<open>prio_queue\<close>, which does not
  mention it.
\<close>

section \<open>Operations\<close>

definition higher_priority :: "task_msg \<Rightarrow> task_msg \<Rightarrow> bool" where
  "higher_priority hp lp \<longleftrightarrow> datalength lp < datalength hp"

type_synonym task_pq = "task_msg list"

fun pq_push :: "task_msg \<Rightarrow> task_pq \<Rightarrow> task_pq" where
  "pq_push t [] = [t]"
| "pq_push t (x # q) = (if higher_priority x t then t # x # q else x # pq_push t q)"

definition pq_top :: "task_pq \<Rightarrow> task_msg" where
  "pq_top q = hd q"

definition pq_pop :: "task_pq \<Rightarrow> task_pq" where
  "pq_pop q = tl q"

definition pq_ok :: "task_pq \<Rightarrow> bool" where
  "pq_ok q \<longleftrightarrow> sorted (map datalength q)"

text \<open>The loop that takes \<open>n\<close> tasks off a queue, and the one that puts a list on it.\<close>

fun pq_take :: "nat \<Rightarrow> task_pq \<Rightarrow> task_msg list \<times> task_pq" where
  "pq_take 0 q = ([], q)"
| "pq_take (Suc n) q = (let (ts, q') = pq_take n (pq_pop q) in (pq_top q # ts, q'))"

definition pq_push_all :: "task_msg list \<Rightarrow> task_pq \<Rightarrow> task_pq" where
  "pq_push_all ts q = foldl (\<lambda>q t. pq_push t q) q ts"

section \<open>Contract\<close>

locale prio_queue =
  fixes empty :: 'q
    and push :: "'a \<Rightarrow> 'q \<Rightarrow> 'q"
    and top :: "'q \<Rightarrow> 'a"
    and pop :: "'q \<Rightarrow> 'q"
    and elems :: "'q \<Rightarrow> 'a multiset"
    and key :: "'a \<Rightarrow> int"
    and ok :: "'q \<Rightarrow> bool"
  assumes empty_elems: "elems empty = {#}"
    and empty_ok: "ok empty"
    and push_elems: "ok q \<Longrightarrow> elems (push x q) = add_mset x (elems q)"
    and push_ok: "ok q \<Longrightarrow> ok (push x q)"
    and top_in: "ok q \<Longrightarrow> elems q \<noteq> {#} \<Longrightarrow> top q \<in># elems q"
    and top_least: "ok q \<Longrightarrow> x \<in># elems q \<Longrightarrow> key (top q) \<le> key x"
    and pop_elems: "ok q \<Longrightarrow> elems q \<noteq> {#} \<Longrightarrow> elems (pop q) = elems q - {#top q#}"
    and pop_ok: "ok q \<Longrightarrow> ok (pop q)"
begin

lemma top_pop: "ok q \<Longrightarrow> elems q \<noteq> {#} \<Longrightarrow> add_mset (top q) (elems (pop q)) = elems q"
  by (simp add: pop_elems top_in)

lemma push_list:
  assumes "ok q"
  shows "ok (foldl (\<lambda>q x. push x q) q xs) \<and> elems (foldl (\<lambda>q x. push x q) q xs) = mset xs + elems q"
  using assms by (induction xs arbitrary: q) (simp_all add: push_ok push_elems)

text \<open>Taking elements off one by one gives the least ones, in ascending order.\<close>

lemma take_least:
  assumes "ok q" and "n \<le> size (elems q)"
    and step: "\<And>n q. take_n (Suc n) q = (let (ts, q') = take_n n (pop q) in (top q # ts, q'))"
    and base: "\<And>q. take_n 0 q = ([], q)"
  shows "\<exists>ts q'. take_n n q = (ts, q') \<and> length ts = n \<and> ok q' \<and> mset ts + elems q' = elems q
    \<and> sorted (map key ts) \<and> (\<forall>t \<in> set ts. \<forall>u \<in># elems q'. key t \<le> key u)"
  using assms(1,2)
proof (induction n arbitrary: q)
  case 0
  then show ?case by (simp add: base)
next
  case (Suc n)
  then have ne: "elems q \<noteq> {#}" by auto
  note tp = top_pop [OF Suc.prems(1) ne]
  have "n \<le> size (elems (pop q))" using Suc.prems(2) arg_cong [OF tp, of size] by simp
  from Suc.IH [OF pop_ok [OF Suc.prems(1)] this] obtain ts q' where
    IH: "take_n n (pop q) = (ts, q')" "length ts = n" "ok q'" "mset ts + elems q' = elems (pop q)"
      "sorted (map key ts)" "\<forall>t \<in> set ts. \<forall>u \<in># elems q'. key t \<le> key u" by blast
  have least: "key (top q) \<le> key x" if "x \<in> set ts \<or> x \<in># elems q'" for x
  proof -
    have "x \<in># elems (pop q)" using that unfolding IH(4) [symmetric] by auto
    then have "x \<in># elems q" unfolding tp [symmetric] by simp
    then show ?thesis by (rule top_least [OF Suc.prems(1)])
  qed
  have "take_n (Suc n) q = (top q # ts, q')" by (simp add: step IH(1))
  moreover have "mset (top q # ts) + elems q' = elems q" using IH(4) tp by simp
  ultimately show ?case using IH least by auto
qed

end

section \<open>The model provides it\<close>

lemma pq_ok_Nil: "pq_ok []"
  by (simp add: pq_ok_def)

lemma pq_push_mset: "mset (pq_push t q) = add_mset t (mset q)"
  by (induction q) auto

lemma pq_push_ok: "pq_ok q \<Longrightarrow> pq_ok (pq_push t q)"
proof (induction q)
  case (Cons x q)
  have s: "set (pq_push t q) = insert t (set q)"
    using arg_cong [OF pq_push_mset [of t q], of set_mset] by simp
  show ?case
    using Cons s by (auto simp: pq_ok_def higher_priority_def)
qed (simp add: pq_ok_def)

interpretation pq: prio_queue "[]" pq_push pq_top pq_pop mset datalength pq_ok
proof (unfold_locales, goal_cases)
  case (5 q)
  then show ?case by (cases q) (simp_all add: pq_top_def)
next
  case (6 q x)
  then show ?case by (cases q) (auto simp: pq_top_def pq_ok_def)
next
  case (7 q)
  then show ?case by (cases q) (simp_all add: pq_pop_def pq_top_def)
next
  case (8 q)
  then show ?case by (cases q) (simp_all add: pq_pop_def pq_ok_def)
qed (simp_all add: pq_push_mset pq_push_ok pq_ok_Nil)

lemma pq_push_all_facts:
  assumes "pq_ok q"
  shows "pq_ok (pq_push_all ts q)" and "mset (pq_push_all ts q) = mset ts + mset q"
  using pq.push_list [OF assms, of ts] by (simp_all add: pq_push_all_def)

lemma pq_take_facts:
  assumes "pq_ok q" and "n \<le> length q"
  shows "\<exists>ts q'. pq_take n q = (ts, q') \<and> length ts = n \<and> pq_ok q' \<and> mset ts + mset q' = mset q
    \<and> sorted (map datalength ts) \<and> (\<forall>t \<in> set ts. \<forall>u \<in> set q'. datalength t \<le> datalength u)"
  using pq.take_least [where take_n = pq_take, OF assms(1)] assms(2) by simp

end
