(* ===== verification/NoVoHT.thy ===== *)
theory NoVoHT
  imports Numbers Tokenizer
begin

text \<open>
  The non-volatile hash table under ZHT (\<^verbatim>\<open>ZHT/src/novoht.cpp\<close>): an array of chains in memory and a
  log file. A chain is a list of \<open>kvpair\<close>s; a \<open>FILE\<close> is its bytes and its position, so that the
  interplay of reading, appending and marking on the one handle is part of the model. The
  background thread that compacts the file (\<open>rewriteFile\<close>, \<open>merge\<close>) is one atomic step, taken
  where \<open>writeFileFG\<close> joins it; the temporary file can always be opened.
\<close>

unbundle bit_operations_syntax

section \<open>Files\<close>

record cfile =
  f_data :: string
  f_pos :: nat
  f_readable :: bool

definition fseek_end :: "cfile \<Rightarrow> cfile" where
  "fseek_end f = f\<lparr>f_pos := length (f_data f)\<rparr>"

definition fset_pos :: "nat \<Rightarrow> cfile \<Rightarrow> cfile" where
  "fset_pos p f = f\<lparr>f_pos := p\<rparr>"

text \<open>Writing overwrites from the position on and extends the file, filling a gap with NULs.\<close>

definition fput :: "string \<Rightarrow> cfile \<Rightarrow> cfile" where
  "fput s f =
     (let d = f_data f @ replicate (f_pos f - length (f_data f)) CHR 0x00
      in f\<lparr>f_data := take (f_pos f) d @ s @ drop (f_pos f + length s) d, f_pos := f_pos f + length s\<rparr>)"

text \<open>\<open>readTabString\<close> reads up to a tab or the end of the file. The byte 0xFF read into a
  \<open>char\<close> equals \<open>EOF\<close>. After 300 characters without a tab the terminating NUL is written behind
  the 300-byte buffer of the callers. A handle opened for writing only reads as ended.\<close>

definition readTabString :: "cfile \<Rightarrow> (string option \<times> cfile) res" where
  "readTabString f =
     (let rest = (if f_readable f then drop (f_pos f) (f_data f) else []);
          s = takeWhile (\<lambda>c. c \<noteq> CHR 0x09 \<and> c \<noteq> CHR 0xFF) rest;
          eof = (length s = length rest \<or> rest ! length s = CHR 0xFF);
          pos = f_pos f + length s + (if length s = length rest then 0 else 1)
      in if \<not> f_readable f then Inr (None, f)
         else if 300 \<le> length s then Inl Undefined
         else if eof \<and> s = [] then Inr (None, f\<lparr>f_pos := pos\<rparr>)
         else Inr (Some (c_str s), f\<lparr>f_pos := pos\<rparr>))"

section \<open>Single precision\<close>

text \<open>The resize threshold is a \<open>float\<close>. A non-negative float is a mantissa and a binary
  exponent; results are rounded to 24 bits, to nearest, ties to even.\<close>

type_synonym f32 = "nat \<times> int"

fun nbits :: "nat \<Rightarrow> nat" where
  "nbits n = (if n = 0 then 0 else Suc (nbits (n div 2)))"

declare nbits.simps [simp del]

definition f32_round :: "f32 \<Rightarrow> f32" where
  "f32_round x =
     (case x of (m, e) \<Rightarrow>
       if nbits m \<le> 24 then (m, e)
       else (let k = nbits m - 24; q = m div 2 ^ k; r = m mod 2 ^ k; h = 2 ^ (k - 1)
             in (if h < r \<or> (r = h \<and> odd q) then q + 1 else q, e + int k)))"

definition f32_of_nat :: "nat \<Rightarrow> f32" where
  "f32_of_nat n = f32_round (n, 0)"

definition f32_mul :: "f32 \<Rightarrow> f32 \<Rightarrow> f32" where
  "f32_mul x y = f32_round (fst x * fst y, snd x + snd y)"

definition f32_ge :: "f32 \<Rightarrow> f32 \<Rightarrow> bool" where
  "f32_ge x y \<longleftrightarrow>
     (if snd y \<le> snd x then fst y \<le> fst x * 2 ^ nat (snd x - snd y)
      else fst y * 2 ^ nat (snd y - snd x) \<le> fst x)"

section \<open>The table\<close>

record kvpair =
  kv_key :: string
  kv_val :: string
  kv_pos :: "nat list"
  kv_diff :: bool

text \<open>\<open>nv_thread_rc\<close> is what \<open>pthread_create\<close> returns in \<open>writeFile\<close>; \<open>nv_junk\<close> is what the flag
  \<open>diff\<close>, which no constructor sets, holds in the pair allocated for a key.\<close>

record novoht =
  nv_size :: nat
  nv_kvpairs :: "kvpair list list"
  nv_numEl :: int
  nv_nRem :: int
  nv_magicNumber :: int
  nv_resizeNum :: f32
  nv_filename :: string
  nv_dbfile :: "cfile option"
  nv_swapFile :: "cfile option"
  nv_rewriting :: bool
  nv_thread_rc :: int
  nv_junk :: "string \<Rightarrow> bool"

text \<open>\<open>SIZE_OF_LONG_LONG_INT\<close> is not defined by any header of the build, so the second pair of
  constants is compiled.\<close>

definition fnv_hash :: "string \<Rightarrow> 64 word" where
  "fnv_hash k = foldl (\<lambda>x c. (x XOR char_sext c) * 2166136261) 16777619 k"

definition slot_of :: "nat \<Rightarrow> string \<Rightarrow> nat" where
  "slot_of sz k = unat (fnv_hash k) mod sz"

definition no_file_rc :: "novoht \<Rightarrow> int" where
  "no_file_rc st = (if nv_filename st = [] then 0 else -2)"

fun mark_all :: "nat list \<Rightarrow> cfile \<Rightarrow> cfile" where
  "mark_all [] f = f"
| "mark_all (p # ps) f = mark_all ps (fput ''~'' (fset_pos p f))"

definition nv_mark :: "nat list \<Rightarrow> novoht \<Rightarrow> int \<times> novoht" where
  "nv_mark plist st =
     (case nv_dbfile st of
        None \<Rightarrow> (no_file_rc st, st)
      | Some f \<Rightarrow> (0, st\<lparr>nv_dbfile := Some (mark_all plist f)\<rparr>))"

text \<open>Chains: the first pair with a key, updating it, and removing it.\<close>

fun chain_find :: "string \<Rightarrow> kvpair list \<Rightarrow> kvpair option" where
  "chain_find k [] = None"
| "chain_find k (p # ps) = (if k = kv_key p then Some p else chain_find k ps)"

fun chain_upd :: "string \<Rightarrow> (kvpair \<Rightarrow> kvpair) \<Rightarrow> kvpair list \<Rightarrow> kvpair list" where
  "chain_upd k g [] = []"
| "chain_upd k g (p # ps) = (if k = kv_key p then g p # ps else p # chain_upd k g ps)"

fun chain_del :: "string \<Rightarrow> kvpair list \<Rightarrow> kvpair list" where
  "chain_del k [] = []"
| "chain_del k (p # ps) = (if k = kv_key p then ps else p # chain_del k ps)"

definition chain :: "novoht \<Rightarrow> string \<Rightarrow> kvpair list" where
  "chain st k = nv_kvpairs st ! slot_of (nv_size st) k"

definition set_chain :: "string \<Rightarrow> kvpair list \<Rightarrow> novoht \<Rightarrow> novoht" where
  "set_chain k c st = st\<lparr>nv_kvpairs := (nv_kvpairs st)[slot_of (nv_size st) k := c]\<rparr>"

text \<open>\<open>write\<close> appends a record to the log and makes it the only position of the pair with key
  \<open>k\<close>; \<open>writeAppend\<close> appends one and adds its position.\<close>

definition log_record :: "string \<Rightarrow> string \<Rightarrow> string" where
  "log_record k v = c_str k @ [CHR 0x09] @ c_str v @ [CHR 0x09]"

definition nv_write :: "string \<Rightarrow> string \<Rightarrow> novoht \<Rightarrow> int \<times> novoht" where
  "nv_write k v st =
     (case nv_dbfile st of
        None \<Rightarrow> (no_file_rc st, st)
      | Some f \<Rightarrow>
          (0, set_chain k (chain_upd k (\<lambda>p. p\<lparr>kv_pos := [length (f_data f)]\<rparr>) (chain st k))
                (st\<lparr>nv_dbfile := Some (fput (log_record k v) (fseek_end f))\<rparr>)))"

definition nv_writeAppend :: "string \<Rightarrow> string \<Rightarrow> novoht \<Rightarrow> int \<times> novoht" where
  "nv_writeAppend k aval st =
     (case nv_dbfile st of
        None \<Rightarrow> (no_file_rc st, st)
      | Some f \<Rightarrow>
          (0, set_chain k (chain_upd k (\<lambda>p. p\<lparr>kv_pos := length (f_data f) # kv_pos p\<rparr>) (chain st k))
                (st\<lparr>nv_dbfile := Some (fput (log_record k aval) (fseek_end f))\<rparr>)))"

definition nv_logrm :: "string \<Rightarrow> nat list \<Rightarrow> novoht \<Rightarrow> int \<times> novoht" where
  "nv_logrm k plist st =
     (case nv_dbfile st of
        None \<Rightarrow> (0, st)
      | Some f \<Rightarrow>
          (0, st\<lparr>nv_dbfile := Some (fput (''~'' @ c_str k @ [CHR 0x09]
                  @ concat (map (\<lambda>p. num_to_str (int p) @ '','') plist) @ [CHR 0x09]) (fseek_end f))\<rparr>))"

definition nv_writeFile :: "novoht \<Rightarrow> int \<times> novoht" where
  "nv_writeFile st =
     (case nv_dbfile st of
        None \<Rightarrow> (no_file_rc st, st)
      | Some f \<Rightarrow>
          if nv_rewriting st then (0, st\<lparr>nv_nRem := 0\<rparr>)
          else if nv_thread_rc st = 0
          then (0, st\<lparr>nv_rewriting := True, nv_swapFile := Some f,
                      nv_dbfile := Some \<lparr>f_data = [], f_pos = 0, f_readable = False\<rparr>, nv_nRem := 0\<rparr>)
          else (nv_thread_rc st,
                st\<lparr>nv_rewriting := False, nv_swapFile := Some f, nv_dbfile := Some f, nv_nRem := 0\<rparr>))"

section \<open>Operations\<close>

text \<open>\<open>resize\<close> moves every pair, chain by chain, to the head of its new chain, and resets the
  element counter.\<close>

fun rehash :: "nat \<Rightarrow> kvpair list \<Rightarrow> kvpair list list \<Rightarrow> kvpair list list" where
  "rehash ns [] t = t"
| "rehash ns (cur # ps) t =
     (let pos = slot_of ns (kv_key cur) in rehash ns ps (t[pos := cur # t ! pos]))"

definition nv_resize :: "nat \<Rightarrow> novoht \<Rightarrow> novoht" where
  "nv_resize ns st =
     st\<lparr>nv_size := ns, nv_numEl := 0,
        nv_kvpairs := fold (rehash ns) (nv_kvpairs st) (replicate ns [])\<rparr>"

definition resize_due :: "novoht \<Rightarrow> bool" where
  "resize_due st \<longleftrightarrow>
     0 \<le> nv_numEl st
     \<and> f32_ge (f32_of_nat (nat (nv_numEl st))) (f32_mul (f32_of_nat (nv_size st)) (nv_resizeNum st))
     \<and> fst (nv_resizeNum st) \<noteq> 0"

definition nv_put :: "string \<Rightarrow> string \<Rightarrow> novoht \<Rightarrow> int \<times> novoht" where
  "nv_put k v st0 =
     (let st = (if resize_due st0 then nv_resize (nv_size st0 * 2) st0 else st0) in
      case chain_find k (chain st k) of
        Some cur \<Rightarrow>
          (let st1 = set_chain k (chain_upd k (\<lambda>p. p\<lparr>kv_val := v\<rparr>) (chain st k)) st;
               st2 = snd (nv_mark (kv_pos cur) st1)
           in nv_write k v st2)
      | None \<Rightarrow>
          (let st1 = (set_chain k (chain st k @ [\<lparr>kv_key = k, kv_val = v, kv_pos = [], kv_diff = nv_junk st k\<rparr>]) st)
                        \<lparr>nv_numEl := nv_numEl st + 1\<rparr>
           in nv_write k v st1))"

definition nv_get :: "string \<Rightarrow> novoht \<Rightarrow> string option" where
  "nv_get k st = (if k = [] then None else map_option kv_val (chain_find k (chain st k)))"

text \<open>The common end of a successful removal: log or mark \<open>toRem\<close>, count it, and compact the
  file when the count reaches \<open>magicNumber\<close>.\<close>

definition finish_remove :: "string \<Rightarrow> nat list \<Rightarrow> novoht \<Rightarrow> int \<times> novoht" where
  "finish_remove k toRem st =
     (let (ret, st1) = (if nv_rewriting st then nv_logrm k toRem st else nv_mark toRem st);
          st2 = st1\<lparr>nv_nRem := nv_nRem st1 + 1\<rparr>
      in if nv_nRem st2 = nv_magicNumber st2
         then (let (r, st3) = nv_writeFile st2 in (ret + r, st3))
         else (ret, st2))"

definition nv_remove :: "string \<Rightarrow> novoht \<Rightarrow> int \<times> novoht" where
  "nv_remove k st =
     (case chain st k of
        [] \<Rightarrow> (-1, st)
      | cur # rest \<Rightarrow>
          if k = kv_key cur
          then finish_remove k (kv_pos cur)
                 ((set_chain k rest st)\<lparr>nv_numEl := nv_numEl st - 1\<rparr>)
          else if chain_find k rest = None then (-1, st)
          else finish_remove k (kv_pos cur)
                 ((set_chain k (cur # chain_del k rest) st)\<lparr>nv_numEl := nv_numEl st - 1\<rparr>))"

definition nv_append :: "string \<Rightarrow> string \<Rightarrow> novoht \<Rightarrow> int \<times> novoht" where
  "nv_append k aval st =
     (case chain_find k (chain st k) of
        Some cur \<Rightarrow>
          nv_writeAppend k aval
            (set_chain k (chain_upd k (\<lambda>p. p\<lparr>kv_val := kv_val p @ '':'' @ aval\<rparr>) (chain st k)) st)
      | None \<Rightarrow>
          nv_write k aval
            ((set_chain k (\<lparr>kv_key = k, kv_val = aval, kv_pos = [], kv_diff = nv_junk st k\<rparr> # chain st k) st)
               \<lparr>nv_numEl := nv_numEl st + 1\<rparr>))"

section \<open>Compaction\<close>

text \<open>\<open>rewriteFile\<close>, the body of the thread that \<open>writeFile\<close> starts: truncate the old log and write
  every pair again, except those with an empty key or value or the flag \<open>diff\<close>.\<close>

fun rewrite_chain :: "kvpair list \<Rightarrow> cfile \<Rightarrow> kvpair list \<times> cfile" where
  "rewrite_chain [] f = ([], f)"
| "rewrite_chain (cur # ps) f =
     (let (cur', f') = (if kv_key cur \<noteq> [] \<and> kv_val cur \<noteq> [] \<and> \<not> kv_diff cur
                        then (cur\<lparr>kv_pos := [f_pos f]\<rparr>, fput (log_record (kv_key cur) (kv_val cur)) f)
                        else (cur, f));
          (ps', f'') = rewrite_chain ps f'
      in (cur' # ps', f''))"

fun rewrite_chains :: "kvpair list list \<Rightarrow> cfile \<Rightarrow> kvpair list list \<times> cfile" where
  "rewrite_chains [] f = ([], f)"
| "rewrite_chains (c # cs) f =
     (let (c', f') = rewrite_chain c f; (cs', f'') = rewrite_chains cs f' in (c' # cs', f''))"

text \<open>\<open>merge\<close> replays on the compacted log what was logged meanwhile: a removal record lists the
  positions to cross out, each checked against the key; any other record is the current value of
  its key. \<open>atoi\<close> of the digits that \<open>logrm\<close> printed is their value.\<close>

fun merge_removed :: "string \<Rightarrow> string list \<Rightarrow> cfile \<Rightarrow> cfile res" where
  "merge_removed key [] sw = Inr sw"
| "merge_removed key (pos # ps) sw =
     (let p = nat (str_to_num_int pos) in
      bind_res (readTabString (fset_pos p sw)) (\<lambda>(test, sw1).
        if (case test of None \<Rightarrow> [] | Some t \<Rightarrow> t) = key
        then merge_removed key ps (fput ''~'' (fset_pos p sw1))
        else merge_removed key ps sw1))"

definition merge_value :: "string \<Rightarrow> novoht \<Rightarrow> cfile \<Rightarrow> novoht" where
  "merge_value s st sw =
     (let e = fseek_end sw in
      case chain_find s (chain st s) of
        None \<Rightarrow> st\<lparr>nv_swapFile := Some e\<rparr>
      | Some p \<Rightarrow>
          (set_chain s (chain_upd s (\<lambda>q. q\<lparr>kv_pos := [f_pos e], kv_diff := False\<rparr>) (chain st s)) st)
             \<lparr>nv_swapFile := Some (fput (log_record (kv_key p) (kv_val p)) e)\<rparr>)"

lemma readTabString_left:
  assumes "readTabString f = Inr (Some s, f')"
  shows "length (f_data f') - f_pos f' < length (f_data f) - f_pos f"
proof -
  have rd: "f_readable f" using assms by (simp add: readTabString_def Let_def split: if_splits)
  let ?rest = "drop (f_pos f) (f_data f)"
  let ?s = "takeWhile (\<lambda>c. c \<noteq> CHR 0x09 \<and> c \<noteq> CHR 0xFF) ?rest"
  have le: "length ?s \<le> length ?rest" by (rule length_takeWhile_le)
  have ne: "?rest \<noteq> []" and f': "f' = f\<lparr>f_pos := f_pos f + length ?s + (if length ?s = length ?rest then 0 else 1)\<rparr>"
    using assms rd by (auto simp: readTabString_def Let_def split: if_splits)
  show ?thesis
    using le ne unfolding f' by (cases "length ?s = length ?rest") auto
qed

lemma readTabString_left_le:
  assumes "readTabString f = Inr (x, f')"
  shows "length (f_data f') - f_pos f' \<le> length (f_data f) - f_pos f"
  using assms by (auto simp: readTabString_def Let_def split: if_splits)

function merge_loop :: "cfile \<Rightarrow> novoht \<Rightarrow> (cfile \<times> novoht) res" where
  "merge_loop db st =
     (case nv_swapFile st of
        None \<Rightarrow> Inl Undefined
      | Some sw \<Rightarrow>
          (case readTabString db of
             Inl e \<Rightarrow> Inl e
           | Inr (None, db1) \<Rightarrow> Inr (db1, st)
           | Inr (Some buf, db1) \<Rightarrow>
               if buf \<noteq> [] \<and> hd buf = CHR ''~''
               then (case readTabString db1 of
                       Inl e \<Rightarrow> Inl e
                     | Inr (sec, db2) \<Rightarrow>
                         (case merge_removed (tl buf) (tokens (\<lambda>c. c = CHR '','') [] (case sec of None \<Rightarrow> [] | Some t \<Rightarrow> t)) sw of
                            Inl e \<Rightarrow> Inl e
                          | Inr sw' \<Rightarrow> merge_loop db2 (st\<lparr>nv_swapFile := Some sw'\<rparr>)))
               else merge_loop db1 (merge_value buf st sw)))"
  by pat_completeness auto

termination
proof (relation "measure (\<lambda>(db, st). length (f_data db) - f_pos db)", goal_cases)
  case (2 db st sw p x db1 buf p' sec db2 sw')
  then show ?case using readTabString_left [of db buf db1] readTabString_left_le [of db1 sec db2] by simp
next
  case (3 db st sw p x db1 buf)
  then show ?case using readTabString_left [of db buf db1] by simp
qed simp

declare merge_loop.simps [simp del]

definition nv_merge :: "novoht \<Rightarrow> novoht res" where
  "nv_merge st =
     (case nv_dbfile st of
        None \<Rightarrow> Inl Undefined
      | Some db \<Rightarrow>
          bind_res (merge_loop (fset_pos 0 db) st) (\<lambda>(_, st').
            Inr (st'\<lparr>nv_dbfile := nv_swapFile st', nv_rewriting := False\<rparr>)))"

definition nv_rewriteFile :: "novoht \<Rightarrow> novoht res" where
  "nv_rewriteFile st =
     (case nv_swapFile st of
        None \<Rightarrow> Inl Undefined
      | Some sw \<Rightarrow>
          (let (t, sw') = rewrite_chains (nv_kvpairs st) (sw\<lparr>f_data := [], f_pos := 0\<rparr>)
           in nv_merge (st\<lparr>nv_kvpairs := t, nv_swapFile := Some sw'\<rparr>)))"

text \<open>\<open>writeFileFG\<close> joins the thread. Without a running thread the handle is not a joinable one.\<close>

definition nv_writeFileFG :: "novoht \<Rightarrow> (int \<times> novoht) res" where
  "nv_writeFileFG st =
     (let (ret, st1) = nv_writeFile st in
      if nv_rewriting st1 then bind_res (nv_rewriteFile st1) (\<lambda>st2. Inr (ret, st2)) else Inl Undefined)"

section \<open>Opening a table\<close>

text \<open>\<open>readFile\<close> reads the log record by record and replays the live ones with \<open>put\<close>, which
  appends to the very file that is being read.\<close>

lemma fput_seek_end: "fput s (fseek_end f) = f\<lparr>f_data := f_data f @ s, f_pos := length (f_data f) + length s\<rparr>"
  by (simp add: fput_def fseek_end_def Let_def)

definition file_left :: "novoht \<Rightarrow> nat" where
  "file_left st = (case nv_dbfile st of None \<Rightarrow> 0 | Some f \<Rightarrow> length (f_data f) - f_pos f)"

lemma set_chain_file [simp]: "nv_dbfile (set_chain k c st) = nv_dbfile st"
  by (simp add: set_chain_def)

lemma file_left_Some: "nv_dbfile st = Some f \<Longrightarrow> file_left st = length (f_data f) - f_pos f"
  by (simp add: file_left_def)

lemma put_file_left: "file_left (snd (nv_put k v st)) = 0"
  by (auto simp: nv_put_def nv_write_def nv_mark_def nv_resize_def file_left_def Let_def fput_seek_end
      split: option.splits)

function readFile_loop :: "novoht \<Rightarrow> novoht res" where
  "readFile_loop st =
     (case nv_dbfile st of
        None \<Rightarrow> Inr st
      | Some f \<Rightarrow>
          (case readTabString f of
             Inl e \<Rightarrow> Inl e
           | Inr (None, f1) \<Rightarrow> Inr (st\<lparr>nv_dbfile := Some f1\<rparr>)
           | Inr (Some key, f1) \<Rightarrow>
               (case readTabString f1 of
                  Inl e \<Rightarrow> Inl e
                | Inr (None, f2) \<Rightarrow> Inr (st\<lparr>nv_dbfile := Some f2\<rparr>)
                | Inr (Some val, f2) \<Rightarrow>
                    readFile_loop (if key = [] \<or> hd key \<noteq> CHR ''~''
                                   then snd (nv_put key val (st\<lparr>nv_dbfile := Some f2\<rparr>))
                                   else st\<lparr>nv_dbfile := Some f2\<rparr>))))"
  by pat_completeness auto

termination
proof (relation "measure file_left", goal_cases)
  case (2 st f p x f1 key p' x' f2 val)
  then have "length (f_data f2) - f_pos f2 < length (f_data f) - f_pos f"
    using readTabString_left [of f key f1] readTabString_left [of f1 val f2] by simp
  with 2 show ?case by (auto simp: put_file_left file_left_Some)
qed simp

declare readFile_loop.simps [simp del]

definition nv_readFile :: "novoht \<Rightarrow> novoht res" where
  "nv_readFile st =
     (if nv_dbfile st = None then Inr st else bind_res (readFile_loop st) (\<lambda>st'. Inr (snd (nv_writeFile st'))))"

text \<open>\<open>initialize\<close>: \<open>file\<close> is what \<open>fopen\<close> returns, the handle of an existing or fresh file at its
  start, or \<open>None\<close>; \<open>rc\<close> is the result of \<open>pthread_create\<close>.\<close>

definition nv_initialize :: "string \<Rightarrow> string option \<Rightarrow> int \<Rightarrow> (string \<Rightarrow> bool) \<Rightarrow> nat \<Rightarrow> int \<Rightarrow> f32 \<Rightarrow> novoht res" where
  "nv_initialize fname file rc junk initSize gcnum resizeRatio =
     nv_readFile \<lparr>nv_size = initSize, nv_kvpairs = replicate initSize [], nv_numEl = 0, nv_nRem = 0,
       nv_magicNumber = gcnum, nv_resizeNum = resizeRatio, nv_filename = fname,
       nv_dbfile = map_option (\<lambda>d. \<lparr>f_data = d, f_pos = 0, f_readable = True\<rparr>) file, nv_swapFile = None,
       nv_rewriting = False, nv_thread_rc = rc, nv_junk = junk\<rparr>"

section \<open>Chains\<close>

lemma chain_find_Some: "chain_find k c = Some p \<Longrightarrow> p \<in> set c \<and> kv_key p = k"
  by (induction c) (auto split: if_splits)

lemma chain_find_None: "chain_find k c = None \<longleftrightarrow> k \<notin> kv_key ` set c"
  by (induction c) auto

lemma chain_find_upd:
  "(\<And>p. kv_key (g p) = kv_key p) \<Longrightarrow>
     chain_find k' (chain_upd k g c) = (if k' = k then map_option g (chain_find k c) else chain_find k' c)"
  by (induction c) auto

lemma chain_upd_keys: "(\<And>p. kv_key (g p) = kv_key p) \<Longrightarrow> map kv_key (chain_upd k g c) = map kv_key c"
  by (induction c) auto

lemma chain_find_append:
  "chain_find k (c @ d) = (case chain_find k c of None \<Rightarrow> chain_find k d | Some p \<Rightarrow> Some p)"
  by (induction c) auto

lemma chain_del_keys: "map kv_key (chain_del k c) = remove1 k (map kv_key c)"
  by (induction c) auto

lemma chain_find_del:
  "distinct (map kv_key c) \<Longrightarrow> chain_find k' (chain_del k c) = (if k' = k then None else chain_find k' c)"
  by (induction c) (auto simp: chain_find_None)

section \<open>The invariant\<close>

definition chains_ok :: "nat \<Rightarrow> kvpair list list \<Rightarrow> bool" where
  "chains_ok n t \<longleftrightarrow> 0 < n \<and> length t = n
     \<and> (\<forall>i < n. distinct (map kv_key (t ! i)) \<and> (\<forall>p \<in> set (t ! i). slot_of n (kv_key p) = i))"

definition nv_ok :: "novoht \<Rightarrow> bool" where
  "nv_ok st \<longleftrightarrow> chains_ok (nv_size st) (nv_kvpairs st)"

definition stored :: "novoht \<Rightarrow> string \<Rightarrow> string option" where
  "stored st k = map_option kv_val (chain_find k (chain st k))"

lemma get_stored: "nv_get k st = (if k = [] then None else stored st k)"
  by (simp add: nv_get_def stored_def)

lemma slot_less: "0 < n \<Longrightarrow> slot_of n k < n"
  by (simp add: slot_of_def)

lemma chains_ok_update:
  assumes "chains_ok n t" and "distinct (map kv_key c)" and "\<forall>p \<in> set c. slot_of n (kv_key p) = i"
  shows "chains_ok n (t[i := c])"
proof -
  have "distinct (map kv_key (t[i := c] ! j)) \<and> (\<forall>p \<in> set (t[i := c] ! j). slot_of n (kv_key p) = j)"
    if "j < n" for j
    using that assms by (cases "j = i") (simp_all add: chains_ok_def)
  then show ?thesis using assms(1) by (simp add: chains_ok_def)
qed

lemma chains_okD:
  assumes "chains_ok n t"
  shows "distinct (map kv_key (t ! slot_of n k))"
    and "p \<in> set (t ! slot_of n k) \<Longrightarrow> slot_of n (kv_key p) = slot_of n k"
  using assms slot_less [of n k] by (auto simp: chains_ok_def)

lemma find_update:
  assumes "chains_ok n t"
  shows "chain_find k' (t[slot_of n k := c] ! slot_of n k') =
    (if slot_of n k' = slot_of n k then chain_find k' c else chain_find k' (t ! slot_of n k'))"
  using assms slot_less [of n] by (auto simp: chains_ok_def nth_list_update)

text \<open>Replacing the chain of \<open>k\<close> by one that agrees with it on all other keys changes the
  entry of \<open>k\<close> only.\<close>

lemma set_chain_update:
  assumes ok: "nv_ok st" and d: "distinct (map kv_key c)"
    and keys: "kv_key ` set c \<subseteq> insert k (kv_key ` set (chain st k))"
    and find: "\<And>k'. k' \<noteq> k \<Longrightarrow> chain_find k' c = chain_find k' (chain st k)"
  shows "nv_ok (set_chain k c st)"
    and "stored (set_chain k c st) k' =
      (if k' = k then map_option kv_val (chain_find k c) else stored st k')"
proof -
  let ?n = "nv_size st"
  have t: "chains_ok ?n (nv_kvpairs st)" using ok by (simp add: nv_ok_def)
  have "slot_of ?n (kv_key p) = slot_of ?n k" if "p \<in> set c" for p
    using that keys chains_okD(2) [OF t] by (force simp: chain_def)
  then show "nv_ok (set_chain k c st)"
    using chains_ok_update [OF t d] by (simp add: nv_ok_def set_chain_def)
  show "stored (set_chain k c st) k' =
      (if k' = k then map_option kv_val (chain_find k c) else stored st k')"
    using find_update [OF t, of k' k c] find [of k']
    by (auto simp: stored_def chain_def set_chain_def)
qed

text \<open>Steps that touch neither keys nor values: logging, marking, starting a compaction.\<close>

definition same_entries :: "novoht \<Rightarrow> novoht \<Rightarrow> bool" where
  "same_entries st st' \<longleftrightarrow> nv_ok st' \<and> (\<forall>k. stored st' k = stored st k)"

lemma same_entries_kvpairs:
  "nv_ok st \<Longrightarrow> nv_kvpairs st' = nv_kvpairs st \<Longrightarrow> nv_size st' = nv_size st \<Longrightarrow> same_entries st st'"
  by (simp add: same_entries_def nv_ok_def stored_def chain_def)

lemma same_entries_trans: "same_entries a b \<Longrightarrow> same_entries b c \<Longrightarrow> same_entries a c"
  by (simp add: same_entries_def)

lemma chain_upd_entries:
  assumes ok: "nv_ok st" and g: "\<And>p. kv_key (g p) = kv_key p"
  shows "nv_ok (set_chain k (chain_upd k g (chain st k)) st)"
    and "stored (set_chain k (chain_upd k g (chain st k)) st) k' =
      (if k' = k then map_option (\<lambda>p. kv_val (g p)) (chain_find k (chain st k)) else stored st k')"
proof -
  let ?c = "chain_upd k g (chain st k)"
  have keys: "map kv_key ?c = map kv_key (chain st k)" using g by (rule chain_upd_keys)
  have find: "chain_find x ?c = (if x = k then map_option g (chain_find k (chain st k))
      else chain_find x (chain st k))" for x
    using g by (rule chain_find_upd)
  have t: "chains_ok (nv_size st) (nv_kvpairs st)" using ok by (simp add: nv_ok_def)
  have d: "distinct (map kv_key ?c)"
    unfolding keys using chains_okD(1) [OF t, of k] by (simp add: chain_def)
  have ks: "kv_key ` set ?c \<subseteq> insert k (kv_key ` set (chain st k))"
    using arg_cong [OF keys, of set] by auto
  note upd = set_chain_update [OF ok d ks]
  show "nv_ok (set_chain k ?c st)" by (rule upd(1)) (simp add: find)
  have "stored (set_chain k ?c st) k' =
      (if k' = k then map_option kv_val (chain_find k ?c) else stored st k')"
    by (rule upd(2)) (simp add: find)
  then show "stored (set_chain k ?c st) k' =
      (if k' = k then map_option (\<lambda>p. kv_val (g p)) (chain_find k (chain st k)) else stored st k')"
    by (simp add: find option.map_comp comp_def)
qed

lemma same_entries_pos:
  assumes "nv_ok st"
  shows "same_entries st (set_chain k (chain_upd k (\<lambda>p. p\<lparr>kv_pos := f p\<rparr>) (chain st k)) st)"
  unfolding same_entries_def
  using chain_upd_entries [OF assms, of "\<lambda>p. p\<lparr>kv_pos := f p\<rparr>" k] by (simp add: stored_def [of st])

lemma chain_distinct: "nv_ok st \<Longrightarrow> distinct (map kv_key (chain st k))"
  using chains_okD(1) by (auto simp: nv_ok_def chain_def)

lemma write_same: "nv_ok st \<Longrightarrow> same_entries st (snd (nv_write k v st))"
proof -
  assume ok: "nv_ok st"
  show ?thesis
  proof (cases "nv_dbfile st")
    case None
    with ok show ?thesis by (simp add: nv_write_def same_entries_kvpairs)
  next
    case (Some f)
    let ?s = "st\<lparr>nv_dbfile := Some (fput (log_record k v) (fseek_end f))\<rparr>"
    have "same_entries st ?s" using ok by (rule same_entries_kvpairs) simp_all
    moreover have "nv_ok ?s" using ok by (simp add: nv_ok_def)
    then have "same_entries ?s (set_chain k (chain_upd k (\<lambda>p. p\<lparr>kv_pos := [length (f_data f)]\<rparr>) (chain ?s k)) ?s)"
      by (rule same_entries_pos)
    ultimately show ?thesis
      using Some by (auto simp: nv_write_def chain_def intro: same_entries_trans)
  qed
qed

lemma writeAppend_same: "nv_ok st \<Longrightarrow> same_entries st (snd (nv_writeAppend k v st))"
proof -
  assume ok: "nv_ok st"
  show ?thesis
  proof (cases "nv_dbfile st")
    case None
    with ok show ?thesis by (simp add: nv_writeAppend_def same_entries_kvpairs)
  next
    case (Some f)
    let ?s = "st\<lparr>nv_dbfile := Some (fput (log_record k v) (fseek_end f))\<rparr>"
    have "same_entries st ?s" using ok by (rule same_entries_kvpairs) simp_all
    moreover have "nv_ok ?s" using ok by (simp add: nv_ok_def)
    then have "same_entries ?s
        (set_chain k (chain_upd k (\<lambda>p. p\<lparr>kv_pos := length (f_data f) # kv_pos p\<rparr>) (chain ?s k)) ?s)"
      by (rule same_entries_pos)
    ultimately show ?thesis
      using Some by (auto simp: nv_writeAppend_def chain_def intro: same_entries_trans)
  qed
qed

lemma mark_same: "nv_ok st \<Longrightarrow> same_entries st (snd (nv_mark ps st))"
  by (rule same_entries_kvpairs) (simp_all add: nv_mark_def split: option.splits)

lemma finish_remove_same: "nv_ok st \<Longrightarrow> same_entries st (snd (finish_remove k ps st))"
  by (rule same_entries_kvpairs)
    (auto simp: finish_remove_def nv_mark_def nv_logrm_def nv_writeFile_def Let_def split: option.splits)

section \<open>Resizing keeps the entries\<close>

lemma chain_find_concat:
  assumes "\<forall>i < length t. \<forall>p \<in> set (t ! i). f (kv_key p) = i + (b::nat)"
  shows "chain_find k (concat t) =
    (if b \<le> f k \<and> f k < b + length t then chain_find k (t ! (f k - b)) else None)"
  using assms
proof (induction t arbitrary: b)
  case (Cons c t)
  have c: "\<forall>p \<in> set c. f (kv_key p) = b" using Cons.prems by force
  have "\<forall>i < length t. \<forall>p \<in> set (t ! i). f (kv_key p) = i + Suc b"
    using Cons.prems by force
  note IH = Cons.IH [OF this]
  show ?case
  proof (cases "f k = b")
    case True
    then show ?thesis by (simp add: chain_find_append IH split: option.splits)
  next
    case False
    then have "chain_find k c = None" using c by (auto simp: chain_find_None)
    with False show ?thesis
      by (auto simp: chain_find_append IH nth_Cons' intro!: arg_cong [where f = "\<lambda>i. chain_find k (t ! i)"])
  qed
qed auto

lemma distinct_concat_chains:
  assumes "\<forall>i < length t. distinct (map kv_key (t ! i)) \<and> (\<forall>p \<in> set (t ! i). f (kv_key p) = i + (b::nat))"
  shows "distinct (map kv_key (concat t))"
  using assms
proof (induction t arbitrary: b)
  case (Cons c t)
  have c: "distinct (map kv_key c)" "\<forall>p \<in> set c. f (kv_key p) = b" using Cons.prems by force+
  have t: "\<forall>i < length t. distinct (map kv_key (t ! i)) \<and> (\<forall>p \<in> set (t ! i). f (kv_key p) = i + Suc b)"
    using Cons.prems by force
  have "f (kv_key p) \<noteq> b" if "p \<in> set (concat t)" for p
    using that t by (force simp: in_set_conv_nth)
  with c Cons.IH [OF t] show ?case by force
qed simp

lemma rehash_ok:
  assumes "chains_ok n t" and "distinct (map kv_key ps)"
    and "\<forall>p \<in> set ps. chain_find (kv_key p) (t ! slot_of n (kv_key p)) = None"
  shows "chains_ok n (rehash n ps t) \<and> (\<forall>k. chain_find k (rehash n ps t ! slot_of n k) =
    (case chain_find k ps of None \<Rightarrow> chain_find k (t ! slot_of n k) | Some p \<Rightarrow> Some p))"
  using assms
proof (induction ps arbitrary: t)
  case (Cons p ps)
  let ?i = "slot_of n (kv_key p)"
  let ?t = "t[?i := p # t ! ?i]"
  have f: "chain_find k (?t ! slot_of n k) =
      (if k = kv_key p then Some p else chain_find k (t ! slot_of n k))" for k
    using find_update [OF Cons.prems(1), of k "kv_key p" "p # t ! ?i"] by auto
  have "chains_ok n ?t"
    using Cons.prems(1,3) chains_okD [OF Cons.prems(1), where k = "kv_key p"]
    by (intro chains_ok_update) (auto simp: chain_find_None)
  moreover have "chain_find (kv_key q) (?t ! slot_of n (kv_key q)) = None" if "q \<in> set ps" for q
  proof -
    have "kv_key q \<in> kv_key ` set ps" using that by (rule imageI)
    then have "kv_key q \<noteq> kv_key p" using Cons.prems(2) by auto
    then show ?thesis using f [of "kv_key q"] that Cons.prems(3) by simp
  qed
  ultimately show ?case
    using Cons.IH [of ?t] Cons.prems(2) by (auto simp: f Let_def chain_find_None split: option.splits)
qed simp

lemma fold_rehash: "fold (rehash n) cs t = rehash n (concat cs) t"
proof (induction cs arbitrary: t)
  case (Cons c cs)
  have "rehash n (c @ d) u = rehash n d (rehash n c u)" for d u
    by (induction c arbitrary: u) (simp_all add: Let_def)
  with Cons show ?case by simp
qed simp

lemma resize_same:
  assumes "nv_ok st" and "0 < n"
  shows "same_entries st (nv_resize n st)"
proof -
  let ?t = "nv_kvpairs st" and ?m = "nv_size st"
  have t: "chains_ok ?m ?t" using assms by (simp add: nv_ok_def)
  then have s: "\<forall>i < length ?t. distinct (map kv_key (?t ! i)) \<and> (\<forall>p \<in> set (?t ! i). slot_of ?m (kv_key p) = i + 0)"
    by (simp add: chains_ok_def)
  have cf: "chain_find k (concat ?t) = chain_find k (chain st k)" for k
    using chain_find_concat [of ?t "slot_of ?m" 0 k] s t slot_less [of ?m k]
    by (simp add: chains_ok_def chain_def)
  have e: "chains_ok n (replicate n [])"
    using assms(2) by (simp add: chains_ok_def)
  have "chains_ok n (rehash n (concat ?t) (replicate n [])) \<and>
    (\<forall>k. chain_find k (rehash n (concat ?t) (replicate n []) ! slot_of n k) =
      (case chain_find k (concat ?t) of None \<Rightarrow> chain_find k (replicate n [] ! slot_of n k) | Some p \<Rightarrow> Some p))"
    by (rule rehash_ok [OF e distinct_concat_chains [OF s]])
      (use slot_less [OF assms(2)] in simp)
  then show ?thesis
    using slot_less [OF assms(2)]
    by (simp add: same_entries_def nv_ok_def nv_resize_def fold_rehash stored_def chain_def cf [unfolded chain_def]
        split: option.splits)
qed

section \<open>The operations on the stored map\<close>

lemma same_entriesD: "same_entries st st' \<Longrightarrow> nv_ok st'" "same_entries st st' \<Longrightarrow> stored st' k = stored st k"
  by (simp_all add: same_entries_def)

lemma put_stored:
  assumes "nv_ok st0"
  shows "nv_ok (snd (nv_put k v st0))
    \<and> stored (snd (nv_put k v st0)) k' = (if k' = k then Some v else stored st0 k')"
proof -
  define st where "st = (if resize_due st0 then nv_resize (nv_size st0 * 2) st0 else st0)"
  have "same_entries st0 st"
    unfolding st_def using assms resize_same [OF assms, of "nv_size st0 * 2"]
    by (auto simp: same_entries_def nv_ok_def chains_ok_def)
  then have ok: "nv_ok st" and eq: "stored st k' = stored st0 k'"
    by (simp_all add: same_entries_def)
  note dk = chain_distinct [OF ok, of k]
  show ?thesis
  proof (cases "chain_find k (chain st k)")
    case None
    let ?c = "chain st k @ [\<lparr>kv_key = k, kv_val = v, kv_pos = [], kv_diff = nv_junk st k\<rparr>]"
    let ?s = "(set_chain k ?c st)\<lparr>nv_numEl := nv_numEl st + 1\<rparr>"
    have d: "distinct (map kv_key ?c)" and ks: "kv_key ` set ?c \<subseteq> insert k (kv_key ` set (chain st k))"
      and f: "\<And>x. x \<noteq> k \<Longrightarrow> chain_find x ?c = chain_find x (chain st k)"
      using None dk by (auto simp: chain_find_append chain_find_None [symmetric] split: option.splits)
    have fk: "chain_find k ?c = Some \<lparr>kv_key = k, kv_val = v, kv_pos = [], kv_diff = nv_junk st k\<rparr>"
      using None by (simp add: chain_find_append)
    note upd = set_chain_update(1) [OF ok d ks f] set_chain_update(2) [OF ok d ks f, of k']
    then have s: "nv_ok ?s" "stored ?s k' = (if k' = k then Some v else stored st k')"
      using fk by (simp_all add: nv_ok_def stored_def chain_def)
    have "nv_put k v st0 = nv_write k v ?s"
      using None by (simp add: nv_put_def st_def [symmetric] Let_def)
    then show ?thesis
      using s eq same_entriesD [OF write_same [OF s(1), of k v]] by simp
  next
    case (Some cur)
    let ?s = "set_chain k (chain_upd k (\<lambda>p. p\<lparr>kv_val := v\<rparr>) (chain st k)) st"
    have s: "nv_ok ?s" "stored ?s k' = (if k' = k then Some v else stored st k')"
      using chain_upd_entries(1) [OF ok, of "\<lambda>p. p\<lparr>kv_val := v\<rparr>" k]
        chain_upd_entries(2) [OF ok, of "\<lambda>p. p\<lparr>kv_val := v\<rparr>" k k'] Some by simp_all
    have "nv_put k v st0 = nv_write k v (snd (nv_mark (kv_pos cur) ?s))"
      using Some by (simp add: nv_put_def st_def [symmetric] Let_def)
    moreover note m = same_entriesD [OF mark_same [OF s(1), of "kv_pos cur"]]
    ultimately show ?thesis
      using s eq same_entriesD [OF write_same [OF m(1), of k v]] m(2) by simp
  qed
qed

lemma set_chain_cons:
  assumes ok: "nv_ok st" and "chain_find k (chain st k) = None" and p: "kv_key p = k"
  shows "nv_ok (set_chain k (p # chain st k) st)"
    and "stored (set_chain k (p # chain st k) st) k' = (if k' = k then Some (kv_val p) else stored st k')"
proof -
  have d: "distinct (map kv_key (p # chain st k))"
    and ks: "kv_key ` set (p # chain st k) \<subseteq> insert k (kv_key ` set (chain st k))"
    and f: "\<And>x. x \<noteq> k \<Longrightarrow> chain_find x (p # chain st k) = chain_find x (chain st k)"
    using assms chain_distinct [OF ok, of k] by (auto simp: chain_find_None)
  show "nv_ok (set_chain k (p # chain st k) st)" by (rule set_chain_update(1) [OF ok d ks f])
  show "stored (set_chain k (p # chain st k) st) k' = (if k' = k then Some (kv_val p) else stored st k')"
    using set_chain_update(2) [OF ok d ks f, of k'] p by simp
qed

lemma append_stored:
  assumes ok: "nv_ok st"
  shows "nv_ok (snd (nv_append k v st))
    \<and> stored (snd (nv_append k v st)) k' =
        (if k' = k then Some (case stored st k of None \<Rightarrow> v | Some old \<Rightarrow> old @ '':'' @ v) else stored st k')"
proof (cases "chain_find k (chain st k)")
  case None
  let ?p = "\<lparr>kv_key = k, kv_val = v, kv_pos = [], kv_diff = nv_junk st k\<rparr>"
  let ?s = "(set_chain k (?p # chain st k) st)\<lparr>nv_numEl := nv_numEl st + 1\<rparr>"
  have s: "nv_ok ?s" "stored ?s k' = (if k' = k then Some v else stored st k')"
    using set_chain_cons(1) [OF ok None, of ?p] set_chain_cons(2) [OF ok None, of ?p k']
    by (simp_all add: nv_ok_def stored_def chain_def)
  then show ?thesis
    using None same_entriesD [OF write_same [OF s(1), of k v]]
    by (simp add: nv_append_def stored_def [of st k])
next
  case (Some cur)
  let ?g = "\<lambda>p. p\<lparr>kv_val := kv_val p @ '':'' @ v\<rparr>"
  let ?s = "set_chain k (chain_upd k ?g (chain st k)) st"
  have s: "nv_ok ?s" "stored ?s k' = (if k' = k then Some (kv_val cur @ '':'' @ v) else stored st k')"
    using chain_upd_entries(1) [OF ok, of ?g k] chain_upd_entries(2) [OF ok, of ?g k k'] Some by simp_all
  then show ?thesis
    using Some same_entriesD [OF writeAppend_same [OF s(1), of k v]]
    by (simp add: nv_append_def stored_def [of st k])
qed

text \<open>\<open>remove\<close> unlinks the first pair with the key from its chain, wherever it stands.\<close>

lemma set_chain_del:
  assumes ok: "nv_ok st"
  shows "nv_ok (set_chain k (chain_del k (chain st k)) st)"
    and "stored (set_chain k (chain_del k (chain st k)) st) k' = (if k' = k then None else stored st k')"
proof -
  note dk = chain_distinct [OF ok, of k]
  have d: "distinct (map kv_key (chain_del k (chain st k)))"
    using dk by (simp add: chain_del_keys)
  have ks: "kv_key ` set (chain_del k (chain st k)) \<subseteq> insert k (kv_key ` set (chain st k))"
    using arg_cong [OF chain_del_keys [of k "chain st k"], of set] set_remove1_subset [of k "map kv_key (chain st k)"]
    by auto
  have f: "\<And>x. x \<noteq> k \<Longrightarrow> chain_find x (chain_del k (chain st k)) = chain_find x (chain st k)"
    using chain_find_del [OF dk] by simp
  show "nv_ok (set_chain k (chain_del k (chain st k)) st)" by (rule set_chain_update(1) [OF ok d ks f])
  show "stored (set_chain k (chain_del k (chain st k)) st) k' = (if k' = k then None else stored st k')"
    using set_chain_update(2) [OF ok d ks f, of k'] chain_find_del [OF dk, of k k] by simp
qed

lemma remove_split:
  "stored st k = None \<Longrightarrow> nv_remove k st = (-1, st)"
  "stored st k \<noteq> None \<Longrightarrow>
     nv_remove k st = finish_remove k (kv_pos (hd (chain st k)))
       ((set_chain k (chain_del k (chain st k)) st)\<lparr>nv_numEl := nv_numEl st - 1\<rparr>)"
  by (auto simp: nv_remove_def stored_def split: list.splits if_splits)

lemma remove_stored:
  assumes ok: "nv_ok st"
  shows "nv_ok (snd (nv_remove k st))
    \<and> stored (snd (nv_remove k st)) k' = (if k' = k then None else stored st k')"
proof (cases "stored st k = None")
  case True
  with ok show ?thesis by (simp add: remove_split)
next
  case False
  let ?s = "(set_chain k (chain_del k (chain st k)) st)\<lparr>nv_numEl := nv_numEl st - 1\<rparr>"
  have s: "nv_ok ?s" "stored ?s k' = (if k' = k then None else stored st k')"
    using set_chain_del(1) [OF ok, of k] set_chain_del(2) [OF ok, of k k']
    by (simp_all add: nv_ok_def stored_def chain_def)
  then show ?thesis
    using same_entriesD [OF finish_remove_same [OF s(1), of k "kv_pos (hd (chain st k))"]]
    by (simp add: remove_split(2) [OF False])
qed

section \<open>The table as a map\<close>

text \<open>What the users of a table rely on: each operation keeps the representation invariant and has
  the effect of a map update on the contents.\<close>

locale kv_table =
  fixes put :: "string \<Rightarrow> string \<Rightarrow> 's \<Rightarrow> 's"
    and app :: "string \<Rightarrow> string \<Rightarrow> 's \<Rightarrow> 's"
    and del :: "string \<Rightarrow> 's \<Rightarrow> 's"
    and contents :: "'s \<Rightarrow> string \<Rightarrow> string option"
    and ok :: "'s \<Rightarrow> bool"
  assumes put_ok: "ok s \<Longrightarrow> ok (put k v s)"
    and app_ok: "ok s \<Longrightarrow> ok (app k v s)"
    and del_ok: "ok s \<Longrightarrow> ok (del k s)"
    and contents_put: "ok s \<Longrightarrow> contents (put k v s) = (contents s)(k \<mapsto> v)"
    and contents_app: "ok s \<Longrightarrow> contents (app k v s) =
      (contents s)(k \<mapsto> (case contents s k of None \<Rightarrow> v | Some old \<Rightarrow> old @ '':'' @ v))"
    and contents_del: "ok s \<Longrightarrow> contents (del k s) = (contents s)(k := None)"
begin

lemma put_put_commute:
  assumes "ok s" and "k \<noteq> k'"
  shows "contents (put k v (put k' v' s)) = contents (put k' v' (put k v s))"
  using assms by (simp add: contents_put put_ok fun_upd_twist)

lemma del_put:
  assumes "ok s" and "contents s k = None"
  shows "contents (del k (put k v s)) = contents s"
  using assms by (simp add: contents_put contents_del put_ok fun_upd_idem)

lemma run_refines:
  assumes step: "\<And>x s. x \<in> set xs \<Longrightarrow> ok s \<Longrightarrow> ok (f x s) \<and> contents (f x s) = g x (contents s)"
    and "ok s"
  shows "ok (fold f xs s) \<and> contents (fold f xs s) = fold g xs (contents s)"
  using assms by (induction xs arbitrary: s) simp_all

end

interpretation nv: kv_table "\<lambda>k v st. snd (nv_put k v st)" "\<lambda>k v st. snd (nv_append k v st)"
  "\<lambda>k st. snd (nv_remove k st)" stored nv_ok
  by unfold_locales (auto simp: put_stored append_stored remove_stored fun_eq_iff)

datatype kv_op = Put string string | Append string string | Remove string

fun nv_step :: "kv_op \<Rightarrow> novoht \<Rightarrow> novoht" where
  "nv_step (Put k v) st = snd (nv_put k v st)"
| "nv_step (Append k v) st = snd (nv_append k v st)"
| "nv_step (Remove k) st = snd (nv_remove k st)"

fun map_step :: "kv_op \<Rightarrow> (string \<Rightarrow> string option) \<Rightarrow> string \<Rightarrow> string option" where
  "map_step (Put k v) m = m(k \<mapsto> v)"
| "map_step (Append k v) m = m(k \<mapsto> (case m k of None \<Rightarrow> v | Some old \<Rightarrow> old @ '':'' @ v))"
| "map_step (Remove k) m = m(k := None)"

lemma nv_step_refines: "nv_ok st \<Longrightarrow> nv_ok (nv_step x st) \<and> stored (nv_step x st) = map_step x (stored st)"
  by (cases x) (simp_all add: nv.contents_put nv.contents_app nv.contents_del nv.put_ok nv.app_ok nv.del_ok)

section \<open>Replaying the log\<close>

definition log_clean :: "string \<Rightarrow> bool" where
  "log_clean s \<longleftrightarrow> length s < 300 \<and> list_all (\<lambda>c. c \<noteq> CHR 0x00 \<and> c \<noteq> CHR 0x09 \<and> c \<noteq> CHR 0xFF) s"

lemma c_str_clean: "log_clean s \<Longrightarrow> c_str s = s"
  by (simp add: c_str_def log_clean_def takeWhile_eq_all_conv list_all_iff)

lemma readTabString_clean:
  assumes "log_clean s" and "f_data f = pre @ s @ CHR 0x09 # rest" and "f_pos f = length pre" and "f_readable f"
  shows "readTabString f = Inr (Some s, f\<lparr>f_pos := length pre + length s + 1\<rparr>)"
proof -
  have tw: "takeWhile (\<lambda>c. c \<noteq> CHR 0x09 \<and> c \<noteq> CHR 0xFF) (s @ CHR 0x09 # rest) = s"
    using assms(1) by (subst takeWhile_append2) (auto simp: log_clean_def list_all_iff)
  show ?thesis
    using assms c_str_clean [OF assms(1)] by (simp add: readTabString_def Let_def tw log_clean_def)
qed

lemma readTabString_end: "length (f_data f) - f_pos f = 0 \<Longrightarrow> readTabString f = Inr (None, f)"
  by (simp add: readTabString_def Let_def)

lemma put_file: "nv_dbfile st \<noteq> None \<Longrightarrow> nv_dbfile (snd (nv_put k v st)) \<noteq> None"
  by (auto simp: nv_put_def nv_write_def nv_mark_def nv_resize_def Let_def split: option.splits)

lemma readFile_loop_end:
  assumes "file_left st = 0"
  shows "readFile_loop st = Inr st"
  using assms readTabString_end
  by (subst readFile_loop.simps) (auto simp: file_left_def split: option.splits)

lemma readFile_loop_first:
  assumes "nv_dbfile st = Some \<lparr>f_data = log_record k v @ rest, f_pos = 0, f_readable = True\<rparr>"
    and "log_clean k" and "log_clean v" and "k = [] \<or> hd k \<noteq> CHR ''~''"
  shows "\<exists>f. readFile_loop st = Inr (snd (nv_put k v (st\<lparr>nv_dbfile := Some f\<rparr>)))"
proof -
  let ?f = "\<lparr>f_data = log_record k v @ rest, f_pos = 0, f_readable = True\<rparr> :: cfile"
  let ?f1 = "?f\<lparr>f_pos := length k + 1\<rparr>" and ?f2 = "?f\<lparr>f_pos := length k + 1 + length v + 1\<rparr>"
  have d: "f_data ?f = [] @ k @ CHR 0x09 # v @ CHR 0x09 # rest"
      "f_data ?f1 = (k @ [CHR 0x09]) @ v @ CHR 0x09 # rest"
    using assms(2,3) by (simp_all add: log_record_def c_str_clean)
  have "readTabString ?f = Inr (Some k, ?f1)" "readTabString ?f1 = Inr (Some v, ?f2)"
    using readTabString_clean [OF assms(2) d(1)] readTabString_clean [OF assms(3) d(2)] by simp_all
  moreover have "readFile_loop (snd (nv_put k v (st\<lparr>nv_dbfile := Some ?f2\<rparr>))) =
      Inr (snd (nv_put k v (st\<lparr>nv_dbfile := Some ?f2\<rparr>)))"
    by (rule readFile_loop_end) (rule put_file_left)
  ultimately have "readFile_loop st = Inr (snd (nv_put k v (st\<lparr>nv_dbfile := Some ?f2\<rparr>)))"
    using assms(1,4) by (subst readFile_loop.simps) auto
  then show ?thesis by blast
qed

lemma writeFile_same: "nv_ok st \<Longrightarrow> same_entries st (snd (nv_writeFile st))"
  by (rule same_entries_kvpairs) (simp_all add: nv_writeFile_def split: option.splits)

section \<open>Compacting the log\<close>

definition logged :: "kvpair \<Rightarrow> bool" where
  "logged p \<longleftrightarrow> kv_key p \<noteq> [] \<and> kv_val p \<noteq> [] \<and> \<not> kv_diff p"

definition log_of :: "kvpair list \<Rightarrow> string" where
  "log_of ps = concat (map (\<lambda>p. log_record (kv_key p) (kv_val p)) (filter logged ps))"

lemma fput_end: "f_pos f = length (f_data f) \<Longrightarrow> fput s f = f\<lparr>f_data := f_data f @ s, f_pos := length (f_data f) + length s\<rparr>"
  by (simp add: fput_def Let_def)

lemma rewrite_chain_spec:
  assumes "f_pos f = length (f_data f)"
  shows "\<exists>ps' f'. rewrite_chain ps f = (ps', f')
    \<and> map (\<lambda>p. (kv_key p, kv_val p)) ps' = map (\<lambda>p. (kv_key p, kv_val p)) ps
    \<and> f_data f' = f_data f @ log_of ps \<and> f_pos f' = length (f_data f')"
  using assms
proof (induction ps arbitrary: f)
  case (Cons p ps)
  define g where "g = (if logged p then fput (log_record (kv_key p) (kv_val p)) f else f)"
  have g: "f_pos g = length (f_data g)" "f_data g @ log_of ps = f_data f @ log_of (p # ps)"
    using Cons.prems by (auto simp: g_def fput_end log_of_def)
  from Cons.IH [OF g(1)] g(2) show ?case
    by (auto simp: g_def logged_def Let_def split: if_splits)
qed (simp add: log_of_def)

lemma rewrite_chains_spec:
  assumes "f_pos f = length (f_data f)"
  shows "\<exists>cs' f'. rewrite_chains cs f = (cs', f')
    \<and> map (map (\<lambda>p. (kv_key p, kv_val p))) cs' = map (map (\<lambda>p. (kv_key p, kv_val p))) cs
    \<and> f_data f' = f_data f @ log_of (concat cs)"
proof -
  have "\<exists>cs' f'. rewrite_chains cs f = (cs', f')
    \<and> map (map (\<lambda>p. (kv_key p, kv_val p))) cs' = map (map (\<lambda>p. (kv_key p, kv_val p))) cs
    \<and> f_data f' = f_data f @ log_of (concat cs) \<and> f_pos f' = length (f_data f')"
    using assms
  proof (induction cs arbitrary: f)
    case (Cons c cs)
    obtain c' f' where c: "rewrite_chain c f = (c', f')"
        "map (\<lambda>p. (kv_key p, kv_val p)) c' = map (\<lambda>p. (kv_key p, kv_val p)) c"
        "f_data f' = f_data f @ log_of c" "f_pos f' = length (f_data f')"
      using rewrite_chain_spec [OF Cons.prems, of c] by blast
    from Cons.IH [OF c(4)] show ?case using c by (auto simp: log_of_def)
  qed (simp add: log_of_def)
  then show ?thesis by blast
qed

lemma chain_find_values:
  "map (\<lambda>p. (kv_key p, kv_val p)) c' = map (\<lambda>p. (kv_key p, kv_val p)) c \<Longrightarrow>
     map_option kv_val (chain_find k c') = map_option kv_val (chain_find k c)"
proof (induction c arbitrary: c')
  case (Cons p c)
  from Cons.prems obtain q d where c': "c' = q # d" "kv_key q = kv_key p" "kv_val q = kv_val p"
      "map (\<lambda>p. (kv_key p, kv_val p)) d = map (\<lambda>p. (kv_key p, kv_val p)) c"
    by (auto simp: map_eq_Cons_conv)
  show ?case using Cons.IH [OF c'(4)] c'(2,3) by (simp add: c'(1))
qed simp

lemma same_values:
  assumes "nv_ok st" and m: "map (map (\<lambda>p. (kv_key p, kv_val p))) t = map (map (\<lambda>p. (kv_key p, kv_val p))) (nv_kvpairs st)"
    and st': "nv_kvpairs st' = t" "nv_size st' = nv_size st"
  shows "same_entries st st'"
proof -
  let ?n = "nv_size st" and ?s = "nv_kvpairs st"
  have len: "length t = length ?s" using map_eq_imp_length_eq [OF m] .
  have nth: "map (\<lambda>p. (kv_key p, kv_val p)) (t ! i) = map (\<lambda>p. (kv_key p, kv_val p)) (?s ! i)" if "i < ?n" for i
    using arg_cong [OF m, of "\<lambda>l. l ! i"] that len assms(1) by (simp add: nv_ok_def chains_ok_def)
  have keys: "map kv_key (t ! i) = map kv_key (?s ! i)" if "i < ?n" for i
    using arg_cong [OF nth [OF that], of "map fst"] by (simp add: comp_def)
  have "\<forall>p \<in> set (t ! i). slot_of ?n (kv_key p) = i" if "i < ?n" for i
  proof -
    have "kv_key ` set (t ! i) = kv_key ` set (?s ! i)" using arg_cong [OF keys [OF that], of set] by simp
    moreover have "\<forall>k \<in> kv_key ` set (?s ! i). slot_of ?n k = i"
      using assms(1) that by (simp add: nv_ok_def chains_ok_def)
    ultimately show ?thesis by (metis imageI)
  qed
  then have "chains_ok ?n t"
    using assms(1) keys len by (simp add: nv_ok_def chains_ok_def)
  moreover have "stored st' k = stored st k" for k
    using chain_find_values [OF nth] slot_less [of ?n k] assms(1) st'
    by (simp add: stored_def chain_def nv_ok_def chains_ok_def)
  ultimately show ?thesis using st' by (simp add: same_entries_def nv_ok_def)
qed

lemma merge_unreadable:
  assumes "nv_dbfile st = Some db" and "\<not> f_readable db" and "nv_swapFile st \<noteq> None"
  shows "nv_merge st = Inr (st\<lparr>nv_dbfile := nv_swapFile st, nv_rewriting := False\<rparr>)"
proof -
  have "merge_loop (fset_pos 0 db) st = Inr (fset_pos 0 db, st)"
    using assms by (subst merge_loop.simps) (auto simp: readTabString_def fset_pos_def Let_def)
  then show ?thesis using assms(1) by (simp add: nv_merge_def)
qed

lemma rewriteFile_spec:
  assumes "nv_ok st" and "nv_dbfile st = Some db" and "\<not> f_readable db" and "nv_swapFile st = Some sw"
  shows "\<exists>st' g. nv_rewriteFile st = Inr st' \<and> same_entries st st' \<and> \<not> nv_rewriting st'
    \<and> nv_dbfile st' = Some g \<and> f_data g = log_of (concat (nv_kvpairs st))"
proof -
  have 0: "f_pos (sw\<lparr>f_data := [], f_pos := 0\<rparr>) = length (f_data (sw\<lparr>f_data := [], f_pos := 0\<rparr>))" by simp
  obtain t g where r: "rewrite_chains (nv_kvpairs st) (sw\<lparr>f_data := [], f_pos := 0\<rparr>) = (t, g)"
      "map (map (\<lambda>p. (kv_key p, kv_val p))) t = map (map (\<lambda>p. (kv_key p, kv_val p))) (nv_kvpairs st)"
      "f_data g = log_of (concat (nv_kvpairs st))"
    using rewrite_chains_spec [OF 0, of "nv_kvpairs st"] by auto
  let ?s = "st\<lparr>nv_kvpairs := t, nv_swapFile := Some g\<rparr>"
  have "nv_merge ?s = Inr (?s\<lparr>nv_dbfile := Some g, nv_rewriting := False\<rparr>)"
    using merge_unreadable [of ?s db] assms by simp
  moreover have "same_entries st (?s\<lparr>nv_dbfile := Some g, nv_rewriting := False\<rparr>)"
    by (rule same_values [OF assms(1) r(2)]) simp_all
  ultimately show ?thesis
    using r assms(4) by (simp add: nv_rewriteFile_def)
qed

lemma writeFileFG_spec:
  assumes "nv_ok st" and "nv_dbfile st = Some f" and "\<not> nv_rewriting st" and "nv_thread_rc st = 0"
  shows "\<exists>st' g. nv_writeFileFG st = Inr (0, st') \<and> same_entries st st' \<and> \<not> nv_rewriting st'
    \<and> nv_dbfile st' = Some g \<and> f_data g = log_of (concat (nv_kvpairs st))"
proof -
  define s where "s = snd (nv_writeFile st)"
  have w: "nv_writeFile st = (0, s)" "nv_rewriting s" "nv_swapFile s = Some f" "nv_kvpairs s = nv_kvpairs st"
    and db: "nv_dbfile s = Some \<lparr>f_data = [], f_pos = 0, f_readable = False\<rparr>"
    using assms by (simp_all add: s_def nv_writeFile_def)
  note same = writeFile_same [OF assms(1), folded s_def]
  have "nv_ok s" using same by (simp add: same_entries_def)
  from rewriteFile_spec [OF this db _ w(3)] obtain st' g
    where r: "nv_rewriteFile s = Inr st'" "same_entries s st'" "\<not> nv_rewriting st'" "nv_dbfile st' = Some g"
      "f_data g = log_of (concat (nv_kvpairs st))"
    using w(4) by auto
  moreover have "nv_writeFileFG st = Inr (0, st')"
    using w r(1) by (simp add: nv_writeFileFG_def)
  ultimately show ?thesis using same_entries_trans [OF same r(2)] by blast
qed

section \<open>Properties\<close>


definition small_table :: novoht where
  "small_table = \<lparr>nv_size = 1, nv_kvpairs = [[]], nv_numEl = 0, nv_nRem = 0, nv_magicNumber = 100,
     nv_resizeNum = (3, -1), nv_filename = ''zht.log'', nv_dbfile = Some \<lparr>f_data = [], f_pos = 0, f_readable = True\<rparr>,
     nv_swapFile = None, nv_rewriting = False, nv_thread_rc = 0, nv_junk = (\<lambda>_. False)\<rparr>"

lemma slot_of_one: "slot_of (Suc 0) k = 0"
  by (simp add: slot_of_def)

lemma small_table_ok: "nv_ok small_table"
  by (simp add: nv_ok_def chains_ok_def small_table_def)

lemma small_table_empty: "stored small_table = (\<lambda>_. None)"
  by (rule ext) (simp add: stored_def chain_def small_table_def slot_of_def)


text \<open>\<open>remove\<close> returns -1 exactly when the key is not in the table (\<open>pthread_create\<close>
  returns no negative code), and then changes nothing.\<close>

theorem remove_reports_absence:
  assumes "0 \<le> nv_thread_rc st"
  shows "(fst (nv_remove k st) = -1 \<longleftrightarrow> stored st k = None)
    \<and> (stored st k = None \<longrightarrow> snd (nv_remove k st) = st)"
proof (cases "stored st k = None")
  case True
  then show ?thesis by (simp add: remove_split(1))
next
  case False
  have "fst (finish_remove k ps s) \<noteq> -1" if "0 \<le> nv_thread_rc s" for ps s
    using that
    by (auto simp: finish_remove_def nv_mark_def nv_logrm_def nv_writeFile_def no_file_rc_def Let_def split: option.splits)
  then show ?thesis
    using assms False by (auto simp: remove_split(2) [OF False] set_chain_def)
qed

theorem remove_reports_absence_witness: "fst (nv_remove ''a'' small_table) = -1"
  using remove_reports_absence [of small_table "''a''"] by (simp add: small_table_empty) (simp add: small_table_def)



text \<open>Removing a pair that is not the head of its chain marks the log records of the
  head instead of its own: with \<open>a\<close> and \<open>b\<close> in one chain, removing \<open>b\<close> crosses out the record of
  \<open>a\<close> in the log and leaves that of \<open>b\<close> live.\<close>

lemma remove_marks_head_of_chain:
  "map_option f_data (nv_dbfile (fold nv_step [Put ''a'' ''1'', Put ''b'' ''2''] small_table)) =
     Some (log_record ''a'' ''1'' @ log_record ''b'' ''2'')
   \<and> map_option f_data (nv_dbfile (fold nv_step [Put ''a'' ''1'', Put ''b'' ''2'', Remove ''b''] small_table)) =
     Some (log_record ''~'' ''1'' @ log_record ''b'' ''2'')"
  by (simp add: small_table_def nv_put_def nv_remove_def finish_remove_def nv_write_def nv_mark_def chain_def
      set_chain_def slot_of_one fput_def fseek_end_def fset_pos_def log_record_def c_str_def Let_def
      resize_due_def f32_of_nat_def f32_mul_def f32_ge_def f32_round_def nbits.simps)

text \<open>\<open>resize\<close> keeps the contents but forgets how many there are: after it, \<open>getSize\<close>
  is 0 whatever the table holds.\<close>

theorem resize_keeps_contents_not_count:
  assumes "nv_ok st" and "0 < n"
  shows "nv_ok (nv_resize n st) \<and> stored (nv_resize n st) = stored st
    \<and> nv_size (nv_resize n st) = n \<and> nv_numEl (nv_resize n st) = 0"
  using resize_same [OF assms] by (simp add: same_entries_def fun_eq_iff nv_resize_def)

theorem resize_keeps_contents_not_count_witness:
  "stored (nv_resize 2 (nv_step (Put ''a'' ''1'') small_table)) ''a'' = Some ''1''
   \<and> nv_numEl (nv_resize 2 (nv_step (Put ''a'' ''1'') small_table)) = 0"
proof -
  have ok: "nv_ok (nv_step (Put ''a'' ''1'') small_table)"
    and s: "stored (nv_step (Put ''a'' ''1'') small_table) ''a'' = Some ''1''"
    using nv_step_refines [OF small_table_ok, of "Put ''a'' ''1''"] by simp_all
  show ?thesis using resize_keeps_contents_not_count [OF ok, of 2] s by simp
qed

text \<open>A compaction that is joined (\<open>writeFileFG\<close>) returns 0, keeps the contents and
  leaves in the log one record for each pair whose key and value are not empty and whose flag \<open>diff\<close>
  is not set, in the order of the chains, and nothing else.\<close>

lemma writeFileFG_compacts_log:
  assumes "nv_ok st" and "nv_dbfile st = Some f" and "\<not> nv_rewriting st" and "nv_thread_rc st = 0"
  shows "\<exists>st' g. nv_writeFileFG st = Inr (0, st') \<and> nv_ok st' \<and> stored st' = stored st
    \<and> \<not> nv_rewriting st' \<and> nv_dbfile st' = Some g \<and> f_data g = log_of (concat (nv_kvpairs st))"
  using writeFileFG_spec [OF assms] by (auto simp: same_entries_def fun_eq_iff)

lemma writeFileFG_compacts_log_witness:
  "\<exists>st' g. nv_writeFileFG (nv_step (Put ''a'' ''1'') (nv_step (Put ''a'' ''0'') small_table)) = Inr (0, st')
     \<and> nv_dbfile st' = Some g \<and> f_data g = log_record ''a'' ''1''"
proof -
  let ?st = "nv_step (Put ''a'' ''1'') (nv_step (Put ''a'' ''0'') small_table)"
  have ok: "nv_ok ?st" using nv_step_refines small_table_ok by blast
  have "\<exists>f. nv_dbfile ?st = Some f" "\<not> nv_rewriting ?st" "nv_thread_rc ?st = 0"
      "log_of (concat (nv_kvpairs ?st)) = log_record ''a'' ''1''"
    by (simp_all add: small_table_def nv_put_def nv_write_def nv_mark_def chain_def
      set_chain_def slot_of_one fput_def fseek_end_def fset_pos_def log_of_def logged_def Let_def
      resize_due_def f32_of_nat_def f32_mul_def f32_ge_def f32_round_def nbits.simps)
  then show ?thesis using writeFileFG_compacts_log [OF ok] by force
qed

end
