(* ===== verification/Zpack.thy ===== *)
theory Zpack
  imports Wire
begin

text \<open>
  The request packet of ZHT (\<^verbatim>\<open>ZHT/src/ZHTUtil.cpp\<close>, \<^verbatim>\<open>ZHT/src/zpack.proto\<close>), the codes of
  \<^verbatim>\<open>ZHT/src/Const.cpp\<close> and the choice of the server for a key. Every field of the packet is
  optional; the getter of an absent field gives the default of its type.
\<close>

section \<open>Codes\<close>

definition "ZSC_OPC_LOOKUP = ''001''"
definition "ZSC_OPC_REMOVE = ''002''"
definition "ZSC_OPC_INSERT = ''003''"
definition "ZSC_OPC_APPEND = ''004''"
definition "ZSC_OPC_CMPSWP = ''005''"
definition "ZSC_OPC_STCHGCB = ''006''"
definition "ZSC_REC_EMPTYKEY = ''-01''"
definition "ZSC_REC_CLTFAIL = ''-02''"
definition "ZSC_REC_SRVEXP = ''-04''"
definition "ZSC_REC_SCCBPOLLTRY = ''-91''"
definition "ZSC_REC_NONEXISTKEY = ''-92''"
definition "ZSC_REC_UOPC = ''-98''"
definition "ZSC_REC_SUCC = ''000''"
definition ZSI_REC_CLTFAIL :: int where "ZSI_REC_CLTFAIL = -2"

lemmas zsc_defs = ZSC_OPC_LOOKUP_def ZSC_OPC_REMOVE_def ZSC_OPC_INSERT_def ZSC_OPC_APPEND_def
  ZSC_OPC_CMPSWP_def ZSC_OPC_STCHGCB_def ZSC_REC_EMPTYKEY_def ZSC_REC_CLTFAIL_def ZSC_REC_SRVEXP_def
  ZSC_REC_SCCBPOLLTRY_def ZSC_REC_NONEXISTKEY_def ZSC_REC_UOPC_def ZSC_REC_SUCC_def

text \<open>\<open>Const::toInt\<close>: \<open>atoi\<close> of the printed argument (a number that does not fit is undefined
  there; every status code fits).\<close>

definition toInt :: "string \<Rightarrow> int" where
  "toInt s = str_to_num_int (c_str s)"

section \<open>The packet\<close>

record zpack =
  z_opcode :: "string option"
  z_key :: "string option"
  z_val :: "string option"
  z_newval :: "string option"
  z_lease :: "string option"
  z_valnull :: "bool option"
  z_newvalnull :: "bool option"
  z_replicanum :: "int option"

definition default_zpack :: zpack where
  "default_zpack = \<lparr>z_opcode = None, z_key = None, z_val = None, z_newval = None, z_lease = None,
     z_valnull = None, z_newvalnull = None, z_replicanum = None\<rparr>"

definition bytes_of :: "string option \<Rightarrow> string" where
  "bytes_of x = (case x of None \<Rightarrow> [] | Some s \<Rightarrow> s)"

definition flag_of :: "bool option \<Rightarrow> bool" where
  "flag_of x = (case x of None \<Rightarrow> False | Some b \<Rightarrow> b)"

lemma field_of_simps [simp]:
  "bytes_of (Some s) = s" "bytes_of None = []" "flag_of (Some b) = b" "flag_of None = False"
  by (simp_all add: bytes_of_def flag_of_def)

definition put_str :: "string \<Rightarrow> string option \<Rightarrow> string" where
  "put_str none x = (case x of None \<Rightarrow> none | Some s \<Rightarrow> s)"

definition zpack_to_str :: "zpack \<Rightarrow> string" where
  "zpack_to_str z =
     put_str ''noopcode'' (z_opcode z) @ ''//''
     @ put_str ''nokey'' (z_key z) @ ''//''
     @ put_str ''noval'' (z_val z) @ ''//''
     @ put_str ''nonewval'' (z_newval z) @ ''//''
     @ put_str ''nolease'' (z_lease z) @ ''//''
     @ put_str ''novaln'' (map_option bool_to_str (z_valnull z)) @ ''//''
     @ put_str ''nonewvaln'' (map_option bool_to_str (z_newvalnull z)) @ ''//''
     @ put_str ''noreplicanum'' (map_option num_to_str (z_replicanum z)) @ ''//''"

definition get_str :: "string \<Rightarrow> string \<Rightarrow> string option" where
  "get_str none s = (if s = none then None else Some s)"

definition str_to_zpack :: "string \<Rightarrow> zpack" where
  "str_to_zpack str =
     (if str = [] then default_zpack
      else (let vec = zht_tokenize str ''//'' in
        if length vec < 8 then default_zpack
        else \<lparr>z_opcode = get_str ''noopcode'' (vec ! 0),
              z_key = get_str ''nokey'' (vec ! 1),
              z_val = get_str ''noval'' (vec ! 2),
              z_newval = get_str ''nonewval'' (vec ! 3),
              z_lease = get_str ''nolease'' (vec ! 4),
              z_valnull = map_option str_to_bool (get_str ''novaln'' (vec ! 5)),
              z_newvalnull = map_option str_to_bool (get_str ''nonewvaln'' (vec ! 6)),
              z_replicanum = map_option str_to_num_int (get_str ''noreplicanum'' (vec ! 7))\<rparr>))"

section \<open>Choosing the server\<close>

text \<open>\<open>HashUtil::genHash\<close> walks the C string; the sum wraps at 64 bits.\<close>

definition genHash :: "string \<Rightarrow> 64 word" where
  "genHash s = foldl (\<lambda>hash c. char_sext c + push_bit 6 hash + push_bit 16 hash - hash) 0 (c_str s)"

text \<open>A neighbour is a host name and the text of its port; the socket is not opened yet.\<close>

record host_entity =
  he_sock :: int
  he_host :: string
  he_port :: int

definition buildHostEntity :: "string \<Rightarrow> int \<Rightarrow> host_entity" where
  "buildHostEntity host port = \<lparr>he_sock = -1, he_host = host, he_port = port\<rparr>"

definition server_index :: "nat \<Rightarrow> string \<Rightarrow> nat" where
  "server_index n key = unat (genHash key) mod n"

definition getHostEntityByKey :: "(string \<times> string) list \<Rightarrow> string \<Rightarrow> host_entity res" where
  "getHostEntityByKey neighbors msg =
     (let z = str_to_zpack msg in
      if neighbors = [] then Inl Div_By_Zero
      else bind_res (vec_at neighbors (server_index (length neighbors) (bytes_of (z_key z))))
             (\<lambda>ce. Inr (buildHostEntity (fst ce) (toInt (snd ce)))))"

section \<open>Round trip\<close>

definition zfield_ok :: "string \<Rightarrow> string option \<Rightarrow> bool" where
  "zfield_ok none x = (case x of None \<Rightarrow> True | Some s \<Rightarrow> s \<noteq> none \<and> field_ok (CHR 0x00 # ''/'') s)"

definition zpack_ok :: "zpack \<Rightarrow> bool" where
  "zpack_ok z \<longleftrightarrow>
     zfield_ok ''noopcode'' (z_opcode z) \<and> zfield_ok ''nokey'' (z_key z)
     \<and> zfield_ok ''noval'' (z_val z) \<and> zfield_ok ''nonewval'' (z_newval z)
     \<and> zfield_ok ''nolease'' (z_lease z)
     \<and> (case z_replicanum z of None \<Rightarrow> True | Some i \<Rightarrow> is_int i)"

definition zpack_fields :: "zpack \<Rightarrow> string list" where
  "zpack_fields z =
     [put_str ''noopcode'' (z_opcode z), put_str ''nokey'' (z_key z), put_str ''noval'' (z_val z),
      put_str ''nonewval'' (z_newval z), put_str ''nolease'' (z_lease z),
      put_str ''novaln'' (map_option bool_to_str (z_valnull z)),
      put_str ''nonewvaln'' (map_option bool_to_str (z_newvalnull z)),
      put_str ''noreplicanum'' (map_option num_to_str (z_replicanum z))]"

lemma zpack_to_str_fields: "zpack_to_str z = concat (map (\<lambda>x. x @ ''//'') (zpack_fields z))"
  by (simp add: zpack_to_str_def zpack_fields_def)

lemma zht_tokenize_fields:
  "\<forall>x \<in> set xs. clean d x \<Longrightarrow> zht_tokenize (concat (map (\<lambda>x. x @ [d, d]) xs)) [d, d] = xs"
  using tokens_sep_fields_end [of xs d] by (simp add: zht_tokenize_tokens)

lemma clean_put_str:
  "zfield_ok none x \<Longrightarrow> clean CHR ''/'' none \<Longrightarrow> clean CHR ''/'' (put_str none x)"
  by (cases x) (auto simp: put_str_def zfield_ok_def intro: field_ok_clean)

lemma clean_put_num:
  "clean CHR ''/'' none \<Longrightarrow> clean CHR ''/'' (put_str none (map_option num_to_str x))"
  "clean CHR ''/'' none \<Longrightarrow> clean CHR ''/'' (put_str none (map_option bool_to_str y))"
  by (cases x, simp_all add: put_str_def is_digit_def) (cases y, simp_all add: put_str_def bool_to_str_def is_digit_def)

lemma clean_lit: "s \<noteq> [] \<Longrightarrow> d \<notin> set s \<Longrightarrow> clean d s"
  by (simp add: clean_def)

lemma zpack_fields_clean: "zpack_ok z \<Longrightarrow> \<forall>x \<in> set (zpack_fields z). clean CHR ''/'' x"
  by (simp add: zpack_fields_def zpack_ok_def clean_put_str clean_put_num clean_lit)

lemma get_put_str: "zfield_ok none x \<Longrightarrow> get_str none (put_str none x) = x"
  by (cases x) (simp_all add: get_str_def put_str_def zfield_ok_def)

lemma get_put_num:
  assumes "\<exists>c \<in> set none. \<not> is_digit c \<and> c \<noteq> CHR ''-''"
  shows "get_str none (put_str none (map_option num_to_str x)) = map_option num_to_str x"
    and "get_str none (put_str none (map_option bool_to_str y)) = map_option bool_to_str y"
  using num_to_str_neq [OF assms]
  by (cases x, simp_all add: get_str_def put_str_def) (cases y, simp_all add: bool_to_str_def)

lemma zpack_to_str_nonempty: "zpack_to_str z \<noteq> []"
  by (simp add: zpack_to_str_def)

lemma zpack_roundtrip: "zpack_ok z \<Longrightarrow> str_to_zpack (zpack_to_str z) = z"
proof -
  assume ok: "zpack_ok z"
  have tok: "zht_tokenize (zpack_to_str z) ''//'' = zpack_fields z"
    using zht_tokenize_fields [OF zpack_fields_clean [OF ok]] by (simp add: zpack_to_str_fields)
  have n: "map_option str_to_num_int (map_option num_to_str (z_replicanum z)) = z_replicanum z"
    using ok by (cases "z_replicanum z") (simp_all add: zpack_ok_def)
  have b: "map_option str_to_bool (map_option bool_to_str x) = x" for x
    by (cases x) simp_all
  show ?thesis
    using ok unfolding str_to_zpack_def tok
    by (simp add: zpack_to_str_nonempty Let_def zpack_fields_def zpack_ok_def get_put_str get_put_num n b is_digit_def)
qed

text \<open>The packet as a C string: \<open>run\<close> and the client's receive buffer cut at the first NUL.\<close>

lemma zpack_no_nul: "zpack_ok z \<Longrightarrow> CHR 0x00 \<notin> set (zpack_to_str z)"
proof -
  assume ok: "zpack_ok z"
  have s: "CHR 0x00 \<notin> set (put_str none x)" if "zfield_ok none x" "CHR 0x00 \<notin> set none" for none x
    using that by (cases x) (auto simp: put_str_def zfield_ok_def dest: field_ok_notin)
  have n: "CHR 0x00 \<notin> set (num_to_str i)" for i
    using num_to_str_chars [of "CHR 0x00" i] by (auto simp: is_digit_def)
  have n': "CHR 0x00 \<notin> set (put_str none (map_option num_to_str x))"
      "CHR 0x00 \<notin> set (put_str none (map_option bool_to_str y))" if "CHR 0x00 \<notin> set none" for none x y
    using that n by (cases x; simp add: put_str_def) (cases y; simp add: put_str_def bool_to_str_def that n)
  show ?thesis using ok by (simp add: zpack_to_str_def zpack_ok_def s n')
qed

lemma c_str_zpack [simp]: "zpack_ok z \<Longrightarrow> c_str (zpack_to_str z) = zpack_to_str z"
  by (rule c_str_id) (rule zpack_no_nul)

lemma toInt_codes [simp]:
  "toInt ZSC_REC_SUCC = 0" "toInt ZSC_REC_SRVEXP = -4" "toInt ZSC_REC_NONEXISTKEY = -92"
  "toInt ZSC_REC_UOPC = -98" "toInt ZSC_REC_EMPTYKEY = -1" "toInt ZSC_REC_SCCBPOLLTRY = -91"
  by (simp_all add: toInt_def zsc_defs c_str_def str_to_num_int_def read_num_def digits_val_def is_digit_def is_space_def
      int_range_defs)

section \<open>Properties\<close>

text \<open>Property C34. A packet whose strings are not empty, contain neither a slash nor a NUL and differ
  from the words that stand for an absent field is read back as it was printed.\<close>

theorem zpack_print_parse:
  assumes "zpack_ok z"
  shows "str_to_zpack (zpack_to_str z) = z"
  using assms by (rule zpack_roundtrip)

theorem zpack_print_parse_witness:
  "str_to_zpack (zpack_to_str (default_zpack\<lparr>z_opcode := Some ''003'', z_key := Some ''k'', z_val := Some ''v'',
     z_valnull := Some False\<rparr>)) = default_zpack\<lparr>z_opcode := Some ''003'', z_key := Some ''k'', z_val := Some ''v'',
     z_valnull := Some False\<rparr>"
  by (rule zpack_print_parse) (simp add: zpack_ok_def default_zpack_def zfield_ok_def field_ok_def)

text \<open>Every well-formed packet is routed to a server of the membership list, and to the
  same one as every other packet with that key.\<close>

lemma requests_for_a_key_meet:
  assumes "zpack_ok z" and "zpack_ok z'" and "z_key z = z_key z'" and "nbrs \<noteq> []"
  shows "\<exists>i < length nbrs. getHostEntityByKey nbrs (zpack_to_str z) =
      Inr (buildHostEntity (fst (nbrs ! i)) (toInt (snd (nbrs ! i))))
    \<and> getHostEntityByKey nbrs (zpack_to_str z') = getHostEntityByKey nbrs (zpack_to_str z)"
proof -
  let ?i = "server_index (length nbrs) (bytes_of (z_key z))"
  have "?i < length nbrs" using assms(4) by (simp add: server_index_def)
  then show ?thesis
    using assms by (intro exI [of _ ?i]) (simp add: getHostEntityByKey_def zpack_roundtrip vec_at_in Let_def)
qed

end
