(* ===== verification/Ts_Queue.thy ===== *)
theory Ts_Queue
  imports Prelude
begin

text \<open>
  First-in first-out queues between threads: the contract (locale \<open>fifo\<close>), what it gives for every interleaving
  of producers and consumers, and the thread-safe queue of ZHT (\<^verbatim>\<open>ZHT/src/TSafeQueue-impl.h\<close>). Each operation of
  that queue runs under its mutex and is one step.
\<close>

section \<open>The contract\<close>

text \<open>An interleaving of the threads is the sequence of their operations; the result holds what the consumers
  got, in order. A consumer that finds the queue empty gets nothing.\<close>

datatype 'a queue_op = Enq 'a | Deq

fun queue_run :: "('a \<Rightarrow> 'q \<Rightarrow> 'q) \<Rightarrow> ('q \<Rightarrow> ('a \<times> 'q) option) \<Rightarrow> 'a queue_op list \<Rightarrow> 'q \<Rightarrow> 'a list \<times> 'q" where
  "queue_run enq deq [] q = ([], q)"
| "queue_run enq deq (Enq x # ops) q = queue_run enq deq ops (enq x q)"
| "queue_run enq deq (Deq # ops) q =
     (case deq q of None \<Rightarrow> queue_run enq deq ops q
      | Some (x, q') \<Rightarrow> (case queue_run enq deq ops q' of (out, q'') \<Rightarrow> (x # out, q'')))"

fun enqueued :: "'a queue_op list \<Rightarrow> 'a list" where
  "enqueued [] = []"
| "enqueued (Enq x # ops) = x # enqueued ops"
| "enqueued (Deq # ops) = enqueued ops"

locale fifo =
  fixes enq :: "'a \<Rightarrow> 'q \<Rightarrow> 'q" and deq :: "'q \<Rightarrow> ('a \<times> 'q) option" and contents :: "'q \<Rightarrow> 'a list"
  assumes enq_contents: "contents (enq x q) = contents q @ [x]"
    and deq_empty: "contents q = [] \<Longrightarrow> deq q = None"
    and deq_front: "contents q = x # xs \<Longrightarrow> \<exists>q'. deq q = Some (x, q') \<and> contents q' = xs"
begin

lemma deq_cases:
  obtains (empty) "contents q = []" "deq q = None" | (front) x q' where "contents q = x # contents q'" "deq q = Some (x, q')"
proof (cases "contents q")
  case Nil
  show ?thesis by (rule that(1) [OF Nil deq_empty [OF Nil]])
next
  case (Cons x xs)
  from deq_front [OF this] obtain q' where "deq q = Some (x, q')" "contents q' = xs" by blast
  then show ?thesis using that(2) [of x q'] Cons by simp
qed

text \<open>Nothing is lost, doubled or overtaken.\<close>

lemma run_in_order:
  "queue_run enq deq ops q = (out, q') \<Longrightarrow> contents q @ enqueued ops = out @ contents q'"
proof (induction ops arbitrary: q out)
  case (Cons opn ops)
  show ?case
  proof (cases opn)
    case (Enq x)
    then show ?thesis using Cons.IH [of "enq x q" out] Cons.prems by (simp add: enq_contents)
  next
    case Deq
    show ?thesis
    proof (cases rule: deq_cases [of q])
      case empty
      then show ?thesis using Cons.IH [of q out] Cons.prems by (simp add: Deq)
    next
      case (front x q1)
      obtain out1 q2 where r: "queue_run enq deq ops q1 = (out1, q2)" by fastforce
      then have "out = x # out1" "q2 = q'" using Cons.prems front(2) by (simp_all add: Deq)
      then show ?thesis using Cons.IH [of q1 out1] r front(1) by (simp add: Deq)
    qed
  qed
qed simp

lemma drained:
  assumes "length (contents q) \<le> n"
  shows "\<exists>q'. queue_run enq deq (replicate n Deq) q = (contents q, q') \<and> contents q' = []"
  using assms
proof (induction n arbitrary: q)
  case (Suc n)
  show ?case
  proof (cases rule: deq_cases [of q])
    case empty
    then show ?thesis using Suc.IH [of q] by simp
  next
    case (front x q1)
    then show ?thesis using Suc.IH [of q1] Suc.prems by (fastforce split: prod.splits)
  qed
qed simp

end

section \<open>The thread-safe queue of ZHT\<close>

text \<open>\<open>pop\<close> assigns the front to its reference parameter, which keeps its value when the queue is empty
  (\<open>None\<close>: nothing assigned yet).\<close>

definition ts_size :: "'a list \<Rightarrow> nat" where
  "ts_size q = length q"

definition ts_push :: "'a \<Rightarrow> 'a list \<Rightarrow> bool \<times> 'a list" where
  "ts_push x q = (True, q @ [x])"

definition ts_pop :: "'a option \<Rightarrow> 'a list \<Rightarrow> bool \<times> 'a option \<times> 'a list" where
  "ts_pop e q = (case q of [] \<Rightarrow> (False, e, q) | x # q' \<Rightarrow> (True, Some x, q'))"

fun ts_pop_loop :: "nat \<Rightarrow> 'a list \<Rightarrow> 'a list" where
  "ts_pop_loop 0 q = q"
| "ts_pop_loop (Suc i) q = ts_pop_loop i (if q \<noteq> [] then tl q else q)"

definition ts_pop_n :: "int \<Rightarrow> 'a list \<Rightarrow> 'a list" where
  "ts_pop_n n q = ts_pop_loop (nat n) q"

fun ts_pop_all :: "'a list \<Rightarrow> 'a list" where
  "ts_pop_all [] = []"
| "ts_pop_all (x # q) = ts_pop_all q"

lemma ts_pop_n_drop: "ts_pop_n n q = drop (nat n) q"
proof -
  have "ts_pop_loop i q = drop i q" for i
    by (induction i q rule: ts_pop_loop.induct) (auto simp: drop_Suc)
  then show ?thesis by (simp add: ts_pop_n_def)
qed

lemma ts_pop_all_empty: "ts_pop_all q = []"
  by (induction q) simp_all

lemma ts_sizes:
  "ts_size (snd (ts_push x q)) = Suc (ts_size q)" "ts_size (ts_pop_n n q) = ts_size q - nat n"
  "fst (ts_pop e q) \<longleftrightarrow> 0 < ts_size q"
  by (auto simp: ts_size_def ts_push_def ts_pop_n_drop ts_pop_def split: list.splits)

text \<open>What a consumer does: it takes the element when \<open>pop\<close> says so.\<close>

definition ts_next :: "'a list \<Rightarrow> ('a \<times> 'a list) option" where
  "ts_next q = (case ts_pop None q of (True, Some x, q') \<Rightarrow> Some (x, q') | _ \<Rightarrow> None)"

interpretation tsq: fifo "\<lambda>x q. snd (ts_push x q)" ts_next "\<lambda>q. q"
  by unfold_locales (simp_all add: ts_push_def ts_next_def ts_pop_def)

end
