(* ===== verification/Ht_Worker.thy ===== *)
theory Ht_Worker
  imports NoVoHT Zpack Ts_Queue
begin

text \<open>
  The request handler of a ZHT server (\<^verbatim>\<open>ZHT/src/HTWorker.cpp\<close>), in the configuration the Makefile
  builds (\<open>SCCB\<close> defined): a handler sends its answer back itself and \<open>run\<close>'s own result is not
  sent. A step of the server returns what was sent back, if anything. The appended form of a packet
  is made by the protobuf library (\<open>SerializeAsString\<close>), a parameter of the model.
\<close>

section \<open>State\<close>

text \<open>The static members of \<open>HTWorker\<close>: the table \<open>PMAP\<close>, the queue \<open>PQUEUE\<close> of state-change
  requests with the connection each came from, and \<open>FIRST_ASYNC\<close>.\<close>

record ht_state =
  h_map :: novoht
  h_queue :: "(zpack \<times> nat) list"
  h_async :: bool

section \<open>Handlers\<close>

definition finish_write :: "bool \<Rightarrow> int \<times> novoht \<Rightarrow> (string \<times> novoht) res" where
  "finish_write inst r =
     (case r of (ret, m) \<Rightarrow>
       if ret \<noteq> 0 then Inr (ZSC_REC_NONEXISTKEY, m)
       else if inst then bind_res (nv_writeFileFG m) (\<lambda>(_, m'). Inr (ZSC_REC_SUCC, m'))
       else Inr (ZSC_REC_SUCC, m))"

definition insert_shared :: "bool \<Rightarrow> zpack \<Rightarrow> novoht \<Rightarrow> (string \<times> novoht) res" where
  "insert_shared inst z m =
     (if bytes_of (z_key z) = [] then Inr (ZSC_REC_EMPTYKEY, m)
      else finish_write inst (nv_put (bytes_of (z_key z)) (zpack_to_str z) m))"

definition lookup_shared :: "zpack \<Rightarrow> novoht \<Rightarrow> string" where
  "lookup_shared z m =
     (if bytes_of (z_key z) = [] then ZSC_REC_EMPTYKEY
      else (case nv_get (bytes_of (z_key z)) m of
              None \<Rightarrow> ZSC_REC_NONEXISTKEY @ ''Empty''
            | Some v \<Rightarrow> ZSC_REC_SUCC @ v))"

definition append_shared :: "(zpack \<Rightarrow> string) \<Rightarrow> bool \<Rightarrow> zpack \<Rightarrow> novoht \<Rightarrow> (string \<times> novoht) res" where
  "append_shared serialize inst z m =
     (if bytes_of (z_key z) = [] then Inr (ZSC_REC_EMPTYKEY, m)
      else finish_write inst (nv_append (bytes_of (z_key z)) (serialize z) m))"

definition remove_shared :: "bool \<Rightarrow> zpack \<Rightarrow> novoht \<Rightarrow> (string \<times> novoht) res" where
  "remove_shared inst z m =
     (if bytes_of (z_key z) = [] then Inr (ZSC_REC_EMPTYKEY, m)
      else finish_write inst (nv_remove (bytes_of (z_key z)) m))"

definition erase_status_code :: "string \<Rightarrow> string res" where
  "erase_status_code val = (if length val < 3 then Inl Out_Of_Range else Inr (drop 3 val))"

definition compare_swap_internal :: "bool \<Rightarrow> zpack \<Rightarrow> novoht \<Rightarrow> (string \<times> novoht) res" where
  "compare_swap_internal inst z m =
     bind_res (erase_status_code (lookup_shared z m)) (\<lambda>lresult.
       let lz = str_to_zpack lresult in
       if bytes_of (z_val z) = bytes_of (z_val lz)
       then insert_shared inst (lz\<lparr>z_val := Some (bytes_of (z_newval z))\<rparr>) m
       else Inr (ZSC_REC_SRVEXP, m))"

text \<open>With an empty key \<open>compare_swap\<close> returns before it sends anything.\<close>

definition compare_swap :: "bool \<Rightarrow> zpack \<Rightarrow> novoht \<Rightarrow> (string option \<times> novoht) res" where
  "compare_swap inst z m =
     (if bytes_of (z_key z) = [] then Inr (None, m)
      else bind_res (compare_swap_internal inst z m) (\<lambda>(result, m').
             bind_res (erase_status_code (lookup_shared z m')) (\<lambda>l. Inr (Some (result @ l), m'))))"

definition state_change_callback_internal :: "zpack \<Rightarrow> novoht \<Rightarrow> string" where
  "state_change_callback_internal z m =
     (if bytes_of (z_key z) = [] then ZSC_REC_EMPTYKEY
      else (case nv_get (bytes_of (z_key z)) m of
              None \<Rightarrow> ZSC_REC_NONEXISTKEY
            | Some v \<Rightarrow> if bytes_of (z_val z) = bytes_of (z_val (str_to_zpack v)) then ZSC_REC_SUCC
                        else ZSC_REC_SCCBPOLLTRY))"

definition state_change_callback :: "nat \<Rightarrow> zpack \<Rightarrow> ht_state \<Rightarrow> ht_state" where
  "state_change_callback addr z st = st\<lparr>h_queue := snd (ts_push (z, addr) (h_queue st)), h_async := True\<rparr>"

text \<open>A handler that works on the table alone, and sends its result.\<close>

definition reply :: "(string \<times> novoht) res \<Rightarrow> ht_state \<Rightarrow> (string option \<times> ht_state) res" where
  "reply r st = bind_res r (\<lambda>(result, m). Inr (Some result, st\<lparr>h_map := m\<rparr>))"

definition ht_run :: "(zpack \<Rightarrow> string) \<Rightarrow> bool \<Rightarrow> nat \<Rightarrow> string \<Rightarrow> ht_state \<Rightarrow> (string option \<times> ht_state) res" where
  "ht_run serialize inst addr buf st =
     (let z = str_to_zpack (c_str buf); opc = bytes_of (z_opcode z) in
      if opc = ZSC_OPC_LOOKUP then Inr (Some (lookup_shared z (h_map st)), st)
      else if opc = ZSC_OPC_INSERT then reply (insert_shared inst z (h_map st)) st
      else if opc = ZSC_OPC_APPEND then reply (append_shared serialize inst z (h_map st)) st
      else if opc = ZSC_OPC_CMPSWP
      then bind_res (compare_swap inst z (h_map st)) (\<lambda>(sent, m). Inr (sent, st\<lparr>h_map := m\<rparr>))
      else if opc = ZSC_OPC_REMOVE then reply (remove_shared inst z (h_map st)) st
      else if opc = ZSC_OPC_STCHGCB then Inr (None, state_change_callback addr z st)
      else Inr (None, st))"

text \<open>The thread that serves the queue polls the table until the state is the expected one or the
  lease is over; \<open>poll i\<close> is the result of the \<open>i\<close>-th look at the table. It returns what is sent
  back and the number of looks.\<close>

partial_function (option) sccb_loop :: "int \<Rightarrow> int \<Rightarrow> (nat \<Rightarrow> string) \<Rightarrow> nat \<Rightarrow> int \<Rightarrow> (string \<times> nat) option" where
  "sccb_loop interval lease poll i mslapsed =
     (if poll i = ZSC_REC_SUCC then Some (poll i, Suc i)
      else if lease \<le> mslapsed + interval then Some (poll i, Suc i)
      else sccb_loop interval lease poll (Suc i) (mslapsed + interval))"

text \<open>One turn of the loop of the thread: nothing when the queue is empty, otherwise the address and the result
  that is sent to it.\<close>

definition threaded_state_change_callback ::
    "int \<Rightarrow> (nat \<Rightarrow> novoht) \<Rightarrow> (zpack \<times> nat) list \<Rightarrow> ((nat \<times> string) option \<times> (zpack \<times> nat) list) option" where
  "threaded_state_change_callback interval tables queue =
     (case ts_pop None queue of
        (True, Some (z, addr), queue') \<Rightarrow>
          map_option (\<lambda>(result, _). (Some (addr, result), queue'))
            (sccb_loop interval (toInt (bytes_of (z_lease z)))
               (\<lambda>i. state_change_callback_internal z (tables i)) 0 0)
      | (_, _, queue') \<Rightarrow> Some (None, queue'))"

text \<open>State-change requests of clients arrive while the thread serves the queue; \<open>Serve tables\<close> is a turn of
  the thread during which its looks see the tables \<open>tables i\<close>. The result holds the answers sent.\<close>

datatype sccb_event = Arrive nat zpack | Serve "nat \<Rightarrow> novoht"

fun sccb_run :: "int \<Rightarrow> sccb_event list \<Rightarrow> ht_state \<Rightarrow> ((nat \<times> string) list \<times> ht_state) option" where
  "sccb_run interval [] st = Some ([], st)"
| "sccb_run interval (Arrive addr z # es) st = sccb_run interval es (state_change_callback addr z st)"
| "sccb_run interval (Serve tables # es) st =
     Option.bind (threaded_state_change_callback interval tables (h_queue st)) (\<lambda>(sent, q).
       map_option (\<lambda>(out, st'). ((case sent of None \<Rightarrow> [] | Some a \<Rightarrow> [a]) @ out, st'))
         (sccb_run interval es (st\<lparr>h_queue := q\<rparr>)))"

section \<open>The table through its interface\<close>

text \<open>Nothing outside stops \<open>put\<close> and \<open>remove\<close>: the log is open, or the table was asked to have none, and the thread that
  compacts the log can be created.\<close>

definition writable :: "novoht \<Rightarrow> bool" where
  "writable m \<longleftrightarrow> (nv_dbfile m \<noteq> None \<or> nv_filename m = []) \<and> nv_thread_rc m = 0"

lemma set_chain_filename [simp]: "nv_filename (set_chain k c st) = nv_filename st" "nv_thread_rc (set_chain k c st) = nv_thread_rc st"
  by (simp_all add: set_chain_def)

lemma put_writable:
  assumes "writable m"
  shows "fst (nv_put k v m) = 0" and "writable (snd (nv_put k v m))"
  using assms
  by (auto simp: writable_def nv_put_def nv_write_def nv_mark_def nv_resize_def no_file_rc_def Let_def
      split: option.splits)

lemma remove_writable:
  assumes "writable m"
  shows "stored m k \<noteq> None \<Longrightarrow> fst (nv_remove k m) = 0" and "writable (snd (nv_remove k m))"
proof -
  have f: "fst (finish_remove k ps s) = 0 \<and> writable (snd (finish_remove k ps s))" if "writable s" for ps s
    using that
    by (auto simp: writable_def finish_remove_def nv_mark_def nv_logrm_def nv_writeFile_def no_file_rc_def Let_def split: option.splits)
  have "writable (set_chain k c m\<lparr>nv_numEl := n\<rparr>)" for c n using assms by (simp add: writable_def)
  from f [OF this] show "stored m k \<noteq> None \<Longrightarrow> fst (nv_remove k m) = 0" "writable (snd (nv_remove k m))"
    using assms by (cases "stored m k = None"; simp add: remove_split)+
qed

lemma remove_shared_ok:
  assumes "writable m" and "bytes_of (z_key z) \<noteq> []"
  shows "remove_shared False z m =
    Inr (if stored m (bytes_of (z_key z)) = None then (ZSC_REC_NONEXISTKEY, m) else (ZSC_REC_SUCC, snd (nv_remove (bytes_of (z_key z)) m)))"
  using remove_writable(1) [OF assms(1), of "bytes_of (z_key z)"] assms(2)
  by (cases "nv_remove (bytes_of (z_key z)) m") (auto simp: remove_shared_def finish_write_def remove_split(1))

lemma insert_shared_ok:
  assumes "writable m" and "bytes_of (z_key z) \<noteq> []"
  shows "insert_shared False z m = Inr (ZSC_REC_SUCC, snd (nv_put (bytes_of (z_key z)) (zpack_to_str z) m))"
  using put_writable(1) [OF assms(1), of "bytes_of (z_key z)" "zpack_to_str z"] assms(2)
  by (cases "nv_put (bytes_of (z_key z)) (zpack_to_str z) m") (simp add: insert_shared_def finish_write_def)

lemma lookup_shared_stored:
  "bytes_of (z_key z) \<noteq> [] \<Longrightarrow> lookup_shared z m =
     (case stored m (bytes_of (z_key z)) of None \<Rightarrow> ZSC_REC_NONEXISTKEY @ ''Empty'' | Some v \<Rightarrow> ZSC_REC_SUCC @ v)"
  by (simp add: lookup_shared_def get_stored)

lemma erase_lookup:
  "bytes_of (z_key z) \<noteq> [] \<Longrightarrow> erase_status_code (lookup_shared z m) =
     Inr (case stored m (bytes_of (z_key z)) of None \<Rightarrow> ''Empty'' | Some v \<Rightarrow> v)"
  by (simp add: lookup_shared_stored erase_status_code_def zsc_defs split: option.splits)

lemma sccb_loop_returns:
  assumes "0 < interval"
  shows "\<exists>r n. sccb_loop interval lease poll i ms = Some (r, n) \<and> i < n
    \<and> r = poll (n - 1) \<and> (\<forall>j. i \<le> j \<longrightarrow> Suc j < n \<longrightarrow> poll j \<noteq> ZSC_REC_SUCC)
    \<and> (r = ZSC_REC_SUCC \<or> lease \<le> ms + int (n - i) * interval)
    \<and> (Suc i < n \<longrightarrow> ms + int (n - i - 1) * interval < lease)"
  using assms
proof (induction "nat (lease - ms)" arbitrary: i ms rule: less_induct)
  case less
  show ?case
  proof (cases "poll i = ZSC_REC_SUCC \<or> lease \<le> ms + interval")
    case True
    then show ?thesis by (subst sccb_loop.simps) auto
  next
    case False
    then have "nat (lease - (ms + interval)) < nat (lease - ms)" using less.prems by linarith
    from less.hyps [OF this less.prems, of "Suc i"] obtain r n where
      IH: "sccb_loop interval lease poll (Suc i) (ms + interval) = Some (r, n)" "Suc i < n" "r = poll (n - 1)"
        "\<forall>j. Suc i \<le> j \<longrightarrow> Suc j < n \<longrightarrow> poll j \<noteq> ZSC_REC_SUCC"
        "r = ZSC_REC_SUCC \<or> lease \<le> ms + interval + int (n - Suc i) * interval"
        "Suc (Suc i) < n \<longrightarrow> ms + interval + int (n - Suc i - 1) * interval < lease"
      by blast
    have a: "ms + interval + int (n - Suc i) * interval = ms + int (n - i) * interval"
      using IH(2) by (simp add: algebra_simps of_nat_diff)
    have b: "ms + int (n - i - 1) * interval < lease"
    proof (cases "Suc (Suc i) < n")
      case True
      with IH(6) show ?thesis by (simp add: algebra_simps of_nat_diff)
    next
      case False
      with IH(2) have "n = Suc (Suc i)" by simp
      with \<open>\<not> (poll i = ZSC_REC_SUCC \<or> lease \<le> ms + interval)\<close> show ?thesis by simp
    qed
    have c: "\<forall>j. i \<le> j \<longrightarrow> Suc j < n \<longrightarrow> poll j \<noteq> ZSC_REC_SUCC"
      using IH(4) False by (metis Suc_leI le_neq_implies_less)
    show ?thesis
      using False IH a b c by (subst sccb_loop.simps) auto
  qed
qed

section \<open>Properties\<close>

lemma state_change_callback_answers:
  assumes "0 < interval"
  shows "\<exists>r n. sccb_loop interval lease poll 0 0 = Some (r, n) \<and> 0 < n \<and> r = poll (n - 1)
    \<and> (\<forall>j. Suc j < n \<longrightarrow> poll j \<noteq> ZSC_REC_SUCC)
    \<and> (r = ZSC_REC_SUCC \<or> lease \<le> int n * interval)
    \<and> (1 < n \<longrightarrow> int (n - 1) * interval < lease)"
  using sccb_loop_returns [OF assms, of lease poll 0 0] by simp

text \<open>An answer to a request: the outcome of look number \<open>n\<close> at the table, after failed ones, which is success or
  came when the lease was over.\<close>

definition sccb_answer :: "int \<Rightarrow> zpack \<times> nat \<Rightarrow> nat \<times> string \<Rightarrow> bool" where
  "sccb_answer interval req a \<longleftrightarrow> fst a = snd req \<and> (\<exists>tables n. let poll = (\<lambda>i. state_change_callback_internal (fst req) (tables i)) in
     0 < n \<and> snd a = poll (n - 1) \<and> (\<forall>j. Suc j < n \<longrightarrow> poll j \<noteq> ZSC_REC_SUCC)
     \<and> (snd a = ZSC_REC_SUCC \<or> toInt (bytes_of (z_lease (fst req))) \<le> int n * interval)
     \<and> (1 < n \<longrightarrow> int (n - 1) * interval < toInt (bytes_of (z_lease (fst req)))))"

text \<open>The queue operations of a run.\<close>

fun sccb_ops :: "sccb_event list \<Rightarrow> (zpack \<times> nat) queue_op list" where
  "sccb_ops [] = []"
| "sccb_ops (Arrive addr z # es) = Enq (z, addr) # sccb_ops es"
| "sccb_ops (Serve tables # es) = Deq # sccb_ops es"

lemma callback_turn:
  assumes "0 < interval"
  shows "ts_next q = None \<Longrightarrow> threaded_state_change_callback interval tables q = Some (None, q)"
    and "ts_next q = Some (x, q') \<Longrightarrow>
      \<exists>a. threaded_state_change_callback interval tables q = Some (Some a, q') \<and> sccb_answer interval x a"
proof -
  show "ts_next q = None \<Longrightarrow> threaded_state_change_callback interval tables q = Some (None, q)"
    by (cases q) (simp_all add: ts_next_def ts_pop_def threaded_state_change_callback_def)
  assume n: "ts_next q = Some (x, q')"
  obtain z addr where x: "x = (z, addr)" by fastforce
  let ?poll = "\<lambda>i. state_change_callback_internal z (tables i)"
  obtain r n where "sccb_loop interval (toInt (bytes_of (z_lease z))) ?poll 0 0 = Some (r, n)" "0 < n" "r = ?poll (n - 1)"
      "\<forall>j. Suc j < n \<longrightarrow> ?poll j \<noteq> ZSC_REC_SUCC" "r = ZSC_REC_SUCC \<or> toInt (bytes_of (z_lease z)) \<le> int n * interval"
      "1 < n \<longrightarrow> int (n - 1) * interval < toInt (bytes_of (z_lease z))"
    using state_change_callback_answers [OF assms, of "toInt (bytes_of (z_lease z))" ?poll] by blast
  moreover have "ts_pop None q = (True, Some (z, addr), q')" using n x by (cases q) (simp_all add: ts_next_def ts_pop_def)
  ultimately show "\<exists>a. threaded_state_change_callback interval tables q = Some (Some a, q') \<and> sccb_answer interval x a"
    by (intro exI [of _ "(addr, r)"]) (auto simp: threaded_state_change_callback_def sccb_answer_def x Let_def)
qed

text \<open>The thread serves the queue as a consumer of the contract.\<close>

lemma sccb_run_queue:
  assumes "0 < interval"
  shows "\<exists>out ans st'. queue_run (\<lambda>x q. snd (ts_push x q)) ts_next (sccb_ops es) (h_queue st) = (out, h_queue st')
    \<and> sccb_run interval es st = Some (ans, st') \<and> list_all2 (sccb_answer interval) out ans \<and> h_map st' = h_map st"
proof (induction es arbitrary: st rule: sccb_ops.induct)
  case (2 addr z es)
  then show ?case using "2.IH" [of "state_change_callback addr z st"] by (simp add: state_change_callback_def)
next
  case (3 tables es)
  show ?case
  proof (cases "ts_next (h_queue st)")
    case None
    then show ?thesis using "3.IH" [of st] callback_turn(1) [OF assms None] by fastforce
  next
    case (Some p)
    obtain x q where p: "p = (x, q)" by fastforce
    obtain a where "threaded_state_change_callback interval tables (h_queue st) = Some (Some a, q)" "sccb_answer interval x a"
      using callback_turn(2) [OF assms, of "h_queue st" x q tables] Some p by blast
    then show ?thesis using "3.IH" [of "st\<lparr>h_queue := q\<rparr>"] Some p by (fastforce split: prod.splits)
  qed
qed simp



end
