(* ===== verification/Zht_Client.thy ===== *)
theory Zht_Client
  imports Ht_Worker
begin

text \<open>
  The ZHT client (\<^verbatim>\<open>ZHT/src/cpp_zhtclient.cpp\<close>) and the cluster behind it. The client's operations
  take the transport \<open>sendrecv\<close> as an argument, as the class calls it through its proxy object;
  \<open>zht_sendrecv\<close> is the one of \<^verbatim>\<open>ZHT/src/tcp_proxy_stub.cpp\<close>, which picks the server by the key and
  hands the packet to its worker. The messages themselves arrive whole (the framing of
  \<^verbatim>\<open>bigdata_transfer.cpp\<close>). The last section is the contract the rest of the system relies on.
\<close>

section \<open>The client\<close>

type_synonym 's transport = "string \<Rightarrow> 's \<Rightarrow> (string \<times> 's) res"

definition request :: "string \<Rightarrow> string \<Rightarrow> string \<Rightarrow> string \<Rightarrow> int \<Rightarrow> zpack" where
  "request opcode key val val2 lease =
     \<lparr>z_opcode = Some opcode, z_key = Some key,
      z_val = Some (if val = [] then ''^'' else val),
      z_newval = Some (if val2 = [] then ''?'' else val2),
      z_lease = Some (num_to_str lease),
      z_valnull = Some (val = []), z_newvalnull = Some (val2 = []), z_replicanum = Some 3\<rparr>"

text \<open>\<open>result\<close> is an in-out parameter: it keeps its old value when nothing is received.\<close>

definition commonOpInternal ::
    "'s transport \<Rightarrow> string \<Rightarrow> string \<Rightarrow> string \<Rightarrow> string \<Rightarrow> string \<Rightarrow> int \<Rightarrow> 's \<Rightarrow> (string \<times> string \<times> 's) res" where
  "commonOpInternal sendrecv opcode key val val2 result lease s =
     (if key = [] then Inr (ZSC_REC_EMPTYKEY, result, s)
      else bind_res (sendrecv (zpack_to_str (request opcode key val val2 lease)) s) (\<lambda>(buf, s').
             let srecv = c_str buf in
             if srecv = [] then Inr (ZSC_REC_SRVEXP, result, s')
             else if length srecv < 3 then Inl Out_Of_Range
             else Inr (take 3 srecv, drop 3 srecv, s')))"

definition commonOp ::
    "'s transport \<Rightarrow> string \<Rightarrow> string \<Rightarrow> string \<Rightarrow> string \<Rightarrow> string \<Rightarrow> int \<Rightarrow> 's \<Rightarrow> (int \<times> string \<times> 's) res" where
  "commonOp sendrecv opcode key val val2 result lease s =
     (if opcode \<notin> {ZSC_OPC_LOOKUP, ZSC_OPC_REMOVE, ZSC_OPC_INSERT, ZSC_OPC_APPEND, ZSC_OPC_CMPSWP, ZSC_OPC_STCHGCB}
      then Inr (toInt ZSC_REC_UOPC, result, s)
      else bind_res (commonOpInternal sendrecv opcode key val val2 result lease s) (\<lambda>(sstatus, result', s').
             Inr (if sstatus = [] then ZSI_REC_CLTFAIL else toInt sstatus, result', s')))"

definition extract_value :: "string \<Rightarrow> string" where
  "extract_value returnStr =
     (let z = str_to_zpack returnStr in if flag_of (z_valnull z) then [] else bytes_of (z_val z))"

definition zc_lookup :: "'s transport \<Rightarrow> string \<Rightarrow> string \<Rightarrow> 's \<Rightarrow> (int \<times> string \<times> 's) res" where
  "zc_lookup sendrecv key result s =
     bind_res (commonOp sendrecv ZSC_OPC_LOOKUP key [] [] result 1 s)
       (\<lambda>(rc, result', s'). Inr (rc, extract_value result', s'))"

definition zc_remove :: "'s transport \<Rightarrow> string \<Rightarrow> 's \<Rightarrow> (int \<times> 's) res" where
  "zc_remove sendrecv key s =
     bind_res (commonOp sendrecv ZSC_OPC_REMOVE key [] [] [] 1 s) (\<lambda>(rc, _, s'). Inr (rc, s'))"

definition zc_insert :: "'s transport \<Rightarrow> string \<Rightarrow> string \<Rightarrow> 's \<Rightarrow> (int \<times> 's) res" where
  "zc_insert sendrecv key val s =
     bind_res (commonOp sendrecv ZSC_OPC_INSERT key val [] [] 1 s) (\<lambda>(rc, _, s'). Inr (rc, s'))"

definition zc_append :: "'s transport \<Rightarrow> string \<Rightarrow> string \<Rightarrow> 's \<Rightarrow> (int \<times> 's) res" where
  "zc_append sendrecv key val s =
     bind_res (commonOp sendrecv ZSC_OPC_APPEND key val [] [] 1 s) (\<lambda>(rc, _, s'). Inr (rc, s'))"

definition zc_compare_swap ::
    "'s transport \<Rightarrow> string \<Rightarrow> string \<Rightarrow> string \<Rightarrow> string \<Rightarrow> 's \<Rightarrow> (int \<times> string \<times> 's) res" where
  "zc_compare_swap sendrecv key seen_val new_val result s =
     bind_res (commonOp sendrecv ZSC_OPC_CMPSWP key seen_val new_val result 1 s)
       (\<lambda>(rc, result', s'). Inr (rc, extract_value result', s'))"

definition zc_state_change_callback :: "'s transport \<Rightarrow> string \<Rightarrow> string \<Rightarrow> int \<Rightarrow> 's \<Rightarrow> (int \<times> 's) res" where
  "zc_state_change_callback sendrecv key expected_val lease s =
     bind_res (commonOp sendrecv ZSC_OPC_STCHGCB key expected_val [] [] lease s) (\<lambda>(rc, _, s'). Inr (rc, s'))"

section \<open>The cluster\<close>

text \<open>The parameters of a deployment: the protobuf encoder, \<open>INSTANT_SWAP\<close>, \<open>MSG_MAXSIZE\<close> and the
  membership list. Server \<open>i\<close> of the cluster listens on entry \<open>i\<close> of the list.\<close>

record zht_conf =
  zc_serialize :: "zpack \<Rightarrow> string"
  zc_instant_swap :: bool
  zc_msg_maxsize :: nat
  zc_neighbors :: "(string \<times> string) list"

type_synonym cluster = "ht_state list"

definition zht_sendrecv :: "zht_conf \<Rightarrow> cluster transport" where
  "zht_sendrecv c msg ss =
     bind_res (getHostEntityByKey (zc_neighbors c) msg) (\<lambda>he.
       let i = server_index (length (zc_neighbors c)) (bytes_of (z_key (str_to_zpack msg))) in
       bind_res (ht_run (zc_serialize c) (zc_instant_swap c) 0 (c_str msg) (ss ! i)) (\<lambda>(sent, st).
         case sent of
           None \<Rightarrow> Inl Blocks
         | Some buf \<Rightarrow> if length buf < zc_msg_maxsize c then Inr (buf, ss[i := st]) else Inl Undefined))"

section \<open>Well-formed stores\<close>

definition key_ok :: "nat \<Rightarrow> string \<Rightarrow> bool" where
  "key_ok mx k \<longleftrightarrow> field_ok (CHR 0x00 # ''/'') k \<and> k \<noteq> ''nokey'' \<and> 2 * length k + 40 < mx"

definition val_ok :: "nat \<Rightarrow> string \<Rightarrow> bool" where
  "val_ok mx v \<longleftrightarrow> field_ok (CHR 0x00 # ''/'') v \<and> v \<notin> {''noval'', ''nonewval''} \<and> 2 * length v + 40 < mx"

text \<open>What the table of a server holds under a key when only well-formed keys and values are used:
  the packet of the insertion, with the current value.\<close>

definition entry :: "string \<Rightarrow> string \<Rightarrow> zpack" where
  "entry k v = (request ZSC_OPC_INSERT k v [] 1)"

definition table_ok :: "nat \<Rightarrow> novoht \<Rightarrow> bool" where
  "table_ok mx m \<longleftrightarrow> nv_ok m \<and> writable m
     \<and> (\<forall>k s. stored m k = Some s \<longrightarrow> (\<exists>v. val_ok mx v \<and> s = zpack_to_str (entry k v)))"

definition cluster_ok :: "zht_conf \<Rightarrow> cluster \<Rightarrow> bool" where
  "cluster_ok c ss \<longleftrightarrow> zc_neighbors c \<noteq> [] \<and> length ss = length (zc_neighbors c)
     \<and> (\<forall>st \<in> set ss. table_ok (zc_msg_maxsize c) (h_map st))"

definition home :: "zht_conf \<Rightarrow> string \<Rightarrow> nat" where
  "home c k = server_index (length (zc_neighbors c)) k"

definition zht_value :: "zht_conf \<Rightarrow> cluster \<Rightarrow> string \<Rightarrow> string option" where
  "zht_value c ss k = map_option extract_value (stored (h_map (ss ! home c k)) k)"

lemma field_ok_str: "field_ok (CHR 0x00 # ''/'') s \<Longrightarrow> s \<noteq> none \<Longrightarrow> zfield_ok none (Some s)"
  by (simp add: zfield_ok_def)

lemma ok_nonempty: "key_ok mx k \<Longrightarrow> k \<noteq> []" "val_ok mx v \<Longrightarrow> v \<noteq> []"
  by (auto simp: key_ok_def val_ok_def field_ok_def)

lemma num_to_str_1: "num_to_str 1 = ''1''"
  by code_simp

lemma request_ok:
  assumes "key_ok mx k" and "v = [] \<or> val_ok mx v" and "w = [] \<or> val_ok mx w"
    and "opc \<in> {ZSC_OPC_LOOKUP, ZSC_OPC_REMOVE, ZSC_OPC_INSERT, ZSC_OPC_APPEND, ZSC_OPC_CMPSWP}"
  shows "zpack_ok (request opc k v w 1)"
  using assms
  by (auto simp: zpack_ok_def request_def key_ok_def val_ok_def zfield_ok_def zsc_defs field_ok_def int_range_defs
      num_to_str_1)

lemma entry_ok: "key_ok mx k \<Longrightarrow> val_ok mx v \<Longrightarrow> zpack_ok (entry k v)"
  unfolding entry_def by (rule request_ok [of mx]) simp_all

lemma entry_length:
  assumes "key_ok mx k" and "val_ok mx v"
  shows "length (zpack_to_str (entry k v)) + 3 < mx"
  using assms ok_nonempty
  by (auto simp: zpack_to_str_def entry_def request_def put_str_def zsc_defs bool_to_str_def num_to_str_def
      digits.simps key_ok_def val_ok_def)

lemma extract_entry: "key_ok mx k \<Longrightarrow> val_ok mx v \<Longrightarrow> extract_value (zpack_to_str (entry k v)) = v"
  by (simp add: extract_value_def zpack_roundtrip [OF entry_ok] Let_def) (simp add: entry_def request_def ok_nonempty)

lemma entry_set_val: "v \<noteq> [] \<Longrightarrow> w \<noteq> [] \<Longrightarrow> (entry k v)\<lparr>z_val := Some w\<rparr> = entry k w"
  by (simp add: entry_def request_def)

lemma val_ok_num: "\<bar>i\<bar> < 10 ^ 25 \<Longrightarrow> 100 \<le> mx \<Longrightarrow> val_ok mx (num_to_str i)"
proof -
  assume i: "\<bar>i\<bar> < 10 ^ 25" and mx: "100 \<le> mx"
  have len: "length (num_to_str i) \<le> 26" using num_to_str_length [OF i] by simp
  have "c \<noteq> CHR 0x00 \<and> c \<noteq> CHR ''/''" if "c \<in> set (num_to_str i)" for c
    using num_to_str_chars [OF that] by (auto simp: is_digit_def)
  moreover have "num_to_str i \<noteq> ''noval''" "num_to_str i \<noteq> ''nonewval''"
    using num_to_str_neq [of "''noval''" i] num_to_str_neq [of "''nonewval''" i] by (simp_all add: is_digit_def)
  ultimately show ?thesis using len mx by (auto simp: val_ok_def field_ok_def list_all_iff)
qed

section \<open>Operations on a well-formed store\<close>

lemma home_less: "cluster_ok c ss \<Longrightarrow> home c k < length ss"
  by (simp add: cluster_ok_def home_def server_index_def)

lemma home_table: "cluster_ok c ss \<Longrightarrow> table_ok (zc_msg_maxsize c) (h_map (ss ! home c k))"
  using home_less [of c ss k] by (simp add: cluster_ok_def)

lemma sendrecv_at:
  assumes "zc_neighbors c \<noteq> []" and "zpack_ok z" and "z_key z = Some k"
    and "ht_run (zc_serialize c) (zc_instant_swap c) 0 (zpack_to_str z) (ss ! home c k) = Inr (Some buf, st)"
    and "length buf < zc_msg_maxsize c"
  shows "zht_sendrecv c (zpack_to_str z) ss = Inr (buf, ss[home c k := st])"
proof -
  have "home c k < length (zc_neighbors c)" using assms(1) by (simp add: home_def server_index_def)
  then show ?thesis
    using assms
    by (simp add: zht_sendrecv_def getHostEntityByKey_def zpack_roundtrip home_def vec_at_in Let_def)
qed

lemma sendrecv_home:
  assumes "cluster_ok c ss" and "zpack_ok z" and "z_key z = Some k"
    and "ht_run (zc_serialize c) (zc_instant_swap c) 0 (zpack_to_str z) (ss ! home c k) = Inr (Some buf, st)"
    and "length buf < zc_msg_maxsize c"
  shows "zht_sendrecv c (zpack_to_str z) ss = Inr (buf, ss[home c k := st])"
  using assms by (intro sendrecv_at) (simp_all add: cluster_ok_def)

text \<open>The value under a key, as the stored packet has it.\<close>

lemma stored_entry:
  assumes "cluster_ok c ss" and "key_ok (zc_msg_maxsize c) k"
  shows "stored (h_map (ss ! home c k)) k = map_option (\<lambda>v. zpack_to_str (entry k v)) (zht_value c ss k)"
    and "zht_value c ss k = Some v \<Longrightarrow> val_ok (zc_msg_maxsize c) v"
  using home_table [OF assms(1), of k] extract_entry [OF assms(2)]
  by (cases "stored (h_map (ss ! home c k)) k"; force simp: table_ok_def zht_value_def)+

lemma put_entry:
  assumes "cluster_ok c ss" and k: "key_ok (zc_msg_maxsize c) k" and v: "val_ok (zc_msg_maxsize c) v"
    and ss': "ss' = ss[home c k := (ss ! home c k)\<lparr>h_map :=
        snd (nv_put k (zpack_to_str (entry k v)) (h_map (ss ! home c k)))\<rparr>]"
  shows "cluster_ok c ss'" and "zht_value c ss' = (zht_value c ss)(k \<mapsto> v)"
proof -
  let ?m = "h_map (ss ! home c k)" and ?m' = "snd (nv_put k (zpack_to_str (entry k v)) (h_map (ss ! home c k)))"
  have t: "table_ok (zc_msg_maxsize c) ?m" using assms(1) by (rule home_table)
  then have m: "nv_ok ?m" "writable ?m" by (simp_all add: table_ok_def)
  have st: "stored ?m' = (stored ?m)(k \<mapsto> zpack_to_str (entry k v))"
    using m(1) by (rule nv.contents_put)
  have "table_ok (zc_msg_maxsize c) ?m'"
    using t v nv.put_ok [OF m(1)] put_writable(2) [OF m(2)] by (auto simp: table_ok_def st)
  then show "cluster_ok c ss'"
    using assms(1) by (auto simp: cluster_ok_def ss' dest: set_update_subset_insert [THEN subsetD])
  show "zht_value c ss' = (zht_value c ss)(k \<mapsto> v)"
  proof
    fix k'
    show "zht_value c ss' k' = ((zht_value c ss)(k \<mapsto> v)) k'"
      using home_less [OF assms(1)] extract_entry [OF k v]
      by (cases "home c k' = home c k") (auto simp: zht_value_def ss' st)
  qed
qed

lemma del_entry:
  assumes "cluster_ok c ss" and ss': "ss' = ss[home c k := (ss ! home c k)\<lparr>h_map := snd (nv_remove k (h_map (ss ! home c k)))\<rparr>]"
  shows "cluster_ok c ss'" and "zht_value c ss' = (zht_value c ss)(k := None)"
proof -
  let ?m = "h_map (ss ! home c k)" and ?m' = "snd (nv_remove k (h_map (ss ! home c k)))"
  have t: "table_ok (zc_msg_maxsize c) ?m" using assms(1) by (rule home_table)
  then have m: "nv_ok ?m" "writable ?m" by (simp_all add: table_ok_def)
  have st: "stored ?m' = (stored ?m)(k := None)" using m(1) by (rule nv.contents_del)
  have "table_ok (zc_msg_maxsize c) ?m'"
    using t nv.del_ok [OF m(1)] remove_writable(2) [OF m(2)] by (auto simp: table_ok_def st)
  then show "cluster_ok c ss'"
    using assms(1) by (auto simp: cluster_ok_def ss' dest: set_update_subset_insert [THEN subsetD])
  show "zht_value c ss' = (zht_value c ss)(k := None)"
  proof
    fix k'
    show "zht_value c ss' k' = ((zht_value c ss)(k := None)) k'"
      using home_less [OF assms(1)] by (cases "home c k' = home c k") (auto simp: zht_value_def ss' st)
  qed
qed

definition is_code :: "string \<Rightarrow> bool" where
  "is_code code \<longleftrightarrow> length code = 3 \<and> CHR 0x00 \<notin> set code"

lemma codes_ok: "is_code ZSC_REC_SUCC" "is_code ZSC_REC_NONEXISTKEY" "is_code ZSC_REC_SRVEXP"
  by (simp_all add: is_code_def zsc_defs)

lemma erase_code: "is_code code \<Longrightarrow> erase_status_code (code @ s) = Inr s"
  by (simp add: erase_status_code_def is_code_def)

lemma commonOp_answer:
  assumes "key_ok mx k"
    and "opc \<in> {ZSC_OPC_LOOKUP, ZSC_OPC_REMOVE, ZSC_OPC_INSERT, ZSC_OPC_APPEND, ZSC_OPC_CMPSWP, ZSC_OPC_STCHGCB}"
    and "sendrecv (zpack_to_str (request opc k v w l)) s = Inr (code @ rest, s')"
    and "is_code code" and "CHR 0x00 \<notin> set rest"
  shows "commonOp sendrecv opc k v w r l s = Inr (toInt code, rest, s')"
proof -
  have "c_str (code @ rest) = code @ rest" using assms(4,5) by (intro c_str_id) (simp add: is_code_def)
  moreover have "code \<noteq> []" "length code = 3" using assms(4) by (auto simp: is_code_def)
  ultimately show ?thesis
    using assms(2,3) ok_nonempty(1) [OF assms(1)] by (simp add: commonOp_def commonOpInternal_def Let_def)
qed

text \<open>What \<open>lookup_shared\<close> answers behind its status code, and what the client makes of it.\<close>

definition shown :: "string \<Rightarrow> string option \<Rightarrow> string" where
  "shown k x = (case x of None \<Rightarrow> ''Empty'' | Some v \<Rightarrow> zpack_to_str (entry k v))"

lemma shown_facts:
  assumes "key_ok mx k" and "\<And>v. x = Some v \<Longrightarrow> val_ok mx v"
  shows "length (shown k x) + 3 < mx" and "CHR 0x00 \<notin> set (shown k x)"
    and "extract_value (shown k x) = (case x of None \<Rightarrow> [] | Some v \<Rightarrow> v)"
proof -
  have e: "extract_value ''Empty'' = []" by code_simp
  show "length (shown k x) + 3 < mx"
    using assms entry_length [OF assms(1)] by (auto simp: shown_def key_ok_def split: option.splits)
  show "CHR 0x00 \<notin> set (shown k x)"
    using assms zpack_no_nul [OF entry_ok [OF assms(1)]] by (auto simp: shown_def split: option.splits)
  show "extract_value (shown k x) = (case x of None \<Rightarrow> [] | Some v \<Rightarrow> v)"
    using assms extract_entry [OF assms(1)] e by (auto simp: shown_def split: option.splits)
qed

lemma lookup_shown:
  assumes "cluster_ok c ss" and k: "key_ok (zc_msg_maxsize c) k" and z: "z_key z = Some k"
  shows "lookup_shared z (h_map (ss ! home c k)) =
      (if zht_value c ss k = None then ZSC_REC_NONEXISTKEY else ZSC_REC_SUCC) @ shown k (zht_value c ss k)"
    and "erase_status_code (lookup_shared z (h_map (ss ! home c k))) = Inr (shown k (zht_value c ss k))"
  using ok_nonempty(1) [OF k] stored_entry(1) [OF assms(1) k]
  by (auto simp: lookup_shared_stored erase_code codes_ok z shown_def split: option.splits)

lemma shown_value:
  assumes "cluster_ok c ss" and "key_ok (zc_msg_maxsize c) k"
  shows "length (shown k (zht_value c ss k)) + 3 < zc_msg_maxsize c"
    and "CHR 0x00 \<notin> set (shown k (zht_value c ss k))"
    and "extract_value (shown k (zht_value c ss k)) = (case zht_value c ss k of None \<Rightarrow> [] | Some v \<Rightarrow> v)"
  using shown_facts [OF assms(2), of "zht_value c ss k"] stored_entry(2) [OF assms] by blast+

lemma lookup_law:
  assumes ok: "cluster_ok c ss" and k: "key_ok (zc_msg_maxsize c) k"
  shows "zc_lookup (zht_sendrecv c) k r ss =
    Inr (case zht_value c ss k of None \<Rightarrow> (-92, [], ss) | Some v \<Rightarrow> (0, v, ss))"
proof -
  define z where "z = request ZSC_OPC_LOOKUP k [] [] 1"
  have z: "zpack_ok z" unfolding z_def using k by (rule request_ok) simp_all
  have key: "z_key z = Some k" "z_opcode z = Some ZSC_OPC_LOOKUP" by (simp_all add: z_def request_def)
  note sh = shown_value [OF ok k]
  let ?code = "if zht_value c ss k = None then ZSC_REC_NONEXISTKEY else ZSC_REC_SUCC"
  have run: "ht_run (zc_serialize c) (zc_instant_swap c) 0 (zpack_to_str z) (ss ! home c k) =
      Inr (Some (?code @ shown k (zht_value c ss k)), ss ! home c k)"
    using z by (simp add: ht_run_def zpack_roundtrip key lookup_shown(1) [OF ok k key(1)] Let_def)
  have code: "is_code ?code" by (simp add: codes_ok)
  then have "zht_sendrecv c (zpack_to_str z) ss = Inr (?code @ shown k (zht_value c ss k), ss)"
    using sendrecv_home [OF ok z key(1) run] sh(1) by (simp add: is_code_def split: if_splits)
  from commonOp_answer [where sendrecv = "zht_sendrecv c", OF k _ this [unfolded z_def] code sh(2)] show ?thesis
    using sh(3) by (simp add: zc_lookup_def split: option.splits)
qed

lemma insert_law:
  assumes ok: "cluster_ok c ss" and k: "key_ok (zc_msg_maxsize c) k" and v: "val_ok (zc_msg_maxsize c) v"
    and inst: "\<not> zc_instant_swap c"
  shows "\<exists>ss'. zc_insert (zht_sendrecv c) k v ss = Inr (0, ss') \<and> cluster_ok c ss'
    \<and> zht_value c ss' = (zht_value c ss)(k \<mapsto> v)"
proof -
  define z where "z = request ZSC_OPC_INSERT k v [] 1"
  have z: "zpack_ok z" unfolding z_def by (rule request_ok [OF k]) (simp_all add: v)
  have key: "z_key z = Some k" "z_opcode z = Some ZSC_OPC_INSERT" "z = entry k v" by (simp_all add: z_def request_def entry_def)
  define ss' where "ss' = ss[home c k := (ss ! home c k)\<lparr>h_map :=
        snd (nv_put k (zpack_to_str (entry k v)) (h_map (ss ! home c k)))\<rparr>]"
  have w: "writable (h_map (ss ! home c k))" using home_table [OF ok, of k] by (simp add: table_ok_def)
  have "ht_run (zc_serialize c) (zc_instant_swap c) 0 (zpack_to_str z) (ss ! home c k) =
      Inr (Some (ZSC_REC_SUCC @ []), ss' ! home c k)"
    using z inst insert_shared_ok [OF w, of z] ok_nonempty(1) [OF k] home_less [OF ok, of k]
    by (simp add: ht_run_def zpack_roundtrip key(1,2) reply_def ss'_def key(3) [symmetric] Let_def) (simp add: zsc_defs)
  from sendrecv_home [OF ok z key(1) this]
  have "zht_sendrecv c (zpack_to_str z) ss = Inr (ZSC_REC_SUCC @ [], ss')"
    using k home_less [OF ok, of k] by (simp add: zsc_defs key_ok_def ss'_def)
  from commonOp_answer [where sendrecv = "zht_sendrecv c", OF k _ this [unfolded z_def] codes_ok(1)]
  have "zc_insert (zht_sendrecv c) k v ss = Inr (0, ss')" by (simp add: zc_insert_def)
  with put_entry [OF ok k v ss'_def] show ?thesis by blast
qed

lemma remove_law:
  assumes ok: "cluster_ok c ss" and k: "key_ok (zc_msg_maxsize c) k" and inst: "\<not> zc_instant_swap c"
  shows "\<exists>ss'. zc_remove (zht_sendrecv c) k ss = Inr (if zht_value c ss k = None then -92 else 0, ss') \<and> cluster_ok c ss'
    \<and> zht_value c ss' = (zht_value c ss)(k := None)"
proof -
  define z where "z = request ZSC_OPC_REMOVE k [] [] 1"
  have z: "zpack_ok z" unfolding z_def by (rule request_ok [OF k]) simp_all
  have key: "z_key z = Some k" "z_opcode z = Some ZSC_OPC_REMOVE" by (simp_all add: z_def request_def)
  define ss' where "ss' = ss[home c k := (ss ! home c k)\<lparr>h_map := snd (nv_remove k (h_map (ss ! home c k)))\<rparr>]"
  have w: "writable (h_map (ss ! home c k))" using home_table [OF ok, of k] by (simp add: table_ok_def)
  let ?code = "if zht_value c ss k = None then ZSC_REC_NONEXISTKEY else ZSC_REC_SUCC"
  have st: "stored (h_map (ss ! home c k)) k = None \<longleftrightarrow> zht_value c ss k = None" by (simp add: zht_value_def)
  have "remove_shared False z (h_map (ss ! home c k)) = Inr (?code, h_map (ss' ! home c k))"
    using remove_shared_ok [OF w, of z] ok_nonempty(1) [OF k] home_less [OF ok, of k] remove_split(1) [of "h_map (ss ! home c k)" k] st
    by (auto simp: key ss'_def)
  then have "ht_run (zc_serialize c) (zc_instant_swap c) 0 (zpack_to_str z) (ss ! home c k) = Inr (Some (?code @ []), ss' ! home c k)"
    using z inst home_less [OF ok, of k] by (simp add: ht_run_def zpack_roundtrip key(2) reply_def Let_def) (simp add: zsc_defs ss'_def)
  from sendrecv_home [OF ok z key(1) this]
  have "zht_sendrecv c (zpack_to_str z) ss = Inr (?code @ [], ss')"
    using k home_less [OF ok, of k] by (simp add: zsc_defs key_ok_def ss'_def)
  moreover have "is_code ?code" by (simp add: codes_ok)
  ultimately have "zc_remove (zht_sendrecv c) k ss = Inr (toInt ?code, ss')"
    using commonOp_answer [where sendrecv = "zht_sendrecv c", OF k, of ZSC_OPC_REMOVE "[]" "[]" 1 ss ?code "[]"] by (simp add: zc_remove_def z_def)
  moreover have "toInt ?code = (if zht_value c ss k = None then -92 else 0)" by simp
  ultimately show ?thesis using del_entry [OF ok ss'_def] by auto
qed

lemma compare_swap_law:
  assumes ok: "cluster_ok c ss" and k: "key_ok (zc_msg_maxsize c) k"
    and v: "val_ok (zc_msg_maxsize c) v" and w: "val_ok (zc_msg_maxsize c) w"
    and inst: "\<not> zc_instant_swap c"
  shows "zht_value c ss k = Some v \<Longrightarrow>
      \<exists>ss'. zc_compare_swap (zht_sendrecv c) k v w r ss = Inr (0, w, ss') \<and> cluster_ok c ss'
        \<and> zht_value c ss' = (zht_value c ss)(k \<mapsto> w)"
    and "zht_value c ss k \<noteq> Some v \<Longrightarrow> zc_compare_swap (zht_sendrecv c) k v w r ss =
      Inr (-4, (case zht_value c ss k of None \<Rightarrow> [] | Some u \<Rightarrow> u), ss)"
proof -
  define z where "z = request ZSC_OPC_CMPSWP k v w 1"
  have z: "zpack_ok z" unfolding z_def by (rule request_ok [OF k]) (simp_all add: v w)
  have key: "z_key z = Some k" "z_opcode z = Some ZSC_OPC_CMPSWP" "z_val z = Some v" "z_newval z = Some w"
    using ok_nonempty(2) [OF v] ok_nonempty(2) [OF w] by (simp_all add: z_def request_def)
  let ?st = "ss ! home c k"
  note k0 = ok_nonempty(1) [OF k]
  {
    assume u: "zht_value c ss k = Some v"
    define ss' where "ss' = ss[home c k := ?st\<lparr>h_map :=
        snd (nv_put k (zpack_to_str (entry k w)) (h_map ?st))\<rparr>]"
    note put = put_entry [OF ok k w ss'_def]
    have h: "ss' ! home c k = ?st\<lparr>h_map := snd (nv_put k (zpack_to_str (entry k w)) (h_map ?st))\<rparr>"
      using home_less [OF ok, of k] by (simp add: ss'_def)
    have wr: "writable (h_map ?st)" using home_table [OF ok, of k] by (simp add: table_ok_def)
    have ent: "(entry k v)\<lparr>z_val := Some w\<rparr> = entry k w" "z_val (entry k v) = Some v" "z_key (entry k w) = Some k"
      using ok_nonempty(2) [OF v] ok_nonempty(2) [OF w] by (simp_all add: entry_set_val) (simp_all add: entry_def request_def)
    have "compare_swap_internal False z (h_map ?st) = Inr (ZSC_REC_SUCC, h_map (ss' ! home c k))"
      using insert_shared_ok [OF wr, of "entry k w"] k0 u
      by (simp add: compare_swap_internal_def lookup_shown(2) [OF ok k key(1)] shown_def
          zpack_roundtrip [OF entry_ok [OF k v]] key ent h Let_def)
    then have "compare_swap False z (h_map ?st) =
        Inr (Some (ZSC_REC_SUCC @ shown k (Some w)), h_map (ss' ! home c k))"
      using k0 lookup_shown(2) [OF put(1) k key(1)] put(2) by (simp add: compare_swap_def key)
    then have "ht_run (zc_serialize c) (zc_instant_swap c) 0 (zpack_to_str z) ?st =
        Inr (Some (ZSC_REC_SUCC @ shown k (Some w)), ss' ! home c k)"
      using inst z by (simp add: ht_run_def zpack_roundtrip key(2) h Let_def) (simp add: zsc_defs)
    from sendrecv_home [OF ok z key(1) this] shown_facts [OF k, of "Some w"] w codes_ok(1) home_less [OF ok, of k]
    have "zht_sendrecv c (zpack_to_str z) ss = Inr (ZSC_REC_SUCC @ shown k (Some w), ss')"
      by (simp add: is_code_def h) (simp add: ss'_def)
    from commonOp_answer [where sendrecv = "zht_sendrecv c", OF k _ this [unfolded z_def] codes_ok(1)] shown_facts(2,3) [OF k, of "Some w"] w
    have "zc_compare_swap (zht_sendrecv c) k v w r ss = Inr (0, w, ss')" by (simp add: zc_compare_swap_def)
    with put show "\<exists>ss'. zc_compare_swap (zht_sendrecv c) k v w r ss = Inr (0, w, ss') \<and> cluster_ok c ss'
        \<and> zht_value c ss' = (zht_value c ss)(k \<mapsto> w)" by blast
  next
    assume u: "zht_value c ss k \<noteq> Some v"
    note sh = shown_value [OF ok k]
    have "bytes_of (z_val (str_to_zpack (shown k (zht_value c ss k)))) = (case zht_value c ss k of None \<Rightarrow> [] | Some u \<Rightarrow> u)"
    proof (cases "zht_value c ss k")
      case None
      have "bytes_of (z_val (str_to_zpack ''Empty'')) = []" by code_simp
      with None show ?thesis by (simp add: shown_def)
    next
      case (Some x)
      have x: "val_ok (zc_msg_maxsize c) x" using stored_entry(2) [OF ok k Some] .
      show ?thesis
        using Some ok_nonempty(2) [OF x]
        by (simp add: shown_def zpack_roundtrip [OF entry_ok [OF k x]]) (simp add: entry_def request_def)
    qed
    then have "compare_swap (zc_instant_swap c) z (h_map ?st) = Inr (Some (ZSC_REC_SRVEXP @ shown k (zht_value c ss k)), h_map ?st)"
      using k0 u ok_nonempty(2) [OF v]
      by (auto simp: compare_swap_def compare_swap_internal_def lookup_shown(2) [OF ok k key(1)] key Let_def split: option.splits)
    then have "ht_run (zc_serialize c) (zc_instant_swap c) 0 (zpack_to_str z) ?st =
        Inr (Some (ZSC_REC_SRVEXP @ shown k (zht_value c ss k)), ?st)"
      using z by (simp add: ht_run_def zpack_roundtrip key(2) Let_def) (simp add: zsc_defs)
    from sendrecv_home [OF ok z key(1) this] sh(1) codes_ok(3)
    have "zht_sendrecv c (zpack_to_str z) ss = Inr (ZSC_REC_SRVEXP @ shown k (zht_value c ss k), ss)"
      by (simp add: is_code_def)
    from commonOp_answer [where sendrecv = "zht_sendrecv c", OF k _ this [unfolded z_def] codes_ok(3) sh(2)] sh(3)
    show "zc_compare_swap (zht_sendrecv c) k v w r ss =
      Inr (-4, (case zht_value c ss k of None \<Rightarrow> [] | Some u \<Rightarrow> u), ss)"
      by (simp add: zc_compare_swap_def)
  }
qed

end
