(* ===== verification/Zht_Service.thy ===== *)
theory Zht_Service
  imports Zht_Client
begin

text \<open>
  The key-value service as the schedulers and clients of MATRIX use it: the three operations of the
  ZHT client they call, the laws they rely on (a locale), the read-modify-write loop that all of
  their shared counters and task records go through, and the proof that the modelled cluster
  provides the laws.
\<close>

section \<open>Interface\<close>

record 's zht_ops =
  zlookup :: "string \<Rightarrow> 's \<Rightarrow> (int \<times> string \<times> 's) res"
  zinsert :: "string \<Rightarrow> string \<Rightarrow> 's \<Rightarrow> (int \<times> 's) res"
  zcswap :: "string \<Rightarrow> string \<Rightarrow> string \<Rightarrow> 's \<Rightarrow> (int \<times> string \<times> 's) res"
  zremove :: "string \<Rightarrow> 's \<Rightarrow> (int \<times> 's) res"

text \<open>The loop around \<open>compare_swap\<close>, as in \<open>regist\<close>, \<open>recv_task_from_client\<close>, \<open>notify_children\<close>: try
  to replace \<open>seen\<close> by \<open>f seen\<close>; on failure go on with the value the failed attempt returned, or,
  when that is empty, with the one of a new lookup. Other peers work on the store meanwhile:
  \<open>env i\<close> is what they did between this peer's requests \<open>i - 1\<close> and \<open>i\<close>. The result is the last
  seen value, the number of further lookups, the number of the next request and the store; \<open>None\<close>
  is a loop that never ends.\<close>

partial_function (option) cas_loop ::
    "'s zht_ops \<Rightarrow> (nat \<Rightarrow> 's \<Rightarrow> 's) \<Rightarrow> (string \<Rightarrow> string res) \<Rightarrow> string \<Rightarrow> string \<Rightarrow> nat \<Rightarrow> nat \<Rightarrow> 's
      \<Rightarrow> (string \<times> nat \<times> nat \<times> 's) res option" where
  "cas_loop z env f key seen lk i s =
     (case f seen of
        Inl e \<Rightarrow> Some (Inl e)
      | Inr attempt \<Rightarrow>
          (case zcswap z key seen attempt (env i s) of
             Inl e \<Rightarrow> Some (Inl e)
           | Inr (rc, query, s') \<Rightarrow>
               if rc = 0 then Some (Inr (seen, lk, Suc i, s'))
               else if query = []
               then (case zlookup z key (env (Suc i) s') of
                       Inl e \<Rightarrow> Some (Inl e)
                     | Inr (_, seen', s'') \<Rightarrow> cas_loop z env f key seen' (Suc lk) (Suc (Suc i)) s'')
               else cas_loop z env f key query lk (Suc i) s'))"

section \<open>Contract\<close>

locale zht_service =
  fixes z :: "'s zht_ops"
    and value_of :: "'s \<Rightarrow> string \<Rightarrow> string option"
    and good :: "'s \<Rightarrow> bool"
    and okk :: "string \<Rightarrow> bool"
    and okv :: "string \<Rightarrow> bool"
  assumes lookup: "good s \<Longrightarrow> okk k \<Longrightarrow>
      zlookup z k s = Inr (case value_of s k of None \<Rightarrow> (-92, [], s) | Some v \<Rightarrow> (0, v, s))"
    and insert: "good s \<Longrightarrow> okk k \<Longrightarrow> okv v \<Longrightarrow>
      \<exists>s'. zinsert z k v s = Inr (0, s') \<and> good s' \<and> value_of s' = (value_of s)(k \<mapsto> v)"
    and cswap_hit: "good s \<Longrightarrow> okk k \<Longrightarrow> okv v \<Longrightarrow> okv w \<Longrightarrow> value_of s k = Some v \<Longrightarrow>
      \<exists>s'. zcswap z k v w s = Inr (0, w, s') \<and> good s' \<and> value_of s' = (value_of s)(k \<mapsto> w)"
    and cswap_miss: "good s \<Longrightarrow> okk k \<Longrightarrow> okv v \<Longrightarrow> okv w \<Longrightarrow> value_of s k \<noteq> Some v \<Longrightarrow>
      zcswap z k v w s = Inr (-4, (case value_of s k of None \<Rightarrow> [] | Some u \<Rightarrow> u), s)"
    and remove: "good s \<Longrightarrow> okk k \<Longrightarrow>
      \<exists>s'. zremove z k s = Inr (if value_of s k = None then -92 else 0, s') \<and> good s' \<and> value_of s' = (value_of s)(k := None)"
    and stored_ok: "good s \<Longrightarrow> okk k \<Longrightarrow> value_of s k = Some v \<Longrightarrow> okv v"
    and okv_nonempty: "okv v \<Longrightarrow> v \<noteq> []"
begin

lemma insert_lookup:
  assumes "good s" and "okk k" and "okv v" and "zinsert z k v s = Inr (rc, s')"
  shows "zlookup z k s' = Inr (0, v, s')"
proof -
  from insert [OF assms(1-3)] assms(4) have "good s'" "value_of s' = (value_of s)(k \<mapsto> v)" by auto
  with lookup [of s' k] assms(2) show ?thesis by simp
qed

lemma insert_other:
  assumes "good s" and "okk k" and "okk k'" and "okv v" and "k' \<noteq> k" and "zinsert z k v s = Inr (rc, s')"
    and "zlookup z k' s = Inr (rc', v', s)"
  shows "zlookup z k' s' = Inr (rc', v', s')"
proof -
  from insert [OF assms(1,2,4)] assms(6) have "good s'" "value_of s' = (value_of s)(k \<mapsto> v)" by auto
  with lookup [of s' k'] lookup [of s k'] assms show ?thesis by (auto split: option.splits)
qed

text \<open>The loop is an atomic update: when it returns, its last request found the value it had seen
  and replaced it by the function's result, however often and in whatever way the others changed
  the store before. It returns at the first request before which nobody changed the key since the
  value was read.\<close>

definition cas_done :: "(string \<Rightarrow> string res) \<Rightarrow> string \<Rightarrow> nat \<Rightarrow> (string \<times> nat \<times> nat \<times> 's) res \<Rightarrow> bool" where
  "cas_done f k i r \<longleftrightarrow> (\<exists>seen w lk j s0 s'. r = Inr (seen, lk, Suc j, s') \<and> i \<le> j \<and> f seen = Inr w
     \<and> good s0 \<and> good s' \<and> value_of s0 k = Some seen \<and> value_of s' = (value_of s0)(k \<mapsto> w))"

lemma cas_done_Suc:
  assumes "cas_done f k (Suc i) r"
  shows "cas_done f k i r"
proof -
  from assms obtain seen w lk j s0 s' where "r = Inr (seen, lk, Suc j, s')" "Suc i \<le> j" "f seen = Inr w"
      "good s0" "good s'" "value_of s0 k = Some seen" "value_of s' = (value_of s0)(k \<mapsto> w)"
    unfolding cas_done_def by blast
  moreover have "i \<le> j" using \<open>Suc i \<le> j\<close> by simp
  ultimately show ?thesis unfolding cas_done_def by blast
qed

lemma cas_loop_step:
  assumes "good (env i s)" and "value_of (env i s) k = Some cur" and "okk k" and "okv seen"
    and "f seen = Inr w" and "okv w"
  shows "cur = seen \<Longrightarrow> \<exists>s'. cas_loop z env f k seen lk i s = Some (Inr (seen, lk, Suc i, s'))
      \<and> good s' \<and> value_of s' = (value_of (env i s))(k \<mapsto> w)"
    and "cur \<noteq> seen \<Longrightarrow> cas_loop z env f k seen lk i s = cas_loop z env f k cur lk (Suc i) (env i s)"
proof -
  assume "cur = seen"
  then obtain s' where "zcswap z k seen w (env i s) = Inr (0, w, s')" "good s'"
      "value_of s' = (value_of (env i s))(k \<mapsto> w)"
    using cswap_hit [OF assms(1,3,4,6)] assms(2) by blast
  with assms(5) show "\<exists>s'. cas_loop z env f k seen lk i s = Some (Inr (seen, lk, Suc i, s'))
      \<and> good s' \<and> value_of s' = (value_of (env i s))(k \<mapsto> w)"
    by (subst cas_loop.simps) auto
next
  assume "cur \<noteq> seen"
  then have "zcswap z k seen w (env i s) = Inr (-4, cur, env i s)"
    using cswap_miss [OF assms(1,3,4,6)] assms(2) by simp
  moreover have "cur \<noteq> []" using stored_ok [OF assms(1,3,2)] by (rule okv_nonempty)
  ultimately show "cas_loop z env f k seen lk i s = cas_loop z env f k cur lk (Suc i) (env i s)"
    using assms(5) by (subst cas_loop.simps) simp
qed

lemma cas_loop_atomic:
  assumes env: "\<And>i s. good s \<Longrightarrow> value_of s k \<noteq> None \<Longrightarrow> good (env i s) \<and> value_of (env i s) k \<noteq> None"
    and k: "okk k"
    and f: "\<And>v. okv v \<Longrightarrow> \<exists>w. f v = Inr w \<and> okv w"
    and ret: "cas_loop z env f k seen lk i s = Some r"
    and s: "good s" "value_of s k \<noteq> None" "okv seen"
  shows "cas_done f k i r"
proof -
  define P where "P z' env' f' k' seen lk i s r \<longleftrightarrow>
      (z' = z \<longrightarrow> env' = env \<longrightarrow> f' = f \<longrightarrow> k' = k \<longrightarrow> good s \<longrightarrow> value_of s k \<noteq> None \<longrightarrow> okv seen
        \<longrightarrow> cas_done f k i r)" for z' :: "'s zht_ops" and env' f' k' seen and lk :: nat and i s r
  have "P z env f k seen lk i s r"
    using ret
  proof (rule cas_loop.raw_induct [of P, rotated])
    fix loop z' env' f' k' seen lk i s r
    assume IH: "\<And>z env f key seen lk i s y. loop z env f key seen lk i s = Some y \<Longrightarrow> P z env f key seen lk i s y"
      and body: "(case f' seen of Inl e \<Rightarrow> Some (Inl e)
        | Inr attempt \<Rightarrow> (case zcswap z' k' seen attempt (env' i s) of Inl e \<Rightarrow> Some (Inl e)
           | Inr (rc, query, s') \<Rightarrow>
               if rc = 0 then Some (Inr (seen, lk, Suc i, s'))
               else if query = []
               then (case zlookup z' k' (env' (Suc i) s') of Inl e \<Rightarrow> Some (Inl e)
                     | Inr (_, seen', s'') \<Rightarrow> loop z' env' f' k' seen' (Suc lk) (Suc (Suc i)) s'')
               else loop z' env' f' k' query lk (Suc i) s')) = Some r"
    show "P z' env' f' k' seen lk i s r"
      unfolding P_def
    proof (intro impI)
      assume eq: "z' = z" "env' = env" "f' = f" "k' = k" and s: "good s" "value_of s k \<noteq> None" "okv seen"
      obtain w where w: "f seen = Inr w" "okv w" using f [OF s(3)] by blast
      from env [OF s(1,2), of i] obtain cur where e: "good (env i s)" "value_of (env i s) k = Some cur" by auto
      have cur: "okv cur" using stored_ok [OF e(1) k e(2)] .
      show "cas_done f k i r"
      proof (cases "cur = seen")
        case True
        then obtain s' where "zcswap z k seen w (env i s) = Inr (0, w, s')" "good s'"
            "value_of s' = (value_of (env i s))(k \<mapsto> w)"
          using cswap_hit [OF e(1) k s(3) w(2)] e(2) by blast
        with body eq w(1) have "r = Inr (seen, lk, Suc i, s')" by simp
        with w(1) e True \<open>good s'\<close> \<open>value_of s' = (value_of (env i s))(k \<mapsto> w)\<close> show ?thesis
          unfolding cas_done_def by blast
      next
        case False
        then have "zcswap z k seen w (env i s) = Inr (-4, cur, env i s)"
          using cswap_miss [OF e(1) k s(3) w(2)] e(2) by simp
        with body eq w(1) okv_nonempty [OF cur] have "loop z env f k cur lk (Suc i) (env i s) = Some r" by simp
        from IH [OF this] have "cas_done f k (Suc i) r" unfolding P_def using e cur by simp
        then show ?thesis by (rule cas_done_Suc)
      qed
    qed
  qed
  then show ?thesis using s by (simp add: P_def)
qed

text \<open>It does return, as soon as the others leave the key alone for one request.\<close>

lemma cas_loop_returns:
  assumes env: "\<And>i s. good s \<Longrightarrow> value_of s k \<noteq> None \<Longrightarrow> good (env i s) \<and> value_of (env i s) k \<noteq> None"
    and quiet: "\<And>s. good s \<Longrightarrow> value_of (env n s) k = value_of s k"
    and k: "okk k"
    and f: "\<And>v. okv v \<Longrightarrow> \<exists>w. f v = Inr w \<and> okv w"
    and s: "good s" "value_of s k \<noteq> None" "okv seen" "i < n"
  shows "\<exists>r. cas_loop z env f k seen lk i s = Some r"
  using s
proof (induction "n - i" arbitrary: seen lk i s rule: less_induct)
  case less
  obtain w where w: "f seen = Inr w" "okv w" using f [OF less.prems(3)] by blast
  from env [OF less.prems(1,2), of i] obtain cur where e: "good (env i s)" "value_of (env i s) k = Some cur" by auto
  have cur: "okv cur" using stored_ok [OF e(1) k e(2)] .
  note step = cas_loop_step [where f = f and env = env, OF e k less.prems(3) w]
  show ?case
  proof (cases "cur = seen")
    case True
    from step(1) [OF this] show ?thesis by blast
  next
    case miss: False
    show ?thesis
    proof (cases "Suc i < n")
      case True
      then have "n - Suc i < n - i" by linarith
      from less.hyps [OF this e(1) _ cur True] e(2) step(2) [OF miss] show ?thesis by simp
    next
      case False
      then have n: "n = Suc i" using less.prems(4) by simp
      obtain w' where w': "f cur = Inr w'" "okv w'" using f [OF cur] by blast
      have e': "value_of (env (Suc i) (env i s)) k = Some cur"
        using quiet [of "env i s"] e n by simp
      have g: "good (env (Suc i) (env i s))"
        using env [of "env i s" "Suc i"] e by simp
      from cas_loop_step(1) [where f = f and env = env and lk = lk, OF g e' k cur w'] show ?thesis
        unfolding step(2) [OF miss] by blast
    qed
  qed
qed

end

section \<open>The cluster provides it\<close>

definition zht_ops_of :: "zht_conf \<Rightarrow> cluster zht_ops" where
  "zht_ops_of c = \<lparr>zlookup = (\<lambda>k. zc_lookup (zht_sendrecv c) k []),
     zinsert = zc_insert (zht_sendrecv c),
     zcswap = (\<lambda>k v w. zc_compare_swap (zht_sendrecv c) k v w []),
     zremove = zc_remove (zht_sendrecv c)\<rparr>"

text \<open>A deployment without \<open>INSTANT_SWAP\<close>, the default of \<^verbatim>\<open>zht.conf\<close>.\<close>

definition deployed :: "zht_conf \<Rightarrow> cluster \<Rightarrow> bool" where
  "deployed c ss \<longleftrightarrow> \<not> zc_instant_swap c \<and> cluster_ok c ss"

interpretation zs: zht_service "zht_ops_of c" "zht_value c" "deployed c"
    "key_ok (zc_msg_maxsize c)" "val_ok (zc_msg_maxsize c)" for c
proof (unfold_locales, goal_cases)
  case (1 s k)
  then show ?case by (simp add: zht_ops_of_def deployed_def lookup_law)
next
  case (2 s k v)
  then show ?case using insert_law [of c s k v] by (auto simp: zht_ops_of_def deployed_def)
next
  case (3 s k v w)
  then show ?case using compare_swap_law(1) [of c s k v w "[]"] by (auto simp: zht_ops_of_def deployed_def)
next
  case (4 s k v w)
  then show ?case using compare_swap_law(2) [of c s k v w "[]"] by (auto simp: zht_ops_of_def deployed_def)
next
  case (5 s k)
  then show ?case using remove_law [of c s k] by (auto simp: zht_ops_of_def deployed_def)
next
  case (6 s k v)
  then show ?case using stored_entry(2) [of c s k v] by (simp add: deployed_def)
next
  case (7 v)
  then show ?case by (rule ok_nonempty(2))
qed

section \<open>Runs of client operations\<close>

datatype zht_op = ZLookup string | ZInsert string string | ZCswap string string string | ZRemove string

fun zht_do :: "'s zht_ops \<Rightarrow> zht_op \<Rightarrow> 's \<Rightarrow> (int \<times> string \<times> 's) res" where
  "zht_do z (ZLookup k) s = zlookup z k s"
| "zht_do z (ZInsert k v) s = bind_res (zinsert z k v s) (\<lambda>(rc, s'). Inr (rc, [], s'))"
| "zht_do z (ZCswap k v w) s = zcswap z k v w s"
| "zht_do z (ZRemove k) s = bind_res (zremove z k s) (\<lambda>(rc, s'). Inr (rc, [], s'))"

fun zht_run_ops :: "'s zht_ops \<Rightarrow> zht_op list \<Rightarrow> 's \<Rightarrow> ((int \<times> string) list \<times> 's) res" where
  "zht_run_ops z [] s = Inr ([], s)"
| "zht_run_ops z (x # xs) s =
     bind_res (zht_do z x s) (\<lambda>(rc, out, s').
       bind_res (zht_run_ops z xs s') (\<lambda>(outs, s''). Inr ((rc, out) # outs, s'')))"

text \<open>The same operations on a map.\<close>

definition text_of :: "string option \<Rightarrow> string" where
  "text_of x = (case x of None \<Rightarrow> [] | Some v \<Rightarrow> v)"

fun spec_do :: "zht_op \<Rightarrow> (string \<Rightarrow> string option) \<Rightarrow> (int \<times> string) \<times> (string \<Rightarrow> string option)" where
  "spec_do (ZLookup k) m = ((if m k = None then -92 else 0, text_of (m k)), m)"
| "spec_do (ZInsert k v) m = ((0, []), m(k \<mapsto> v))"
| "spec_do (ZCswap k v w) m =
     (if m k = Some v then ((0, w), m(k \<mapsto> w)) else ((-4, text_of (m k)), m))"
| "spec_do (ZRemove k) m = ((if m k = None then -92 else 0, []), m(k := None))"

fun spec_run :: "zht_op list \<Rightarrow> (string \<Rightarrow> string option) \<Rightarrow> (int \<times> string) list \<times> (string \<Rightarrow> string option)" where
  "spec_run [] m = ([], m)"
| "spec_run (x # xs) m = (let (o1, m1) = spec_do x m; (os, m2) = spec_run xs m1 in (o1 # os, m2))"

fun zop_ok :: "nat \<Rightarrow> zht_op \<Rightarrow> bool" where
  "zop_ok mx (ZLookup k) = key_ok mx k"
| "zop_ok mx (ZInsert k v) = (key_ok mx k \<and> val_ok mx v)"
| "zop_ok mx (ZCswap k v w) = (key_ok mx k \<and> val_ok mx v \<and> val_ok mx w)"
| "zop_ok mx (ZRemove k) = key_ok mx k"

lemma zht_do_refines:
  assumes "deployed c ss" and "zop_ok (zc_msg_maxsize c) x"
  shows "\<exists>ss'. zht_do (zht_ops_of c) x ss =
      Inr (fst (fst (spec_do x (zht_value c ss))), snd (fst (spec_do x (zht_value c ss))), ss')
    \<and> deployed c ss' \<and> zht_value c ss' = snd (spec_do x (zht_value c ss))"
proof (cases x)
  case (ZLookup k)
  with assms zs.lookup [of c ss k] show ?thesis by (auto simp: text_of_def split: option.splits)
next
  case (ZInsert k v)
  with assms zs.insert [of c ss k v] show ?thesis by auto
next
  case (ZCswap k v w)
  with assms zs.cswap_hit [of c ss k v w] zs.cswap_miss [of c ss k v w] show ?thesis
    by (cases "zht_value c ss k = Some v") (auto simp: text_of_def)
next
  case (ZRemove k)
  with assms zs.remove [of c ss k] show ?thesis by auto
qed

lemma zht_run_refines:
  assumes "deployed c ss" and "list_all (zop_ok (zc_msg_maxsize c)) xs"
  shows "\<exists>ss'. zht_run_ops (zht_ops_of c) xs ss = Inr (fst (spec_run xs (zht_value c ss)), ss')
    \<and> deployed c ss' \<and> zht_value c ss' = snd (spec_run xs (zht_value c ss))"
  using assms
proof (induction xs arbitrary: ss)
  case (Cons x xs)
  from Cons.prems zht_do_refines [of c ss x] obtain ss1 where
    1: "zht_do (zht_ops_of c) x ss =
      Inr (fst (fst (spec_do x (zht_value c ss))), snd (fst (spec_do x (zht_value c ss))), ss1)"
      "deployed c ss1" "zht_value c ss1 = snd (spec_do x (zht_value c ss))" by auto
  from Cons.IH [OF 1(2)] Cons.prems(2) 1(1,3) show ?case
    by (auto simp: Let_def split: prod.splits)
qed simp

section \<open>Properties\<close>

definition demo_conf :: zht_conf where
  "demo_conf = \<lparr>zc_serialize = (\<lambda>_. []), zc_instant_swap = False, zc_msg_maxsize = 1000,
     zc_neighbors = [(''n0'', ''50000''), (''n1'', ''50000'')]\<rparr>"

definition empty_server :: ht_state where
  "empty_server = \<lparr>h_map = \<lparr>nv_size = 1, nv_kvpairs = [[]], nv_numEl = 0, nv_nRem = 0, nv_magicNumber = 100,
     nv_resizeNum = (3, -1), nv_filename = [], nv_dbfile = None, nv_swapFile = None, nv_rewriting = False,
     nv_thread_rc = 0, nv_junk = (\<lambda>_. False)\<rparr>, h_queue = [], h_async = False\<rparr>"

definition demo_cluster :: cluster where
  "demo_cluster = [empty_server, empty_server]"

lemma demo_deployed: "deployed demo_conf demo_cluster"
  by (auto simp: deployed_def demo_conf_def demo_cluster_def cluster_ok_def table_ok_def nv_ok_def chains_ok_def
      writable_def empty_server_def stored_def chain_def slot_of_one)

lemma demo_empty: "zht_value demo_conf demo_cluster = (\<lambda>_. None)"
proof
  fix k
  have "home demo_conf k < length demo_cluster"
    using demo_deployed by (intro home_less) (simp add: deployed_def)
  then have "demo_cluster ! home demo_conf k \<in> set demo_cluster" by (rule nth_mem)
  then have "demo_cluster ! home demo_conf k = empty_server" by (simp add: demo_cluster_def)
  then show "zht_value demo_conf demo_cluster k = None"
    by (simp add: zht_value_def empty_server_def stored_def chain_def slot_of_one)
qed

lemma demo_ok: "key_ok (zc_msg_maxsize demo_conf) ''k''" "val_ok (zc_msg_maxsize demo_conf) ''1''"
  "val_ok (zc_msg_maxsize demo_conf) ''2''"
  by (simp_all add: demo_conf_def key_ok_def val_ok_def field_ok_def)

text \<open>Property C7. The whole stack under a ZHT client -- printing the packet, choosing the server by
  the hash of the key, parsing, the handlers, the hash table and the parsing of the answer -- is a
  map from keys to values: every sequence of \<open>lookup\<close>, \<open>insert\<close>, \<open>remove\<close> and \<open>compare_swap\<close> calls on well-formed
  keys and values returns the codes and values of the same operations on a map, and ends without a
  fault in a store that holds that map.\<close>

theorem zht_stack_refines_map:
  assumes "deployed c ss" and "list_all (zop_ok (zc_msg_maxsize c)) ops"
  shows "\<exists>ss'. zht_run_ops (zht_ops_of c) ops ss = Inr (fst (spec_run ops (zht_value c ss)), ss')
    \<and> deployed c ss' \<and> zht_value c ss' = snd (spec_run ops (zht_value c ss))"
  using assms by (rule zht_run_refines)

theorem zht_stack_refines_map_witness:
  "\<exists>ss'. zht_run_ops (zht_ops_of demo_conf)
       [ZLookup ''k'', ZInsert ''k'' ''1'', ZCswap ''k'' ''1'' ''2'', ZCswap ''k'' ''1'' ''2'', ZLookup ''k'', ZRemove ''k'', ZLookup ''k'', ZRemove ''k''] demo_cluster =
     Inr ([(-92, []), (0, []), (0, ''2''), (-4, ''2''), (0, ''2''), (0, []), (-92, []), (-92, [])], ss')"
  using zht_stack_refines_map [OF demo_deployed,
      of "[ZLookup ''k'', ZInsert ''k'' ''1'', ZCswap ''k'' ''1'' ''2'', ZCswap ''k'' ''1'' ''2'', ZLookup ''k'', ZRemove ''k'', ZLookup ''k'', ZRemove ''k'']"] demo_ok
  by (auto simp: demo_empty text_of_def)

text \<open>Property C8. The compare-and-swap loop loses no update: whatever the other peers do to the
  store between its requests (short of deleting the key), when the loop returns, its last request
  replaced in one step the value then stored by the function of that very value.\<close>

theorem cas_loop_loses_no_update:
  assumes "\<And>i s. deployed c s \<Longrightarrow> zht_value c s k \<noteq> None \<Longrightarrow>
      deployed c (env i s) \<and> zht_value c (env i s) k \<noteq> None"
    and "key_ok (zc_msg_maxsize c) k"
    and "\<And>v. val_ok (zc_msg_maxsize c) v \<Longrightarrow> \<exists>w. f v = Inr w \<and> val_ok (zc_msg_maxsize c) w"
    and "cas_loop (zht_ops_of c) env f k seen lk i ss = Some r"
    and "deployed c ss" and "zht_value c ss k \<noteq> None" and "val_ok (zc_msg_maxsize c) seen"
  shows "\<exists>old new lk' j before after. r = Inr (old, lk', Suc j, after) \<and> f old = Inr new
    \<and> zht_value c before k = Some old \<and> deployed c after
    \<and> zht_value c after = (zht_value c before)(k \<mapsto> new)"
  using zs.cas_loop_atomic [of c k env f, OF assms] unfolding zs.cas_done_def by blast

text \<open>Property C9. The loop ends: if the others leave the key alone before some later request \<open>n\<close>, it
  has returned by then.\<close>

theorem cas_loop_ends:
  assumes "\<And>i s. deployed c s \<Longrightarrow> zht_value c s k \<noteq> None \<Longrightarrow>
      deployed c (env i s) \<and> zht_value c (env i s) k \<noteq> None"
    and "\<And>s. deployed c s \<Longrightarrow> zht_value c (env n s) k = zht_value c s k"
    and "key_ok (zc_msg_maxsize c) k"
    and "\<And>v. val_ok (zc_msg_maxsize c) v \<Longrightarrow> \<exists>w. f v = Inr w \<and> val_ok (zc_msg_maxsize c) w"
    and "deployed c ss" and "zht_value c ss k \<noteq> None" and "val_ok (zc_msg_maxsize c) seen" and "i < n"
  shows "\<exists>r. cas_loop (zht_ops_of c) env f k seen lk i ss = Some r"
  using zs.cas_loop_returns [of c k env n f, OF assms] .

lemma demo_stored:
  "\<exists>ss. deployed demo_conf ss \<and> zht_value demo_conf ss = [''k'' \<mapsto> ''1'']"
  using zs.insert [OF demo_deployed demo_ok(1,2)] demo_empty by auto

theorem cas_loop_ends_witness:
  "\<exists>ss r. zht_value demo_conf ss ''k'' = Some ''1''
     \<and> cas_loop (zht_ops_of demo_conf) (\<lambda>_ s. s) (\<lambda>_. Inr ''2'') ''k'' ''2'' 0 0 ss = Some r"
proof -
  obtain ss where ss: "deployed demo_conf ss" "zht_value demo_conf ss = [''k'' \<mapsto> ''1'']" using demo_stored by blast
  have "\<exists>r. cas_loop (zht_ops_of demo_conf) (\<lambda>_ s. s) (\<lambda>_. Inr ''2'') ''k'' ''2'' 0 0 ss = Some r"
    by (rule cas_loop_ends [where c = demo_conf and n = 1]) (use ss demo_ok in auto)
  moreover have "zht_value demo_conf ss ''k'' = Some ''1''" using ss(2) by simp
  ultimately show ?thesis by blast
qed

theorem cas_loop_loses_no_update_witness:
  "\<exists>ss after lk j. zht_value demo_conf ss ''k'' = Some ''1''
     \<and> cas_loop (zht_ops_of demo_conf) (\<lambda>_ s. s) (\<lambda>_. Inr ''2'') ''k'' ''1'' 0 0 ss = Some (Inr (''1'', lk, j, after))
     \<and> zht_value demo_conf after ''k'' = Some ''2''"
proof -
  obtain ss where ss: "deployed demo_conf ss" "zht_value demo_conf ss = [''k'' \<mapsto> ''1'']" using demo_stored by blast
  have ex: "\<exists>s'. cas_loop (zht_ops_of demo_conf) (\<lambda>_ s. s) (\<lambda>_. Inr ''2'') ''k'' ''1'' 0 0 ss =
      Some (Inr (''1'', 0, Suc 0, s'))"
    using zs.cas_loop_step(1) [where c = demo_conf and env = "\<lambda>_ s. s" and f = "\<lambda>_. Inr ''2''" and i = 0 and s = ss
        and cur = "''1''" and lk = 0, OF ss(1) _ demo_ok(1,2) refl demo_ok(3)] ss(2) by auto
  then obtain s' where r: "cas_loop (zht_ops_of demo_conf) (\<lambda>_ s. s) (\<lambda>_. Inr ''2'') ''k'' ''1'' 0 0 ss =
      Some (Inr (''1'', 0, Suc 0, s'))" by blast
  have "\<exists>old new lk' j before after. (Inr (''1'', 0, Suc 0, s') :: (string \<times> nat \<times> nat \<times> cluster) res) =
        Inr (old, lk', Suc j, after) \<and> Inr ''2'' = (Inr new :: string res)
      \<and> zht_value demo_conf before ''k'' = Some old \<and> deployed demo_conf after
      \<and> zht_value demo_conf after = (zht_value demo_conf before)(''k'' \<mapsto> new)"
    by (rule cas_loop_loses_no_update [OF _ _ _ r]) (use ss demo_ok in auto)
  then have "zht_value demo_conf s' ''k'' = Some ''2''" by auto
  moreover have "zht_value demo_conf ss ''k'' = Some ''1''" using ss(2) by simp
  ultimately show ?thesis using r by blast
qed

end
