(* ===== verification/Scheduler.thy ===== *)
theory Scheduler
  imports Framing Config Task_Queue Zht_Service
begin

text \<open>
  The MATRIX scheduler (\<^verbatim>\<open>matrix/src/scheduler_stub.cpp\<close>, built with \<open>DATA_CACHE\<close> and without
  \<open>ZHT_STORAGE\<close>): its state, the handlers of the requests it serves and the bodies of the loops its
  threads run. A function that talks to ZHT takes the operations \<open>z\<close> of the service and threads the
  store \<open>s\<close>; \<open>env\<close> is what other peers do to the store between two requests of a loop. The clock, the
  output of an executed command and the bytes another scheduler sends are arguments.
\<close>

section \<open>State\<close>

record cmp_item =
  cq_taskId :: string
  cq_key :: string
  cq_dataSize :: int

record sched =
  sc_conf :: matrix_conf
  sc_id :: string
  sc_index :: int
  sc_vec :: "string list"
  sc_running :: bool
  sc_numZHTMsg :: int
  sc_numIdleCore :: int
  sc_prevNumTaskFin :: int
  sc_numTaskFin :: int
  sc_numWS :: int
  sc_numWSFail :: int
  sc_numNeigh :: nat
  sc_neighIdx :: "nat list"
  sc_chooseBitMap :: "bool list"
  sc_maxLoadedIdx :: int
  sc_maxLoad :: int
  sc_pollInterval :: int
  sc_localQueue :: task_pq
  sc_wsQueue :: task_pq
  sc_waitQueue :: "task_msg list"
  sc_completeQueue :: "cmp_item list"
  sc_localData :: "(string, string) cmap"
  sc_cache :: bool
  sc_timeEntry :: "string list"

definition time_entry :: "task_msg \<Rightarrow> string \<Rightarrow> int \<Rightarrow> string" where
  "time_entry tm what t = taskid tm @ [CHR 0x09] @ what @ [CHR 0x09] @ num_to_str t"

definition add_entries :: "string list \<Rightarrow> sched \<Rightarrow> sched" where
  "add_entries es st = st\<lparr>sc_timeEntry := sc_timeEntry st @ es\<rparr>"

text \<open>Reading an element of a repeated protobuf field; out of range it is undefined.\<close>

definition rep_at :: "'a list \<Rightarrow> nat \<Rightarrow> 'a res" where
  "rep_at xs i = (if i < length xs then Inr (xs ! i) else Inl Undefined)"

section \<open>Waiting for the store\<close>

text \<open>The loops of \<open>regist\<close>, \<open>wait_all_scheduler\<close> and \<open>wait_all_task_recv\<close>: look a key up until its
  value satisfies a condition.\<close>

partial_function (option) poll_until ::
    "'s zht_ops \<Rightarrow> (nat \<Rightarrow> 's \<Rightarrow> 's) \<Rightarrow> string \<Rightarrow> (string \<Rightarrow> bool) \<Rightarrow> nat \<Rightarrow> 's \<Rightarrow> (string \<times> nat \<times> 's) res option" where
  "poll_until z env key P i s =
     (case zlookup z key (env i s) of
        Inl e \<Rightarrow> Some (Inl e)
      | Inr (_, v, s') \<Rightarrow> if P v then Some (Inr (v, Suc i, s')) else poll_until z env key P (Suc i) s')"

definition wait_all_scheduler ::
    "'s zht_ops \<Rightarrow> (nat \<Rightarrow> 's \<Rightarrow> 's) \<Rightarrow> string list \<Rightarrow> 's \<Rightarrow> (string \<times> nat \<times> 's) res option" where
  "wait_all_scheduler z env schedulerVec s =
     poll_until z env ''number of scheduler registered''
       (\<lambda>v. str_to_num_int v = int (length schedulerVec)) 0 s"

definition wait_all_task_recv ::
    "'s zht_ops \<Rightarrow> (nat \<Rightarrow> 's \<Rightarrow> 's) \<Rightarrow> matrix_conf \<Rightarrow> 's \<Rightarrow> (string \<times> nat \<times> 's) res option" where
  "wait_all_task_recv z env config s =
     poll_until z env ''num tasks recv'' (\<lambda>v. str_to_num_long v = numAllTask config) 0 s"

text \<open>The function the counters are updated with.\<close>

definition add_int :: "string \<Rightarrow> string res" where
  "add_int v = Inr (num_to_str (to_int32 (str_to_num_int v + 1)))"

definition add_long :: "int \<Rightarrow> string \<Rightarrow> string res" where
  "add_long n v = Inr (num_to_str (str_to_num_long v + n))"

definition regist :: "'s zht_ops \<Rightarrow> (nat \<Rightarrow> 's \<Rightarrow> 's) \<Rightarrow> sched \<Rightarrow> 's \<Rightarrow> 's res option" where
  "regist z env st s =
     (if sc_index st = 0
      then Some (bind_res (zinsert z ''number of scheduler registered'' ''1'' (env 0 s)) (\<lambda>(_, s1).
                 bind_res (zinsert z ''num tasks done'' ''0'' (env 1 s1)) (\<lambda>(_, s2).
                 bind_res (zinsert z ''num tasks recv'' ''0'' (env 2 s2)) (\<lambda>(_, s3). Inr s3))))
      else (case poll_until z env ''number of scheduler registered'' (\<lambda>v. v \<noteq> []) 0 s of
              None \<Rightarrow> None
            | Some (Inl e) \<Rightarrow> Some (Inl e)
            | Some (Inr (v, i, s')) \<Rightarrow>
                map_option (\<lambda>r. bind_res r (\<lambda>(_, _, _, s''). Inr s''))
                  (cas_loop z env add_int ''number of scheduler registered'' v 0 i s')))"

section \<open>Receiving and sending tasks\<close>

text \<open>Half of the work-stealing queue goes to the thief, the tasks with the least data first.\<close>

definition send_task :: "sched \<Rightarrow> (string list \<times> sched) option" where
  "send_task st =
     (let numTaskToSend = length (sc_wsQueue st) div 2;
          (taskVec, q) = pq_take numTaskToSend (sc_wsQueue st)
      in map_option (\<lambda>out. (out, st\<lparr>sc_wsQueue := q\<rparr>))
           (send_batch_tasks (maxTaskPerPkg (sc_conf st)) taskVec ''scheduler''))"

fun log_submission ::
    "'s zht_ops \<Rightarrow> int \<Rightarrow> task_msg list \<Rightarrow> sched \<times> 's \<Rightarrow> (sched \<times> 's) res" where
  "log_submission z now [] (st, s) = Inr (st, s)"
| "log_submission z now (t # ts) (st, s) =
     bind_res (zlookup z (taskid t) s) (\<lambda>(_, taskMD, s').
     bind_res (str_to_value taskMD) (\<lambda>v.
       log_submission z now ts
         (add_entries [time_entry t ''SubmissionTime'' (opt0 (v_submittime v)), time_entry t ''WaitQueueTime'' now] st, s')))"

fun recv_packages ::
    "'s zht_ops \<Rightarrow> int \<Rightarrow> task_msg list list \<Rightarrow> sched \<times> 's \<Rightarrow> (sched \<times> 's) res" where
  "recv_packages z now [] p = Inr p"
| "recv_packages z now (tmVec # pkgs) p =
     bind_res (log_submission z now tmVec p) (\<lambda>(st, s).
       recv_packages z now pkgs (st\<lparr>sc_waitQueue := sc_waitQueue st @ tmVec\<rparr>, s))"

text \<open>\<open>cs\<close> is what arrives on the connection after the text \<open>str\<close> that made the request known.\<close>

definition recv_task_from_client ::
    "'s zht_ops \<Rightarrow> (nat \<Rightarrow> 's \<Rightarrow> 's) \<Rightarrow> int \<Rightarrow> string \<Rightarrow> string list \<Rightarrow> sched \<Rightarrow> 's \<Rightarrow> (sched \<times> 's) res option" where
  "recv_task_from_client z env now str cs st s =
     (case bind_res (recv_mul cs str) (\<lambda>(_, taskStr, _). unpack_tasks taskStr) of
        Inl e \<Rightarrow> Some (Inl e)
      | Inr None \<Rightarrow> Some (Inr (st, s))
      | Inr (Some (numTask, pkgs)) \<Rightarrow>
          (case bind_res (recv_packages z now pkgs (st, s)) (\<lambda>(st1, s1).
                bind_res (zlookup z ''num tasks recv'' (env 0 s1)) (\<lambda>(_, v, s2). Inr (st1, v, s2))) of
             Inl e \<Rightarrow> Some (Inl e)
           | Inr (st1, v, s2) \<Rightarrow>
               map_option (\<lambda>r. bind_res r (\<lambda>(_, lk, _, s3).
                   Inr (st1\<lparr>sc_numZHTMsg := sc_numZHTMsg st1
                          + (let n = sum_list (map (\<lambda>p. int (length p)) pkgs) + 2 + int lk in if 0 < n then n else 0)\<rparr>, s3)))
                 (cas_loop z env (add_long (to_int32 numTask)) ''num tasks recv'' v 0 1 s2)))"

definition recv_task_from_scheduler :: "int \<Rightarrow> string list \<Rightarrow> sched \<Rightarrow> (bool \<times> sched) res" where
  "recv_task_from_scheduler now cs st =
     bind_res (recv_mul cs []) (\<lambda>(_, taskStr, _).
     bind_res (unpack_tasks taskStr) (\<lambda>r.
       case r of
         None \<Rightarrow> Inr (False, st)
       | Some (numTask, pkgs) \<Rightarrow>
           Inr (True, foldl (\<lambda>st tmVec.
             (add_entries (map (\<lambda>t. time_entry t ''WorkStealQueuedTime'' now) tmVec) st)
                \<lparr>sc_wsQueue := pq_push_all tmVec (sc_wsQueue st)\<rparr>) st pkgs)))"

definition recv_pushing_task :: "int \<Rightarrow> matrix_msg \<Rightarrow> sched \<Rightarrow> (string \<times> sched) res" where
  "recv_pushing_task now mm st =
     bind_res (rep_at (tasks mm) 0) (\<lambda>str.
     bind_res (str_to_taskmsg str) (\<lambda>tm.
       Inr (mm_to_str (default_mm ''success receiving pushing task''),
            (add_entries [time_entry tm ''PushQueuedTime'' now] st)
              \<lparr>sc_localQueue := pq_push tm (sc_localQueue st)\<rparr>)))"

text \<open>What the epoll server hands to \<open>proc_req\<close>; the result holds the texts sent back. \<open>None\<close>: the
  handler does not return.\<close>

definition proc_req ::
    "'s zht_ops \<Rightarrow> (nat \<Rightarrow> 's \<Rightarrow> 's) \<Rightarrow> int \<Rightarrow> string \<Rightarrow> string list \<Rightarrow> sched \<Rightarrow> 's
      \<Rightarrow> (string list \<times> sched \<times> 's) res option" where
  "proc_req z env now buf cs st s =
     (let bufStr = c_str buf; prefix = ''client send tasks'' in
      if take (length prefix) bufStr = prefix
      then map_option (\<lambda>r. bind_res r (\<lambda>(st', s'). Inr ([], st', s'))) (recv_task_from_client z env now bufStr cs st s)
      else (case str_to_mm bufStr of
              Inl e \<Rightarrow> Some (Inl e)
            | Inr mm \<Rightarrow>
                if msgtype mm = ''query load''
                then Some (Inr ([mm_to_str (default_mm ''send load''\<lparr>mcount := Some (int (length (sc_wsQueue st)))\<rparr>)], st, s))
                else if msgtype mm = ''steal task''
                then map_option (\<lambda>(out, st'). Inr (out, st', s)) (send_task st)
                else if msgtype mm = ''scheduler push task''
                then Some (bind_res (recv_pushing_task now mm st) (\<lambda>(ack, st'). Inr ([ack], st', s)))
                else if msgtype mm = ''scheduler require data''
                then (let dataPiece = (case cmap_find (sc_localData st) (opt_str (extrainfo mm)) of
                                         None \<Rightarrow> ''shit, that is wrong!'' | Some d \<Rightarrow> d)
                      in Some (Inr (snd (send_big (mm_to_str (default_mm ''scheduler send data''\<lparr>extrainfo := Some dataPiece\<rparr>))), st, s)))
                else Some (Inr ([], st, s))))"

section \<open>Running tasks\<close>

text \<open>The input of a task: for every parent with data, the local copy, the cached copy or the answer
  of the scheduler that has it (\<open>fetch host request\<close>: the chunks received), which is then cached.\<close>

definition data_piece ::
    "(string \<Rightarrow> string \<Rightarrow> string list) \<Rightarrow> val_msg \<Rightarrow> nat \<Rightarrow> sched \<Rightarrow> (string \<times> sched) res" where
  "data_piece fetch v i st =
     bind_res (rep_at (v_datasize v) i) (\<lambda>sz.
       if sz \<le> 0 then Inr ([], st)
       else bind_res (rep_at (v_parents v) i) (\<lambda>parent.
            bind_res (rep_at (v_datanamelist v) i) (\<lambda>name.
              if parent = sc_id st
              then (case cmap_find (sc_localData st) name of None \<Rightarrow> Inl Undefined | Some d \<Rightarrow> Inr (d, st))
              else (case (if sc_cache st then cmap_find (sc_localData st) name else None) of
                      Some d \<Rightarrow> Inr (d, st)
                    | None \<Rightarrow>
                        bind_res (recv_big (fetch parent
                            (mm_to_str (default_mm ''scheduler require data''\<lparr>extrainfo := Some name\<rparr>)))) (\<lambda>(_, txt).
                        bind_res (str_to_mm txt) (\<lambda>mmData.
                          let d = opt_str (extrainfo mmData) in
                          Inr (d, if sc_cache st then st\<lparr>sc_localData := cmap_insert name d (sc_localData st)\<rparr> else st)))))))"

fun gather ::
    "(string \<Rightarrow> string \<Rightarrow> string list) \<Rightarrow> val_msg \<Rightarrow> nat list \<Rightarrow> string \<Rightarrow> sched \<Rightarrow> (string \<times> sched) res" where
  "gather fetch v [] dat st = Inr (dat, st)"
| "gather fetch v (i # is) dat st =
     bind_res (data_piece fetch v i st) (\<lambda>(d, st'). gather fetch v is (dat @ d) st')"

text \<open>\<open>run\<close> is the output of a shell command. The gathered data is not used by the command.\<close>

definition exec_a_task ::
    "'s zht_ops \<Rightarrow> (string \<Rightarrow> string \<Rightarrow> string list) \<Rightarrow> (string \<Rightarrow> string) \<Rightarrow> int \<Rightarrow> int \<Rightarrow> task_msg \<Rightarrow> sched \<Rightarrow> 's
      \<Rightarrow> (sched \<times> 's) res" where
  "exec_a_task z fetch run startTime finTime tm st s =
     bind_res (zlookup z (taskid tm) s) (\<lambda>(_, taskDetail, s').
     bind_res (str_to_value taskDetail) (\<lambda>v.
     bind_res (gather fetch v [0..<length (v_parents v)] [] st) (\<lambda>(_, st1).
       let result = run (c_str (cmd tm));
           key = sc_id st @ taskid tm;
           st2 = st1\<lparr>sc_localData := cmap_insert key result (sc_localData st1)\<rparr>;
           st3 = add_entries [time_entry tm ''StartTime'' startTime, time_entry tm ''FinTime'' finTime] st2
       in Inr (st3\<lparr>sc_completeQueue := sc_completeQueue st3 @
                      [\<lparr>cq_taskId = taskid tm, cq_key = key, cq_dataSize = opt0 (v_outputsize v)\<rparr>],
                   sc_numTaskFin := sc_numTaskFin st3 + 1, sc_numZHTMsg := sc_numZHTMsg st3 + 1\<rparr>, s'))))"

text \<open>The choice an executing thread makes: the local queue first.\<close>

definition next_task :: "sched \<Rightarrow> (task_msg \<times> sched) option" where
  "next_task st =
     (if sc_localQueue st \<noteq> []
      then Some (pq_top (sc_localQueue st), st\<lparr>sc_localQueue := pq_pop (sc_localQueue st)\<rparr>)
      else if sc_wsQueue st \<noteq> []
      then Some (pq_top (sc_wsQueue st), st\<lparr>sc_wsQueue := pq_pop (sc_wsQueue st)\<rparr>)
      else None)"

text \<open>One round of \<open>executing_task\<close>; \<open>None\<close>: both queues are empty.\<close>

definition executing_task_round ::
    "'s zht_ops \<Rightarrow> (string \<Rightarrow> string \<Rightarrow> string list) \<Rightarrow> (string \<Rightarrow> string) \<Rightarrow> int \<Rightarrow> int \<Rightarrow> sched \<Rightarrow> 's
      \<Rightarrow> (sched \<times> 's) res option" where
  "executing_task_round z fetch run startTime finTime st s =
     map_option (\<lambda>(tm, st1).
       bind_res (exec_a_task z fetch run startTime finTime tm (st1\<lparr>sc_numIdleCore := sc_numIdleCore st1 - 1\<rparr>) s)
         (\<lambda>(st2, s'). Inr (st2\<lparr>sc_numIdleCore := sc_numIdleCore st2 + 1\<rparr>, s')))
       (next_task st)"

section \<open>Readiness\<close>

text \<open>The parent holding the largest piece of data: size, scheduler and name, as the loop leaves
  them.\<close>

fun max_data :: "val_msg \<Rightarrow> nat list \<Rightarrow> int \<times> string \<times> string \<Rightarrow> (int \<times> string \<times> string) res" where
  "max_data v [] m = Inr m"
| "max_data v (i # is) m =
     bind_res (rep_at (v_datasize v) i) (\<lambda>sz.
       if fst m < sz
       then bind_res (rep_at (v_parents v) i) (\<lambda>p.
            bind_res (rep_at (v_datanamelist v) i) (\<lambda>n. max_data v is (sz, p, n)))
       else max_data v is m)"

text \<open>Flag 0: work-stealing queue; 1: local queue; 2: pushed to another scheduler (host and message;
  the acknowledgement is not looked at).\<close>

definition task_ready_process ::
    "sched \<Rightarrow> val_msg \<Rightarrow> task_msg \<Rightarrow> (int \<times> task_msg \<times> (string \<times> string) list) res" where
  "task_ready_process st v tm =
     (if opt0 (v_alldatasize v) \<le> dataSizeThreshold (sc_conf st)
      then Inr (0, tm\<lparr>datalength := opt0 (v_alldatasize v)\<rparr>, [])
      else bind_res (max_data v [0..<length (v_datasize v)] (-1000000, [], [])) (\<lambda>(maxDataSize, maxDataScheduler, key).
             let tm' = tm\<lparr>datalength := maxDataSize\<rparr> in
             if maxDataScheduler = sc_id st then Inr (1, tm', [])
             else if sc_cache st \<and> cmap_find (sc_localData st) key \<noteq> None then Inr (1, tm', [])
             else Inr (2, tm', [(maxDataScheduler,
                        mm_to_str (default_mm ''scheduler push task''\<lparr>mcount := Some 1, tasks := [taskmsg_to_str tm']\<rparr>))])))"

definition check_a_ready_task ::
    "'s zht_ops \<Rightarrow> int \<Rightarrow> task_msg \<Rightarrow> sched \<Rightarrow> 's \<Rightarrow> (bool \<times> task_msg \<times> sched \<times> (string \<times> string) list \<times> 's) res" where
  "check_a_ready_task z now tm st s =
     bind_res (zlookup z (taskid tm) s) (\<lambda>(_, taskDetail, s').
     bind_res (str_to_value taskDetail) (\<lambda>v.
       if opt0 (v_indegree v) \<noteq> 0 then Inr (False, tm, st, [], s')
       else bind_res (task_ready_process st v tm) (\<lambda>(flag, tm', out).
              let st1 = (if flag \<noteq> 2 then add_entries [time_entry tm' ''ReadyQueuedTime'' now] st else st);
                  st2 = (if flag = 0 then st1\<lparr>sc_wsQueue := pq_push tm' (sc_wsQueue st1)\<rparr>
                         else if flag = 1 then st1\<lparr>sc_localQueue := pq_push tm' (sc_localQueue st1)\<rparr>
                         else st1)
              in Inr (True, tm', st2, out, s'))))"

text \<open>One round of \<open>checking_ready_task\<close>: the first waiting task, which goes back to the end when it
  is not ready. The thread adds its request count to the total when it ends, here at once.\<close>

definition checking_ready_round ::
    "'s zht_ops \<Rightarrow> int \<Rightarrow> sched \<Rightarrow> 's \<Rightarrow> (sched \<times> (string \<times> string) list \<times> 's) res option" where
  "checking_ready_round z now st s =
     (case sc_waitQueue st of
        [] \<Rightarrow> None
      | tm # rest \<Rightarrow>
          Some (bind_res (check_a_ready_task z now tm (st\<lparr>sc_waitQueue := rest\<rparr>) s) (\<lambda>(ready, tm', st1, out, s').
            Inr ((if ready then st1 else st1\<lparr>sc_waitQueue := sc_waitQueue st1 @ [tm']\<rparr>)
                   \<lparr>sc_numZHTMsg := sc_numZHTMsg st1 + 1\<rparr>, out, s'))))"

section \<open>Completion\<close>

text \<open>What a finished parent does to the metadata of a child.\<close>

definition parent_done :: "string \<Rightarrow> cmp_item \<Rightarrow> val_msg \<Rightarrow> val_msg" where
  "parent_done me it v =
     v\<lparr>v_indegree := Some (opt0 (v_indegree v) - 1), v_parents := v_parents v @ [me],
       v_datanamelist := v_datanamelist v @ [cq_key it], v_datasize := v_datasize v @ [cq_dataSize it],
       v_alldatasize := Some (opt0 (v_alldatasize v) + cq_dataSize it)\<rparr>"

definition child_attempt :: "string \<Rightarrow> cmp_item \<Rightarrow> string \<Rightarrow> string res" where
  "child_attempt me it detail = bind_res (str_to_value detail) (\<lambda>v. Inr (value_to_str (parent_done me it v)))"

text \<open>The result counts the messages sent to ZHT: one for each request.\<close>

fun notify_each ::
    "'s zht_ops \<Rightarrow> (nat \<Rightarrow> 's \<Rightarrow> 's) \<Rightarrow> string \<Rightarrow> cmp_item \<Rightarrow> string list \<Rightarrow> nat \<Rightarrow> 's \<Rightarrow> (nat \<times> 's) res option" where
  "notify_each z env me it [] i s = Some (Inr (i, s))"
| "notify_each z env me it (c # cs) i s =
     (case zlookup z c (env i s) of
        Inl e \<Rightarrow> Some (Inl e)
      | Inr (_, detail, s1) \<Rightarrow>
          (case cas_loop z env (child_attempt me it) c detail 0 (Suc i) s1 of
             None \<Rightarrow> None
           | Some (Inl e) \<Rightarrow> Some (Inl e)
           | Some (Inr (_, _, j, s2)) \<Rightarrow> notify_each z env me it cs j s2))"

definition notify_children ::
    "'s zht_ops \<Rightarrow> (nat \<Rightarrow> 's \<Rightarrow> 's) \<Rightarrow> cmp_item \<Rightarrow> sched \<Rightarrow> 's \<Rightarrow> (nat \<times> 's) res option" where
  "notify_children z env it st s =
     (case bind_res (zlookup z (cq_taskId it) (env 0 s)) (\<lambda>(_, d, s1).
           bind_res (str_to_value d) (\<lambda>v. Inr (v, s1))) of
        Inl e \<Rightarrow> Some (Inl e)
      | Inr (v, s1) \<Rightarrow> notify_each z env (sc_id st) it (v_children v) 1 s1)"

text \<open>One round of \<open>checking_complete_task\<close>; the message count is added to the total when the thread
  ends, here at once. The outer \<open>None\<close>: the queue is empty.\<close>

definition checking_complete_round ::
    "'s zht_ops \<Rightarrow> (nat \<Rightarrow> 's \<Rightarrow> 's) \<Rightarrow> sched \<Rightarrow> 's \<Rightarrow> (sched \<times> 's) res option option" where
  "checking_complete_round z env st s =
     (case sc_completeQueue st of
        [] \<Rightarrow> None
      | it # rest \<Rightarrow>
          Some (map_option (\<lambda>r. bind_res r (\<lambda>(n, s').
                  Inr (st\<lparr>sc_completeQueue := rest, sc_numZHTMsg := sc_numZHTMsg st + int n\<rparr>, s')))
                (notify_children z env it (st\<lparr>sc_completeQueue := rest\<rparr>) s)))"

section \<open>Statistics\<close>

definition status_record :: "sched \<Rightarrow> val_msg" where
  "status_record st = default_value\<lparr>v_id := sc_id st, v_numtaskfin := Some (sc_numTaskFin st),
     v_numtaskwait := Some (int (length (sc_waitQueue st))),
     v_numtaskready := Some (int (length (sc_localQueue st) + length (sc_wsQueue st))),
     v_numcoreavilable := Some (sc_numIdleCore st), v_numallcore := Some (numCorePerExecutor (sc_conf st)),
     v_numworksteal := Some (sc_numWS st), v_numworkstealfail := Some (sc_numWSFail st)\<rparr>"

text \<open>The loop that adds the newly finished tasks to the global counter; it stops when the counter
  already shows all tasks as done.\<close>

partial_function (option) done_loop ::
    "'s zht_ops \<Rightarrow> (nat \<Rightarrow> 's \<Rightarrow> 's) \<Rightarrow> int \<Rightarrow> int \<Rightarrow> string \<Rightarrow> nat \<Rightarrow> 's \<Rightarrow> (nat \<times> 's) res option" where
  "done_loop z env allTask newly seen i s =
     (case zcswap z ''num tasks done'' seen (num_to_str (str_to_num_long seen + newly)) (env i s) of
        Inl e \<Rightarrow> Some (Inl e)
      | Inr (rc, query, s') \<Rightarrow>
          if rc = 0 then Some (Inr (Suc i, s'))
          else (case (if query = [] then map_sum id (\<lambda>(_, v, s''). (v, Suc (Suc i), s''))
                                          (zlookup z ''num tasks done'' (env (Suc i) s'))
                      else Inr (query, Suc i, s')) of
                  Inl e \<Rightarrow> Some (Inl e)
                | Inr (seen', j, s'') \<Rightarrow>
                    if str_to_num_long seen' = allTask then Some (Inr (j, s''))
                    else done_loop z env allTask newly seen' j s''))"

text \<open>One round of \<open>recording_stat\<close>.\<close>

definition recording_stat_round ::
    "'s zht_ops \<Rightarrow> (nat \<Rightarrow> 's \<Rightarrow> 's) \<Rightarrow> sched \<Rightarrow> 's \<Rightarrow> (sched \<times> 's) res option" where
  "recording_stat_round z env st s =
     (case bind_res (zinsert z (sc_id st) (value_to_str (status_record st)) (env 0 s)) (\<lambda>(_, s1).
             zlookup z ''num tasks done'' (env 1 s1)) of
        Inl e \<Rightarrow> Some (Inl e)
      | Inr (_, v, s2) \<Rightarrow>
          if str_to_num_long v = numAllTask (sc_conf st)
          then Some (Inr (st\<lparr>sc_running := False, sc_numZHTMsg := sc_numZHTMsg st + 2\<rparr>, s2))
          else map_option (\<lambda>r. bind_res r (\<lambda>(n, s3).
                 Inr (st\<lparr>sc_prevNumTaskFin := sc_numTaskFin st, sc_numZHTMsg := sc_numZHTMsg st + int n\<rparr>, s3)))
               (done_loop z env (numAllTask (sc_conf st)) (sc_numTaskFin st - sc_prevNumTaskFin st) v 2 s2))"

section \<open>The local-queue monitor\<close>

text \<open>One round of \<open>localQueue_monitor\<close>; \<open>maxSize\<close> is the number of tasks that the throughput so far
  promises to finish within the threshold.\<close>

definition localQueue_monitor_round :: "nat \<Rightarrow> sched \<Rightarrow> sched" where
  "localQueue_monitor_round maxSize st =
     (if maxSize = 0 \<or> length (sc_localQueue st) \<le> maxSize then st
      else (let numTaskToMove = length (sc_localQueue st) - maxSize;
                (vecRemain, q1) = pq_take maxSize (sc_localQueue st);
                (vecMigrated, q2) = pq_take numTaskToMove q1
            in st\<lparr>sc_localQueue := pq_push_all vecRemain q2, sc_wsQueue := pq_push_all vecMigrated (sc_wsQueue st)\<rparr>))"

end
