(* ===== verification/Task_Flow.thy ===== *)
theory Task_Flow
  imports Scheduler
begin

text \<open>
  What happens to the tasks: no operation of a scheduler loses, duplicates or alters one. A steal
  moves half of the victim's queue to the thief, a push moves a task to the local queue of the
  scheduler with most of its data, the monitor moves surplus tasks between the queues, and a
  submission appends the client's tasks to the wait queue and counts them.
\<close>

section \<open>Stealing\<close>

lemma pq_push_all_append: "pq_push_all (ts @ us) q = pq_push_all us (pq_push_all ts q)"
  by (simp add: pq_push_all_def)

lemma pq_push_all_Nil [simp]: "pq_push_all [] q = q"
  by (simp add: pq_push_all_def)

definition stolen :: "int \<Rightarrow> sched \<Rightarrow> task_msg list \<Rightarrow> sched" where
  "stolen now st tmVec = (add_entries (map (\<lambda>t. time_entry t ''WorkStealQueuedTime'' now) tmVec) st)
     \<lparr>sc_wsQueue := pq_push_all tmVec (sc_wsQueue st)\<rparr>"

lemma stolen_simps [simp]:
  "sc_wsQueue (stolen now st ts) = pq_push_all ts (sc_wsQueue st)"
  "sc_localQueue (stolen now st ts) = sc_localQueue st"
  "sc_waitQueue (stolen now st ts) = sc_waitQueue st"
  "sc_completeQueue (stolen now st ts) = sc_completeQueue st"
  "sc_id (stolen now st ts) = sc_id st"
  "sc_conf (stolen now st ts) = sc_conf st"
  by (simp_all add: stolen_def add_entries_def)

lemma stolen_packages:
  "sc_wsQueue (foldl (stolen now) st pkgs) = pq_push_all (concat pkgs) (sc_wsQueue st)
   \<and> sc_localQueue (foldl (stolen now) st pkgs) = sc_localQueue st
   \<and> sc_waitQueue (foldl (stolen now) st pkgs) = sc_waitQueue st
   \<and> sc_completeQueue (foldl (stolen now) st pkgs) = sc_completeQueue st
   \<and> sc_id (foldl (stolen now) st pkgs) = sc_id st \<and> sc_conf (foldl (stolen now) st pkgs) = sc_conf st"
  by (induction pkgs arbitrary: st) (simp_all add: pq_push_all_append)

lemma recv_task_from_scheduler_stolen:
  "recv_task_from_scheduler now cs st =
     bind_res (recv_mul cs []) (\<lambda>(_, taskStr, _).
     bind_res (unpack_tasks taskStr) (\<lambda>r.
       case r of None \<Rightarrow> Inr (False, st) | Some (numTask, pkgs) \<Rightarrow> Inr (True, foldl (stolen now) st pkgs)))"
proof -
  have "stolen now = (\<lambda>st tmVec. (add_entries (map (\<lambda>t. time_entry t ''WorkStealQueuedTime'' now) tmVec) st)
      \<lparr>sc_wsQueue := pq_push_all tmVec (sc_wsQueue st)\<rparr>)"
    by (intro ext) (simp add: stolen_def)
  then show ?thesis by (simp only: recv_task_from_scheduler_def)
qed

lemma send_task_half:
  assumes "pq_ok (sc_wsQueue st)" and "0 < maxTaskPerPkg (sc_conf st)"
  shows "\<exists>ts q out. pq_take (length (sc_wsQueue st) div 2) (sc_wsQueue st) = (ts, q)
    \<and> send_batch_tasks (maxTaskPerPkg (sc_conf st)) ts ''scheduler'' = Some out
    \<and> send_task st = Some (out, st\<lparr>sc_wsQueue := q\<rparr>)
    \<and> length ts = length (sc_wsQueue st) div 2 \<and> pq_ok q \<and> mset ts + mset q = mset (sc_wsQueue st)
    \<and> (\<forall>t \<in> set ts. \<forall>u \<in> set q. datalength t \<le> datalength u)"
proof -
  have "length (sc_wsQueue st) div 2 \<le> length (sc_wsQueue st)" by simp
  from pq_take_facts [OF assms(1) this] obtain ts q where
    t: "pq_take (length (sc_wsQueue st) div 2) (sc_wsQueue st) = (ts, q)" "length ts = length (sc_wsQueue st) div 2"
      "pq_ok q" "mset ts + mset q = mset (sc_wsQueue st)" "\<forall>t \<in> set ts. \<forall>u \<in> set q. datalength t \<le> datalength u"
    by blast
  obtain out where "send_batch_tasks (maxTaskPerPkg (sc_conf st)) ts ''scheduler'' = Some out"
    using send_batch_tasks_stream [OF assms(2), of ts "''scheduler''"] by blast
  with t show ?thesis by (simp add: send_task_def)
qed

lemma steal_transfer:
  assumes "pq_ok (sc_wsQueue victim)" and "0 < maxTaskPerPkg (sc_conf victim)"
    and "list_all task_ok (sc_wsQueue victim)" and "is_int (int (length (sc_wsQueue victim)))"
  shows "\<exists>out q ts ps. send_task victim = Some (out, victim\<lparr>sc_wsQueue := q\<rparr>) \<and> pq_ok q \<and> concat ps = ts
    \<and> length ts = length (sc_wsQueue victim) div 2 \<and> mset ts + mset q = mset (sc_wsQueue victim)
    \<and> (\<forall>t \<in> set ts. \<forall>u \<in> set q. datalength t \<le> datalength u)
    \<and> (\<forall>cs. chunking cs (concat out) \<longrightarrow> recv_task_from_scheduler now cs thief =
         Inr (ts \<noteq> [], if ts = [] then thief else foldl (stolen now) thief ps))"
proof -
  let ?q = "sc_wsQueue victim"
  obtain ts q out where h: "send_batch_tasks (maxTaskPerPkg (sc_conf victim)) ts ''scheduler'' = Some out"
      "send_task victim = Some (out, victim\<lparr>sc_wsQueue := q\<rparr>)" "length ts = length ?q div 2" "pq_ok q"
      "mset ts + mset q = mset ?q" "\<forall>t \<in> set ts. \<forall>u \<in> set q. datalength t \<le> datalength u"
    using send_task_half [OF assms(1,2)] by blast
  have sub: "set ts \<subseteq> set ?q" using arg_cong [OF h(5), of set_mset] by auto
  have ok: "list_all task_ok ts" using assms(3) sub by (auto simp: list_all_iff)
  have int: "is_int (int (length ts))" using assms(4) h(3) by (simp add: int_range_defs)
  have peer: "peer_ok ''scheduler''" by (simp add: peer_ok_def)
  obtain ps where b: "concat ps = ts"
      "\<forall>cs. chunking cs (concat out) \<longrightarrow> (\<exists>n. recv_mul cs [] = Inr (n, concat out, []))"
      "unpack_tasks (concat out) = Inr (if ts = [] then None else Some (int (length ts), ps))"
    using batch_transfer [OF assms(2) peer ok int] h(1) by auto
  have "recv_task_from_scheduler now cs thief = Inr (ts \<noteq> [], if ts = [] then thief else foldl (stolen now) thief ps)"
    if cs: "chunking cs (concat out)" for cs
  proof -
    obtain n where "recv_mul cs [] = Inr (n, concat out, [])" using b(2) cs by blast
    then show ?thesis using b(3) by (cases "ts = []") (auto simp: recv_task_from_scheduler_stolen)
  qed
  with h b(1) show ?thesis by (intro exI [of _ out] exI [of _ q] exI [of _ ts] exI [of _ ps]) simp
qed

section \<open>Pushing\<close>

lemma push_message_roundtrip:
  assumes "task_ok tm"
  shows "str_to_mm (mm_to_str (default_mm ''scheduler push task''\<lparr>mcount := Some 1, tasks := [taskmsg_to_str tm]\<rparr>)) =
    Inr (default_mm ''scheduler push task''\<lparr>mcount := Some 1, tasks := [taskmsg_to_str tm]\<rparr>)"
proof (rule mm_roundtrip)
  have "field_ok ''!&'' (taskmsg_to_str tm)"
    using taskmsg_to_str_notin [OF assms, of "CHR ''!''"] taskmsg_to_str_notin [OF assms, of "CHR ''&''"]
    by (auto simp: field_ok_def list_all_iff taskmsg_to_str_def)
  then show "mm_ok (default_mm ''scheduler push task''\<lparr>mcount := Some 1, tasks := [taskmsg_to_str tm]\<rparr>)"
    by (simp add: mm_ok_def default_mm_def field_ok_def opt_ok_def int_range_defs)
qed

lemma push_message_no_nul:
  assumes "task_ok tm"
  shows "c_str (mm_to_str (default_mm ''scheduler push task''\<lparr>mcount := Some 1, tasks := [taskmsg_to_str tm]\<rparr>)) =
    mm_to_str (default_mm ''scheduler push task''\<lparr>mcount := Some 1, tasks := [taskmsg_to_str tm]\<rparr>)"
  using taskmsg_to_str_notin [OF assms, of "CHR 0x00"]
  by (intro c_str_id mm_to_str_notin) (simp_all add: default_mm_def)

lemma proc_req_push:
  assumes "task_ok tm"
  shows "proc_req z env now
      (mm_to_str (default_mm ''scheduler push task''\<lparr>mcount := Some 1, tasks := [taskmsg_to_str tm]\<rparr>)) cs st s =
    Some (Inr ([mm_to_str (default_mm ''success receiving pushing task'')],
      (add_entries [time_entry tm ''PushQueuedTime'' now] st)\<lparr>sc_localQueue := pq_push tm (sc_localQueue st)\<rparr>, s))"
proof -
  let ?m = "mm_to_str (default_mm ''scheduler push task''\<lparr>mcount := Some 1, tasks := [taskmsg_to_str tm]\<rparr>)"
  have "take (length ''client send tasks'') ?m \<noteq> ''client send tasks''" by (simp add: mm_to_str_def default_mm_def)
  then show ?thesis
    using push_message_roundtrip [OF assms] push_message_no_nul [OF assms] task_roundtrip [OF assms]
    by (simp add: proc_req_def recv_pushing_task_def rep_at_def Let_def) (simp add: default_mm_def)
qed

section \<open>The monitor\<close>

lemma monitor_moves:
  assumes "pq_ok (sc_localQueue st)" and "pq_ok (sc_wsQueue st)" and "0 < n" and "n < length (sc_localQueue st)"
  shows "\<exists>rem mig. sc_localQueue (localQueue_monitor_round n st) = pq_push_all rem []
    \<and> sc_wsQueue (localQueue_monitor_round n st) = pq_push_all mig (sc_wsQueue st)
    \<and> mset rem + mset mig = mset (sc_localQueue st) \<and> length rem = n
    \<and> (\<forall>t \<in> set rem. \<forall>u \<in> set mig. datalength t \<le> datalength u)"
proof -
  let ?q = "sc_localQueue st"
  obtain rem q1 where r: "pq_take n ?q = (rem, q1)" "length rem = n" "pq_ok q1" "mset rem + mset q1 = mset ?q"
      "\<forall>t \<in> set rem. \<forall>u \<in> set q1. datalength t \<le> datalength u"
    using pq_take_facts [OF assms(1), of n] assms(4) by auto
  have l1: "length q1 = length ?q - n"
    using arg_cong [OF r(4), of size] r(2) by simp
  then have "length ?q - n \<le> length q1" by simp
  from pq_take_facts [OF r(3) this] obtain mig q2 where
    m: "pq_take (length ?q - n) q1 = (mig, q2)" "length mig = length ?q - n" "mset mig + mset q2 = mset q1" by blast
  have "q2 = []" using arg_cong [OF m(3), of size] l1 m(2) by simp
  then have "mset mig = mset q1" using m(3) by simp
  then have "set mig = set q1" by (rule mset_eq_setD)
  moreover have "localQueue_monitor_round n st =
      st\<lparr>sc_localQueue := pq_push_all rem [], sc_wsQueue := pq_push_all mig (sc_wsQueue st)\<rparr>"
    using r(1) m(1) assms(3,4) \<open>q2 = []\<close> by (simp add: localQueue_monitor_round_def)
  ultimately show ?thesis
    using r(2,4,5) \<open>mset mig = mset q1\<close> by (intro exI [of _ rem] exI [of _ mig]) simp
qed

section \<open>Submission\<close>

lemma add_entries_simps [simp]:
  "sc_waitQueue (add_entries es st) = sc_waitQueue st"
  "sc_localQueue (add_entries es st) = sc_localQueue st"
  "sc_wsQueue (add_entries es st) = sc_wsQueue st"
  "sc_completeQueue (add_entries es st) = sc_completeQueue st"
  "sc_id (add_entries es st) = sc_id st"
  "sc_conf (add_entries es st) = sc_conf st"
  "add_entries es (add_entries es' st) = add_entries (es' @ es) st"
  by (simp_all add: add_entries_def)

lemma add_entries_wait:
  "add_entries es (st\<lparr>sc_waitQueue := q\<rparr>) = (add_entries es st)\<lparr>sc_waitQueue := q\<rparr>"
  by (simp add: add_entries_def)

context zht_service
begin

text \<open>A task is known when the store has readable metadata under its identifier.\<close>

definition known :: "'s \<Rightarrow> string \<Rightarrow> bool" where
  "known s k \<longleftrightarrow> okk k \<and> (\<exists>d v. value_of s k = Some d \<and> str_to_value d = Inr v)"

lemma log_submission_known:
  assumes "good s" and "\<forall>t \<in> set ts. known s (taskid t)"
  shows "\<exists>es. log_submission z now ts (st, s) = Inr (add_entries es st, s)"
  using assms(2)
proof (induction ts arbitrary: st)
  case Nil
  have "add_entries [] st = st" by (simp add: add_entries_def)
  then show ?case by (metis log_submission.simps(1))
next
  case (Cons t ts)
  then obtain d v where d: "okk (taskid t)" "value_of s (taskid t) = Some d" "str_to_value d = Inr v"
    by (auto simp: known_def)
  have "zlookup z (taskid t) s = Inr (0, d, s)" using lookup [OF assms(1) d(1)] d(2) by simp
  moreover obtain es where "log_submission z now ts (add_entries [time_entry t ''SubmissionTime'' (opt0 (v_submittime v)),
      time_entry t ''WaitQueueTime'' now] st, s) = Inr (add_entries es (add_entries
        [time_entry t ''SubmissionTime'' (opt0 (v_submittime v)), time_entry t ''WaitQueueTime'' now] st), s)"
    using Cons by fastforce
  ultimately show ?case using d(3) by (auto simp del: add_entries_simps(7)) (simp, blast)
qed

lemma recv_packages_known:
  assumes "good s" and "\<forall>t \<in> set (concat pkgs). known s (taskid t)"
  shows "\<exists>es. recv_packages z now pkgs (st, s) =
    Inr ((add_entries es st)\<lparr>sc_waitQueue := sc_waitQueue st @ concat pkgs\<rparr>, s)"
  using assms(2)
proof (induction pkgs arbitrary: st)
  case Nil
  have "(add_entries [] st)\<lparr>sc_waitQueue := sc_waitQueue st\<rparr> = st" by (simp add: add_entries_def)
  then show ?case by (metis append_Nil2 concat.simps(1) recv_packages.simps(1))
next
  case (Cons p pkgs)
  obtain es where e: "log_submission z now p (st, s) = Inr (add_entries es st, s)"
    using log_submission_known [OF assms(1), of p now st] Cons.prems by auto
  obtain es' where "recv_packages z now pkgs ((add_entries es st)\<lparr>sc_waitQueue := sc_waitQueue st @ p\<rparr>, s) =
      Inr ((add_entries es' ((add_entries es st)\<lparr>sc_waitQueue := sc_waitQueue st @ p\<rparr>))
        \<lparr>sc_waitQueue := (sc_waitQueue st @ p) @ concat pkgs\<rparr>, s)"
    using Cons.IH [of "(add_entries es st)\<lparr>sc_waitQueue := sc_waitQueue st @ p\<rparr>"] Cons.prems by auto
  then show ?case using e by (auto simp: add_entries_wait)
qed

lemma recv_task_from_client_quiet:
  assumes s: "good s" and known: "\<forall>t \<in> set tv. known s (taskid t)"
    and recv: "recv_mul cs str = Inr (cnt, txt, rest)" and unp: "unpack_tasks txt = Inr (Some (int (length tv), pkgs))"
    and tv: "concat pkgs = tv" "is_int (int (length tv))"
    and k: "okk ''num tasks recv''" and n: "value_of s ''num tasks recv'' = Some (num_to_str n)" "is_long n"
    and ok: "okv (num_to_str (n + int (length tv)))"
  shows "\<exists>st' s'. recv_task_from_client z (\<lambda>_ s. s) now str cs st s = Some (Inr (st', s'))
    \<and> sc_waitQueue st' = sc_waitQueue st @ tv \<and> good s'
    \<and> value_of s' = (value_of s)(''num tasks recv'' \<mapsto> num_to_str (n + int (length tv)))"
proof -
  obtain es where p: "recv_packages z now pkgs (st, s) =
      Inr ((add_entries es st)\<lparr>sc_waitQueue := sc_waitQueue st @ tv\<rparr>, s)"
    using recv_packages_known [OF s, of pkgs now st] known tv(1) by auto
  have l: "zlookup z ''num tasks recv'' s = Inr (0, num_to_str n, s)" using lookup [OF s k] n(1) by simp
  have f: "add_long (to_int32 (int (length tv))) (num_to_str n) = Inr (num_to_str (n + int (length tv)))"
    using n(2) tv(2) by (simp add: add_long_def to_int32_id)
  have okn: "okv (num_to_str n)" using stored_ok [OF s k n(1)] .
  obtain s' where c: "cas_loop z (\<lambda>_ s. s) (add_long (to_int32 (int (length tv)))) ''num tasks recv'' (num_to_str n) 0 1 s =
        Some (Inr (num_to_str n, 0, Suc 1, s'))" "good s'"
      "value_of s' = (value_of s)(''num tasks recv'' \<mapsto> num_to_str (n + int (length tv)))"
    using cas_loop_step(1) [where env = "\<lambda>_ s. s" and f = "add_long (to_int32 (int (length tv)))" and i = 1 and lk = 0
        and cur = "num_to_str n" and s = s, OF s n(1) k okn f ok] by blast
  show ?thesis
    using recv unp p l c by (simp add: recv_task_from_client_def)
qed

end

section \<open>Readiness\<close>

text \<open>The lists a finished parent extends together.\<close>

definition record_ok :: "val_msg \<Rightarrow> bool" where
  "record_ok v \<longleftrightarrow> length (v_parents v) = length (v_datasize v) \<and> length (v_datanamelist v) = length (v_datasize v)
     \<and> list_all (\<lambda>n. 0 \<le> n \<and> is_long n) (v_datasize v) \<and> opt0 (v_alldatasize v) = sum_list (v_datasize v)
     \<and> is_long (opt0 (v_alldatasize v))"

lemma max_data_spec:
  assumes "length (v_parents v) = length (v_datasize v)" and "length (v_datanamelist v) = length (v_datasize v)"
    and "\<forall>i \<in> set ks. i < length (v_datasize v)"
  shows "\<exists>m' p' n'. max_data v ks (m, p, n) = Inr (m', p', n') \<and> m \<le> m' \<and> (\<forall>i \<in> set ks. v_datasize v ! i \<le> m')
    \<and> ((m', p', n') = (m, p, n) \<or> (\<exists>i \<in> set ks. m' = v_datasize v ! i \<and> p' = v_parents v ! i \<and> n' = v_datanamelist v ! i))"
  using assms(3)
proof (induction ks arbitrary: m p n)
  case (Cons i ks)
  then have i: "rep_at (v_datasize v) i = Inr (v_datasize v ! i)" "rep_at (v_parents v) i = Inr (v_parents v ! i)"
      "rep_at (v_datanamelist v) i = Inr (v_datanamelist v ! i)"
    using assms by (simp_all add: rep_at_def)
  show ?case
  proof (cases "m < v_datasize v ! i")
    case True
    have "max_data v (i # ks) (m, p, n) = max_data v ks (v_datasize v ! i, v_parents v ! i, v_datanamelist v ! i)"
      using True i by simp
    moreover obtain m' p' n' where "max_data v ks (v_datasize v ! i, v_parents v ! i, v_datanamelist v ! i) = Inr (m', p', n')"
        "v_datasize v ! i \<le> m'" "\<forall>j \<in> set ks. v_datasize v ! j \<le> m'"
        "(m', p', n') = (v_datasize v ! i, v_parents v ! i, v_datanamelist v ! i) \<or>
         (\<exists>j \<in> set ks. m' = v_datasize v ! j \<and> p' = v_parents v ! j \<and> n' = v_datanamelist v ! j)"
      using Cons.IH [of "v_datasize v ! i" "v_parents v ! i" "v_datanamelist v ! i"] Cons.prems by auto
    ultimately show ?thesis
      using True by (intro exI [of _ m'] exI [of _ p'] exI [of _ n']) auto
  next
    case False
    have "max_data v (i # ks) (m, p, n) = max_data v ks (m, p, n)" using False i by simp
    moreover obtain m' p' n' where "max_data v ks (m, p, n) = Inr (m', p', n')"
        "m \<le> m'" "\<forall>j \<in> set ks. v_datasize v ! j \<le> m'"
        "(m', p', n') = (m, p, n) \<or> (\<exists>j \<in> set ks. m' = v_datasize v ! j \<and> p' = v_parents v ! j \<and> n' = v_datanamelist v ! j)"
      using Cons.IH [of m p n] Cons.prems by auto
    ultimately show ?thesis
      using False by (intro exI [of _ m'] exI [of _ p'] exI [of _ n']) auto
  qed
qed simp

lemma max_data_largest:
  assumes "record_ok v" and "v_datasize v \<noteq> []"
  shows "\<exists>i < length (v_datasize v). max_data v [0..<length (v_datasize v)] (-1000000, [], []) =
      Inr (v_datasize v ! i, v_parents v ! i, v_datanamelist v ! i)
    \<and> (\<forall>j < length (v_datasize v). v_datasize v ! j \<le> v_datasize v ! i)"
proof -
  let ?n = "length (v_datasize v)"
  have len: "length (v_parents v) = ?n" "length (v_datanamelist v) = ?n" and pos: "\<forall>j < ?n. 0 \<le> v_datasize v ! j"
    using assms(1) by (auto simp: record_ok_def list_all_length)
  from max_data_spec [OF len, of "[0..<?n]" "-1000000" "[]" "[]"] obtain m p n where
    r: "max_data v [0..<?n] (-1000000, [], []) = Inr (m, p, n)" "\<forall>i \<in> set [0..<?n]. v_datasize v ! i \<le> m"
      "(m, p, n) = (-1000000, [], []) \<or>
       (\<exists>i \<in> set [0..<?n]. m = v_datasize v ! i \<and> p = v_parents v ! i \<and> n = v_datanamelist v ! i)"
    by auto
  have "0 < ?n" using assms(2) by simp
  then have "0 \<le> m" using r(2) pos by force
  then obtain i where "i \<in> set [0..<?n]" "m = v_datasize v ! i" "p = v_parents v ! i" "n = v_datanamelist v ! i"
    using r(3) by auto
  with r show ?thesis by auto
qed

text \<open>Where a ready task goes. The third outcome is a message to a scheduler that is not this one.\<close>

lemma task_ready_process_outcome:
  assumes "record_ok v" and "0 \<le> dataSizeThreshold (sc_conf st)"
  shows "\<exists>flag tm' out n. task_ready_process st v tm = Inr (flag, tm', out) \<and> tm' = tm\<lparr>datalength := n\<rparr> \<and> is_long n
    \<and> (opt0 (v_alldatasize v) \<le> dataSizeThreshold (sc_conf st) \<and> flag = 0 \<and> out = []
      \<or> flag = 1 \<and> out = []
      \<or> flag = 2 \<and> (\<exists>i < length (v_datasize v). v_parents v ! i \<noteq> sc_id st
          \<and> (\<forall>j < length (v_datasize v). v_datasize v ! j \<le> v_datasize v ! i)
          \<and> out = [(v_parents v ! i, mm_to_str (default_mm ''scheduler push task''\<lparr>mcount := Some 1, tasks := [taskmsg_to_str tm']\<rparr>))]))"
proof (cases "opt0 (v_alldatasize v) \<le> dataSizeThreshold (sc_conf st)")
  case True
  then have "task_ready_process st v tm = Inr (0, tm\<lparr>datalength := opt0 (v_alldatasize v)\<rparr>, [])"
    by (simp add: task_ready_process_def)
  moreover have "is_long (opt0 (v_alldatasize v))" using assms(1) unfolding record_ok_def by blast
  ultimately show ?thesis using True by blast
next
  case False
  then have "v_datasize v \<noteq> []" using assms by (auto simp: record_ok_def)
  from max_data_largest [OF assms(1) this] obtain i where
    i: "i < length (v_datasize v)" "max_data v [0..<length (v_datasize v)] (-1000000, [], []) =
      Inr (v_datasize v ! i, v_parents v ! i, v_datanamelist v ! i)"
      "\<forall>j < length (v_datasize v). v_datasize v ! j \<le> v_datasize v ! i" by blast
  have "is_long (v_datasize v ! i)" using assms(1) i(1) by (simp add: record_ok_def list_all_length)
  with False i show ?thesis by (auto simp: task_ready_process_def Let_def)
qed

section \<open>Properties\<close>


text \<open>The local-queue monitor conserves tasks: when the local queue is longer than the
  bound, it keeps as many tasks as the bound says, the ones with the least data, and moves the others
  to the work-stealing queue; nothing else changes hands.\<close>

lemma monitor_conserves_tasks:
  assumes "pq_ok (sc_localQueue st)" and "pq_ok (sc_wsQueue st)" and "0 < n" and "n < length (sc_localQueue st)"
  shows "mset (sc_localQueue (localQueue_monitor_round n st)) + mset (sc_wsQueue (localQueue_monitor_round n st)) =
      mset (sc_localQueue st) + mset (sc_wsQueue st)
    \<and> length (sc_localQueue (localQueue_monitor_round n st)) = n
    \<and> pq_ok (sc_localQueue (localQueue_monitor_round n st)) \<and> pq_ok (sc_wsQueue (localQueue_monitor_round n st))"
proof -
  obtain rem mig where m: "sc_localQueue (localQueue_monitor_round n st) = pq_push_all rem []"
      "sc_wsQueue (localQueue_monitor_round n st) = pq_push_all mig (sc_wsQueue st)"
      "mset rem + mset mig = mset (sc_localQueue st)" "length rem = n"
    using monitor_moves [OF assms] by blast
  note f = pq_push_all_facts [OF pq_ok_Nil, of rem] pq_push_all_facts [OF assms(2), of mig]
  have "length (pq_push_all rem []) = n" using arg_cong [OF f(2), of size] m(4) by simp
  then show ?thesis using f m(3) by (simp add: m(1,2) add.assoc [symmetric])
qed

text \<open>A submission changes the wait queue of the scheduler, its time entries and its request count.\<close>

lemma log_submission_frame:
  "log_submission z now ts (st, s) = Inr (st', s') \<Longrightarrow> \<exists>es. st' = st\<lparr>sc_timeEntry := es\<rparr>"
proof (induction ts arbitrary: st s)
  case Nil
  then have "st' = st\<lparr>sc_timeEntry := sc_timeEntry st\<rparr>" by simp
  then show ?case by blast
next
  case (Cons t ts)
  then obtain es st1 s1 where "log_submission z now ts (add_entries es st, s1) = Inr (st', s')" by (auto simp: bind_res_eq_Inr)
  from Cons.IH [OF this] show ?case by (auto simp: add_entries_def)
qed

lemma recv_packages_frame:
  "recv_packages z now pkgs (st, s) = Inr (st', s') \<Longrightarrow> \<exists>es w. st' = st\<lparr>sc_timeEntry := es, sc_waitQueue := w\<rparr>"
proof (induction pkgs arbitrary: st s)
  case Nil
  then have "st' = st\<lparr>sc_timeEntry := sc_timeEntry st, sc_waitQueue := sc_waitQueue st\<rparr>" by simp
  then show ?case by blast
next
  case (Cons p pkgs)
  then obtain st1 s1 where 1: "log_submission z now p (st, s) = Inr (st1, s1)"
      "recv_packages z now pkgs (st1\<lparr>sc_waitQueue := sc_waitQueue st1 @ p\<rparr>, s1) = Inr (st', s')"
    by (auto simp: bind_res_eq_Inr)
  obtain es where "st1 = st\<lparr>sc_timeEntry := es\<rparr>" using log_submission_frame [OF 1(1)] by blast
  with Cons.IH [OF 1(2)] show ?case by auto
qed

lemma recv_task_from_client_frame:
  assumes "recv_task_from_client z env now str cs st s = Some (Inr (st', s'))"
  shows "\<exists>es w n. st' = st\<lparr>sc_timeEntry := es, sc_waitQueue := w, sc_numZHTMsg := n\<rparr>"
proof (cases "bind_res (recv_mul cs str) (\<lambda>(_, taskStr, _). unpack_tasks taskStr)")
  case (Inr r)
  show ?thesis
  proof (cases r)
    case None
    then have "st' = st\<lparr>sc_timeEntry := sc_timeEntry st, sc_waitQueue := sc_waitQueue st, sc_numZHTMsg := sc_numZHTMsg st\<rparr>"
      using assms Inr by (simp add: recv_task_from_client_def)
    then show ?thesis by blast
  next
    case (Some np)
    obtain n pkgs where np: "np = (n, pkgs)" by fastforce
    obtain st1 s1 m where r: "recv_packages z now pkgs (st, s) = Inr (st1, s1)" "st' = st1\<lparr>sc_numZHTMsg := m\<rparr>"
      using assms Inr Some np
      by (cases "recv_packages z now pkgs (st, s)") (auto simp: recv_task_from_client_def bind_res_eq_Inr split: sum.splits)
    obtain es w where "st1 = st\<lparr>sc_timeEntry := es, sc_waitQueue := w\<rparr>" using recv_packages_frame [OF r(1)] by blast
    then show ?thesis using r(2) by blast
  qed
qed (use assms in \<open>simp add: recv_task_from_client_def\<close>)

text \<open>The stream of a batch, cut in any way that leaves the first chunk long enough to show the kind of the
  message, goes to \<open>recv_task_from_client\<close>, which reads it whole.\<close>

lemma client_stream:
  assumes "0 < mx" and "list_all task_ok tv" and "is_int (int (length tv))" and "send_batch_tasks mx tv ''client'' = Some out"
    and "chunking (b # cs) (concat out)" and "17 \<le> length b"
  shows "\<exists>cnt ps. recv_mul cs b = Inr (cnt, concat out, []) \<and> concat ps = tv
    \<and> unpack_tasks (concat out) = Inr (if tv = [] then None else Some (int (length tv), ps))
    \<and> (\<forall>st. proc_req z env now b cs st s = map_option (\<lambda>r. bind_res r (\<lambda>(st', s'). Inr ([], st', s'))) (recv_task_from_client z env now b cs st s))"
proof -
  have peer: "peer_ok ''client''" by (simp add: peer_ok_def)
  obtain str ps rest where o: "concat out = str @ ''$''" "CHR ''$'' \<notin> set str" "CHR 0x00 \<notin> set str" "concat ps = tv"
      "unpack_tasks (concat out) = Inr (if tv = [] then None else Some (int (length tv), ps))" "str = ''client'' @ '' send tasks&&'' @ rest"
    using batch_stream [OF assms(1) peer assms(2-4)] by blast
  obtain cnt where recv: "recv_mul cs b = Inr (cnt, concat out, [])"
    using recv_mul_rest [OF assms(5) [unfolded o(1)] o(2,3)] o(1) by auto
  have bo: "b @ concat cs = concat out" using assms(5) by (simp add: chunking_def)
  then have "take 17 b = take 17 (concat out)" using assms(6) by (metis append.simps(1) diff_is_0_eq take0 take_append self_append_conv)
  then have prefix: "take (length ''client send tasks'') b = ''client send tasks''" by (simp add: o(1,6) numeral_eq_Suc)
  have "set b \<subseteq> set (str @ ''$'')" using arg_cong [OF bo, of set] unfolding o(1) by auto
  then have "CHR 0x00 \<notin> set b" using o(3) by auto
  then have "c_str b = b" by (rule c_str_id)
  then have "\<forall>st. proc_req z env now b cs st s =
      map_option (\<lambda>r. bind_res r (\<lambda>(st', s'). Inr ([], st', s'))) (recv_task_from_client z env now b cs st s)"
    using prefix by (simp add: proc_req_def Let_def)
  then show ?thesis using recv o(4,5) by blast
qed

lemma submission_received:
  assumes "deployed c s" and "0 < mx" and "list_all task_ok tv" and "is_int (int (length tv))"
    and "send_batch_tasks mx tv ''client'' = Some out" and "chunking (b # cs) (concat out)" and "17 \<le> length b"
    and "\<forall>t \<in> set tv. key_ok (zc_msg_maxsize c) (taskid t) \<and> (\<exists>d v. zht_value c s (taskid t) = Some d \<and> str_to_value d = Inr v)"
    and "zht_value c s ''num tasks recv'' = Some (num_to_str n)" and "is_long n" and "100 \<le> zc_msg_maxsize c"
  shows "\<exists>es m s'. proc_req (zht_ops_of c) (\<lambda>_ s. s) now b cs st s =
        Some (Inr ([], st\<lparr>sc_timeEntry := es, sc_waitQueue := sc_waitQueue st @ tv, sc_numZHTMsg := m\<rparr>, s'))
    \<and> deployed c s' \<and> zht_value c s' = (zht_value c s)(''num tasks recv'' \<mapsto> num_to_str (n + int (length tv)))"
proof -
  obtain cnt ps where o: "recv_mul cs b = Inr (cnt, concat out, [])" "concat ps = tv"
      "unpack_tasks (concat out) = Inr (if tv = [] then None else Some (int (length tv), ps))"
      "proc_req (zht_ops_of c) (\<lambda>_ s. s) now b cs st s =
        map_option (\<lambda>r. bind_res r (\<lambda>(st', s'). Inr ([], st', s'))) (recv_task_from_client (zht_ops_of c) (\<lambda>_ s. s) now b cs st s)"
    using client_stream [OF assms(2-7), of "zht_ops_of c" "\<lambda>_ s. s" now s] by blast
  show ?thesis
  proof (cases "tv = []")
    case True
    have "proc_req (zht_ops_of c) (\<lambda>_ s. s) now b cs st s = Some (Inr ([], st, s))"
      using o True by (simp add: recv_task_from_client_def)
    moreover have "st = st\<lparr>sc_timeEntry := sc_timeEntry st, sc_waitQueue := sc_waitQueue st @ tv, sc_numZHTMsg := sc_numZHTMsg st\<rparr>"
      using True by simp
    moreover have "zht_value c s = (zht_value c s)(''num tasks recv'' \<mapsto> num_to_str (n + int (length tv)))"
      using True assms(9) by (simp add: fun_upd_idem)
    ultimately show ?thesis using assms(1) by metis
  next
    case False
    have k: "key_ok (zc_msg_maxsize c) ''num tasks recv''" using assms(11) by (simp add: key_ok_def field_ok_def)
    have v: "val_ok (zc_msg_maxsize c) (num_to_str (n + int (length tv)))"
      using assms(4,10,11) by (intro val_ok_num) (auto simp: int_range_defs)
    have kn: "\<forall>t \<in> set tv. zs.known c s (taskid t)" using assms(8) unfolding zs.known_def by blast
    have u: "unpack_tasks (concat out) = Inr (Some (int (length tv), ps))" using o(3) False by simp
    obtain st' s' where r: "recv_task_from_client (zht_ops_of c) (\<lambda>_ s. s) now b cs st s = Some (Inr (st', s'))"
        "sc_waitQueue st' = sc_waitQueue st @ tv" "deployed c s'"
        "zht_value c s' = (zht_value c s)(''num tasks recv'' \<mapsto> num_to_str (n + int (length tv)))"
      using zs.recv_task_from_client_quiet [OF assms(1) kn o(1) u o(2) assms(4) k assms(9,10) v, of now st] by blast
    obtain es w m where "st' = st\<lparr>sc_timeEntry := es, sc_waitQueue := w, sc_numZHTMsg := m\<rparr>" using recv_task_from_client_frame [OF r(1)] by blast
    then have "st' = st\<lparr>sc_timeEntry := es, sc_waitQueue := sc_waitQueue st @ tv, sc_numZHTMsg := m\<rparr>" using r(2) by simp
    then show ?thesis using r(1,3,4) o(4) by auto
  qed
qed

text \<open>A submission arrives: when a client sends a batch of tasks whose metadata is in the
  store, and the first chunk the scheduler's server reads holds at least the message type, the request
  handler appends exactly the client's tasks to the wait queue, in order, and adds their number to the
  global counter of received tasks; no other record of the store changes.\<close>

lemma submission_arrives:
  assumes "deployed c s" and "0 < mx" and "list_all task_ok tv" and "tv \<noteq> []" and "is_int (int (length tv))"
    and "send_batch_tasks mx tv ''client'' = Some out"
    and "chunking (b # cs) (concat out)" and "17 \<le> length b"
    and "\<forall>t \<in> set tv. key_ok (zc_msg_maxsize c) (taskid t)
      \<and> (\<exists>d v. zht_value c s (taskid t) = Some d \<and> str_to_value d = Inr v)"
    and "zht_value c s ''num tasks recv'' = Some (num_to_str n)" and "is_long n" and "100 \<le> zc_msg_maxsize c"
  shows "\<exists>st' s'. proc_req (zht_ops_of c) (\<lambda>_ s. s) now b cs st s = Some (Inr ([], st', s'))
    \<and> sc_waitQueue st' = sc_waitQueue st @ tv \<and> deployed c s'
    \<and> zht_value c s' = (zht_value c s)(''num tasks recv'' \<mapsto> num_to_str (n + int (length tv)))"
  using submission_received [OF assms(1-3,5-12), of now st] by auto

text \<open>A waiting task is queued exactly when all its parents are done, and in exactly one
  place: with an in-degree other than 0 nothing changes; with in-degree 0 the task, its data length
  set, is added to the work-stealing queue, or to the local queue, or it is sent to another scheduler,
  one that holds the largest piece of its data, whose request handler puts the same task into its
  local queue.\<close>

lemma ready_task_goes_to_one_place:
  assumes "deployed c s" and "key_ok (zc_msg_maxsize c) (taskid tm)" and "task_ok tm"
    and "zht_value c s (taskid tm) = Some d" and "str_to_value d = Inr v"
    and "record_ok v" and "0 \<le> dataSizeThreshold (sc_conf st)" and "pq_ok (sc_localQueue st)" and "pq_ok (sc_wsQueue st)"
  shows "\<exists>ready tm' st' out. check_a_ready_task (zht_ops_of c) now tm st s = Inr (ready, tm', st', out, s)
    \<and> (ready \<longleftrightarrow> opt0 (v_indegree v) = 0)
    \<and> (\<not> ready \<longrightarrow> tm' = tm \<and> st' = st \<and> out = [])
    \<and> (ready \<longrightarrow> (\<exists>n. tm' = tm\<lparr>datalength := n\<rparr>)
        \<and> pq_ok (sc_localQueue st') \<and> pq_ok (sc_wsQueue st') \<and> sc_waitQueue st' = sc_waitQueue st
        \<and> mset (sc_localQueue st') + mset (sc_wsQueue st') + (if out = [] then {#} else {#tm'#}) =
          add_mset tm' (mset (sc_localQueue st) + mset (sc_wsQueue st)))
    \<and> (out \<noteq> [] \<longrightarrow> (\<exists>i msg. i < length (v_datasize v) \<and> out = [(v_parents v ! i, msg)] \<and> v_parents v ! i \<noteq> sc_id st
        \<and> (\<forall>j < length (v_datasize v). v_datasize v ! j \<le> v_datasize v ! i)
        \<and> (\<forall>cs peer. \<exists>ack peer'. proc_req (zht_ops_of c) (\<lambda>_ s. s) now msg cs peer s = Some (Inr ([ack], peer', s))
              \<and> sc_localQueue peer' = pq_push tm' (sc_localQueue peer))))"
proof -
  have l: "zlookup (zht_ops_of c) (taskid tm) s = Inr (0, d, s)" using zs.lookup [OF assms(1,2)] assms(4) by simp
  show ?thesis
  proof (cases "opt0 (v_indegree v) = 0")
    case False
    then show ?thesis using l assms(5) by (intro exI [of _ False]) (simp add: check_a_ready_task_def)
  next
    case True
    obtain flag tm' out n where t: "task_ready_process st v tm = Inr (flag, tm', out)" "tm' = tm\<lparr>datalength := n\<rparr>" "is_long n"
      "opt0 (v_alldatasize v) \<le> dataSizeThreshold (sc_conf st) \<and> flag = 0 \<and> out = [] \<or> flag = 1 \<and> out = []
      \<or> flag = 2 \<and> (\<exists>i < length (v_datasize v). v_parents v ! i \<noteq> sc_id st
          \<and> (\<forall>j < length (v_datasize v). v_datasize v ! j \<le> v_datasize v ! i)
          \<and> out = [(v_parents v ! i, mm_to_str (default_mm ''scheduler push task''\<lparr>mcount := Some 1, tasks := [taskmsg_to_str tm']\<rparr>))])"
      using task_ready_process_outcome [OF assms(6,7), of tm] by blast
    have ok: "task_ok tm'" using assms(3) t(2,3) by (simp add: task_ok_def)
    note push = proc_req_push [OF ok, of "zht_ops_of c" "\<lambda>_ s. s" now]
    have chk: "check_a_ready_task (zht_ops_of c) now tm st s =
        (let st1 = (if flag \<noteq> 2 then add_entries [time_entry tm' ''ReadyQueuedTime'' now] st else st);
             st2 = (if flag = 0 then st1\<lparr>sc_wsQueue := pq_push tm' (sc_wsQueue st1)\<rparr>
                    else if flag = 1 then st1\<lparr>sc_localQueue := pq_push tm' (sc_localQueue st1)\<rparr> else st1)
         in Inr (True, tm', st2, out, s))"
      using True l assms(5) t(1) by (simp add: check_a_ready_task_def)
    from t(4) show ?thesis
    proof (elim disjE conjE exE)
      assume "flag = 0" "out = []"
      then show ?thesis unfolding chk Let_def using True assms(8,9) t(2) pq_push_ok [OF assms(8)] pq_push_ok [OF assms(9)]
        by (intro exI [of _ True]) (auto simp: pq_push_mset)
    next
      assume "flag = 1" "out = []"
      then show ?thesis unfolding chk Let_def using True assms(8,9) t(2) pq_push_ok [OF assms(8)] pq_push_ok [OF assms(9)]
        by (intro exI [of _ True]) (auto simp: pq_push_mset)
    next
      fix i assume "flag = 2" and i: "i < length (v_datasize v)" "v_parents v ! i \<noteq> sc_id st"
          "\<forall>j < length (v_datasize v). v_datasize v ! j \<le> v_datasize v ! i"
          "out = [(v_parents v ! i, mm_to_str (default_mm ''scheduler push task''\<lparr>mcount := Some 1, tasks := [taskmsg_to_str tm']\<rparr>))]"
      then show ?thesis unfolding chk Let_def using True assms(8,9) t(2) push by (intro exI [of _ True]) auto
    qed
  qed
qed

section \<open>Instances\<close>

definition demo_mconf :: matrix_conf where
  "demo_mconf = conf_of (replicate 29 ''1'')"

definition demo_sched :: "task_pq \<Rightarrow> task_pq \<Rightarrow> sched" where
  "demo_sched lq wq = \<lparr>sc_conf = demo_mconf, sc_id = ''n0'', sc_index = 0, sc_vec = [''n0'', ''n1''], sc_running = True,
     sc_numZHTMsg = 0, sc_numIdleCore = 1, sc_prevNumTaskFin = 0, sc_numTaskFin = 0, sc_numWS = 0, sc_numWSFail = 0,
     sc_numNeigh = 1, sc_neighIdx = [0], sc_chooseBitMap = [False, False], sc_maxLoadedIdx = -1, sc_maxLoad = -1000000, sc_pollInterval = 1,
     sc_localQueue = lq, sc_wsQueue = wq, sc_waitQueue = [], sc_completeQueue = [], sc_localData = [],
     sc_cache = True, sc_timeEntry = []\<rparr>"

definition demo_value :: "string \<Rightarrow> int \<Rightarrow> string list \<Rightarrow> val_msg" where
  "demo_value i n cs = default_value\<lparr>v_id := i, v_indegree := Some n, v_children := cs\<rparr>"

lemma demo_mconf_facts: "maxTaskPerPkg demo_mconf = 1" "dataSizeThreshold demo_mconf = 1"
  by (simp_all add: demo_mconf_def conf_of_def numeral_eq_Suc) code_simp+

lemma demo_tasks_ok:
  "list_all task_ok [demo_task ''7'', demo_task ''8'']" "pq_ok [demo_task ''7'', demo_task ''8'']" "pq_ok []"
  by (simp_all add: task_ok_def demo_task_def field_ok_def int_range_defs pq_ok_def)

lemma demo_record:
  "value_ok (demo_value ''7'' 0 [])" "record_ok (demo_value ''7'' 0 [])"
  "val_ok (zc_msg_maxsize demo_conf) (value_to_str (demo_value ''7'' 0 []))"
  "key_ok (zc_msg_maxsize demo_conf) ''7''" "key_ok (zc_msg_maxsize demo_conf) ''num tasks recv''"
  "val_ok (zc_msg_maxsize demo_conf) ''0''"
proof -
  have "value_to_str (demo_value ''7'' 0 []) = ''7~~0~~noparents~~nochildren~~nodataname~~nodatasize~~noalldatasize~~notasklength~~nonumtaskfin~~nonumworksteal~~nonumworkstealfail~~nonumtaskwait~~nonumtaskready~~nonumcoreavail~~nonumallcore~~nooutputsize~~nosubmittime~~''"
    by code_simp
  then show "val_ok (zc_msg_maxsize demo_conf) (value_to_str (demo_value ''7'' 0 []))"
    by (simp add: demo_conf_def val_ok_def field_ok_def)
qed (simp_all add: demo_value_def default_value_def value_ok_def record_ok_def field_ok_def opt_ok_def int_range_defs
    demo_conf_def key_ok_def val_ok_def)

lemma demo_store:
  "\<exists>s. deployed demo_conf s \<and> zht_value demo_conf s =
     [''7'' \<mapsto> value_to_str (demo_value ''7'' 0 []), ''num tasks recv'' \<mapsto> ''0'']"
proof -
  obtain s where s: "deployed demo_conf s" "zht_value demo_conf s = [''7'' \<mapsto> value_to_str (demo_value ''7'' 0 [])]"
    using zs.insert [OF demo_deployed demo_record(4,3)] demo_empty by auto
  from zs.insert [OF s(1) demo_record(5,6)] s(2) show ?thesis by auto
qed


lemma monitor_conserves_tasks_witness:
  "length (sc_localQueue (localQueue_monitor_round 1 (demo_sched [demo_task ''7'', demo_task ''8''] []))) = 1"
  using monitor_conserves_tasks [of "demo_sched [demo_task ''7'', demo_task ''8''] []" 1] demo_tasks_ok
  by (simp add: demo_sched_def)

lemma ready_task_goes_to_one_place_witness:
  "\<exists>s tm' st' out. check_a_ready_task (zht_ops_of demo_conf) 0 (demo_task ''7'') (demo_sched [] []) s = Inr (True, tm', st', out, s)"
proof -
  obtain s where s: "deployed demo_conf s" "zht_value demo_conf s =
     [''7'' \<mapsto> value_to_str (demo_value ''7'' 0 []), ''num tasks recv'' \<mapsto> ''0'']" using demo_store by blast
  have "\<exists>ready tm' st' out. check_a_ready_task (zht_ops_of demo_conf) 0 (demo_task ''7'') (demo_sched [] []) s =
      Inr (ready, tm', st', out, s) \<and> (ready \<longleftrightarrow> opt0 (v_indegree (demo_value ''7'' 0 [])) = 0)"
    using ready_task_goes_to_one_place [OF s(1), of "demo_task ''7''" "value_to_str (demo_value ''7'' 0 [])"
        "demo_value ''7'' 0 []" "demo_sched [] []" 0] demo_record demo_tasks_ok s(2) value_roundtrip [OF demo_record(1)]
    by (auto simp: demo_sched_def demo_mconf_facts demo_task_def)
  then obtain tm' st' out where "check_a_ready_task (zht_ops_of demo_conf) 0 (demo_task ''7'') (demo_sched [] []) s =
      Inr (True, tm', st', out, s)" by (auto simp: demo_value_def)
  then show ?thesis by blast
qed

lemma submission_arrives_witness:
  "\<exists>s out b st' s'. send_batch_tasks 1 [demo_task ''7''] ''client'' = Some out \<and> b = concat out
     \<and> proc_req (zht_ops_of demo_conf) (\<lambda>_ s. s) 0 b [] (demo_sched [] []) s = Some (Inr ([], st', s'))
     \<and> sc_waitQueue st' = [demo_task ''7''] \<and> zht_value demo_conf s' ''num tasks recv'' = Some ''1''"
proof -
  obtain s where s: "deployed demo_conf s" "zht_value demo_conf s =
     [''7'' \<mapsto> value_to_str (demo_value ''7'' 0 []), ''num tasks recv'' \<mapsto> ''0'']" using demo_store by blast
  let ?out = "[''client send tasks&&noextrainfo&&1&&notask&&##'',
      ''client send tasks&&noextrainfo&&1&&7@@u@@/tmp@@hostname@@0@@!!&&##$'']"
  have n: "num_to_str 0 = ''0''" "num_to_str 1 = ''1''" by code_simp+
  have o: "send_batch_tasks 1 [demo_task ''7''] ''client'' = Some ?out"
    by (simp add: send_batch_tasks_def send_batch_loop.simps task_pkg_def mm_to_str_def put_rep_def taskmsg_to_str_def
        demo_task_def send_mul_def to_int32_def n)
  have "\<exists>st' s'. proc_req (zht_ops_of demo_conf) (\<lambda>_ s. s) 0 (concat ?out) [] (demo_sched [] []) s = Some (Inr ([], st', s'))
    \<and> sc_waitQueue st' = sc_waitQueue (demo_sched [] []) @ [demo_task ''7''] \<and> deployed demo_conf s'
    \<and> zht_value demo_conf s' = (zht_value demo_conf s)(''num tasks recv'' \<mapsto> num_to_str (0 + int (length [demo_task ''7''])))"
    by (rule submission_arrives [OF s(1) _ _ _ _ o])
      (use demo_record demo_tasks_ok s(2) value_roundtrip [OF demo_record(1)] in
        \<open>auto simp: chunking_def BUF_SIZE_def demo_task_def int_range_defs n demo_conf_def\<close>)
  then obtain st' s' where r: "proc_req (zht_ops_of demo_conf) (\<lambda>_ s. s) 0 (concat ?out) [] (demo_sched [] []) s = Some (Inr ([], st', s'))"
      "sc_waitQueue st' = sc_waitQueue (demo_sched [] []) @ [demo_task ''7'']"
      "zht_value demo_conf s' = (zht_value demo_conf s)(''num tasks recv'' \<mapsto> num_to_str (0 + int (length [demo_task ''7''])))"
    by blast
  have "sc_waitQueue st' = [demo_task ''7'']" using r(2) by (simp add: demo_sched_def)
  moreover have "zht_value demo_conf s' ''num tasks recv'' = Some ''1''" using r(3) n(2) by simp
  ultimately show ?thesis using o r(1) by blast
qed

end
