(* ===== verification/System.thy ===== *)
theory System
  imports Task_Flow
begin

text \<open>
  The schedulers and the store together, as a transition system. A state has the store, the
  schedulers, the notifications in progress and, as a record of what happened, the identifiers of
  the executed tasks in order and for every task the children it has not notified yet. A step is one
  round of a thread of one scheduler, run by the scheduler's own functions; a push and a steal involve
  two. A compare-and-swap loop counts as the one request in which it succeeds (it is atomic, as
  proved in \<open>Zht_Service\<close>). The steps of \<open>notify_one\<close> are those in which the new record can be
  represented (its numbers fit and it fits a message).
\<close>

section \<open>Steps\<close>

record sys =
  y_store :: cluster
  y_scheds :: "sched list"
  y_work :: "(nat \<times> cmp_item \<times> string list) list"
  y_ran :: "string list"
  y_left :: "string \<Rightarrow> string list"

abbreviation quiet :: "nat \<Rightarrow> cluster \<Rightarrow> cluster" where
  "quiet \<equiv> \<lambda>_ s. s"

inductive sys_step :: "zht_conf \<Rightarrow> sys \<Rightarrow> sys \<Rightarrow> bool" for c :: zht_conf where
  check: "i < length (y_scheds y) \<Longrightarrow>
    checking_ready_round (zht_ops_of c) now (y_scheds y ! i) (y_store y) = Some (Inr (st, [], s)) \<Longrightarrow>
    sys_step c y (y\<lparr>y_store := s, y_scheds := (y_scheds y)[i := st]\<rparr>)"
| push: "i < length (y_scheds y) \<Longrightarrow> j < length (y_scheds y) \<Longrightarrow> i \<noteq> j \<Longrightarrow>
    checking_ready_round (zht_ops_of c) now (y_scheds y ! i) (y_store y) = Some (Inr (st, [(host, msg)], s)) \<Longrightarrow>
    sc_id (y_scheds y ! j) = host \<Longrightarrow>
    proc_req (zht_ops_of c) quiet now' msg cs (y_scheds y ! j) s = Some (Inr (ack, st', s')) \<Longrightarrow>
    sys_step c y (y\<lparr>y_store := s', y_scheds := (y_scheds y)[i := st, j := st']\<rparr>)"
| exec: "i < length (y_scheds y) \<Longrightarrow> next_task (y_scheds y ! i) = Some (tm, st0) \<Longrightarrow>
    executing_task_round (zht_ops_of c) fetch run t0 t1 (y_scheds y ! i) (y_store y) = Some (Inr (st, s)) \<Longrightarrow>
    sys_step c y (y\<lparr>y_store := s, y_scheds := (y_scheds y)[i := st], y_ran := y_ran y @ [taskid tm]\<rparr>)"
| finish: "i < length (y_scheds y) \<Longrightarrow> sc_completeQueue (y_scheds y ! i) = it # rest \<Longrightarrow>
    zlookup (zht_ops_of c) (cq_taskId it) (y_store y) = Inr (rc, d, s) \<Longrightarrow> str_to_value d = Inr v \<Longrightarrow>
    sys_step c y (y\<lparr>y_store := s, y_scheds := (y_scheds y)[i := (y_scheds y ! i)\<lparr>sc_completeQueue := rest\<rparr>],
      y_work := (i, it, v_children v) # y_work y\<rparr>)"
| notify_one: "y_work y = ws1 @ (i, it, ch # chs) # ws2 \<Longrightarrow> i < length (y_scheds y) \<Longrightarrow>
    str_to_value d = Inr v \<Longrightarrow> child_attempt (sc_id (y_scheds y ! i)) it d = Inr w \<Longrightarrow>
    value_ok (parent_done (sc_id (y_scheds y ! i)) it v) \<Longrightarrow> val_ok (zc_msg_maxsize c) w \<Longrightarrow> val_ok (zc_msg_maxsize c) d \<Longrightarrow>
    zcswap (zht_ops_of c) ch d w (y_store y) = Inr (0, q, s) \<Longrightarrow>
    sys_step c y (y\<lparr>y_store := s, y_work := ws1 @ (i, it, chs) # ws2, y_left := (y_left y)(cq_taskId it := chs)\<rparr>)"
| steal: "i < length (y_scheds y) \<Longrightarrow> j < length (y_scheds y) \<Longrightarrow> i \<noteq> j \<Longrightarrow>
    is_int (int (length (sc_wsQueue (y_scheds y ! i)))) \<Longrightarrow>
    send_task (y_scheds y ! i) = Some (out, st) \<Longrightarrow> chunking cs (concat out) \<Longrightarrow>
    recv_task_from_scheduler now cs (y_scheds y ! j) = Inr (b, st') \<Longrightarrow>
    sys_step c y (y\<lparr>y_scheds := (y_scheds y)[i := st, j := st']\<rparr>)"
| monitor: "i < length (y_scheds y) \<Longrightarrow>
    sys_step c y (y\<lparr>y_scheds := (y_scheds y)[i := localQueue_monitor_round n (y_scheds y ! i)]\<rparr>)"

inductive_cases sys_stepE: "sys_step c y y'"

inductive sys_reach :: "zht_conf \<Rightarrow> sys \<Rightarrow> sys \<Rightarrow> bool" for c :: zht_conf where
  init: "sys_reach c y y"
| more_step: "sys_reach c y y' \<Longrightarrow> sys_step c y' y'' \<Longrightarrow> sys_reach c y y''"

section \<open>What each round does to the tasks\<close>

definition ready_ids :: "sched \<Rightarrow> string multiset" where
  "ready_ids st = image_mset taskid (mset (sc_localQueue st) + mset (sc_wsQueue st))"

definition wait_ids :: "sched \<Rightarrow> string multiset" where
  "wait_ids st = image_mset taskid (mset (sc_waitQueue st))"

definition done_ids :: "sched \<Rightarrow> string multiset" where
  "done_ids st = image_mset cq_taskId (mset (sc_completeQueue st))"

text \<open>A scheduler whose queues are in order and hold only sendable tasks.\<close>

definition sched_ok :: "sched \<Rightarrow> bool" where
  "sched_ok st \<longleftrightarrow> pq_ok (sc_localQueue st) \<and> pq_ok (sc_wsQueue st) \<and> 0 < maxTaskPerPkg (sc_conf st)
     \<and> (\<forall>t \<in># mset (sc_waitQueue st) + mset (sc_localQueue st) + mset (sc_wsQueue st). task_ok t)"

lemma max_data_long:
  assumes "max_data v is (m, p, n) = Inr (m', p', n')" and "is_long m" and "list_all is_long (v_datasize v)"
  shows "is_long m'"
  using assms(1,2)
proof (induction "is" arbitrary: m p n)
  case (Cons i js)
  then show ?case
    using assms(3) by (auto simp: bind_res_eq_Inr rep_at_def list_all_length split: if_splits)
qed simp

lemma task_ready_process_result:
  assumes "task_ready_process st v tm = Inr (flag, tm', out)" and "value_ok v"
  shows "\<exists>n. tm' = tm\<lparr>datalength := n\<rparr> \<and> is_long n \<and> (out = [] \<and> (flag = 0 \<or> flag = 1) \<or>
    flag = 2 \<and> (\<exists>h. out = [(h, mm_to_str (default_mm ''scheduler push task''\<lparr>mcount := Some 1, tasks := [taskmsg_to_str tm']\<rparr>))]))"
proof (cases "opt0 (v_alldatasize v) \<le> dataSizeThreshold (sc_conf st)")
  case True
  have "is_long (opt0 (v_alldatasize v))"
    using assms(2) by (cases "v_alldatasize v") (auto simp: value_ok_def opt_ok_def int_range_defs)
  with True assms(1) show ?thesis by (auto simp: task_ready_process_def)
next
  case False
  with assms(1) obtain m p n where m: "max_data v [0..<length (v_datasize v)] (-1000000, [], []) = Inr (m, p, n)"
    by (auto simp: task_ready_process_def bind_res_eq_Inr)
  have "is_long m" using max_data_long [OF m] assms(2) by (simp add: value_ok_def int_range_defs)
  with False m assms(1) show ?thesis
    by (auto simp: task_ready_process_def Let_def split: if_splits)
qed

lemma pq_push_set: "set (pq_push t q) = insert t (set q)"
  using arg_cong [OF pq_push_mset [of t q], of set_mset] by simp

definition push_msg :: "task_msg \<Rightarrow> string" where
  "push_msg tm = mm_to_str (default_mm ''scheduler push task''\<lparr>mcount := Some 1, tasks := [taskmsg_to_str tm]\<rparr>)"

text \<open>The parts of a scheduler a round leaves alone.\<close>

definition same_frame :: "sched \<Rightarrow> sched \<Rightarrow> bool" where
  "same_frame st st' \<longleftrightarrow> sc_id st' = sc_id st \<and> sc_conf st' = sc_conf st"

lemma check_round_result:
  assumes s: "deployed c s" and st: "sched_ok st"
    and rec: "\<And>t. t \<in> set (sc_waitQueue st) \<Longrightarrow>
      key_ok (zc_msg_maxsize c) (taskid t) \<and> (\<exists>v. zht_value c s (taskid t) = Some (value_to_str v) \<and> value_ok v)"
    and round: "checking_ready_round (zht_ops_of c) now st s = Some (Inr (st', out, s'))"
  shows "s' = s \<and> sched_ok st' \<and> same_frame st st' \<and> sc_completeQueue st' = sc_completeQueue st
    \<and> (out = [] \<and> wait_ids st' = wait_ids st \<and> ready_ids st' = ready_ids st
      \<or> (\<exists>tm v. zht_value c s (taskid tm) = Some (value_to_str v) \<and> value_ok v \<and> opt0 (v_indegree v) = 0
          \<and> wait_ids st = add_mset (taskid tm) (wait_ids st') \<and> task_ok tm
          \<and> (out = [] \<and> ready_ids st' = add_mset (taskid tm) (ready_ids st)
             \<or> ready_ids st' = ready_ids st \<and> (\<exists>h. out = [(h, push_msg tm)]))))"
proof -
  from round obtain t rest where w: "sc_waitQueue st = t # rest"
    by (cases "sc_waitQueue st") (auto simp: checking_ready_round_def)
  from rec [of t] w obtain v where v: "key_ok (zc_msg_maxsize c) (taskid t)"
      "zht_value c s (taskid t) = Some (value_to_str v)" "value_ok v" by auto
  have l: "zlookup (zht_ops_of c) (taskid t) s = Inr (0, value_to_str v, s)" using zs.lookup [OF s v(1)] v(2) by simp
  have tok: "task_ok t" using st w by (simp add: sched_ok_def)
  let ?st0 = "st\<lparr>sc_waitQueue := rest\<rparr>"
  show ?thesis
  proof (cases "opt0 (v_indegree v) = 0")
    case False
    then have "st' = st\<lparr>sc_waitQueue := rest @ [t], sc_numZHTMsg := sc_numZHTMsg st + 1\<rparr>" "out = []" "s' = s"
      using round l value_roundtrip [OF v(3)] by (simp_all add: checking_ready_round_def w check_a_ready_task_def)
    then show ?thesis using st w by (auto simp: sched_ok_def same_frame_def wait_ids_def ready_ids_def)
  next
    case True
    then obtain flag tm' where p: "task_ready_process ?st0 v t = Inr (flag, tm', out)" "s' = s"
      and st': "st' = (\<lambda>x. x\<lparr>sc_numZHTMsg := sc_numZHTMsg x + 1\<rparr>) (let st1 = (if flag \<noteq> 2 then add_entries [time_entry tm' ''ReadyQueuedTime'' now] ?st0 else ?st0)
         in if flag = 0 then st1\<lparr>sc_wsQueue := pq_push tm' (sc_wsQueue st1)\<rparr>
            else if flag = 1 then st1\<lparr>sc_localQueue := pq_push tm' (sc_localQueue st1)\<rparr> else st1)"
      using round l value_roundtrip [OF v(3)]
      by (auto simp: checking_ready_round_def w check_a_ready_task_def bind_res_eq_Inr Let_def)
    from task_ready_process_result [OF p(1) v(3)] obtain n where n: "tm' = t\<lparr>datalength := n\<rparr>" "is_long n"
        "out = [] \<and> (flag = 0 \<or> flag = 1) \<or> flag = 2 \<and> (\<exists>h. out = [(h, push_msg tm')])"
      unfolding push_msg_def by blast
    have id: "taskid tm' = taskid t" and ok: "task_ok tm'" using n tok by (simp_all add: task_ok_def)
    have q: "pq_ok (sc_localQueue st)" "pq_ok (sc_wsQueue st)" using st by (simp_all add: sched_ok_def)
    have "sched_ok st' \<and> same_frame st st' \<and> sc_completeQueue st' = sc_completeQueue st
      \<and> wait_ids st = add_mset (taskid tm') (wait_ids st')
      \<and> (out = [] \<and> ready_ids st' = add_mset (taskid tm') (ready_ids st)
          \<or> ready_ids st' = ready_ids st \<and> (\<exists>h. out = [(h, push_msg tm')]))"
      using n(3) st ok id w unfolding st' Let_def
      by (auto simp: sched_ok_def same_frame_def wait_ids_def ready_ids_def pq_push_mset pq_push_set pq_push_ok [OF q(1)] pq_push_ok [OF q(2)])
    then show ?thesis using p(2) v(2,3) True id ok by metis
  qed
qed

lemma push_result:
  assumes "task_ok tm" and "sched_ok st"
    and "proc_req z quiet now (push_msg tm) cs st s = Some (Inr (ack, st', s'))"
  shows "s' = s \<and> sched_ok st' \<and> same_frame st st' \<and> sc_completeQueue st' = sc_completeQueue st
    \<and> wait_ids st' = wait_ids st \<and> ready_ids st' = add_mset (taskid tm) (ready_ids st)"
proof -
  have q: "pq_ok (sc_localQueue st)" using assms(2) by (simp add: sched_ok_def)
  have "s' = s" and st': "st' = (add_entries [time_entry tm ''PushQueuedTime'' now] st)
      \<lparr>sc_localQueue := pq_push tm (sc_localQueue st)\<rparr>"
    using assms(3) unfolding push_msg_def proc_req_push [OF assms(1)] by simp_all
  then show ?thesis
    using assms(1,2) pq_push_ok [OF q, of tm]
    by (auto simp: sched_ok_def same_frame_def wait_ids_def ready_ids_def pq_push_mset pq_push_set)
qed

text \<open>Executing: only the local data changes while the input is gathered.\<close>

lemma data_piece_frame:
  assumes "data_piece fetch v i st = Inr (d, st')"
  shows "\<exists>ld. st' = st\<lparr>sc_localData := ld\<rparr>"
proof -
  have r: "\<exists>ld. st = st\<lparr>sc_localData := ld\<rparr>" by (rule exI [of _ "sc_localData st"]) simp
  show ?thesis
    using assms r by (auto simp: data_piece_def bind_res_eq_Inr Let_def split: if_splits option.splits)
qed

lemma gather_frame: "gather fetch v is dat st = Inr (d, st') \<Longrightarrow> \<exists>ld. st' = st\<lparr>sc_localData := ld\<rparr>"
proof (induction "is" arbitrary: dat st)
  case Nil
  have "\<exists>ld. st = st\<lparr>sc_localData := ld\<rparr>" by (rule exI [of _ "sc_localData st"]) simp
  with Nil show ?case by simp
next
  case (Cons i js)
  then obtain p st1 where "data_piece fetch v i st = Inr (p, st1)" "gather fetch v js (dat @ p) st1 = Inr (d, st')"
    by (auto simp: bind_res_eq_Inr)
  with Cons.IH [OF this(2)] data_piece_frame [OF this(1)] show ?case by auto
qed

lemma exec_round_result:
  assumes s: "deployed c s" and st: "sched_ok st" and nt: "next_task st = Some (tm, st0)"
    and key: "key_ok (zc_msg_maxsize c) (taskid tm)"
    and round: "executing_task_round (zht_ops_of c) fetch run t0 t1 st s = Some (Inr (st', s'))"
  shows "s' = s \<and> sched_ok st' \<and> same_frame st st' \<and> wait_ids st' = wait_ids st
    \<and> ready_ids st = add_mset (taskid tm) (ready_ids st') \<and> done_ids st' = add_mset (taskid tm) (done_ids st)"
proof -
  have q: "pq_ok (sc_localQueue st)" "pq_ok (sc_wsQueue st)" using st by (simp_all add: sched_ok_def)
  have st0: "sched_ok st0 \<and> same_frame st st0 \<and> wait_ids st0 = wait_ids st \<and> sc_completeQueue st0 = sc_completeQueue st
      \<and> ready_ids st = add_mset (taskid tm) (ready_ids st0)"
  proof (cases "sc_localQueue st = []")
    case False
    note tp = pq.top_pop [OF q(1)]
    have "mset (sc_localQueue st) = add_mset tm (mset (sc_localQueue st0))" and
      "st0 = st\<lparr>sc_localQueue := pq_pop (sc_localQueue st)\<rparr>"
      using nt False tp by (auto simp: next_task_def)
    then show ?thesis
      using st pq.pop_ok [OF q(1)] by (auto simp: sched_ok_def same_frame_def wait_ids_def ready_ids_def)
  next
    case True
    note tp = pq.top_pop [OF q(2)]
    have "mset (sc_wsQueue st) = add_mset tm (mset (sc_wsQueue st0))" and
      "st0 = st\<lparr>sc_wsQueue := pq_pop (sc_wsQueue st)\<rparr>"
      using nt True tp by (auto simp: next_task_def split: if_splits)
    then show ?thesis
      using st pq.pop_ok [OF q(2)] by (auto simp: sched_ok_def same_frame_def wait_ids_def ready_ids_def)
  qed
  have l: "\<exists>rc d. zlookup (zht_ops_of c) (taskid tm) s = Inr (rc, d, s)"
    using zs.lookup [OF s key] by (auto split: option.splits)
  from round nt obtain st2 where e: "exec_a_task (zht_ops_of c) fetch run t0 t1 tm (st0\<lparr>sc_numIdleCore := sc_numIdleCore st0 - 1\<rparr>) s =
      Inr (st2, s')" "st' = st2\<lparr>sc_numIdleCore := sc_numIdleCore st2 + 1\<rparr>"
    by (auto simp: executing_task_round_def bind_res_eq_Inr)
  then obtain v d st1 where g: "gather fetch v [0..<length (v_parents v)] [] (st0\<lparr>sc_numIdleCore := sc_numIdleCore st0 - 1\<rparr>) = Inr (d, st1)"
      "s' = s" and st2: "sc_completeQueue st2 = sc_completeQueue st1 @
          [\<lparr>cq_taskId = taskid tm, cq_key = sc_id st0 @ taskid tm, cq_dataSize = opt0 (v_outputsize v)\<rparr>]"
        "sc_waitQueue st2 = sc_waitQueue st1" "sc_localQueue st2 = sc_localQueue st1" "sc_wsQueue st2 = sc_wsQueue st1"
        "sc_id st2 = sc_id st1" "sc_conf st2 = sc_conf st1"
    using l by (auto simp: exec_a_task_def bind_res_eq_Inr Let_def)
  from gather_frame [OF g(1)] obtain ld where
    "st1 = (st0\<lparr>sc_numIdleCore := sc_numIdleCore st0 - 1\<rparr>)\<lparr>sc_localData := ld\<rparr>" by blast
  with st2 e(2) st0 g(2) show ?thesis
    by (auto simp: sched_ok_def same_frame_def wait_ids_def ready_ids_def done_ids_def)
qed

lemma steal_result:
  assumes v: "sched_ok victim" and t: "sched_ok thief" and int: "is_int (int (length (sc_wsQueue victim)))"
    and send: "send_task victim = Some (out, victim')" and cs: "chunking cs (concat out)"
    and recv: "recv_task_from_scheduler now cs thief = Inr (b, thief')"
  shows "sched_ok victim' \<and> sched_ok thief' \<and> same_frame victim victim' \<and> same_frame thief thief'
    \<and> wait_ids victim' = wait_ids victim \<and> wait_ids thief' = wait_ids thief
    \<and> sc_completeQueue victim' = sc_completeQueue victim \<and> sc_completeQueue thief' = sc_completeQueue thief
    \<and> ready_ids victim' + ready_ids thief' = ready_ids victim + ready_ids thief"
proof -
  have q: "pq_ok (sc_wsQueue victim)" "0 < maxTaskPerPkg (sc_conf victim)" "list_all task_ok (sc_wsQueue victim)"
    "pq_ok (sc_wsQueue thief)"
    using v t by (auto simp: sched_ok_def list_all_iff)
  from steal_transfer [OF q(1-3) int, of now thief] send cs recv obtain q' ts ps where
    s: "victim' = victim\<lparr>sc_wsQueue := q'\<rparr>" "pq_ok q'" "concat ps = ts" "mset ts + mset q' = mset (sc_wsQueue victim)"
      "thief' = (if ts = [] then thief else foldl (stolen now) thief ps)" by auto
  have sub: "set ts \<union> set q' = set (sc_wsQueue victim)" using arg_cong [OF s(4), of set_mset] by auto
  note f = pq_push_all_facts [OF q(4), of ts]
  have w: "sc_wsQueue thief' = pq_push_all ts (sc_wsQueue thief)" "sc_localQueue thief' = sc_localQueue thief"
      "sc_waitQueue thief' = sc_waitQueue thief" "sc_completeQueue thief' = sc_completeQueue thief" "same_frame thief thief'"
    using s(3,5) stolen_packages [of now thief ps] by (auto simp: same_frame_def)
  have set_w: "set (sc_wsQueue thief') = set ts \<union> set (sc_wsQueue thief)"
    using arg_cong [OF f(2), of set_mset] by (simp add: w(1))
  have "image_mset taskid (mset ts) + image_mset taskid (mset q') = image_mset taskid (mset (sc_wsQueue victim))"
    unfolding s(4) [symmetric] by simp
  then have "ready_ids victim' + ready_ids thief' = ready_ids victim + ready_ids thief"
    using f(2) by (simp add: ready_ids_def s(1) w(1,2)) (metis (no_types, lifting) add.assoc add.commute)
  moreover have "sched_ok thief'"
    using t v f(1) set_w sub w by (auto simp: sched_ok_def same_frame_def)
  moreover have "sched_ok victim'" using v s(2) sub by (auto simp: sched_ok_def s(1))
  ultimately show ?thesis using w by (simp add: s(1) same_frame_def wait_ids_def)
qed

lemma monitor_result:
  assumes "sched_ok st"
  shows "sched_ok (localQueue_monitor_round n st) \<and> same_frame st (localQueue_monitor_round n st)
    \<and> wait_ids (localQueue_monitor_round n st) = wait_ids st
    \<and> sc_completeQueue (localQueue_monitor_round n st) = sc_completeQueue st
    \<and> ready_ids (localQueue_monitor_round n st) = ready_ids st"
proof (cases "n = 0 \<or> length (sc_localQueue st) \<le> n")
  case True
  then show ?thesis using assms by (auto simp: localQueue_monitor_round_def same_frame_def)
next
  case False
  let ?st' = "localQueue_monitor_round n st"
  have q: "pq_ok (sc_localQueue st)" "pq_ok (sc_wsQueue st)" using assms by (simp_all add: sched_ok_def)
  obtain rem mig where m: "sc_localQueue ?st' = pq_push_all rem []" "sc_wsQueue ?st' = pq_push_all mig (sc_wsQueue st)"
      "mset rem + mset mig = mset (sc_localQueue st)"
    using monitor_moves [OF q, of n] False by auto
  note f = pq_push_all_facts [OF pq_ok_Nil, of rem] pq_push_all_facts [OF q(2), of mig]
  have sets: "set (sc_localQueue ?st') = set rem" "set (sc_wsQueue ?st') = set mig \<union> set (sc_wsQueue st)"
      "set rem \<union> set mig = set (sc_localQueue st)"
    using arg_cong [OF f(2), of set_mset] arg_cong [OF f(4), of set_mset] arg_cong [OF m(3), of set_mset] by (simp_all add: m(1,2))
  have fr: "sc_id ?st' = sc_id st" "sc_conf ?st' = sc_conf st" "sc_waitQueue ?st' = sc_waitQueue st"
      "sc_completeQueue ?st' = sc_completeQueue st"
    by (simp_all add: localQueue_monitor_round_def Let_def split: prod.splits)
  have "image_mset taskid (mset rem) + image_mset taskid (mset mig) = image_mset taskid (mset (sc_localQueue st))"
    unfolding m(3) [symmetric] by simp
  then have "ready_ids ?st' = ready_ids st"
    using f(2,4) by (simp add: ready_ids_def m(1,2) add.assoc [symmetric])
  moreover have "sched_ok ?st'"
    using assms f(1,3) fr sets by (auto simp: sched_ok_def m(1,2))
  ultimately show ?thesis using fr by (simp add: same_frame_def wait_ids_def)
qed

section \<open>The invariant\<close>

text \<open>\<open>T\<close> is the set of the tasks of the workload and \<open>G\<close> gives the children of a task; \<open>W\<close>, \<open>R\<close> and \<open>D\<close>
  are the identifiers waiting, ready and completed but not yet notifying, over all schedulers.\<close>

definition record_inv :: "zht_conf \<Rightarrow> string set \<Rightarrow> (string \<Rightarrow> string list) \<Rightarrow> cluster \<Rightarrow> (string \<Rightarrow> string list) \<Rightarrow> bool" where
  "record_inv c T G s left \<longleftrightarrow> deployed c s \<and> finite T \<and>
     (\<forall>t \<in> T. key_ok (zc_msg_maxsize c) t \<and> set (left t) \<subseteq> T \<and>
       (\<exists>v. zht_value c s t = Some (value_to_str v) \<and> value_ok v \<and> v_children v = G t
          \<and> opt0 (v_indegree v) = int (\<Sum>p \<in> T. count_list (left p) t)))"

definition place_inv :: "string set \<Rightarrow> string multiset \<Rightarrow> string multiset \<Rightarrow> string list \<Rightarrow> bool" where
  "place_inv T W R rn \<longleftrightarrow> (\<forall>t. count (W + R + mset rn) t = (if t \<in> T then 1 else 0))"

definition left_inv :: "string set \<Rightarrow> (string \<Rightarrow> string list) \<Rightarrow> string multiset \<Rightarrow> string list \<Rightarrow> (string \<Rightarrow> string list) \<Rightarrow> bool" where
  "left_inv T G R rn left \<longleftrightarrow>
     (\<forall>t p. t \<in># R + mset rn \<longrightarrow> p \<in> T \<longrightarrow> t \<notin> set (left p)) \<and> (\<forall>p \<in> T. p \<notin> set rn \<longrightarrow> left p = G p)"

definition work_ids :: "(nat \<times> cmp_item \<times> string list) list \<Rightarrow> string multiset" where
  "work_ids ws = image_mset (\<lambda>(i, it, cs). cq_taskId it) (mset ws)"

definition pending_inv ::
    "(string \<Rightarrow> string list) \<Rightarrow> string multiset \<Rightarrow> (nat \<times> cmp_item \<times> string list) list \<Rightarrow> string list \<Rightarrow> (string \<Rightarrow> string list) \<Rightarrow> bool" where
  "pending_inv G D ws rn left \<longleftrightarrow>
     (\<forall>t. count (D + work_ids ws) t = (if t \<in> set rn then 1 else 0)) \<and> (\<forall>t \<in># D. left t = G t)
     \<and> (\<forall>(i, it, cs) \<in> set ws. left (cq_taskId it) = cs)"

definition order_inv :: "string set \<Rightarrow> (string \<Rightarrow> string list) \<Rightarrow> string list \<Rightarrow> bool" where
  "order_inv T G rn \<longleftrightarrow> (\<forall>xs t zs. rn = xs @ t # zs \<longrightarrow> (\<forall>p \<in> T. t \<in> set (G p) \<longrightarrow> p \<in> set xs))"

lemmas inv_defs = record_inv_def place_inv_def left_inv_def pending_inv_def order_inv_def

lemma records_indegree_0:
  assumes "record_inv c T G s left" and "t \<in> T" and "zht_value c s t = Some (value_to_str v)" and "value_ok v"
    and "opt0 (v_indegree v) = 0" and "p \<in> T"
  shows "t \<notin> set (left p)"
proof -
  from assms(1,2) obtain v' where v': "zht_value c s t = Some (value_to_str v')" "value_ok v'"
      "opt0 (v_indegree v') = int (\<Sum>p \<in> T. count_list (left p) t)" and fin: "finite T"
    unfolding record_inv_def by blast
  have "str_to_value (value_to_str v) = str_to_value (value_to_str v')" using v'(1) assms(3) by simp
  then have "v' = v" using value_roundtrip [OF assms(4)] value_roundtrip [OF v'(2)] by simp
  then have "int (\<Sum>p \<in> T. count_list (left p) t) = 0" using v'(3) assms(5) by simp
  then have "(\<Sum>p \<in> T. count_list (left p) t) = 0" by (simp only: of_nat_eq_0_iff)
  then have "count_list (left p) t = 0" using fin assms(6) by simp
  then show ?thesis by (simp add: count_list_0_iff)
qed

lemma inv_ready:
  assumes "record_inv c T G s left" and "place_inv T (add_mset t W) R rn" and "left_inv T G R rn left"
    and "zht_value c s t = Some (value_to_str v)" and "value_ok v" and "opt0 (v_indegree v) = 0"
  shows "place_inv T W (add_mset t R) rn" and "left_inv T G (add_mset t R) rn left"
proof -
  show "place_inv T W (add_mset t R) rn" using assms(2) by (simp add: place_inv_def)
  have "t \<in> T" using assms(2) [unfolded place_inv_def, rule_format, of t] by (auto split: if_splits)
  then show "left_inv T G (add_mset t R) rn left"
    using records_indegree_0 [OF assms(1) _ assms(4-6)] assms(3) unfolding left_inv_def by auto
qed

lemma inv_exec:
  assumes "place_inv T W (add_mset t R) rn" and "left_inv T G (add_mset t R) rn left"
    and "pending_inv G D ws rn left" and "order_inv T G rn"
  shows "place_inv T W R (rn @ [t])" and "left_inv T G R (rn @ [t]) left"
    and "pending_inv G (add_mset t D) ws (rn @ [t]) left" and "order_inv T G (rn @ [t])"
proof -
  show "place_inv T W R (rn @ [t])" using assms(1) by (simp add: place_inv_def)
  show "left_inv T G R (rn @ [t]) left" using assms(2) by (auto simp: left_inv_def)
  have c: "count (W + add_mset t R + mset rn) t = (if t \<in> T then 1 else 0)"
    using assms(1) unfolding place_inv_def by blast
  then have t: "t \<in> T" "t \<notin> set rn" by (auto simp: not_in_iff split: if_splits)
  then have l: "left t = G t" using assms(2) by (simp add: left_inv_def)
  have "count (D + work_ids ws) t = 0" using assms(3) t(2) unfolding pending_inv_def by presburger
  then have "t \<notin># D + work_ids ws" by (simp only: not_in_iff)
  then have "count (add_mset t D + work_ids ws) u = (if u \<in> set (rn @ [t]) then 1 else 0)" for u
    using assms(3) [unfolded pending_inv_def, THEN conjunct1, rule_format, of u] by (cases "u = t") (auto simp: not_in_iff)
  then show "pending_inv G (add_mset t D) ws (rn @ [t]) left"
    using assms(3) l by (auto simp: pending_inv_def)
  have "p \<in> set rn" if "p \<in> T" "t \<in> set (G p)" for p
  proof (rule ccontr)
    assume "p \<notin> set rn"
    then have "left p = G p" using assms(2) that(1) by (simp add: left_inv_def)
    moreover have "t \<notin> set (left p)" using assms(2) that(1) by (simp add: left_inv_def)
    ultimately show False using that(2) by simp
  qed
  then show "order_inv T G (rn @ [t])"
    using assms(4) by (auto simp: order_inv_def append_eq_append_conv2 Cons_eq_append_conv append_eq_Cons_conv)
qed

lemma inv_finish:
  assumes "pending_inv G (add_mset (cq_taskId it) D) ws rn left"
  shows "pending_inv G D ((i, it, G (cq_taskId it)) # ws) rn left"
  using assms by (auto simp: pending_inv_def work_ids_def)

lemma sum_list_update:
  fixes f :: "'a \<Rightarrow> 'b :: comm_monoid_add"
  assumes "i < length xs"
  shows "sum_list (map f (xs[i := x])) + f (xs ! i) = sum_list (map f xs) + f x"
  using assms
proof (induction xs arbitrary: i)
  case (Cons y ys)
  show ?case
  proof (cases i)
    case (Suc k)
    then have "sum_list (map f (ys[k := x])) + f (ys ! k) = sum_list (map f ys) + f x" using Cons by simp
    then show ?thesis using Suc by (simp add: add.assoc)
  qed (simp add: ac_simps)
qed simp

lemma notify_record:
  assumes r: "record_inv c T G s left" and t: "t \<in> T" and l: "left t = ch # chs"
    and v: "str_to_value d = Inr v" "child_attempt me it d = Inr w" "value_ok (parent_done me it v)"
      "val_ok (zc_msg_maxsize c) w" "val_ok (zc_msg_maxsize c) d"
    and sw: "zcswap (zht_ops_of c) ch d w s = Inr (0, q, s')"
  shows "record_inv c T G s' (left(t := chs))"
proof -
  have dep: "deployed c s" and fin: "finite T" using r by (simp_all add: record_inv_def)
  have "set (left t) \<subseteq> T" using r t by (simp add: record_inv_def)
  then have ch: "ch \<in> T" using l by simp
  then have k: "key_ok (zc_msg_maxsize c) ch" using r by (simp add: record_inv_def)
  from r ch obtain v0 where v0: "zht_value c s ch = Some (value_to_str v0)" "value_ok v0" "v_children v0 = G ch"
      "opt0 (v_indegree v0) = int (\<Sum>p \<in> T. count_list (left p) ch)"
    unfolding record_inv_def by blast
  have d: "zht_value c s ch = Some d" using zs.cswap_miss [OF dep k v(5,4)] sw by auto
  then have eq: "v = v0" using v0(1) v(1) value_roundtrip [OF v0(2)] by simp
  have w: "w = value_to_str (parent_done me it v0)" using v(1,2) eq by (simp add: child_attempt_def)
  from zs.cswap_hit [OF dep k v(5,4) d] sw have s': "deployed c s'" "zht_value c s' = (zht_value c s)(ch \<mapsto> w)" by auto
  have other: "(\<Sum>p \<in> T. count_list ((left(t := chs)) p) u) = (\<Sum>p \<in> T. count_list (left p) u)" if "u \<noteq> ch" for u
    by (rule sum.cong) (use that l in auto)
  have one: "Suc (\<Sum>p \<in> T. count_list ((left(t := chs)) p) ch) = (\<Sum>p \<in> T. count_list (left p) ch)"
    using sum.remove [OF fin t, of "\<lambda>p. count_list (left p) ch"]
      sum.remove [OF fin t, of "\<lambda>p. count_list ((left(t := chs)) p) ch"] l by (simp cong: sum.cong_simp)
  have ind: "opt0 (v_indegree (parent_done me it v0)) = int (\<Sum>p \<in> T. count_list ((left(t := chs)) p) ch)"
    using v0(4) unfolding one [symmetric] by (simp add: parent_done_def)
  show ?thesis
    unfolding record_inv_def
  proof (intro conjI ballI)
    fix u assume u: "u \<in> T"
    with r have "key_ok (zc_msg_maxsize c) u \<and> set (left u) \<subseteq> T" by (simp add: record_inv_def)
    then show "key_ok (zc_msg_maxsize c) u" "set ((left(t := chs)) u) \<subseteq> T"
      using l by (auto split: if_splits)
    show "\<exists>v. zht_value c s' u = Some (value_to_str v) \<and> value_ok v \<and> v_children v = G u
        \<and> opt0 (v_indegree v) = int (\<Sum>p \<in> T. count_list ((left(t := chs)) p) u)"
    proof (cases "u = ch")
      case True
      then show ?thesis
        using v(3) v0(3) ind eq by (intro exI [of _ "parent_done me it v0"]) (simp add: s'(2) w parent_done_def)
    next
      case False
      then show ?thesis using r u unfolding record_inv_def other [OF False] by (simp add: s'(2))
    qed
  qed (use s'(1) fin in auto)
qed

lemma inv_notify:
  assumes l: "left_inv T G R rn left" and p: "pending_inv G D (ws1 @ (i, it, ch # chs) # ws2) rn left"
  shows "left_inv T G R rn (left(cq_taskId it := chs))"
    and "pending_inv G D (ws1 @ (i, it, chs) # ws2) rn (left(cq_taskId it := chs))"
proof -
  let ?t = "cq_taskId it" and ?ws = "ws1 @ (i, it, ch # chs) # ws2"
  have le: "count (D + work_ids ?ws) u = (if u \<in> set rn then 1 else 0)" for u
    using p unfolding pending_inv_def by blast
  have ids: "work_ids ?ws = add_mset ?t (work_ids ws1 + work_ids ws2)" by (simp add: work_ids_def)
  have t: "?t \<in> set rn" "count (D + work_ids ws1 + work_ids ws2) ?t = 0"
    using le [of ?t] unfolding ids by (auto split: if_splits)
  have lt: "left ?t = ch # chs" using p by (auto simp: pending_inv_def)
  show "left_inv T G R rn (left(?t := chs))" unfolding left_inv_def
  proof (intro conjI allI ballI impI)
    fix u p assume "u \<in># R + mset rn" "p \<in> T"
    then have "u \<notin> set (left p)" using l unfolding left_inv_def by blast
    then show "u \<notin> set ((left(?t := chs)) p)" using lt by auto
  next
    fix p assume "p \<in> T" "p \<notin> set rn"
    then show "(left(?t := chs)) p = G p" using l t(1) by (auto simp: left_inv_def)
  qed
  have out: "?t \<notin># D" "?t \<notin># work_ids ws1" "?t \<notin># work_ids ws2" using t(2) by (simp_all add: not_in_iff)
  have neq: "cq_taskId it' \<noteq> ?t" if "(i', it', cs) \<in> set ws1 \<union> set ws2" for i' it' cs
    using out(2,3) that by (force simp: work_ids_def)
  have old: "left (cq_taskId it') = cs" if "(i', it', cs) \<in> set ws1 \<union> set ws2" for i' it' cs
    using p [unfolded pending_inv_def, THEN conjunct2, THEN conjunct2, rule_format, of "(i', it', cs)"] that by auto
  show "pending_inv G D (ws1 @ (i, it, chs) # ws2) rn (left(?t := chs))"
    unfolding pending_inv_def
  proof (intro conjI allI ballI)
    fix u show "count (D + work_ids (ws1 @ (i, it, chs) # ws2)) u = (if u \<in> set rn then 1 else 0)"
      using le [of u] by (simp add: work_ids_def)
  next
    fix u assume "u \<in># D"
    then show "(left(?t := chs)) u = G u" using p out(1) by (auto simp: pending_inv_def)
  next
    fix x assume x: "x \<in> set (ws1 @ (i, it, chs) # ws2)"
    obtain i' it' cs where "x = (i', it', cs)" by (cases x)
    with x show "case x of (i, it', cs) \<Rightarrow> (left(?t := chs)) (cq_taskId it') = cs"
      using neq [of i' it' cs] old [of i' it' cs] by auto
  qed
qed

definition all_ids :: "(sched \<Rightarrow> string multiset) \<Rightarrow> sched list \<Rightarrow> string multiset" where
  "all_ids f ss = sum_list (map f ss)"

lemma all_ids_update:
  assumes "i < length ss"
  shows "f st = f (ss ! i) \<Longrightarrow> all_ids f (ss[i := st]) = all_ids f ss"
    and "f st = add_mset t (f (ss ! i)) \<Longrightarrow> all_ids f (ss[i := st]) = add_mset t (all_ids f ss)"
    and "f (ss ! i) = add_mset t (f st) \<Longrightarrow> all_ids f ss = add_mset t (all_ids f (ss[i := st]))"
  using sum_list_update [OF assms, of f st] by (simp_all add: all_ids_def)

lemma all_ids_update2:
  assumes "i < length ss" and "j < length ss" and "i \<noteq> j" and "f st + f st' = f (ss ! i) + f (ss ! j)"
  shows "all_ids f (ss[i := st, j := st']) = all_ids f ss"
proof -
  have "all_ids f (ss[i := st]) + f (ss ! i) = all_ids f ss + f st"
    using sum_list_update [OF assms(1), of f st] by (simp add: all_ids_def)
  moreover have "all_ids f (ss[i := st, j := st']) + f (ss ! j) = all_ids f (ss[i := st]) + f st'"
    using sum_list_update [of j "ss[i := st]" f st'] assms(2,3) by (simp add: all_ids_def)
  ultimately have "all_ids f (ss[i := st, j := st']) + (f (ss ! i) + f (ss ! j)) = all_ids f ss + (f st + f st')"
    by (metis add.assoc add.commute)
  then show ?thesis unfolding assms(4) by simp
qed

lemma list_all_update: "list_all P xs \<Longrightarrow> P x \<Longrightarrow> list_all P (xs[i := x])"
  by (auto simp: list_all_iff dest: set_update_subset_insert [THEN subsetD])

definition sys_inv :: "zht_conf \<Rightarrow> string set \<Rightarrow> (string \<Rightarrow> string list) \<Rightarrow> sys \<Rightarrow> bool" where
  "sys_inv c T G y \<longleftrightarrow> list_all sched_ok (y_scheds y) \<and> record_inv c T G (y_store y) (y_left y)
     \<and> place_inv T (all_ids wait_ids (y_scheds y)) (all_ids ready_ids (y_scheds y)) (y_ran y)
     \<and> left_inv T G (all_ids ready_ids (y_scheds y)) (y_ran y) (y_left y)
     \<and> pending_inv G (all_ids done_ids (y_scheds y)) (y_work y) (y_ran y) (y_left y) \<and> order_inv T G (y_ran y)"

lemma sys_inv_sched:
  assumes "sys_inv c T G y" and "i < length (y_scheds y)"
  shows "sched_ok (y_scheds y ! i)" and "set_mset (f (y_scheds y ! i)) \<subseteq> set_mset (all_ids f (y_scheds y))"
proof -
  show "sched_ok (y_scheds y ! i)" using assms by (simp add: sys_inv_def list_all_length)
  have "f (y_scheds y ! i) \<in> set (map f (y_scheds y))" using assms(2) by simp
  then show "set_mset (f (y_scheds y ! i)) \<subseteq> set_mset (all_ids f (y_scheds y))" unfolding all_ids_def by (auto dest: in_set_conv_decomp [THEN iffD1])
qed

lemma if_counted: "0 < (n :: nat) \<Longrightarrow> n = (if P then 1 else 0) \<Longrightarrow> P"
  by (cases P) simp_all

lemma sys_inv_known:
  assumes "sys_inv c T G y" and "t \<in># all_ids wait_ids (y_scheds y) + all_ids ready_ids (y_scheds y) + all_ids done_ids (y_scheds y) + work_ids (y_work y)"
  shows "t \<in> T" and "key_ok (zc_msg_maxsize c) t"
    and "\<exists>v. zht_value c (y_store y) t = Some (value_to_str v) \<and> value_ok v \<and> v_children v = G t"
proof -
  have "t \<in># all_ids wait_ids (y_scheds y) + all_ids ready_ids (y_scheds y) + mset (y_ran y)"
  proof (cases "t \<in># all_ids wait_ids (y_scheds y) + all_ids ready_ids (y_scheds y)")
    case False
    then have "0 < count (all_ids done_ids (y_scheds y) + work_ids (y_work y)) t" using assms(2) by auto
    moreover have "count (all_ids done_ids (y_scheds y) + work_ids (y_work y)) t = (if t \<in> set (y_ran y) then 1 else 0)"
      using assms(1) unfolding sys_inv_def pending_inv_def by blast
    ultimately have "t \<in> set (y_ran y)" by (rule if_counted)
    then show ?thesis by simp
  qed auto
  then have "0 < count (all_ids wait_ids (y_scheds y) + all_ids ready_ids (y_scheds y) + mset (y_ran y)) t" by (simp only: count_greater_zero_iff)
  moreover have "count (all_ids wait_ids (y_scheds y) + all_ids ready_ids (y_scheds y) + mset (y_ran y)) t = (if t \<in> T then 1 else 0)"
    using assms(1) unfolding sys_inv_def place_inv_def by blast
  ultimately show t: "t \<in> T" by (rule if_counted)
  have r: "record_inv c T G (y_store y) (y_left y)" using assms(1) by (simp add: sys_inv_def)
  with t show "key_ok (zc_msg_maxsize c) t" by (simp add: record_inv_def)
  from r t show "\<exists>v. zht_value c (y_store y) t = Some (value_to_str v) \<and> value_ok v \<and> v_children v = G t"
    unfolding record_inv_def by blast
qed

lemma sys_inv_ready:
  assumes inv: "sys_inv c T G y" and v: "zht_value c (y_store y) t = Some (value_to_str v)" "value_ok v" "opt0 (v_indegree v) = 0"
    and ss: "list_all sched_ok ss" "all_ids wait_ids (y_scheds y) = add_mset t (all_ids wait_ids ss)"
      "all_ids ready_ids ss = add_mset t (all_ids ready_ids (y_scheds y))" "all_ids done_ids ss = all_ids done_ids (y_scheds y)"
  shows "sys_inv c T G (y\<lparr>y_scheds := ss\<rparr>)"
proof -
  have r: "record_inv c T G (y_store y) (y_left y)" and l: "left_inv T G (all_ids ready_ids (y_scheds y)) (y_ran y) (y_left y)"
    and p: "place_inv T (all_ids wait_ids (y_scheds y)) (all_ids ready_ids (y_scheds y)) (y_ran y)"
    using inv by (simp_all add: sys_inv_def)
  show ?thesis using inv_ready [OF r p [unfolded ss(2)] l v] inv ss by (simp add: sys_inv_def)
qed

lemma sys_inv_same:
  assumes "sys_inv c T G y" and "list_all sched_ok ss" and "\<And>f. f \<in> {wait_ids, ready_ids, done_ids} \<Longrightarrow> all_ids f ss = all_ids f (y_scheds y)"
  shows "sys_inv c T G (y\<lparr>y_scheds := ss\<rparr>)"
  using assms by (simp add: sys_inv_def)

lemma sys_inv_check:
  assumes inv: "sys_inv c T G y" and i: "i < length (y_scheds y)"
    and round: "checking_ready_round (zht_ops_of c) now (y_scheds y ! i) (y_store y) = Some (Inr (st, out, s))"
  shows "s = y_store y \<and> sched_ok st \<and> done_ids st = done_ids (y_scheds y ! i) \<and>
    (out = [] \<and> wait_ids st = wait_ids (y_scheds y ! i) \<and> ready_ids st = ready_ids (y_scheds y ! i)
      \<or> (\<exists>tm v. zht_value c (y_store y) (taskid tm) = Some (value_to_str v) \<and> value_ok v \<and> opt0 (v_indegree v) = 0
          \<and> wait_ids (y_scheds y ! i) = add_mset (taskid tm) (wait_ids st) \<and> task_ok tm
          \<and> (out = [] \<and> ready_ids st = add_mset (taskid tm) (ready_ids (y_scheds y ! i))
             \<or> ready_ids st = ready_ids (y_scheds y ! i) \<and> (\<exists>h. out = [(h, push_msg tm)]))))"
proof -
  let ?st = "y_scheds y ! i"
  have dep: "deployed c (y_store y)" using inv by (simp_all add: sys_inv_def record_inv_def)
  have "taskid t \<in># all_ids wait_ids (y_scheds y)" if "t \<in> set (sc_waitQueue ?st)" for t
    using sys_inv_sched(2) [OF inv i, of wait_ids] that by (auto simp: wait_ids_def)
  then have "key_ok (zc_msg_maxsize c) (taskid t)
      \<and> (\<exists>v. zht_value c (y_store y) (taskid t) = Some (value_to_str v) \<and> value_ok v)"
    if "t \<in> set (sc_waitQueue ?st)" for t
    using sys_inv_known(2,3) [OF inv, of "taskid t"] that by auto
  note res = check_round_result [OF dep sys_inv_sched(1) [OF inv i] this round]
  then have "s = y_store y" by simp
  with res show ?thesis unfolding done_ids_def by simp
qed

lemma sys_inv_step_check:
  assumes inv: "sys_inv c T G y" and i: "i < length (y_scheds y)"
    and round: "checking_ready_round (zht_ops_of c) now (y_scheds y ! i) (y_store y) = Some (Inr (st, [], s))"
  shows "sys_inv c T G (y\<lparr>y_store := s, y_scheds := (y_scheds y)[i := st]\<rparr>)"
proof -
  note res = sys_inv_check [OF inv i round]
  have s: "y\<lparr>y_store := s, y_scheds := (y_scheds y)[i := st]\<rparr> = y\<lparr>y_scheds := (y_scheds y)[i := st]\<rparr>" using res by simp
  have ok: "list_all sched_ok ((y_scheds y)[i := st])"
    using res inv by (intro list_all_update) (simp_all add: sys_inv_def)
  have dn: "all_ids done_ids ((y_scheds y)[i := st]) = all_ids done_ids (y_scheds y)"
    using res by (intro all_ids_update(1) [OF i]) simp
  from res [simplified] consider (same) "wait_ids st = wait_ids (y_scheds y ! i)" "ready_ids st = ready_ids (y_scheds y ! i)"
    | (move) tm :: task_msg and v :: val_msg where "zht_value c (y_store y) (taskid tm) = Some (value_to_str v)" "value_ok v" "opt0 (v_indegree v) = 0"
        "wait_ids (y_scheds y ! i) = add_mset (taskid tm) (wait_ids st)" "ready_ids st = add_mset (taskid tm) (ready_ids (y_scheds y ! i))"
    by blast
  then have "sys_inv c T G (y\<lparr>y_scheds := (y_scheds y)[i := st]\<rparr>)"
  proof cases
    case same
    then show ?thesis using sys_inv_same [OF inv ok] all_ids_update(1) [OF i] dn by auto
  next
    case move
    show ?thesis
      using sys_inv_ready [OF inv move(1-3) ok] all_ids_update(2,3) [OF i] move(4,5) dn by auto
  qed
  then show ?thesis unfolding s .
qed

lemma sys_inv_step_push:
  assumes inv: "sys_inv c T G y" and i: "i < length (y_scheds y)" and j: "j < length (y_scheds y)" and ij: "i \<noteq> j"
    and round: "checking_ready_round (zht_ops_of c) now (y_scheds y ! i) (y_store y) = Some (Inr (st, [(h, msg)], s))"
    and recv: "proc_req (zht_ops_of c) quiet now' msg cs (y_scheds y ! j) s = Some (Inr (ack, st', s'))"
  shows "sys_inv c T G (y\<lparr>y_store := s', y_scheds := (y_scheds y)[i := st, j := st']\<rparr>)"
proof -
  note res = sys_inv_check [OF inv i round]
  from res obtain tm v where m: "zht_value c (y_store y) (taskid tm) = Some (value_to_str v)" "value_ok v" "opt0 (v_indegree v) = 0"
      "wait_ids (y_scheds y ! i) = add_mset (taskid tm) (wait_ids st)" "task_ok tm" "ready_ids st = ready_ids (y_scheds y ! i)"
      "msg = push_msg tm" by auto
  note p = push_result [OF m(5) sys_inv_sched(1) [OF inv j] recv [unfolded m(7)]]
  let ?ss = "(y_scheds y)[i := st]"
  have j': "j < length ?ss" "?ss ! j = y_scheds y ! j" using j ij by simp_all
  have ok: "list_all sched_ok (?ss[j := st'])"
    using res inv p by (intro list_all_update) (simp_all add: sys_inv_def)
  have "all_ids done_ids (?ss[j := st']) = all_ids done_ids ?ss" and "all_ids wait_ids (?ss[j := st']) = all_ids wait_ids ?ss"
    and "all_ids ready_ids (?ss[j := st']) = add_mset (taskid tm) (all_ids ready_ids ?ss)"
    using p by (intro all_ids_update(1,2) [OF j'(1)]; simp add: j'(2) done_ids_def)+
  moreover have "all_ids done_ids ?ss = all_ids done_ids (y_scheds y)" and "all_ids ready_ids ?ss = all_ids ready_ids (y_scheds y)"
    and "all_ids wait_ids (y_scheds y) = add_mset (taskid tm) (all_ids wait_ids ?ss)"
    using res m by (intro all_ids_update(1,3) [OF i]; simp)+
  moreover have "y\<lparr>y_store := s', y_scheds := ?ss[j := st']\<rparr> = y\<lparr>y_scheds := ?ss[j := st']\<rparr>" using p res by simp
  ultimately show ?thesis using sys_inv_ready [OF inv m(1-3) ok] by simp
qed

lemma pq_top_in: "pq_ok q \<Longrightarrow> q \<noteq> [] \<Longrightarrow> pq_top q \<in> set q"
  using arg_cong [OF pq.top_pop [of q], of set_mset] by auto

lemma sys_inv_step_exec:
  assumes inv: "sys_inv c T G y" and i: "i < length (y_scheds y)" and nt: "next_task (y_scheds y ! i) = Some (tm, st0)"
    and round: "executing_task_round (zht_ops_of c) fetch run t0 t1 (y_scheds y ! i) (y_store y) = Some (Inr (st, s))"
  shows "sys_inv c T G (y\<lparr>y_store := s, y_scheds := (y_scheds y)[i := st], y_ran := y_ran y @ [taskid tm]\<rparr>)"
proof -
  let ?st = "y_scheds y ! i" and ?ss = "(y_scheds y)[i := st]"
  have q: "pq_ok (sc_localQueue ?st)" "pq_ok (sc_wsQueue ?st)" using sys_inv_sched(1) [OF inv i] by (simp_all add: sched_ok_def)
  have "tm \<in># mset (sc_localQueue ?st) + mset (sc_wsQueue ?st)"
    using nt pq_top_in [OF q(1)] pq_top_in [OF q(2)] by (auto simp: next_task_def split: if_splits)
  then have "taskid tm \<in># ready_ids ?st" by (auto simp: ready_ids_def)
  then have "taskid tm \<in># all_ids ready_ids (y_scheds y)" using sys_inv_sched(2) [OF inv i, of ready_ids] by blast
  then have key: "key_ok (zc_msg_maxsize c) (taskid tm)" using sys_inv_known(2) [OF inv, of "taskid tm"] by simp
  have dep: "deployed c (y_store y)" using inv by (simp_all add: sys_inv_def record_inv_def)
  note res = exec_round_result [OF dep sys_inv_sched(1) [OF inv i] nt key round]
  have r: "all_ids ready_ids (y_scheds y) = add_mset (taskid tm) (all_ids ready_ids ?ss)" using res by (intro all_ids_update(3) [OF i]) simp
  have d: "all_ids done_ids ?ss = add_mset (taskid tm) (all_ids done_ids (y_scheds y))" using res by (intro all_ids_update(2) [OF i]) simp
  have w: "all_ids wait_ids ?ss = all_ids wait_ids (y_scheds y)" using res by (intro all_ids_update(1) [OF i]) simp
  have "place_inv T (all_ids wait_ids (y_scheds y)) (add_mset (taskid tm) (all_ids ready_ids ?ss)) (y_ran y)"
      "left_inv T G (add_mset (taskid tm) (all_ids ready_ids ?ss)) (y_ran y) (y_left y)"
      "pending_inv G (all_ids done_ids (y_scheds y)) (y_work y) (y_ran y) (y_left y)" "order_inv T G (y_ran y)"
    using inv by (simp_all add: sys_inv_def r)
  note e = inv_exec [OF this]
  have ok: "list_all sched_ok ?ss" using res inv by (intro list_all_update) (simp_all add: sys_inv_def)
  show ?thesis using inv e ok res by (simp add: sys_inv_def w d)
qed

lemma sys_inv_step_finish:
  assumes inv: "sys_inv c T G y" and i: "i < length (y_scheds y)" and cq: "sc_completeQueue (y_scheds y ! i) = it # rest"
    and l: "zlookup (zht_ops_of c) (cq_taskId it) (y_store y) = Inr (rc, d, s)" and v: "str_to_value d = Inr v"
  shows "sys_inv c T G (y\<lparr>y_store := s, y_scheds := (y_scheds y)[i := (y_scheds y ! i)\<lparr>sc_completeQueue := rest\<rparr>],
      y_work := (i, it, v_children v) # y_work y\<rparr>)"
proof -
  let ?st = "y_scheds y ! i" and ?t = "cq_taskId it"
  let ?ss = "(y_scheds y)[i := ?st\<lparr>sc_completeQueue := rest\<rparr>]"
  have "?t \<in># done_ids ?st" by (simp add: done_ids_def cq)
  then have t: "?t \<in># all_ids done_ids (y_scheds y)" using sys_inv_sched(2) [OF inv i, of done_ids] by blast
  have key: "key_ok (zc_msg_maxsize c) ?t" and
    "\<exists>v. zht_value c (y_store y) ?t = Some (value_to_str v) \<and> value_ok v \<and> v_children v = G ?t"
    using sys_inv_known(2,3) [OF inv, of ?t] t by simp_all
  then obtain v0 where v0: "zht_value c (y_store y) ?t = Some (value_to_str v0)" "value_ok v0" "v_children v0 = G ?t" by blast
  have dep: "deployed c (y_store y)" using inv by (simp_all add: sys_inv_def record_inv_def)
  have "s = y_store y" "d = value_to_str v0" using zs.lookup [OF dep key] l v0(1) by auto
  then have s: "s = y_store y" "v_children v = G ?t" using v value_roundtrip [OF v0(2)] v0(3) by simp_all
  have dn: "all_ids done_ids (y_scheds y) = add_mset ?t (all_ids done_ids ?ss)"
    by (intro all_ids_update(3) [OF i]) (simp add: done_ids_def cq)
  have w: "all_ids wait_ids ?ss = all_ids wait_ids (y_scheds y)" "all_ids ready_ids ?ss = all_ids ready_ids (y_scheds y)"
    by (intro all_ids_update(1) [OF i]; simp add: wait_ids_def ready_ids_def)+
  have ok: "list_all sched_ok ?ss"
    using inv sys_inv_sched(1) [OF inv i] by (intro list_all_update) (simp_all add: sys_inv_def sched_ok_def)
  have "pending_inv G (add_mset ?t (all_ids done_ids ?ss)) (y_work y) (y_ran y) (y_left y)" using inv by (simp add: sys_inv_def dn)
  from inv_finish [OF this] show ?thesis using inv ok by (simp add: sys_inv_def w s)
qed

lemma sys_inv_step_notify:
  assumes inv: "sys_inv c T G y" and w: "y_work y = ws1 @ (i, it, ch # chs) # ws2"
    and v: "str_to_value d = Inr v" "child_attempt me it d = Inr w" "value_ok (parent_done me it v)"
      "val_ok (zc_msg_maxsize c) w" "val_ok (zc_msg_maxsize c) d"
    and sw: "zcswap (zht_ops_of c) ch d w (y_store y) = Inr (0, q, s)"
  shows "sys_inv c T G (y\<lparr>y_store := s, y_work := ws1 @ (i, it, chs) # ws2, y_left := (y_left y)(cq_taskId it := chs)\<rparr>)"
proof -
  have i: "record_inv c T G (y_store y) (y_left y)" "left_inv T G (all_ids ready_ids (y_scheds y)) (y_ran y) (y_left y)"
      "pending_inv G (all_ids done_ids (y_scheds y)) (ws1 @ (i, it, ch # chs) # ws2) (y_ran y) (y_left y)"
    using inv w by (simp_all add: sys_inv_def)
  have t: "cq_taskId it \<in> T" using sys_inv_known(1) [OF inv, of "cq_taskId it"] by (simp add: w work_ids_def)
  have "y_left y (cq_taskId it) = ch # chs" using i(3) by (auto simp: pending_inv_def)
  from notify_record [OF i(1) t this v sw] inv_notify [OF i(2,3)] inv show ?thesis by (simp add: sys_inv_def)
qed

lemma sys_inv_step_steal:
  assumes inv: "sys_inv c T G y" and i: "i < length (y_scheds y)" and j: "j < length (y_scheds y)" and ij: "i \<noteq> j"
    and s: "is_int (int (length (sc_wsQueue (y_scheds y ! i))))" "send_task (y_scheds y ! i) = Some (out, st)"
      "chunking cs (concat out)" "recv_task_from_scheduler now cs (y_scheds y ! j) = Inr (b, st')"
  shows "sys_inv c T G (y\<lparr>y_scheds := (y_scheds y)[i := st, j := st']\<rparr>)"
proof -
  note res = steal_result [OF sys_inv_sched(1) [OF inv i] sys_inv_sched(1) [OF inv j] s]
  have "list_all sched_ok ((y_scheds y)[i := st, j := st'])"
    using res inv by (intro list_all_update) (simp_all add: sys_inv_def)
  moreover have "all_ids f ((y_scheds y)[i := st, j := st']) = all_ids f (y_scheds y)" if "f \<in> {wait_ids, ready_ids, done_ids}" for f
    using that res by (intro all_ids_update2 [OF i j ij]) (auto simp: done_ids_def)
  ultimately show ?thesis by (rule sys_inv_same [OF inv])
qed

lemma sys_inv_step_monitor:
  assumes inv: "sys_inv c T G y" and i: "i < length (y_scheds y)"
  shows "sys_inv c T G (y\<lparr>y_scheds := (y_scheds y)[i := localQueue_monitor_round n (y_scheds y ! i)]\<rparr>)"
proof -
  note res = monitor_result [OF sys_inv_sched(1) [OF inv i], of n]
  have "list_all sched_ok ((y_scheds y)[i := localQueue_monitor_round n (y_scheds y ! i)])"
    using res inv by (intro list_all_update) (simp_all add: sys_inv_def)
  moreover have "all_ids f ((y_scheds y)[i := localQueue_monitor_round n (y_scheds y ! i)]) = all_ids f (y_scheds y)"
    if "f \<in> {wait_ids, ready_ids, done_ids}" for f
    using that res by (intro all_ids_update(1) [OF i]) (auto simp: done_ids_def)
  ultimately show ?thesis by (rule sys_inv_same [OF inv])
qed

lemma sys_inv_step: "sys_step c y y' \<Longrightarrow> sys_inv c T G y \<Longrightarrow> sys_inv c T G y'"
proof (induction rule: sys_step.induct)
  case (check i y now st s)
  then show ?case using sys_inv_step_check by blast
next
  case (push i y j now st host msg s now' cs ack st' s')
  then show ?case using sys_inv_step_push by blast
next
  case (exec i y tm st0 fetch run t0 t1 st s)
  then show ?case using sys_inv_step_exec by blast
next
  case (finish i y it rest rc d s v)
  then show ?case using sys_inv_step_finish by blast
next
  case (notify_one y ws1 i it ch chs ws2 d v w q s)
  then show ?case using sys_inv_step_notify [OF notify_one.prems notify_one.hyps(1,3-8)] by blast
next
  case (steal i y j out st cs now b st')
  then show ?case using sys_inv_step_steal by blast
next
  case (monitor i y n)
  then show ?case using sys_inv_step_monitor by blast
qed

lemma sys_inv_reach: "sys_reach c y y' \<Longrightarrow> sys_inv c T G y \<Longrightarrow> sys_inv c T G y'"
  by (induction rule: sys_reach.induct) (auto intro: sys_inv_step)

section \<open>The workload runs in order\<close>

text \<open>All tasks of the workload wait, each at one scheduler; the store has their records, with the
  children the workload gives and as indegree the number of edges into the task.\<close>

definition submitted :: "zht_conf \<Rightarrow> string set \<Rightarrow> (string \<Rightarrow> string list) \<Rightarrow> sys \<Rightarrow> bool" where
  "submitted c T G y \<longleftrightarrow> finite T \<and> deployed c (y_store y)
     \<and> (\<forall>t \<in> T. key_ok (zc_msg_maxsize c) t \<and> set (G t) \<subseteq> T
          \<and> (\<exists>v. zht_value c (y_store y) t = Some (value_to_str v) \<and> value_ok v \<and> v_children v = G t
               \<and> opt0 (v_indegree v) = int (\<Sum>p \<in> T. count_list (G p) t)))
     \<and> (\<forall>st \<in> set (y_scheds y). sched_ok st \<and> sc_localQueue st = [] \<and> sc_wsQueue st = [] \<and> sc_completeQueue st = [])
     \<and> all_ids wait_ids (y_scheds y) = mset_set T \<and> y_work y = [] \<and> y_ran y = [] \<and> y_left y = G"

lemma all_ids_empty: "(\<And>st. st \<in> set ss \<Longrightarrow> f st = {#}) \<Longrightarrow> all_ids f ss = {#}"
  unfolding all_ids_def by (induction ss) auto

lemma submitted_inv:
  assumes "submitted c T G y"
  shows "sys_inv c T G y"
proof -
  have "all_ids ready_ids (y_scheds y) = {#}" "all_ids done_ids (y_scheds y) = {#}"
    using assms by (auto intro!: all_ids_empty simp: submitted_def ready_ids_def done_ids_def)
  then show ?thesis
    using assms by (simp add: submitted_def sys_inv_def inv_defs work_ids_def list_all_iff count_mset_set')
qed

lemma runs_in_order:
  assumes "submitted c T G y" and "sys_reach c y y'" and "y_ran y' = xs @ t # zs"
  shows "t \<in> T \<and> t \<notin> set xs \<and> t \<notin> set zs \<and> (\<forall>p \<in> T. t \<in> set (G p) \<longrightarrow> p \<in> set xs)"
proof -
  have inv: "sys_inv c T G y'" using sys_inv_reach [OF assms(2) submitted_inv [OF assms(1)]] .
  then have "count (all_ids wait_ids (y_scheds y') + all_ids ready_ids (y_scheds y') + mset (y_ran y')) t = (if t \<in> T then 1 else 0)"
    unfolding sys_inv_def place_inv_def by blast
  then have "count (mset (y_ran y')) t \<le> (if t \<in> T then 1 else 0)" unfolding count_union by linarith
  then have "t \<in> T" "t \<notin> set xs" "t \<notin> set zs" unfolding assms(3) by (auto split: if_splits simp: not_in_iff)
  moreover have "order_inv T G (y_ran y')" using inv by (simp add: sys_inv_def)
  ultimately show ?thesis using assms(3) unfolding order_inv_def by blast
qed

text \<open>Property C3. The order of the workload: in every run of the schedulers from the state in which
  all tasks were submitted, whatever the interleaving of their threads, pushes and steals, an executed
  task is one of the workload, is executed once, and only after all its parents.\<close>

theorem parents_run_first:
  assumes "submitted c T G y" and "sys_reach c y y'" and "y_ran y' = xs @ t # zs"
  shows "t \<in> T \<and> t \<notin> set xs \<and> t \<notin> set zs \<and> (\<forall>p \<in> T. t \<in> set (G p) \<longrightarrow> p \<in> set xs)"
  using assms by (rule runs_in_order)

lemma conserved:
  assumes "submitted c T G y" and "sys_reach c y y'"
  shows "all_ids wait_ids (y_scheds y') + all_ids ready_ids (y_scheds y') + mset (y_ran y') = mset_set T"
proof -
  have "sys_inv c T G y'" using sys_inv_reach [OF assms(2) submitted_inv [OF assms(1)]] .
  then have "count (all_ids wait_ids (y_scheds y') + all_ids ready_ids (y_scheds y') + mset (y_ran y')) t = count (mset_set T) t" for t
    using assms(1) unfolding sys_inv_def place_inv_def by (simp add: submitted_def count_mset_set')
  then show ?thesis by (rule multiset_eqI)
qed

text \<open>Property C4. Conservation: at every moment each task of the workload is in exactly one place: it
  waits at one scheduler, is ready at one scheduler or was executed.\<close>

theorem tasks_conserved:
  assumes "submitted c T G y" and "sys_reach c y y'"
  shows "all_ids wait_ids (y_scheds y') + all_ids ready_ids (y_scheds y') + mset (y_ran y') = mset_set T"
  using assms by (rule conserved)

lemma some_task_free:
  assumes inv: "sys_inv c T G y'" and "all_ids ready_ids (y_scheds y') = {#}"
    and "all_ids done_ids (y_scheds y') = {#}" and "\<And>i it cs. (i, it, cs) \<in> set (y_work y') \<Longrightarrow> cs = []"
    and "all_ids wait_ids (y_scheds y') \<noteq> {#}"
    and rank: "\<And>p t. p \<in> T \<Longrightarrow> t \<in> set (G p) \<Longrightarrow> (rank p :: nat) < rank t"
  shows "\<exists>t v. t \<in># all_ids wait_ids (y_scheds y') \<and> zht_value c (y_store y') t = Some (value_to_str v)
    \<and> value_ok v \<and> opt0 (v_indegree v) = 0"
proof -
  let ?W = "all_ids wait_ids (y_scheds y')"
  from assms(5) obtain t where t: "t \<in># ?W" "\<And>u. u \<in># ?W \<Longrightarrow> rank t \<le> rank u"
    using arg_min_least [of "set_mset ?W" _ rank] arg_min_if_finite(1) [of "set_mset ?W" rank] by fastforce
  have tT: "t \<in> T" using sys_inv_known(1) [OF inv, of t] t(1) by simp
  have "t \<notin> set (y_left y' p)" if p: "p \<in> T" for p
  proof
    assume l: "t \<in> set (y_left y' p)"
    have pl: "count (?W + all_ids ready_ids (y_scheds y') + mset (y_ran y')) p = (if p \<in> T then 1 else 0)"
      using inv unfolding sys_inv_def place_inv_def by blast
    show False
    proof (cases "p \<in> set (y_ran y')")
      case True
      then have "count (all_ids done_ids (y_scheds y') + work_ids (y_work y')) p = 1"
        using inv unfolding sys_inv_def pending_inv_def by simp
      then have "p \<in># work_ids (y_work y')" using assms(3) by (simp flip: count_greater_zero_iff)
      then obtain i it cs where w: "(i, it, cs) \<in> set (y_work y')" "cq_taskId it = p" by (auto simp: work_ids_def)
      have "\<forall>(i, it, cs) \<in> set (y_work y'). y_left y' (cq_taskId it) = cs" using inv by (simp add: sys_inv_def pending_inv_def)
      with w have "y_left y' p = cs" by auto
      with assms(4) [OF w(1)] l show False by simp
    next
      case False
      then have "y_left y' p = G p" using inv p unfolding sys_inv_def left_inv_def by blast
      then have "rank p < rank t" using rank [OF p] l by simp
      moreover have "count (mset (y_ran y')) p = 0" using False by (simp add: count_mset_0_iff)
      then have "count ?W p = 1" using pl p assms(2) by (simp del: count_mset_0_iff)
      then have "p \<in># ?W" by (simp flip: count_greater_zero_iff)
      ultimately show False using t(2) [of p] by simp
    qed
  qed
  then have "(\<Sum>p \<in> T. count_list (y_left y' p) t) = 0" by (simp add: count_list_0_iff)
  moreover have "\<exists>v. zht_value c (y_store y') t = Some (value_to_str v) \<and> value_ok v \<and> v_children v = G t
      \<and> opt0 (v_indegree v) = int (\<Sum>p \<in> T. count_list (y_left y' p) t)"
    using inv tT unfolding sys_inv_def record_inv_def by blast
  ultimately show ?thesis using t(1) by auto
qed

text \<open>Property C5. No deadlock: when no scheduler has a ready task, a completed task to handle or a child
  to notify, but tasks still wait and the workload has no cycle (\<open>rank\<close> grows along its edges), then the
  record of one of the waiting tasks shows indegree 0, so the next check makes it ready.\<close>

theorem waiting_tasks_not_stuck:
  assumes "submitted c T G y" and "sys_reach c y y'" and "all_ids ready_ids (y_scheds y') = {#}"
    and "all_ids done_ids (y_scheds y') = {#}" and "\<And>i it cs. (i, it, cs) \<in> set (y_work y') \<Longrightarrow> cs = []"
    and "all_ids wait_ids (y_scheds y') \<noteq> {#}"
    and rank: "\<And>p t. p \<in> T \<Longrightarrow> t \<in> set (G p) \<Longrightarrow> (rank p :: nat) < rank t"
  shows "\<exists>t v. t \<in># all_ids wait_ids (y_scheds y') \<and> zht_value c (y_store y') t = Some (value_to_str v)
    \<and> value_ok v \<and> opt0 (v_indegree v) = 0"
  using some_task_free [OF sys_inv_reach [OF assms(2) submitted_inv [OF assms(1)]] assms(3-6) rank] .


section \<open>Examples\<close>

definition demo_waiting :: sched where
  "demo_waiting = (demo_sched [] [])\<lparr>sc_waitQueue := [demo_task ''7'']\<rparr>"

definition demo_sys :: "cluster \<Rightarrow> sys" where
  "demo_sys s = \<lparr>y_store = s, y_scheds = [demo_waiting], y_work = [], y_ran = [], y_left = (\<lambda>_. [])\<rparr>"

lemma demo_submitted:
  assumes "deployed demo_conf s" and "zht_value demo_conf s ''7'' = Some (value_to_str (demo_value ''7'' 0 []))"
  shows "submitted demo_conf {''7''} (\<lambda>_. []) (demo_sys s)"
proof -
  have "all_ids wait_ids (y_scheds (demo_sys s)) = mset_set {''7''}"
    by (simp add: demo_sys_def all_ids_def wait_ids_def demo_waiting_def demo_task_def)
  moreover have "sched_ok demo_waiting"
    using demo_tasks_ok by (simp add: sched_ok_def demo_waiting_def demo_sched_def demo_mconf_facts)
  ultimately show ?thesis
    using assms demo_record by (auto simp: submitted_def demo_sys_def demo_waiting_def demo_sched_def demo_value_def)
qed

lemma demo_run:
  assumes s: "deployed demo_conf s" "zht_value demo_conf s ''7'' = Some (value_to_str (demo_value ''7'' 0 []))"
  shows "\<exists>y. sys_reach demo_conf (demo_sys s) y \<and> y_ran y = [''7'']"
proof -
  have l: "zlookup (zht_ops_of demo_conf) ''7'' s = Inr (0, value_to_str (demo_value ''7'' 0 []), s)"
    using zs.lookup [OF s(1) demo_record(4)] s(2) by simp
  note v = value_roundtrip [OF demo_record(1)]
  obtain st where c: "checking_ready_round (zht_ops_of demo_conf) 0 demo_waiting s = Some (Inr (st, [], s))"
      "sc_wsQueue st = [demo_task ''7'']" "sc_localQueue st = []"
    using l v by (auto simp: checking_ready_round_def check_a_ready_task_def task_ready_process_def demo_waiting_def demo_sched_def
        demo_mconf_facts demo_task_def demo_value_def default_value_def)
  let ?y1 = "(demo_sys s)\<lparr>y_store := s, y_scheds := [st]\<rparr>"
  have 1: "sys_step demo_conf (demo_sys s) ?y1"
    using sys_step.check [of 0 "demo_sys s" demo_conf 0 st s] c(1) by (simp add: demo_sys_def)
  obtain st0 where n: "next_task st = Some (demo_task ''7'', st0)"
    using c(2,3) by (auto simp: next_task_def pq_top_def)
  obtain st2 where e: "executing_task_round (zht_ops_of demo_conf) (\<lambda>_ _. []) (\<lambda>_. []) 0 0 st s = Some (Inr (st2, s))"
    using l v n by (auto simp: executing_task_round_def exec_a_task_def demo_task_def demo_value_def default_value_def Let_def)
  have "\<exists>y2. sys_step demo_conf ?y1 y2 \<and> y_ran y2 = [''7'']"
    using sys_step.exec [of 0 ?y1 "demo_task ''7''" st0 demo_conf "\<lambda>_ _. []" "\<lambda>_. []" 0 0 st2 s] n e
    by (intro exI conjI, assumption?) (auto simp: demo_sys_def demo_task_def)
  with sys_reach.more_step [OF sys_reach.more_step [OF sys_reach.init 1]] show ?thesis by blast
qed

theorem parents_run_first_witness:
  "\<exists>s y. sys_reach demo_conf (demo_sys s) y \<and> y_ran y = [''7'']
     \<and> ''7'' \<notin> set [] \<and> (\<forall>p \<in> {''7''}. ''7'' \<in> set [] \<longrightarrow> p \<in> set [])"
proof -
  obtain s where s: "deployed demo_conf s" "zht_value demo_conf s ''7'' = Some (value_to_str (demo_value ''7'' 0 []))"
    using demo_store by fastforce
  obtain y where y: "sys_reach demo_conf (demo_sys s) y" "y_ran y = [''7'']" using demo_run [OF s] by blast
  then have "y_ran y = [] @ ''7'' # []" by simp
  from parents_run_first [OF demo_submitted [OF s] y(1) this] y show ?thesis by auto
qed

theorem tasks_conserved_witness:
  "\<exists>s y. sys_reach demo_conf (demo_sys s) y \<and> y_ran y = [''7''] \<and> all_ids wait_ids (y_scheds y) = {#}"
proof -
  obtain s where s: "deployed demo_conf s" "zht_value demo_conf s ''7'' = Some (value_to_str (demo_value ''7'' 0 []))"
    using demo_store by fastforce
  obtain y where y: "sys_reach demo_conf (demo_sys s) y" "y_ran y = [''7'']" using demo_run [OF s] by blast
  from tasks_conserved [OF demo_submitted [OF s] y(1)] y show ?thesis by auto
qed

theorem waiting_tasks_not_stuck_witness:
  "\<exists>s t v. t \<in># all_ids wait_ids (y_scheds (demo_sys s)) \<and> zht_value demo_conf s t = Some (value_to_str v)
     \<and> opt0 (v_indegree v) = 0"
proof -
  obtain s where s: "deployed demo_conf s" "zht_value demo_conf s ''7'' = Some (value_to_str (demo_value ''7'' 0 []))"
    using demo_store by fastforce
  have "\<exists>t v. t \<in># all_ids wait_ids (y_scheds (demo_sys s)) \<and> zht_value demo_conf (y_store (demo_sys s)) t = Some (value_to_str v)
      \<and> value_ok v \<and> opt0 (v_indegree v) = 0"
    by (rule waiting_tasks_not_stuck [OF demo_submitted [OF s] sys_reach.init, of "\<lambda>_. 0"])
      (simp_all add: demo_sys_def all_ids_def ready_ids_def done_ids_def wait_ids_def demo_waiting_def demo_sched_def)
  then show ?thesis by (auto simp: demo_sys_def)
qed


end
