(* ===== verification/Completion.thy ===== *)
theory Completion
  imports Task_Flow
begin

text \<open>
  The threads of a scheduler that keep the shared records and counters of the store: registration
  (\<open>regist\<close>, \<open>wait_all_scheduler\<close>), the notification of the children of a finished task
  (\<open>notify_children\<close>, \<open>checking_complete_task\<close>) and the statistics thread (\<open>recording_stat\<close>). The lemmas are
  proved over the contract of the store; here the store is left alone by others while a thread
  works (interleaved notifications are the steps of theory \<open>System\<close>).
\<close>

section \<open>Over the contract of the store\<close>

definition notified :: "string \<Rightarrow> cmp_item \<Rightarrow> string \<Rightarrow> string" where
  "notified me it d = (case child_attempt me it d of Inl e \<Rightarrow> d | Inr w \<Rightarrow> w)"

context zht_service
begin

lemma cas_quiet:
  assumes "good s" and "value_of s k = Some d" and "okk k" and "f d = Inr w" and "okv w"
  shows "\<exists>s'. cas_loop z (\<lambda>_ s. s) f k d lk i s = Some (Inr (d, lk, Suc i, s')) \<and> good s' \<and> value_of s' = (value_of s)(k \<mapsto> w)"
  using cas_loop_step(1) [where env = "\<lambda>_ s. s" and f = f and i = i and lk = lk and cur = d and s = s and k = k and w = w,
      OF assms(1-3) stored_ok [OF assms(1,3,2)] assms(4,5) refl] by simp

definition child_ok :: "string \<Rightarrow> cmp_item \<Rightarrow> 's \<Rightarrow> string \<Rightarrow> bool" where
  "child_ok me it s k \<longleftrightarrow> okk k \<and> (\<exists>d w. value_of s k = Some d \<and> child_attempt me it d = Inr w \<and> okv w)"

lemma notify_each_quiet:
  assumes "good s" and "\<forall>k \<in> set cs. child_ok me it s k" and "distinct cs"
  shows "\<exists>s'. notify_each z (\<lambda>_ s. s) me it cs i s = Some (Inr (i + 2 * length cs, s')) \<and> good s'
    \<and> (\<forall>k. value_of s' k = (if k \<in> set cs then map_option (notified me it) (value_of s k) else value_of s k))"
  using assms
proof (induction cs arbitrary: i s)
  case (Cons k cs)
  then obtain d w where d: "okk k" "value_of s k = Some d" "child_attempt me it d = Inr w" "okv w"
    by (auto simp: child_ok_def)
  have l: "zlookup z k s = Inr (0, d, s)" using lookup [OF Cons.prems(1) d(1)] d(2) by simp
  obtain s1 where s1: "cas_loop z (\<lambda>_ s. s) (child_attempt me it) k d 0 (Suc i) s = Some (Inr (d, 0, Suc (Suc i), s1))"
      "good s1" "value_of s1 = (value_of s)(k \<mapsto> w)"
    using cas_quiet [where f = "child_attempt me it", OF Cons.prems(1) d(2,1,3,4)] by blast
  have "\<forall>k' \<in> set cs. child_ok me it s1 k'" using Cons.prems(2,3) s1(3) by (auto simp: child_ok_def)
  from Cons.IH [OF s1(2) this, of "Suc (Suc i)"] Cons.prems(3) obtain s' where
    "notify_each z (\<lambda>_ s. s) me it cs (Suc (Suc i)) s1 = Some (Inr (Suc (Suc i) + 2 * length cs, s'))" "good s'"
    "\<forall>k. value_of s' k = (if k \<in> set cs then map_option (notified me it) (value_of s1 k) else value_of s1 k)" by auto
  then show ?case using l s1 d(2,3) Cons.prems(3) by (intro exI [of _ s']) (auto simp: notified_def)
qed simp

lemma regist_quiet:
  assumes "good s" and "okk ''number of scheduler registered''" and "0 < n" and "is_int (n + 1)"
    and "value_of s ''number of scheduler registered'' = Some (num_to_str n)" and "okv (num_to_str (n + 1))" and "sc_index st \<noteq> 0"
  shows "\<exists>s'. regist z (\<lambda>_ s. s) st s = Some (Inr s') \<and> good s'
    \<and> value_of s' = (value_of s)(''number of scheduler registered'' \<mapsto> num_to_str (n + 1))"
proof -
  let ?k = "''number of scheduler registered''"
  have ne: "num_to_str n \<noteq> []" using okv_nonempty [OF stored_ok [OF assms(1,2,5)]] .
  have "poll_until z (\<lambda>_ s. s) ?k (\<lambda>v. v \<noteq> []) 0 s = Some (Inr (num_to_str n, 1, s))"
    using lookup [OF assms(1,2)] assms(5) ne by (subst poll_until.simps) simp
  moreover have "add_int (num_to_str n) = Inr (num_to_str (n + 1))"
    using assms(3,4) by (simp add: add_int_def to_int32_id int_range_defs)
  then have "\<exists>s'. cas_loop z (\<lambda>_ s. s) add_int ?k (num_to_str n) 0 1 s = Some (Inr (num_to_str n, 0, Suc 1, s'))
      \<and> good s' \<and> value_of s' = (value_of s)(?k \<mapsto> num_to_str (n + 1))"
    using cas_quiet [OF assms(1,5,2)] assms(6) by blast
  ultimately show ?thesis using assms(7) by (auto simp: regist_def)
qed

lemma recording_stat_quiet:
  assumes s: "good s" and k: "okk ''num tasks done''" "okk (sc_id st)" "sc_id st \<noteq> ''num tasks done''"
    and rec: "okv (value_to_str (status_record st))"
    and n: "value_of s ''num tasks done'' = Some (num_to_str n)" "is_long n"
    and new: "n \<noteq> numAllTask (sc_conf st) \<Longrightarrow> okv (num_to_str (n + (sc_numTaskFin st - sc_prevNumTaskFin st)))"
  shows "\<exists>s'. recording_stat_round z (\<lambda>_ s. s) st s = Some (Inr
        (if n = numAllTask (sc_conf st) then st\<lparr>sc_running := False, sc_numZHTMsg := sc_numZHTMsg st + 2\<rparr>
         else st\<lparr>sc_prevNumTaskFin := sc_numTaskFin st, sc_numZHTMsg := sc_numZHTMsg st + 3\<rparr>, s')) \<and> good s'
    \<and> value_of s' = (if n = numAllTask (sc_conf st) then (value_of s)(sc_id st \<mapsto> value_to_str (status_record st))
        else (value_of s)(sc_id st \<mapsto> value_to_str (status_record st),
          ''num tasks done'' \<mapsto> num_to_str (n + (sc_numTaskFin st - sc_prevNumTaskFin st))))"
proof -
  let ?k = "''num tasks done''" and ?w = "num_to_str (n + (sc_numTaskFin st - sc_prevNumTaskFin st))"
  obtain s1 where i: "zinsert z (sc_id st) (value_to_str (status_record st)) s = Inr (0, s1)" "good s1"
      "value_of s1 = (value_of s)(sc_id st \<mapsto> value_to_str (status_record st))"
    using insert [OF s k(2) rec] by blast
  have v1: "value_of s1 ?k = Some (num_to_str n)" using i(3) n(1) k(3) by simp
  have l: "zlookup z ?k s1 = Inr (0, num_to_str n, s1)" using lookup [OF i(2) k(1)] v1 by simp
  show ?thesis
  proof (cases "n = numAllTask (sc_conf st)")
    case True
    then show ?thesis using i l n(2) by (simp add: recording_stat_round_def)
  next
    case False
    obtain s2 where c: "zcswap z ?k (num_to_str n) ?w s1 = Inr (0, ?w, s2)" "good s2" "value_of s2 = (value_of s1)(?k \<mapsto> ?w)"
      using cswap_hit [OF i(2) k(1) stored_ok [OF i(2) k(1) v1] new [OF False] v1] by blast
    have "done_loop z (\<lambda>_ s. s) (numAllTask (sc_conf st)) (sc_numTaskFin st - sc_prevNumTaskFin st) (num_to_str n) 2 s1 = Some (Inr (3, s2))"
      using c(1) n(2) by (subst done_loop.simps) simp
    then show ?thesis using i l n(2) c False by (simp add: recording_stat_round_def)
  qed
qed

end

section \<open>Registration\<close>

text \<open>The schedulers register one after the other, the one with index 0 first.\<close>

fun regist_all :: "'s zht_ops \<Rightarrow> sched list \<Rightarrow> 's \<Rightarrow> 's res option" where
  "regist_all z [] s = Some (Inr s)"
| "regist_all z (st # sts) s =
     (case regist z (\<lambda>_ s. s) st s of Some (Inr s') \<Rightarrow> regist_all z sts s' | r \<Rightarrow> r)"

lemma counter_keys:
  assumes "200 \<le> mx"
  shows "key_ok mx ''number of scheduler registered''" and "key_ok mx ''num tasks done''" and "key_ok mx ''num tasks recv''"
  using assms by (simp_all add: key_ok_def field_ok_def)

lemma num_to_str_01: "num_to_str 1 = ''1''" "num_to_str 0 = ''0''"
  by code_simp+

lemma counter_ok: "is_int n \<Longrightarrow> 200 \<le> mx \<Longrightarrow> val_ok mx (num_to_str n)"
  by (rule val_ok_num) (auto simp: int_range_defs)

lemma regist_first:
  assumes s: "deployed c s" and mx: "200 \<le> zc_msg_maxsize c" and "sc_index st = 0"
  shows "\<exists>s'. regist (zht_ops_of c) (\<lambda>_ s. s) st s = Some (Inr s') \<and> deployed c s' \<and> zht_value c s' = (zht_value c s)
    (''number of scheduler registered'' \<mapsto> ''1'', ''num tasks done'' \<mapsto> ''0'', ''num tasks recv'' \<mapsto> ''0'')"
proof -
  note k = counter_keys [OF mx]
  have v: "val_ok (zc_msg_maxsize c) ''1''" "val_ok (zc_msg_maxsize c) ''0''"
    using counter_ok [OF _ mx, of 1] counter_ok [OF _ mx, of 0] by (simp_all add: int_range_defs num_to_str_01)
  obtain s1 where s1: "zinsert (zht_ops_of c) ''number of scheduler registered'' ''1'' s = Inr (0, s1)" "deployed c s1"
      "zht_value c s1 = (zht_value c s)(''number of scheduler registered'' \<mapsto> ''1'')" using zs.insert [OF s k(1) v(1)] by blast
  obtain s2 where s2: "zinsert (zht_ops_of c) ''num tasks done'' ''0'' s1 = Inr (0, s2)" "deployed c s2"
      "zht_value c s2 = (zht_value c s1)(''num tasks done'' \<mapsto> ''0'')" using zs.insert [OF s1(2) k(2) v(2)] by blast
  obtain s3 where s3: "zinsert (zht_ops_of c) ''num tasks recv'' ''0'' s2 = Inr (0, s3)" "deployed c s3"
      "zht_value c s3 = (zht_value c s2)(''num tasks recv'' \<mapsto> ''0'')" using zs.insert [OF s2(2) k(3) v(2)] by blast
  show ?thesis using s1 s2 s3 assms(3) by (simp add: regist_def)
qed

lemma regist_rest:
  assumes "deployed c s" and mx: "200 \<le> zc_msg_maxsize c" and "\<forall>st \<in> set sts. sc_index st \<noteq> 0"
    and "zht_value c s ''number of scheduler registered'' = Some (num_to_str n)" and "0 < n" and "is_int (n + int (length sts))"
  shows "\<exists>s'. regist_all (zht_ops_of c) sts s = Some (Inr s') \<and> deployed c s' \<and> zht_value c s' =
    (zht_value c s)(''number of scheduler registered'' \<mapsto> num_to_str (n + int (length sts)))"
  using assms(1,3-6)
proof (induction sts arbitrary: s n)
  case (Cons st sts)
  then have n: "is_int (n + 1)" by (auto simp: int_range_defs)
  from zs.regist_quiet [OF Cons.prems(1) counter_keys(1) [OF mx] Cons.prems(4) n Cons.prems(3) counter_ok [OF n mx], of st] Cons.prems(2)
  obtain s1 where s1: "regist (zht_ops_of c) (\<lambda>_ s. s) st s = Some (Inr s1)" "deployed c s1"
    "zht_value c s1 = (zht_value c s)(''number of scheduler registered'' \<mapsto> num_to_str (n + 1))" by auto
  have i: "is_int (n + 1 + int (length sts))" "\<forall>st \<in> set sts. sc_index st \<noteq> 0" "0 < n + 1"
      "zht_value c s1 ''number of scheduler registered'' = Some (num_to_str (n + 1))"
    using Cons.prems s1(3) by (simp_all add: algebra_simps)
  from Cons.IH [OF s1(2) i(2,4,3,1)] obtain s' where "regist_all (zht_ops_of c) sts s1 = Some (Inr s')" "deployed c s'"
    "zht_value c s' = (zht_value c s1)(''number of scheduler registered'' \<mapsto> num_to_str (n + 1 + int (length sts)))"
    by blast
  then show ?case using s1 by (simp add: add.assoc fun_eq_iff)
qed (auto simp: fun_upd_idem)

section \<open>Properties\<close>

text \<open>What the record of a child becomes, field by field.\<close>

definition informed :: "string \<Rightarrow> cmp_item \<Rightarrow> val_msg \<Rightarrow> val_msg" where
  "informed sched it v =
     \<lparr>v_id = v_id v, v_indegree = Some (opt0 (v_indegree v) - 1), v_parents = v_parents v @ [sched],
      v_children = v_children v, v_datanamelist = v_datanamelist v @ [cq_key it], v_datasize = v_datasize v @ [cq_dataSize it],
      v_alldatasize = Some (opt0 (v_alldatasize v) + cq_dataSize it), v_tasklength = v_tasklength v,
      v_numtaskfin = v_numtaskfin v, v_numworksteal = v_numworksteal v, v_numworkstealfail = v_numworkstealfail v,
      v_numtaskwait = v_numtaskwait v, v_numtaskready = v_numtaskready v, v_numcoreavilable = v_numcoreavilable v,
      v_numallcore = v_numallcore v, v_outputsize = v_outputsize v, v_submittime = v_submittime v\<rparr>"

lemma informed_parent_done: "informed sched it v = parent_done sched it v"
  by (simp add: informed_def parent_done_def)

text \<open>Property C21. Completion: one round of the completion thread takes the first finished task off its queue
  and changes the record of each child of that task and no other: the indegree goes down by one and the
  scheduler, the name and the size of the output are added to the child's inputs. It costs one
  request and two for each child.\<close>

theorem completion_notifies_children:
  assumes "deployed c s" and "sc_completeQueue st = it # rest" and "key_ok (zc_msg_maxsize c) (cq_taskId it)"
    and "zht_value c s (cq_taskId it) = Some d" and "str_to_value d = Inr v" and "distinct (v_children v)"
    and "\<And>k. k \<in> set (v_children v) \<Longrightarrow> key_ok (zc_msg_maxsize c) k \<and> zht_value c s k = Some (value_to_str (cv k)) \<and> value_ok (cv k)
      \<and> val_ok (zc_msg_maxsize c) (value_to_str (informed (sc_id st) it (cv k)))"
  shows "\<exists>s'. checking_complete_round (zht_ops_of c) (\<lambda>_ s. s) st s = Some (Some (Inr
        (st\<lparr>sc_completeQueue := rest, sc_numZHTMsg := sc_numZHTMsg st + 1 + 2 * int (length (v_children v))\<rparr>, s')))
    \<and> deployed c s'
    \<and> (\<forall>k. zht_value c s' k = (if k \<in> set (v_children v) then Some (value_to_str (informed (sc_id st) it (cv k)))
                               else zht_value c s k))"
proof -
  note as7 = assms(7) [unfolded informed_parent_done]
  have l: "zlookup (zht_ops_of c) (cq_taskId it) s = Inr (0, d, s)" using zs.lookup [OF assms(1,3)] assms(4) by simp
  have a: "child_attempt (sc_id st) it (value_to_str (cv k)) = Inr (value_to_str (parent_done (sc_id st) it (cv k)))"
    if "k \<in> set (v_children v)" for k
    using value_roundtrip as7 [OF that] by (simp add: child_attempt_def)
  then have "\<forall>k \<in> set (v_children v). zs.child_ok c (sc_id st) it s k" using as7 by (auto simp: zs.child_ok_def)
  from zs.notify_each_quiet [OF assms(1) this assms(6), of 1] obtain s' where
    s': "notify_each (zht_ops_of c) (\<lambda>_ s. s) (sc_id st) it (v_children v) 1 s = Some (Inr (1 + 2 * length (v_children v), s'))"
      "deployed c s'" "\<forall>k. zht_value c s' k = (if k \<in> set (v_children v) then map_option (notified (sc_id st) it) (zht_value c s k) else zht_value c s k)"
    by blast
  have "zht_value c s' k = (if k \<in> set (v_children v) then Some (value_to_str (parent_done (sc_id st) it (cv k))) else zht_value c s k)" for k
    using s'(3) as7 [of k] a [of k] by (auto simp: notified_def)
  then show ?thesis
    using l s'(1,2) assms(2,5) by (intro exI [of _ s']) (simp add: checking_complete_round_def notify_children_def informed_parent_done)
qed

text \<open>Once the counter shows the number of schedulers, the wait for them ends at the first lookup.\<close>

lemma wait_all_registered:
  assumes "deployed c s" and "200 \<le> zc_msg_maxsize c" and "is_int (int (length vec))"
    and "zht_value c s ''number of scheduler registered'' = Some (num_to_str (int (length vec)))"
  shows "wait_all_scheduler (zht_ops_of c) (\<lambda>_ s. s) vec s = Some (Inr (num_to_str (int (length vec)), 1, s))"
proof -
  have "zlookup (zht_ops_of c) ''number of scheduler registered'' s = Inr (0, num_to_str (int (length vec)), s)"
    using zs.lookup [OF assms(1) counter_keys(1) [OF assms(2)]] assms(4) by simp
  then show ?thesis using assms(3) unfolding wait_all_scheduler_def by (subst poll_until.simps) simp
qed

text \<open>Property C29. Registration: when the scheduler with index 0 registers first and all others after it, the
  shared counter ends at the number of schedulers with the two task counters at zero, and the loop that
  waits for all schedulers ends at its first lookup.\<close>

theorem registration_completes:
  assumes "deployed c s" and "200 \<le> zc_msg_maxsize c" and "sc_index st = 0" and "\<And>st'. st' \<in> set sts \<Longrightarrow> sc_index st' \<noteq> 0"
    and "is_int (int (length (st # sts)))"
  shows "\<exists>s'. regist_all (zht_ops_of c) (st # sts) s = Some (Inr s') \<and> deployed c s' \<and> zht_value c s' = (zht_value c s)
      (''num tasks done'' \<mapsto> ''0'', ''num tasks recv'' \<mapsto> ''0'',
       ''number of scheduler registered'' \<mapsto> num_to_str (int (length (st # sts))))
    \<and> (\<forall>vec. length vec = length (st # sts) \<longrightarrow> wait_all_scheduler (zht_ops_of c) (\<lambda>_ s. s) vec s' =
        Some (Inr (num_to_str (int (length (st # sts))), 1, s')))"
proof -
  let ?k = "''number of scheduler registered''"
  obtain s1 where s1: "regist (zht_ops_of c) (\<lambda>_ s. s) st s = Some (Inr s1)" "deployed c s1" "zht_value c s1 = (zht_value c s)
    (?k \<mapsto> ''1'', ''num tasks done'' \<mapsto> ''0'', ''num tasks recv'' \<mapsto> ''0'')" using regist_first [OF assms(1-3)] by blast
  from regist_rest [OF s1(2) assms(2), of sts 1] assms(4,5) s1(3) num_to_str_01 obtain s' where
    s': "regist_all (zht_ops_of c) sts s1 = Some (Inr s')" "deployed c s'"
      "zht_value c s' = (zht_value c s1)(?k \<mapsto> num_to_str (int (length (st # sts))))" by (auto simp: add.commute)
  have w: "wait_all_scheduler (zht_ops_of c) (\<lambda>_ s. s) vec s' = Some (Inr (num_to_str (int (length (st # sts))), 1, s'))"
    if "length vec = length (st # sts)" for vec :: "string list"
    using wait_all_registered [OF s'(2) assms(2), of vec] s'(3) assms(5) that by simp
  have "zht_value c s' = (zht_value c s)(''num tasks done'' \<mapsto> ''0'', ''num tasks recv'' \<mapsto> ''0'', ?k \<mapsto> num_to_str (int (length (st # sts))))"
    unfolding s'(3) s1(3) by (rule ext) simp
  with s1(1) s'(1,2) w show ?thesis by (intro exI [of _ s']) simp
qed

text \<open>Property C24. Statistics: a round of the statistics thread stores the scheduler's status record; while the
  shared counter of finished tasks is below the total it adds exactly the tasks finished since the
  previous round, and when the counter shows the total it stops the scheduler.\<close>

theorem statistics_count_each_task_once:
  assumes "deployed c s" and "200 \<le> zc_msg_maxsize c" and "key_ok (zc_msg_maxsize c) (sc_id st)" and "sc_id st \<noteq> ''num tasks done''"
    and "val_ok (zc_msg_maxsize c) (value_to_str (status_record st))"
    and "zht_value c s ''num tasks done'' = Some (num_to_str n)" and "is_long n"
    and "is_long (n + (sc_numTaskFin st - sc_prevNumTaskFin st))"
  shows "\<exists>st' s'. recording_stat_round (zht_ops_of c) (\<lambda>_ s. s) st s = Some (Inr (st', s')) \<and> deployed c s'
    \<and> zht_value c s' (sc_id st) = Some (value_to_str (status_record st))
    \<and> (if n = numAllTask (sc_conf st)
       then sc_running st' = False \<and> zht_value c s' ''num tasks done'' = Some (num_to_str n)
       else sc_running st' = sc_running st \<and> sc_prevNumTaskFin st' = sc_numTaskFin st
         \<and> zht_value c s' ''num tasks done'' = Some (num_to_str (n + (sc_numTaskFin st - sc_prevNumTaskFin st))))"
proof -
  have "val_ok (zc_msg_maxsize c) (num_to_str (n + (sc_numTaskFin st - sc_prevNumTaskFin st)))"
    using assms(2,8) by (intro val_ok_num) (auto simp: int_range_defs)
  from zs.recording_stat_quiet [OF assms(1) counter_keys(2) [OF assms(2)] assms(3-7) this] assms(4) show ?thesis
    by (cases "n = numAllTask (sc_conf st)") (auto simp: assms(6))
qed

section \<open>Instances\<close>

definition demo_done :: "sched" where
  "demo_done = (demo_sched [] [])\<lparr>sc_completeQueue := [\<lparr>cq_taskId = ''7'', cq_key = ''n07'', cq_dataSize = 5\<rparr>]\<rparr>"

lemma demo_family:
  "key_ok (zc_msg_maxsize demo_conf) ''8''" "value_ok (demo_value ''7'' 0 [''8''])" "value_ok (demo_value ''8'' 1 [])"
  "val_ok (zc_msg_maxsize demo_conf) (value_to_str (demo_value ''7'' 0 [''8'']))"
  "val_ok (zc_msg_maxsize demo_conf) (value_to_str (demo_value ''8'' 1 []))"
  "val_ok (zc_msg_maxsize demo_conf) (value_to_str (informed ''n0'' \<lparr>cq_taskId = ''7'', cq_key = ''n07'', cq_dataSize = 5\<rparr> (demo_value ''8'' 1 [])))"
proof -
  let ?rest = "''~~nonumtaskfin~~nonumworksteal~~nonumworkstealfail~~nonumtaskwait~~nonumtaskready~~nonumcoreavail~~nonumallcore~~nooutputsize~~nosubmittime~~''"
  have "value_to_str (demo_value ''7'' 0 [''8'']) = ''7~~0~~noparents~~8??~~nodataname~~nodatasize~~noalldatasize~~notasklength'' @ ?rest"
    "value_to_str (demo_value ''8'' 1 []) = ''8~~1~~noparents~~nochildren~~nodataname~~nodatasize~~noalldatasize~~notasklength'' @ ?rest"
    "value_to_str (informed ''n0'' \<lparr>cq_taskId = ''7'', cq_key = ''n07'', cq_dataSize = 5\<rparr> (demo_value ''8'' 1 [])) =
      ''8~~0~~n0??~~nochildren~~n07??~~5??~~5~~notasklength'' @ ?rest"
    by code_simp+
  then show "val_ok (zc_msg_maxsize demo_conf) (value_to_str (demo_value ''7'' 0 [''8'']))"
    "val_ok (zc_msg_maxsize demo_conf) (value_to_str (demo_value ''8'' 1 []))"
    "val_ok (zc_msg_maxsize demo_conf) (value_to_str (informed ''n0'' \<lparr>cq_taskId = ''7'', cq_key = ''n07'', cq_dataSize = 5\<rparr> (demo_value ''8'' 1 [])))"
    by (simp_all add: demo_conf_def val_ok_def field_ok_def)
qed (simp_all add: demo_value_def default_value_def value_ok_def field_ok_def opt_ok_def int_range_defs demo_conf_def key_ok_def)

theorem completion_notifies_children_witness:
  "\<exists>s s' v. checking_complete_round (zht_ops_of demo_conf) (\<lambda>_ s. s) demo_done s = Some (Some (Inr ((demo_sched [] [])\<lparr>sc_numZHTMsg := 3\<rparr>, s')))
     \<and> zht_value demo_conf s' ''8'' = Some (value_to_str v) \<and> v_indegree v = Some 0 \<and> v_datanamelist v = [''n07'']"
proof -
  let ?it = "\<lparr>cq_taskId = ''7'', cq_key = ''n07'', cq_dataSize = 5\<rparr>"
  obtain s0 where s0: "deployed demo_conf s0" "zht_value demo_conf s0 = [''7'' \<mapsto> value_to_str (demo_value ''7'' 0 [''8''])]"
    using zs.insert [OF demo_deployed demo_record(4) demo_family(4)] demo_empty by auto
  obtain s where s: "deployed demo_conf s" "zht_value demo_conf s =
      [''7'' \<mapsto> value_to_str (demo_value ''7'' 0 [''8'']), ''8'' \<mapsto> value_to_str (demo_value ''8'' 1 [])]"
    using zs.insert [OF s0(1) demo_family(1,5)] s0(2) by auto
  have "\<exists>s'. checking_complete_round (zht_ops_of demo_conf) (\<lambda>_ s. s) demo_done s = Some (Some (Inr
        (demo_done\<lparr>sc_completeQueue := [], sc_numZHTMsg := sc_numZHTMsg demo_done + 1 + 2 * int (length (v_children (demo_value ''7'' 0 [''8''])))\<rparr>, s')))
    \<and> deployed demo_conf s'
    \<and> (\<forall>k. zht_value demo_conf s' k = (if k \<in> set (v_children (demo_value ''7'' 0 [''8'']))
          then Some (value_to_str (informed (sc_id demo_done) ?it (demo_value ''8'' 1 []))) else zht_value demo_conf s k))"
    by (rule completion_notifies_children [OF s(1)])
      (use s(2) demo_record(4) demo_family value_roundtrip [OF demo_family(2)] in \<open>simp_all add: demo_done_def demo_sched_def demo_value_def\<close>)
  then obtain s' where s': "checking_complete_round (zht_ops_of demo_conf) (\<lambda>_ s. s) demo_done s =
      Some (Some (Inr ((demo_sched [] [])\<lparr>sc_numZHTMsg := 3\<rparr>, s')))"
    "zht_value demo_conf s' ''8'' = Some (value_to_str (informed (sc_id demo_done) ?it (demo_value ''8'' 1 [])))"
    by (auto simp: demo_done_def demo_value_def default_value_def demo_sched_def)
  then show ?thesis
    by (intro exI [of _ s] exI [of _ s'] exI [of _ "informed (sc_id demo_done) ?it (demo_value ''8'' 1 [])"])
      (simp add: informed_def demo_value_def default_value_def)
qed

theorem registration_completes_witness:
  "\<exists>s'. regist_all (zht_ops_of demo_conf) [demo_sched [] [], (demo_sched [] [])\<lparr>sc_index := 1\<rparr>] demo_cluster = Some (Inr s')
     \<and> zht_value demo_conf s' ''number of scheduler registered'' = Some (num_to_str 2)"
  using registration_completes [OF demo_deployed, of "demo_sched [] []" "[(demo_sched [] [])\<lparr>sc_index := 1\<rparr>]"]
  by (auto simp: demo_conf_def demo_sched_def int_range_defs)

theorem statistics_count_each_task_once_witness:
  "\<exists>s st' s'. recording_stat_round (zht_ops_of demo_conf) (\<lambda>_ s. s) ((demo_sched [] [])\<lparr>sc_numTaskFin := 1\<rparr>) s = Some (Inr (st', s'))
     \<and> zht_value demo_conf s' ''num tasks done'' = Some ''1''"
proof -
  let ?st = "(demo_sched [] [])\<lparr>sc_numTaskFin := 1\<rparr>"
  obtain s where s: "deployed demo_conf s" "zht_value demo_conf s ''num tasks done'' = Some (num_to_str 0)"
    using zs.insert [OF demo_deployed counter_keys(2) counter_ok, of 0] by (auto simp: demo_conf_def int_range_defs)
  have k: "key_ok (zc_msg_maxsize demo_conf) (sc_id ?st)" by (simp add: demo_sched_def demo_conf_def key_ok_def field_ok_def)
  have "value_to_str (status_record ?st) = ''n0~~noindegree~~noparents~~nochildren~~nodataname~~nodatasize~~noalldatasize~~notasklength~~1~~0~~0~~0~~0~~1~~1~~nooutputsize~~nosubmittime~~''"
    by (simp add: demo_sched_def status_record_def demo_mconf_facts) code_simp
  then have v: "val_ok (zc_msg_maxsize demo_conf) (value_to_str (status_record ?st))"
    by (simp add: demo_conf_def val_ok_def field_ok_def)
  have a: "numAllTask demo_mconf = 1" by (simp add: demo_mconf_def conf_of_def numeral_eq_Suc) code_simp
  have "\<exists>st' s'. recording_stat_round (zht_ops_of demo_conf) (\<lambda>_ s. s) ?st s = Some (Inr (st', s')) \<and> deployed demo_conf s'
    \<and> zht_value demo_conf s' (sc_id ?st) = Some (value_to_str (status_record ?st))
    \<and> (if 0 = numAllTask (sc_conf ?st)
       then sc_running st' = False \<and> zht_value demo_conf s' ''num tasks done'' = Some (num_to_str 0)
       else sc_running st' = sc_running ?st \<and> sc_prevNumTaskFin st' = sc_numTaskFin ?st
         \<and> zht_value demo_conf s' ''num tasks done'' = Some (num_to_str (0 + (sc_numTaskFin ?st - sc_prevNumTaskFin ?st))))"
    by (rule statistics_count_each_task_once [OF s(1) _ k _ v s(2)]) (simp_all add: demo_conf_def demo_sched_def int_range_defs)
  then obtain st' s' where r: "recording_stat_round (zht_ops_of demo_conf) (\<lambda>_ s. s) ?st s = Some (Inr (st', s'))"
      "zht_value demo_conf s' ''num tasks done'' = Some ''1''"
    by (auto simp: demo_sched_def a num_to_str_01)
  then show ?thesis by blast
qed

end
