(* ===== verification/Lru_Cache.thy ===== *)
theory Lru_Cache
  imports Cxx_Map
begin

text \<open>
  The cache template of \<^verbatim>\<open>ZHT/src/lru_cache.h\<close>. The list holds the lru_entries, most recently used
  first; the index maps a key to the iterator of its node. A node of a \<open>std::list\<close> keeps its identity
  when it is moved, so a node carries the number under which it was allocated and an iterator is such
  a number. The sizes are \<open>unsigned long\<close>; \<open>sz\<close> is the size functor. An access through an iterator
  that is not valid is undefined.
\<close>

section \<open>Model\<close>

record ('k, 'd) lru =
  l_list :: "(nat \<times> 'k \<times> 'd) list"
  l_index :: "('k, nat) cmap"
  l_max_size :: "64 word"
  l_curr_size :: "64 word"
  l_next :: nat

definition lru_new :: "64 word \<Rightarrow> ('k, 'd) lru" where
  "lru_new n = \<lparr>l_list = [], l_index = [], l_max_size = n, l_curr_size = 0, l_next = 0\<rparr>"

definition lru_clear :: "('k, 'd) lru \<Rightarrow> ('k, 'd) lru" where
  "lru_clear c = c\<lparr>l_list := [], l_index := []\<rparr>"

definition lru_exists :: "'k::linorder \<Rightarrow> ('k, 'd) lru \<Rightarrow> bool" where
  "lru_exists k c \<longleftrightarrow> cmap_find (l_index c) k \<noteq> None"

text \<open>The node behind an iterator.\<close>

definition node_of :: "nat \<Rightarrow> ('k, 'd) lru \<Rightarrow> ('k \<times> 'd) res" where
  "node_of i c = (case map_of (l_list c) i of None \<Rightarrow> Inl Undefined | Some e \<Rightarrow> Inr e)"

text \<open>\<open>_touch\<close>: move the node to the head of the list; the result is the index entry.\<close>

definition lru_touch_i :: "'k::linorder \<Rightarrow> ('k, 'd) lru \<Rightarrow> (nat option \<times> ('k, 'd) lru) res" where
  "lru_touch_i k c =
     (case cmap_find (l_index c) k of
        None \<Rightarrow> Inr (None, c)
      | Some i \<Rightarrow> bind_res (node_of i c) (\<lambda>e.
          Inr (Some i, c\<lparr>l_list := (i, e) # filter (\<lambda>n. fst n \<noteq> i) (l_list c)\<rparr>)))"

text \<open>\<open>_remove\<close> of the entry with key \<open>k\<close> and iterator \<open>i\<close>.\<close>

definition lru_remove_i :: "('d \<Rightarrow> 64 word) \<Rightarrow> 'k::linorder \<Rightarrow> nat \<Rightarrow> ('k, 'd) lru \<Rightarrow> ('k, 'd) lru res" where
  "lru_remove_i sz k i c =
     bind_res (node_of i c) (\<lambda>(_, d).
       Inr (c\<lparr>l_curr_size := l_curr_size c - sz d, l_list := filter (\<lambda>n. fst n \<noteq> i) (l_list c),
              l_index := cmap_erase k (l_index c)\<rparr>))"

definition lru_remove_key :: "('d \<Rightarrow> 64 word) \<Rightarrow> 'k::linorder \<Rightarrow> ('k, 'd) lru \<Rightarrow> ('k, 'd) lru res" where
  "lru_remove_key sz k c =
     (case cmap_find (l_index c) k of None \<Rightarrow> Inl Undefined | Some i \<Rightarrow> lru_remove_i sz k i c)"

definition lru_remove :: "('d \<Rightarrow> 64 word) \<Rightarrow> 'k::linorder \<Rightarrow> ('k, 'd) lru \<Rightarrow> ('k, 'd) lru res" where
  "lru_remove sz k c =
     (case cmap_find (l_index c) k of None \<Rightarrow> Inr c | Some i \<Rightarrow> lru_remove_i sz k i c)"

definition lru_touch :: "'k::linorder \<Rightarrow> ('k, 'd) lru \<Rightarrow> ('k, 'd) lru res" where
  "lru_touch k c = bind_res (lru_touch_i k c) (\<lambda>(_, c'). Inr c')"

text \<open>\<open>fetch\<close> into a reference; the result is the data, if any.\<close>

definition lru_fetch :: "'k::linorder \<Rightarrow> bool \<Rightarrow> ('k, 'd) lru \<Rightarrow> ('d option \<times> ('k, 'd) lru) res" where
  "lru_fetch k touch_data c =
     (case cmap_find (l_index c) k of
        None \<Rightarrow> Inr (None, c)
      | Some i \<Rightarrow> bind_res (if touch_data then lru_touch k c else Inr c) (\<lambda>c'.
                  bind_res (node_of i c') (\<lambda>(_, d). Inr (Some d, c'))))"

text \<open>\<open>fetch_ptr\<close> touches the entry whatever its second argument says.\<close>

definition lru_fetch_ptr :: "'k::linorder \<Rightarrow> bool \<Rightarrow> ('k, 'd) lru \<Rightarrow> ('d option \<times> ('k, 'd) lru) res" where
  "lru_fetch_ptr k touch c =
     (case cmap_find (l_index c) k of
        None \<Rightarrow> Inr (None, c)
      | Some i \<Rightarrow> bind_res (lru_touch k c) (\<lambda>c'. bind_res (node_of i c') (\<lambda>(_, d). Inr (Some d, c'))))"

text \<open>The loop that makes room; the first component of the result is the data removed last. A removal
  takes a node off the list, so the loop ends.\<close>

lemma lru_remove_i_shorter: "lru_remove_i sz k i c = Inr c' \<Longrightarrow> length (l_list c') < length (l_list c)"
  by (auto simp: lru_remove_i_def node_of_def bind_res_eq_Inr split: option.splits
      dest!: map_of_SomeD intro!: length_filter_less)

lemma lru_remove_key_shorter: "lru_remove_key sz k c = Inr c' \<Longrightarrow> length (l_list c') < length (l_list c)"
  by (auto simp: lru_remove_key_def split: option.splits intro: lru_remove_i_shorter)

function lru_shrink :: "('d \<Rightarrow> 64 word) \<Rightarrow> 'd option \<Rightarrow> ('k::linorder, 'd) lru \<Rightarrow> ('d option \<times> ('k, 'd) lru) res" where
  "lru_shrink sz r c =
     (if l_curr_size c \<le> l_max_size c then Inr (r, c)
      else if l_list c = [] then Inl Undefined
      else (case lru_remove_key sz (fst (snd (last (l_list c)))) c of
              Inl e \<Rightarrow> Inl e
            | Inr c' \<Rightarrow> lru_shrink sz (Some (snd (snd (last (l_list c))))) c'))"
  by pat_completeness auto
termination
  by (relation "measure (\<lambda>(sz, r, c). length (l_list c))") (auto dest: lru_remove_key_shorter)

declare lru_shrink.simps [simp del]

definition lru_insert_rm :: "('d \<Rightarrow> 64 word) \<Rightarrow> 'k::linorder \<Rightarrow> 'd \<Rightarrow> ('k, 'd) lru \<Rightarrow> ('d option \<times> ('k, 'd) lru) res" where
  "lru_insert_rm sz k d c =
     bind_res (lru_touch_i k c) (\<lambda>(m, c1).
     bind_res (case m of None \<Rightarrow> Inr c1 | Some i \<Rightarrow> lru_remove_i sz k i c1) (\<lambda>c2.
       lru_shrink sz None
         (c2\<lparr>l_list := (l_next c2, k, d) # l_list c2, l_index := cmap_insert k (l_next c2) (l_index c2),
             l_curr_size := l_curr_size c2 + sz d, l_next := Suc (l_next c2)\<rparr>)))"

definition lru_insert :: "('d \<Rightarrow> 64 word) \<Rightarrow> 'k::linorder \<Rightarrow> 'd \<Rightarrow> ('k, 'd) lru \<Rightarrow> ('k, 'd) lru res" where
  "lru_insert sz k d c = bind_res (lru_insert_rm sz k d c) (\<lambda>(_, c'). Inr c')"

definition lru_get_all_keys :: "('k, 'd) lru \<Rightarrow> 'k list" where
  "lru_get_all_keys c = map (\<lambda>n. fst (snd n)) (l_list c)"

section \<open>Specification\<close>

text \<open>The cache as a list of entries in order of use. Making room takes the longest prefix that fits.\<close>

definition lru_entries :: "('k, 'd) lru \<Rightarrow> ('k \<times> 'd) list" where
  "lru_entries c = map snd (l_list c)"

definition lru_load :: "('d \<Rightarrow> 64 word) \<Rightarrow> ('k \<times> 'd) list \<Rightarrow> nat" where
  "lru_load sz es = sum_list (map (\<lambda>e. unat (sz (snd e))) es)"

definition lru_spec_del :: "'k \<Rightarrow> ('k \<times> 'd) list \<Rightarrow> ('k \<times> 'd) list" where
  "lru_spec_del k es = filter (\<lambda>e. fst e \<noteq> k) es"

definition lru_spec_touch :: "'k \<Rightarrow> ('k \<times> 'd) list \<Rightarrow> ('k \<times> 'd) list" where
  "lru_spec_touch k es = (case map_of es k of None \<Rightarrow> es | Some d \<Rightarrow> (k, d) # lru_spec_del k es)"

fun lru_spec_fit :: "('d \<Rightarrow> 64 word) \<Rightarrow> nat \<Rightarrow> ('k \<times> 'd) list \<Rightarrow> ('k \<times> 'd) list" where
  "lru_spec_fit sz mx [] = []"
| "lru_spec_fit sz mx (e # es) =
     (if unat (sz (snd e)) \<le> mx then e # lru_spec_fit sz (mx - unat (sz (snd e))) es else [])"

lemma load_simps [simp]:
  "lru_load sz [] = 0" "lru_load sz (e # es) = unat (sz (snd e)) + lru_load sz es" "lru_load sz (es @ fs) = lru_load sz es + lru_load sz fs"
  by (simp_all add: lru_load_def)

lemma spec_fit_all: "lru_load sz es \<le> mx \<Longrightarrow> lru_spec_fit sz mx es = es"
  by (induction es arbitrary: mx) auto

lemma spec_fit_load: "lru_load sz (lru_spec_fit sz mx es) \<le> mx"
proof (induction es arbitrary: mx)
  case (Cons e es)
  show ?case using Cons.IH [of "mx - unat (sz (snd e))"] by auto
qed simp

lemma spec_fit_butlast: "mx < lru_load sz es \<Longrightarrow> lru_spec_fit sz mx es = lru_spec_fit sz mx (butlast es)"
proof (induction es arbitrary: mx)
  case (Cons e es)
  show ?case
  proof (cases "es = []")
    case False
    then show ?thesis using Cons.IH [of "mx - unat (sz (snd e))"] Cons.prems by auto
  qed (use Cons.prems in simp)
qed simp

section \<open>Invariant\<close>

text \<open>Nodes have distinct numbers below the next one, keys are distinct, the index gives every key its node,
  and the size is the load.\<close>

definition lru_wf :: "('d \<Rightarrow> 64 word) \<Rightarrow> ('k::linorder, 'd) lru \<Rightarrow> bool" where
  "lru_wf sz c \<longleftrightarrow> distinct (map fst (l_list c)) \<and> distinct (map fst (lru_entries c)) \<and> cmap_ok (l_index c)
     \<and> (\<forall>k i. cmap_find (l_index c) k = Some i \<longleftrightarrow> (\<exists>d. (i, k, d) \<in> set (l_list c)))
     \<and> (\<forall>n \<in> set (l_list c). fst n < l_next c) \<and> unat (l_curr_size c) = lru_load sz (lru_entries c)"

lemma lru_wf_node:
  assumes "lru_wf sz c" and "(i, k, d) \<in> set (l_list c)"
  shows "node_of i c = Inr (k, d)" and "cmap_find (l_index c) k = Some i" and "map_of (lru_entries c) k = Some d"
proof -
  show "node_of i c = Inr (k, d)" using assms by (simp add: node_of_def lru_wf_def)
  show "cmap_find (l_index c) k = Some i" using assms unfolding lru_wf_def by blast
  have "(k, d) \<in> set (lru_entries c)" using assms(2) by (force simp: lru_entries_def)
  then show "map_of (lru_entries c) k = Some d" using assms(1) by (simp add: lru_wf_def)
qed

lemma lru_wf_index:
  assumes "lru_wf sz c"
  shows "cmap_find (l_index c) k = None \<longleftrightarrow> map_of (lru_entries c) k = None"
    and "cmap_find (l_index c) k = Some i \<Longrightarrow> \<exists>d. (i, k, d) \<in> set (l_list c)"
proof -
  show "cmap_find (l_index c) k = Some i \<Longrightarrow> \<exists>d. (i, k, d) \<in> set (l_list c)" using assms by (simp add: lru_wf_def)
  have "map_of (lru_entries c) k = None \<longleftrightarrow> (\<nexists>i d. (i, k, d) \<in> set (l_list c))"
    by (force simp: map_of_eq_None_iff lru_entries_def)
  also have "\<dots> \<longleftrightarrow> cmap_find (l_index c) k = None" using assms unfolding lru_wf_def by (metis not_Some_eq option.distinct(1))
  finally show "cmap_find (l_index c) k = None \<longleftrightarrow> map_of (lru_entries c) k = None" by simp
qed

lemma filter_node:
  assumes "lru_wf sz c" and "(i, k, d) \<in> set (l_list c)"
  shows "map snd (filter (\<lambda>n. fst n \<noteq> i) (l_list c)) = lru_spec_del k (lru_entries c)"
proof -
  have "fst n \<noteq> i \<longleftrightarrow> fst (snd n) \<noteq> k" if "n \<in> set (l_list c)" for n
    using lru_wf_node(1,2) [OF assms] lru_wf_node(1,2) [OF assms(1), of "fst n" "fst (snd n)" "snd (snd n)"] that by auto
  then show ?thesis by (simp add: lru_entries_def lru_spec_del_def filter_map o_def cong: filter_cong)
qed

lemma spec_del_absent: "k \<notin> fst ` set es \<Longrightarrow> lru_spec_del k es = es"
  unfolding lru_spec_del_def by (rule filter_True) auto

lemma load_del:
  assumes "distinct (map fst es)" and "map_of es k = Some d"
  shows "lru_load sz es = unat (sz d) + lru_load sz (lru_spec_del k es)"
  using assms
proof (induction es)
  case (Cons e es)
  have "lru_spec_del k es = es" if "fst e = k"
    using Cons.prems(1) that spec_del_absent by force
  with Cons show ?case by (auto simp: lru_spec_del_def split: if_splits)
qed simp

lemma remove_i_spec:
  assumes wf: "lru_wf sz c" and i: "cmap_find (l_index c) k = Some i"
  shows "\<exists>c'. lru_remove_i sz k i c = Inr c' \<and> lru_wf sz c' \<and> lru_entries c' = lru_spec_del k (lru_entries c)
    \<and> l_max_size c' = l_max_size c \<and> cmap_find (l_index c') k = None \<and> l_next c' = l_next c"
proof -
  obtain d where d: "(i, k, d) \<in> set (l_list c)" using lru_wf_index(2) [OF wf i] by blast
  note n = lru_wf_node [OF wf d]
  let ?c = "c\<lparr>l_curr_size := l_curr_size c - sz d, l_list := filter (\<lambda>n. fst n \<noteq> i) (l_list c),
              l_index := cmap_erase k (l_index c)\<rparr>"
  have r: "lru_remove_i sz k i c = Inr ?c" by (simp add: lru_remove_i_def n(1))
  have e: "lru_entries ?c = lru_spec_del k (lru_entries c)" using filter_node [OF wf d] by (simp add: lru_entries_def)
  have ld: "lru_load sz (lru_entries c) = unat (sz d) + lru_load sz (lru_entries ?c)"
    using load_del [OF _ n(3)] wf e by (simp add: lru_wf_def)
  then have le: "sz d \<le> l_curr_size c" using wf by (simp add: lru_wf_def word_le_nat_alt)
  have ix: "cmap_find (l_index ?c) k' = Some j \<longleftrightarrow> (\<exists>d. (j, k', d) \<in> set (l_list ?c))" for k' j
  proof -
    have "cmap_find (cmap_erase k (l_index c)) k' = (if k' = k then None else cmap_find (l_index c) k')"
      using wf by (intro cm.find_del) (simp add: lru_wf_def)
    moreover have "j \<noteq> i \<longleftrightarrow> k' \<noteq> k" if "(j, k', d') \<in> set (l_list c)" for d'
      using lru_wf_node(1,2) [OF wf that] n by auto
    ultimately show ?thesis using wf by (auto simp: lru_wf_def)
  qed
  have "lru_wf sz ?c"
    unfolding lru_wf_def
  proof (intro conjI allI)
    show "distinct (map fst (lru_entries ?c))" using wf e by (simp add: lru_wf_def lru_spec_del_def distinct_map_filter)
    show "unat (l_curr_size ?c) = lru_load sz (lru_entries ?c)" using wf ld le by (simp add: lru_wf_def unat_sub)
    show "cmap_ok (l_index ?c)" using wf by (simp add: lru_wf_def cm.invar_del)
  qed (use wf ix in \<open>auto simp: lru_wf_def distinct_map_filter\<close>)
  moreover have "cmap_find (l_index ?c) k = None" using cm.find_del [of "l_index c" k k] wf by (simp add: lru_wf_def)
  ultimately show ?thesis using r e by (intro exI [of _ ?c]) simp
qed

lemma touch_i_spec:
  assumes wf: "lru_wf sz c"
  shows "\<exists>c'. lru_touch_i k c = Inr (cmap_find (l_index c) k, c') \<and> lru_wf sz c' \<and> lru_entries c' = lru_spec_touch k (lru_entries c)
    \<and> l_index c' = l_index c \<and> l_max_size c' = l_max_size c \<and> l_next c' = l_next c"
proof (cases "cmap_find (l_index c) k")
  case None
  then show ?thesis using wf lru_wf_index(1) [OF wf, of k] by (simp add: lru_touch_i_def lru_spec_touch_def)
next
  case (Some i)
  obtain d where d: "(i, k, d) \<in> set (l_list c)" using lru_wf_index(2) [OF wf Some] by blast
  note n = lru_wf_node [OF wf d]
  let ?c = "c\<lparr>l_list := (i, k, d) # filter (\<lambda>n. fst n \<noteq> i) (l_list c)\<rparr>"
  have r: "lru_touch_i k c = Inr (Some i, ?c)" by (simp add: lru_touch_i_def Some n(1))
  have e: "lru_entries ?c = lru_spec_touch k (lru_entries c)"
    using filter_node [OF wf d] n(3) by (simp add: lru_entries_def lru_spec_touch_def)
  have ds: "distinct (map fst (lru_entries c))" using wf by (simp add: lru_wf_def)
  have st: "set (l_list ?c) = set (l_list c)"
    using d lru_wf_node(1) [OF wf] n(1) by fastforce
  have "lru_wf sz ?c"
    unfolding lru_wf_def st
  proof (intro conjI allI)
    show "distinct (map fst (lru_entries ?c))"
      unfolding e using ds n(3) by (auto simp: lru_spec_touch_def lru_spec_del_def distinct_map_filter)
    show "unat (l_curr_size ?c) = lru_load sz (lru_entries ?c)"
      unfolding e using wf n(3) load_del [OF ds n(3), of sz] by (simp add: lru_wf_def lru_spec_touch_def)
  qed (use wf in \<open>auto simp: lru_wf_def distinct_map_filter\<close>)
  then show ?thesis using r e Some by (intro exI [of _ ?c]) simp
qed

lemma add_spec:
  assumes wf: "lru_wf sz c" and k: "cmap_find (l_index c) k = None" and b: "lru_load sz (lru_entries c) + unat (sz d) < 2 ^ 64"
  shows "lru_wf sz (c\<lparr>l_list := (l_next c, k, d) # l_list c, l_index := cmap_insert k (l_next c) (l_index c),
             l_curr_size := l_curr_size c + sz d, l_next := Suc (l_next c)\<rparr>)"
proof -
  have ix: "cmap_find (cmap_insert k (l_next c) (l_index c)) k' = (if k' = k then Some (l_next c) else cmap_find (l_index c) k')" for k'
    using wf k by (subst cm.find_ins) (auto simp: lru_wf_def)
  have u: "unat (l_curr_size c + sz d) = unat (l_curr_size c) + unat (sz d)"
    using b wf by (simp add: lru_wf_def unat_plus_if_size word_size)
  have new: "l_next c \<notin> fst ` set (l_list c)" using wf by (force simp: lru_wf_def)
  have kn: "k \<notin> fst ` set (lru_entries c)" using lru_wf_index(1) [OF wf, of k] k by (simp add: map_of_eq_None_iff)
  then have kn': "(i, k, d') \<notin> set (l_list c)" for i d' by (force simp: lru_entries_def)
  show ?thesis
    using wf u new kn kn' by (auto simp: lru_wf_def lru_entries_def ix cm.invar_ins less_Suc_eq)
qed

lemma shrink_spec:
  assumes "lru_wf sz c"
  shows "\<exists>r' c'. lru_shrink sz r c = Inr (r', c') \<and> lru_wf sz c' \<and> lru_entries c' = lru_spec_fit sz (unat (l_max_size c)) (lru_entries c)
    \<and> l_max_size c' = l_max_size c \<and> l_curr_size c' \<le> l_max_size c'"
  using assms
proof (induction "length (l_list c)" arbitrary: c r rule: less_induct)
  case less
  have u: "unat (l_curr_size c) = lru_load sz (lru_entries c)" using less.prems by (simp add: lru_wf_def)
  show ?case
  proof (cases "l_curr_size c \<le> l_max_size c")
    case True
    then have "lru_load sz (lru_entries c) \<le> unat (l_max_size c)" using u by (simp add: word_le_nat_alt)
    then show ?thesis using True less.prems by (simp add: lru_shrink.simps [of sz r c] spec_fit_all)
  next
    case False
    then have big: "unat (l_max_size c) < lru_load sz (lru_entries c)" using u by (simp add: word_le_nat_alt not_le)
    then have ne: "l_list c \<noteq> []" by (auto simp: lru_entries_def)
    obtain i k d where l: "last (l_list c) = (i, k, d)" by (cases "last (l_list c)")
    then have m: "(i, k, d) \<in> set (l_list c)" using last_in_set [OF ne] by simp
    note n = lru_wf_node [OF less.prems m]
    obtain c1 where c1: "lru_remove_i sz k i c = Inr c1" "lru_wf sz c1" "lru_entries c1 = lru_spec_del k (lru_entries c)"
        "l_max_size c1 = l_max_size c" using remove_i_spec [OF less.prems n(2)] by blast
    have es: "lru_entries c = butlast (lru_entries c) @ [(k, d)]"
      using ne l append_butlast_last_id [of "lru_entries c"] by (simp add: lru_entries_def last_map)
    have "distinct (map fst (butlast (lru_entries c) @ [(k, d)]))" using less.prems es by (simp add: lru_wf_def)
    then have "lru_spec_del k (butlast (lru_entries c) @ [(k, d)]) = butlast (lru_entries c)"
      using spec_del_absent [of k "butlast (lru_entries c)"] by (simp add: lru_spec_del_def)
    then have e1: "lru_entries c1 = butlast (lru_entries c)" using c1(3) es by simp
    have s: "lru_shrink sz r c = lru_shrink sz (Some d) c1"
      using False ne l n(2) c1(1) by (simp add: lru_shrink.simps [of sz r c] lru_remove_key_def)
    obtain r' c' where "lru_shrink sz (Some d) c1 = Inr (r', c')" "lru_wf sz c'"
        "lru_entries c' = lru_spec_fit sz (unat (l_max_size c1)) (lru_entries c1)" "l_max_size c' = l_max_size c1" "l_curr_size c' \<le> l_max_size c'"
      using less.hyps [OF lru_remove_i_shorter [OF c1(1)] c1(2)] by blast
    then show ?thesis using s e1 c1(4) spec_fit_butlast [OF big] by simp
  qed
qed

lemma insert_spec:
  assumes wf: "lru_wf sz c" and b: "l_curr_size c \<le> l_max_size c" "unat (l_max_size c) + unat (sz d) < 2 ^ 64"
  shows "\<exists>c'. lru_insert sz k d c = Inr c' \<and> lru_wf sz c' \<and> lru_entries c' = lru_spec_fit sz (unat (l_max_size c)) ((k, d) # lru_spec_del k (lru_entries c))
    \<and> l_max_size c' = l_max_size c \<and> l_curr_size c' \<le> l_max_size c'"
proof -
  obtain c1 where c1: "lru_touch_i k c = Inr (cmap_find (l_index c) k, c1)" "lru_wf sz c1" "lru_entries c1 = lru_spec_touch k (lru_entries c)"
      "l_index c1 = l_index c" "l_max_size c1 = l_max_size c" using touch_i_spec [OF wf] by blast
  obtain c2 where c2: "(case cmap_find (l_index c) k of None \<Rightarrow> Inr c1 | Some i \<Rightarrow> lru_remove_i sz k i c1) = Inr c2" "lru_wf sz c2"
      "lru_entries c2 = lru_spec_del k (lru_entries c)" "l_max_size c2 = l_max_size c" "cmap_find (l_index c2) k = None"
  proof (cases "cmap_find (l_index c) k")
    case None
    then have "k \<notin> fst ` set (lru_entries c)" using lru_wf_index(1) [OF wf, of k] by (simp add: map_of_eq_None_iff)
    then have "lru_spec_touch k (lru_entries c) = lru_spec_del k (lru_entries c)"
      using spec_del_absent [of k "lru_entries c"] by (simp add: lru_spec_touch_def map_of_eq_None_iff [THEN iffD2])
    then show ?thesis using that [of c1] None c1 by simp
  next
    case (Some i)
    then have "cmap_find (l_index c1) k = Some i" using c1(4) by simp
    from remove_i_spec [OF c1(2) this] obtain c2 where "lru_remove_i sz k i c1 = Inr c2" "lru_wf sz c2"
        "lru_entries c2 = lru_spec_del k (lru_entries c1)" "l_max_size c2 = l_max_size c1" "cmap_find (l_index c2) k = None" by blast
    moreover have "lru_spec_del k (lru_spec_touch k (lru_entries c)) = lru_spec_del k (lru_entries c)"
      by (auto simp: lru_spec_touch_def lru_spec_del_def split: option.splits)
    ultimately show ?thesis using that [of c2] Some c1 by simp
  qed
  have "lru_load sz (lru_spec_del k (lru_entries c)) \<le> lru_load sz (lru_entries c)" by (induction "lru_entries c") (auto simp: lru_load_def lru_spec_del_def sum_list_filter_le_nat)
  also have "\<dots> \<le> unat (l_max_size c)" using wf b(1) by (simp add: lru_wf_def word_le_nat_alt)
  finally have "lru_load sz (lru_entries c2) + unat (sz d) < 2 ^ 64" using b(2) c2(3) by simp
  note a = add_spec [OF c2(2,5) this]
  from shrink_spec [OF a, of None] c1(1) c2 show ?thesis
    by (auto simp: lru_insert_def lru_insert_rm_def lru_entries_def)
qed

section \<open>Properties\<close>

datatype ('k, 'd) lru_op = LInsert 'k 'd | LFetch 'k bool | LTouch 'k | LRemove 'k

fun lru_do :: "('d \<Rightarrow> 64 word) \<Rightarrow> ('k::linorder, 'd) lru_op \<Rightarrow> ('k, 'd) lru \<Rightarrow> ('d option \<times> ('k, 'd) lru) res" where
  "lru_do sz (LInsert k d) c = bind_res (lru_insert sz k d c) (\<lambda>c'. Inr (None, c'))"
| "lru_do sz (LFetch k t) c = lru_fetch k t c"
| "lru_do sz (LTouch k) c = bind_res (lru_touch k c) (\<lambda>c'. Inr (None, c'))"
| "lru_do sz (LRemove k) c = bind_res (lru_remove sz k c) (\<lambda>c'. Inr (None, c'))"

fun lru_run :: "('d \<Rightarrow> 64 word) \<Rightarrow> ('k::linorder, 'd) lru_op list \<Rightarrow> ('k, 'd) lru \<Rightarrow> ('d option list \<times> ('k, 'd) lru) res" where
  "lru_run sz [] c = Inr ([], c)"
| "lru_run sz (x # xs) c = bind_res (lru_do sz x c) (\<lambda>(out, c'). bind_res (lru_run sz xs c') (\<lambda>(outs, c''). Inr (out # outs, c'')))"

fun lru_spec_do :: "('d \<Rightarrow> 64 word) \<Rightarrow> nat \<Rightarrow> ('k, 'd) lru_op \<Rightarrow> ('k \<times> 'd) list \<Rightarrow> 'd option \<times> ('k \<times> 'd) list" where
  "lru_spec_do sz mx (LInsert k d) es = (None, lru_spec_fit sz mx ((k, d) # lru_spec_del k es))"
| "lru_spec_do sz mx (LFetch k t) es = (map_of es k, if t then lru_spec_touch k es else es)"
| "lru_spec_do sz mx (LTouch k) es = (None, lru_spec_touch k es)"
| "lru_spec_do sz mx (LRemove k) es = (None, lru_spec_del k es)"

fun lru_spec_run :: "('d \<Rightarrow> 64 word) \<Rightarrow> nat \<Rightarrow> ('k, 'd) lru_op list \<Rightarrow> ('k \<times> 'd) list \<Rightarrow> 'd option list \<times> ('k \<times> 'd) list" where
  "lru_spec_run sz mx [] es = ([], es)"
| "lru_spec_run sz mx (x # xs) es =
     (let (out, es') = lru_spec_do sz mx x es; (outs, es'') = lru_spec_run sz mx xs es' in (out # outs, es''))"

definition op_fits :: "('d \<Rightarrow> 64 word) \<Rightarrow> nat \<Rightarrow> ('k, 'd) lru_op \<Rightarrow> bool" where
  "op_fits sz mx x = (case x of LInsert k d \<Rightarrow> mx + unat (sz d) < 2 ^ 64 | _ \<Rightarrow> True)"

lemma same_load: "lru_wf sz c \<Longrightarrow> lru_wf sz c' \<Longrightarrow> lru_load sz (lru_entries c') \<le> lru_load sz (lru_entries c) \<Longrightarrow> l_curr_size c' \<le> l_curr_size c"
  by (simp add: lru_wf_def word_le_nat_alt)

lemma load_spec_del: "lru_load sz (lru_spec_del k es) \<le> lru_load sz es"
  by (induction es) (auto simp: lru_spec_del_def)

lemma load_spec_touch: "distinct (map fst es) \<Longrightarrow> lru_load sz (lru_spec_touch k es) = lru_load sz es"
  using load_del [of es k _ sz] by (auto simp: lru_spec_touch_def split: option.splits)

lemma touch_spec:
  assumes wf: "lru_wf sz c" and b: "l_curr_size c \<le> l_max_size c"
  shows "\<exists>c'. lru_touch k c = Inr c' \<and> lru_wf sz c' \<and> lru_entries c' = lru_spec_touch k (lru_entries c) \<and> l_index c' = l_index c
    \<and> l_max_size c' = l_max_size c \<and> l_curr_size c' \<le> l_max_size c'"
proof -
  obtain c' where c': "lru_touch_i k c = Inr (cmap_find (l_index c) k, c')" "lru_wf sz c'" "lru_entries c' = lru_spec_touch k (lru_entries c)"
    "l_index c' = l_index c" "l_max_size c' = l_max_size c" using touch_i_spec [OF wf] by blast
  have "lru_load sz (lru_entries c') = lru_load sz (lru_entries c)" using wf load_spec_touch [of "lru_entries c" sz k] c'(3) by (simp add: lru_wf_def)
  then have "l_curr_size c' \<le> l_max_size c'" using same_load [OF wf c'(2)] b c'(5) by simp
  with c' show ?thesis by (simp add: lru_touch_def)
qed

lemma map_of_spec_touch: "map_of (lru_spec_touch k es) k = map_of es k"
  by (simp add: lru_spec_touch_def split: option.splits)

lemma do_spec:
  assumes wf: "lru_wf sz c" and b: "l_curr_size c \<le> l_max_size c" and f: "op_fits sz (unat (l_max_size c)) x"
  shows "\<exists>out c'. lru_do sz x c = Inr (out, c') \<and> lru_spec_do sz (unat (l_max_size c)) x (lru_entries c) = (out, lru_entries c')
    \<and> lru_wf sz c' \<and> l_max_size c' = l_max_size c \<and> l_curr_size c' \<le> l_max_size c'"
proof (cases x)
  case (LInsert k d)
  then show ?thesis using insert_spec [OF wf b, of d k] f by (auto simp: op_fits_def)
next
  case (LFetch k t)
  show ?thesis
  proof (cases "cmap_find (l_index c) k")
    case None
    then have "map_of (lru_entries c) k = None" using lru_wf_index(1) [OF wf] by simp
    then show ?thesis using LFetch None wf b by (simp add: lru_fetch_def lru_spec_touch_def)
  next
    case (Some i)
    obtain c1 where c1: "(if t then lru_touch k c else Inr c) = Inr c1" "lru_wf sz c1" "lru_entries c1 = (if t then lru_spec_touch k (lru_entries c) else lru_entries c)"
        "l_index c1 = l_index c" "l_max_size c1 = l_max_size c" "l_curr_size c1 \<le> l_max_size c1"
      using touch_spec [OF wf b, of k] wf b that by (cases t) auto
    from c1(4) Some obtain d where d: "(i, k, d) \<in> set (l_list c1)" using lru_wf_index(2) [OF c1(2), of k i] by auto
    have "map_of (lru_entries c) k = Some d"
      using lru_wf_node(3) [OF c1(2) d] unfolding c1(3) by (auto simp: map_of_spec_touch split: if_splits)
    then show ?thesis
      using LFetch Some c1 lru_wf_node(1) [OF c1(2) d] by (simp add: lru_fetch_def)
  qed
next
  case (LTouch k)
  then show ?thesis using touch_spec [OF wf b, of k] by auto
next
  case (LRemove k)
  show ?thesis
  proof (cases "cmap_find (l_index c) k")
    case None
    then have "k \<notin> fst ` set (lru_entries c)" using lru_wf_index(1) [OF wf, of k] by (simp add: map_of_eq_None_iff)
    then show ?thesis using LRemove None wf b spec_del_absent [of k "lru_entries c"] by (simp add: lru_remove_def)
  next
    case (Some i)
    from remove_i_spec [OF wf Some] obtain c' where c': "lru_remove_i sz k i c = Inr c'" "lru_wf sz c'"
      "lru_entries c' = lru_spec_del k (lru_entries c)" "l_max_size c' = l_max_size c" by blast
    then have "l_curr_size c' \<le> l_max_size c'"
      using same_load [OF wf c'(2)] load_spec_del [of sz k "lru_entries c"] b by simp
    then show ?thesis using LRemove Some c' by (simp add: lru_remove_def)
  qed
qed

lemma run_spec:
  assumes "lru_wf sz c" and "l_curr_size c \<le> l_max_size c" and "list_all (op_fits sz (unat (l_max_size c))) xs"
  shows "\<exists>outs c'. lru_run sz xs c = Inr (outs, c') \<and> lru_spec_run sz (unat (l_max_size c)) xs (lru_entries c) = (outs, lru_entries c')
    \<and> lru_wf sz c' \<and> l_max_size c' = l_max_size c \<and> l_curr_size c' \<le> l_max_size c'"
  using assms
proof (induction xs arbitrary: c)
  case (Cons x xs)
  obtain out c1 where c1: "lru_do sz x c = Inr (out, c1)" "lru_spec_do sz (unat (l_max_size c)) x (lru_entries c) = (out, lru_entries c1)"
      "lru_wf sz c1" "l_max_size c1 = l_max_size c" "l_curr_size c1 \<le> l_max_size c1"
    using do_spec [OF Cons.prems(1,2), of x] Cons.prems(3) by auto
  obtain outs c2 where "lru_run sz xs c1 = Inr (outs, c2)" "lru_spec_run sz (unat (l_max_size c1)) xs (lru_entries c1) = (outs, lru_entries c2)"
      "lru_wf sz c2" "l_max_size c2 = l_max_size c1" "l_curr_size c2 \<le> l_max_size c2"
    using Cons.IH [OF c1(3,5)] Cons.prems(3) c1(4) by auto
  with c1 show ?case by simp
qed simp

lemma lru_new_wf: "lru_wf sz (lru_new n)" "lru_entries (lru_new n) = []"
  by (simp_all add: lru_wf_def lru_new_def lru_entries_def cm.find_empty cm.invar_empty)

lemma lru_new_size: "l_max_size (lru_new n) = n" "l_curr_size (lru_new n) = 0"
  by (simp_all add: lru_new_def)


text \<open>\<open>clear\<close> empties the storage but not the size: after it, a cache that was full drops every
  insertion of a datum of positive size.\<close>

theorem lru_clear_disables_full_cache:
  assumes "l_curr_size c = l_max_size c" and "sz d \<noteq> 0" and "unat (l_max_size c) + unat (sz d) < 2 ^ 64"
  shows "\<exists>c'. lru_insert sz k d (lru_clear c) = Inr c' \<and> lru_entries c' = [] \<and> l_curr_size c' = l_max_size c"
proof -
  let ?c = "(lru_clear c)\<lparr>l_list := [(l_next c, k, d)], l_index := [(k, l_next c)],
             l_curr_size := l_curr_size c + sz d, l_next := Suc (l_next c)\<rparr>"
  have i: "lru_insert_rm sz k d (lru_clear c) = lru_shrink sz None ?c"
    by (simp add: lru_insert_rm_def lru_touch_i_def lru_clear_def cm.find_empty)
  have "unat (l_curr_size c + sz d) = unat (l_max_size c) + unat (sz d)"
    using assms by (simp add: unat_plus_if_size word_size)
  moreover have "0 < unat (sz d)" using assms(2) by (simp add: unat_gt_0)
  ultimately have big: "\<not> l_curr_size c + sz d \<le> l_max_size c" by (simp add: word_le_nat_alt)
  let ?e = "?c\<lparr>l_curr_size := l_curr_size c, l_list := [], l_index := []\<rparr>"
  have r: "lru_remove_key sz k ?c = Inr ?e"
    by (simp add: lru_remove_key_def lru_remove_i_def node_of_def cmap_find_def cmap_erase_def)
  have "lru_shrink sz None ?c = lru_shrink sz (Some d) ?e"
    by (subst lru_shrink.simps) (use big r in \<open>simp add: lru_clear_def\<close>)
  also have "\<dots> = Inr (Some d, ?e)" by (subst lru_shrink.simps) (use assms(1) in \<open>simp add: lru_clear_def\<close>)
  finally show ?thesis using assms(1) i by (simp add: lru_insert_def lru_entries_def)
qed


theorem lru_clear_disables_full_cache_witness:
  "\<exists>c'. lru_insert (\<lambda>_. 1) (7::nat) ''x'' (lru_clear \<lparr>l_list = [(0, 5, ''y'')], l_index = [(5, 0)], l_max_size = 1, l_curr_size = 1, l_next = 1\<rparr>) = Inr c'
     \<and> lru_entries c' = []"
  using lru_clear_disables_full_cache [of "\<lparr>l_list = [(0, 5, ''y'')], l_index = [(5, 0)], l_max_size = 1, l_curr_size = 1, l_next = 1\<rparr>" "\<lambda>_. 1" "''x''" "7::nat"]
  by auto

end
