(* ===== verification/Big_Data.thy ===== *)
theory Big_Data
  imports Zpack Cxx_Map "HOL-Library.Sublist"
begin

text \<open>
  The transfer of messages in blobs (\<^verbatim>\<open>ZHT/src/bigdata_transfer.cpp\<close>, the \<open>BIG_MSG\<close> build): a message is cut
  into pieces of at most 512 bytes, each sent with a header of decimal fields; the receiver collects
  the blobs of a message in a set ordered by sequence number until it has all of them. The loop of the
  client (\<open>IPProtoProxy::loopedrecv\<close> in \<^verbatim>\<open>ip_proxy_stub.cpp\<close>) and the one of the server (the TCP branch of
  \<open>EpollServer::serve\<close>) feed what a \<open>recv\<close> returns to it. The unused acknowledgement queue is here too.
\<close>

section \<open>Blobs\<close>

record blob =
  b_uuid :: nat
  b_seqNum :: nat
  b_total :: nat
  b_size :: nat
  b_value :: string

definition getUuidLen :: nat where "getUuidLen = 20"
definition getCountLen :: nat where "getCountLen = 7"
definition getSizeLen :: nat where "getSizeLen = 4"

definition getHeaderLen :: nat where
  "getHeaderLen = getUuidLen + getCountLen * 2 + getSizeLen"

text \<open>\<open>Env::BUF_SIZE\<close>.\<close>

definition ENV_BUF_SIZE :: nat where "ENV_BUF_SIZE = 512 + 38"

text \<open>\<open>sprintf\<close> with a format such as \<^verbatim>\<open>%07lu\<close>: padded with zeros, longer when the number needs it.\<close>

definition blob_format :: "nat \<Rightarrow> nat \<Rightarrow> string" where
  "blob_format w n = replicate (w - length (digits n)) (CHR ''0'') @ digits n"

definition blob_to_str :: "blob \<Rightarrow> string" where
  "blob_to_str b = blob_format getUuidLen (b_uuid b) @ blob_format getCountLen (b_seqNum b)
     @ blob_format getCountLen (b_total b) @ blob_format getSizeLen (b_size b) @ b_value b"

text \<open>\<open>strtoull\<close>: white space, a sign, digits; a value that does not fit becomes the largest one.\<close>

definition strtoull :: "string \<Rightarrow> nat" where
  "strtoull str =
     (let s = dropWhile is_space (c_str str);
          neg = (s \<noteq> [] \<and> hd s = CHR ''-'');
          signed = (s \<noteq> [] \<and> (hd s = CHR ''-'' \<or> hd s = CHR ''+''));
          n = digits_val (takeWhile is_digit (if signed then tl s else s))
      in if 2 ^ 64 \<le> n then 2 ^ 64 - 1 else if neg then (2 ^ 64 - n) mod 2 ^ 64 else n)"

text \<open>\<open>assign\<close>: a \<open>substr\<close> that begins behind the end of the text throws.\<close>

definition blob_assign :: "string \<Rightarrow> blob res" where
  "blob_assign s =
     (if length s < getHeaderLen then Inl Out_Of_Range
      else Inr \<lparr>b_uuid = strtoull (substr s 0 getUuidLen),
                b_seqNum = strtoull (substr s getUuidLen getCountLen),
                b_total = strtoull (substr s (getUuidLen + getCountLen) getCountLen),
                b_size = strtoull (substr s (getUuidLen + getCountLen * 2) getSizeLen),
                b_value = drop getHeaderLen s\<rparr>)"

section \<open>Sending\<close>

definition new_blob :: "nat \<Rightarrow> nat \<Rightarrow> nat \<Rightarrow> string \<Rightarrow> blob" where
  "new_blob uuid seqNum tot v = \<lparr>b_uuid = uuid, b_seqNum = seqNum, b_total = tot, b_size = length v, b_value = v\<rparr>"

definition BLOB_SIZE :: nat where
  "BLOB_SIZE = ENV_BUF_SIZE - getHeaderLen"

definition bd_split :: "nat \<Rightarrow> string \<Rightarrow> blob list" where
  "bd_split uuid msg =
     (let fold = length msg div BLOB_SIZE;
          md = length msg mod BLOB_SIZE;
          tot = (if md \<noteq> 0 then fold + 1 else fold)
      in map (\<lambda>i. new_blob uuid (Suc i) tot (substr msg (i * BLOB_SIZE) BLOB_SIZE)) [0..<fold]
         @ (if md \<noteq> 0 then [new_blob uuid (Suc fold) tot (substr msg (fold * BLOB_SIZE) md)] else []))"

text \<open>What \<open>bsend\<close> gives to \<open>send\<close>, call by call, and the sum it returns when every call sends all.
  The acknowledgements are not waited for (\<open>recAck\<close> returns 0).\<close>

definition bsend :: "nat \<Rightarrow> string \<Rightarrow> string list \<times> int" where
  "bsend uuid msg =
     (map blob_to_str (bd_split uuid msg),
      sum_list (map (\<lambda>b. int (length (blob_to_str b)) - int getHeaderLen) (bd_split uuid msg)))"

section \<open>Receiving\<close>

text \<open>\<open>std::set\<close> ordered by the sequence number: an equal element is not inserted.\<close>

type_synonym blob_set = "(nat, blob) cmap"
type_synonym bd_map = "(nat, blob_set) cmap"

definition combineBlobs :: "blob_set \<Rightarrow> string" where
  "combineBlobs bs = concat (map (\<lambda>e. b_value (snd e)) bs)"

definition deleteBlobs :: "nat \<Rightarrow> bd_map \<Rightarrow> bd_map" where
  "deleteBlobs uuid m = cmap_erase uuid m"

text \<open>\<open>string(buf, 0, count)\<close> first makes a string of the array, up to a NUL, and then takes the
  first \<open>count\<close> characters. The array has a NUL behind the received bytes unless they fill it; then the
  memory behind it, \<open>mem\<close>, is read too.\<close>

definition received :: "string \<Rightarrow> string \<Rightarrow> string" where
  "received mem buf = take (length buf) (c_str (buf @ replicate (ENV_BUF_SIZE - length buf) (CHR 0x00) @ mem))"

definition getBdStr :: "string \<Rightarrow> string \<Rightarrow> bd_map \<Rightarrow> (string option \<times> bd_map) res" where
  "getBdStr mem buf m =
     bind_res (blob_assign (received mem buf)) (\<lambda>b.
       if b_total b = 1 then Inr (Some (b_value b), m)
       else (case cmap_find m (b_uuid b) of
               None \<Rightarrow> Inr (None, cmap_set (b_uuid b) [(b_seqNum b, b)] m)
             | Some bs \<Rightarrow>
                 let bs' = cmap_insert (b_seqNum b) b bs; m' = cmap_set (b_uuid b) bs' m in
                 if length bs' = b_total b then Inr (Some (combineBlobs bs'), deleteBlobs (b_uuid b) m')
                 else Inr (None, m')))"

text \<open>The loop of the client on what the calls of \<open>recv\<close> return: \<open>None\<close> is -1, an empty text is 0 (the
  connection is closed), and at the end of the list \<open>recv\<close> waits. The result is the return value and
  the text.\<close>

fun loopedrecv :: "string \<Rightarrow> string option list \<Rightarrow> bd_map \<Rightarrow> (int \<times> string) res" where
  "loopedrecv mem [] m = Inl Blocks"
| "loopedrecv mem (None # cs) m = Inr (-1, [])"
| "loopedrecv mem (Some buf # cs) m =
     (if buf = [] then Inr (0, [])
      else bind_res (getBdStr mem buf m) (\<lambda>(bd, m').
             case bd of Some s \<Rightarrow> Inr (int (length s), s) | None \<Rightarrow> loopedrecv mem cs m'))"

text \<open>The loop of the server on a connection: every complete message is processed at once
  (\<open>bd.c_str()\<close> cuts it at a NUL). It ends when nothing more can be read; the result says whether the
  connection is closed.\<close>

fun serve_conn :: "(string \<Rightarrow> 's \<Rightarrow> 's res) \<Rightarrow> string \<Rightarrow> string option list \<Rightarrow> bd_map \<Rightarrow> 's \<Rightarrow> (bool \<times> bd_map \<times> 's) res" where
  "serve_conn process mem [] m s = Inr (True, m, s)"
| "serve_conn process mem (None # cs) m s = Inr (False, m, s)"
| "serve_conn process mem (Some buf # cs) m s =
     (if buf = [] then Inr (True, m, s)
      else bind_res (getBdStr mem buf m) (\<lambda>(bd, m').
           bind_res (case bd of None \<Rightarrow> Inr s | Some msg \<Rightarrow> process (c_str msg) s) (\<lambda>s'.
             serve_conn process mem cs m' s')))"

section \<open>The acknowledgement queue\<close>

type_synonym ack_queue = "(nat, zpack list) cmap"

definition ack_empty :: "nat \<Rightarrow> ack_queue \<Rightarrow> bool" where
  "ack_empty i q = (case cmap_find q i of None \<Rightarrow> True | Some xs \<Rightarrow> xs = [])"

definition ack_size :: "nat \<Rightarrow> ack_queue \<Rightarrow> nat" where
  "ack_size i q = (case cmap_find q i of None \<Rightarrow> 0 | Some xs \<Rightarrow> length xs)"

definition ack_front :: "nat \<Rightarrow> ack_queue \<Rightarrow> zpack res" where
  "ack_front i q = (case cmap_find q i of Some (x # xs) \<Rightarrow> Inr x | _ \<Rightarrow> Inl Undefined)"

definition ack_back :: "nat \<Rightarrow> ack_queue \<Rightarrow> zpack res" where
  "ack_back i q = (case cmap_find q i of Some (x # xs) \<Rightarrow> Inr (last (x # xs)) | _ \<Rightarrow> Inl Undefined)"

definition ack_push :: "nat \<Rightarrow> zpack \<Rightarrow> ack_queue \<Rightarrow> ack_queue" where
  "ack_push i a q = (case cmap_find q i of None \<Rightarrow> cmap_set i [a] q | Some xs \<Rightarrow> cmap_set i (xs @ [a]) q)"

definition ack_pop :: "nat \<Rightarrow> ack_queue \<Rightarrow> ack_queue res" where
  "ack_pop i q = (case cmap_find q i of None \<Rightarrow> Inr q | Some [] \<Rightarrow> Inl Undefined | Some (x # xs) \<Rightarrow> Inr (cmap_set i xs q))"

definition ack_rmQueue :: "nat \<Rightarrow> ack_queue \<Rightarrow> ack_queue res" where
  "ack_rmQueue i q = (if cmap_find q i = None then Inl Undefined else Inr (cmap_erase i q))"

section \<open>Reading back a blob\<close>

lemma blob_format_length: "n < 10 ^ w \<Longrightarrow> 0 < w \<Longrightarrow> length (blob_format w n) = w"
  using digits_length [of n w] by (simp add: blob_format_def)

lemma digits_val_zeros: "digits_val (replicate k (CHR ''0'') @ ds) = digits_val ds"
  by (induction k) (simp_all add: digits_val_def)

lemma strtoull_format: "n < 2 ^ 64 \<Longrightarrow> strtoull (blob_format w n) = n"
proof -
  assume n: "n < 2 ^ 64"
  have d: "\<forall>c \<in> set (blob_format w n). is_digit c"
    using digits_are_digits [of n] by (auto simp: blob_format_def is_digit_def)
  then have "CHR 0x00 \<notin> set (blob_format w n)" by (auto simp: is_digit_def)
  then have c: "c_str (blob_format w n) = blob_format w n" by (rule c_str_id)
  obtain x xs where x: "blob_format w n = x # xs" by (cases "blob_format w n") (auto simp: blob_format_def)
  then have xd: "is_digit x" "takeWhile is_digit xs = xs" using d by simp_all
  have v: "digits_val (x # xs) = n" using x by (simp add: blob_format_def digits_val_zeros digits_val_digits flip: x)
  show ?thesis
    using n xd v unfolding x strtoull_def c [unfolded x]
    by (simp add: Let_def digit_not_space digit_not_sign del: takeWhile_eq_all_conv)
qed

definition blob_ok :: "blob \<Rightarrow> bool" where
  "blob_ok b \<longleftrightarrow> b_uuid b < 2 ^ 64 \<and> b_seqNum b < 10 ^ 7 \<and> b_total b < 10 ^ 7 \<and> b_size b < 10 ^ 4"

lemma blob_roundtrip:
  assumes "blob_ok b"
  shows "blob_assign (blob_to_str b) = Inr b"
proof -
  have u: "b_uuid b < 10 ^ 20" using assms by (simp add: blob_ok_def)
  note l = blob_format_length [OF u, simplified] blob_format_length [of "b_seqNum b" 7] blob_format_length [of "b_total b" 7]
    blob_format_length [of "b_size b" 4]
  have le: "b_seqNum b < 2 ^ 64" "b_total b < 2 ^ 64" "b_size b < 2 ^ 64" using assms by (simp_all add: blob_ok_def)
  show ?thesis
    using assms l le
    by (simp add: blob_assign_def blob_to_str_def getHeaderLen_def getUuidLen_def getCountLen_def getSizeLen_def substr_def
        strtoull_format blob_ok_def)
qed

lemma received_id: "CHR 0x00 \<notin> set buf \<Longrightarrow> received mem buf = buf"
  unfolding received_def c_str_def by (subst takeWhile_append2) auto

section \<open>Cutting and joining\<close>

lemma concat_pieces: "concat (map (\<lambda>i. take n (drop (i * n) xs)) [0..<k]) = take (k * n) xs"
proof (induction k)
  case (Suc k)
  have "take (k * n) xs @ take n (drop (k * n) xs) = take (k * n + n) xs" by (rule take_add [symmetric])
  with Suc show ?case by (simp add: add.commute)
qed simp

text \<open>The number of blobs and the \<open>i\<close>-th of them.\<close>

definition blob_count :: "string \<Rightarrow> nat" where
  "blob_count msg = (if length msg mod BLOB_SIZE \<noteq> 0 then length msg div BLOB_SIZE + 1 else length msg div BLOB_SIZE)"

definition piece :: "nat \<Rightarrow> string \<Rightarrow> nat \<Rightarrow> blob" where
  "piece uuid msg i = new_blob uuid (Suc i) (blob_count msg) (substr msg (i * BLOB_SIZE) BLOB_SIZE)"

lemma BLOB_SIZE_eq: "BLOB_SIZE = 512"
  by (simp add: BLOB_SIZE_def ENV_BUF_SIZE_def getHeaderLen_def getUuidLen_def getCountLen_def getSizeLen_def)

lemma bd_split_pieces: "bd_split uuid msg = map (piece uuid msg) [0..<blob_count msg]"
proof -
  let ?f = "length msg div 512" and ?m = "length msg mod 512"
  have "length msg - ?f * 512 = ?m" by (rule minus_div_mult_eq_mod)
  then have l: "substr msg (?f * 512) ?m = substr msg (?f * 512) 512" by (simp add: substr_def)
  show ?thesis
    unfolding bd_split_def BLOB_SIZE_eq Let_def l
    by (simp add: blob_count_def piece_def BLOB_SIZE_eq)
qed

lemma pieces_join: "concat (map (\<lambda>i. b_value (piece uuid msg i)) [0..<blob_count msg]) = msg"
proof -
  have "length msg \<le> blob_count msg * 512" unfolding blob_count_def BLOB_SIZE_eq by (auto simp: algebra_simps)
  then show ?thesis by (simp add: piece_def new_blob_def substr_def concat_pieces BLOB_SIZE_eq mult.commute)
qed

definition sendable :: "nat \<Rightarrow> string \<Rightarrow> bool" where
  "sendable uuid msg \<longleftrightarrow> uuid < 2 ^ 64 \<and> msg \<noteq> [] \<and> blob_count msg < 10 ^ 7 - 1 \<and> CHR 0x00 \<notin> set msg"

lemma piece_ok: "sendable uuid msg \<Longrightarrow> i < blob_count msg \<Longrightarrow> blob_ok (piece uuid msg i)"
  by (simp add: sendable_def blob_ok_def piece_def new_blob_def substr_def BLOB_SIZE_eq)

lemma piece_clean:
  assumes "sendable uuid msg"
  shows "CHR 0x00 \<notin> set (blob_to_str (piece uuid msg i))"
proof -
  have "CHR 0x00 \<notin> set (blob_format w n)" for w n
    using digits_are_digits [of n] by (auto simp: blob_format_def is_digit_def)
  moreover have "CHR 0x00 \<notin> set (substr msg (i * BLOB_SIZE) BLOB_SIZE)"
    using assms by (auto simp: sendable_def substr_def dest: in_set_takeD in_set_dropD)
  ultimately show ?thesis by (simp add: blob_to_str_def piece_def new_blob_def)
qed

lemma piece_received:
  assumes "sendable uuid msg" and "i < blob_count msg"
  shows "blob_assign (received mem (blob_to_str (piece uuid msg i))) = Inr (piece uuid msg i)"
  using blob_roundtrip [OF piece_ok [OF assms]] piece_clean [OF assms(1)] by (simp add: received_id)

section \<open>Collecting\<close>

lemma cmap_eq_by_find:
  assumes "cmap_ok m" and "cmap_ok m'" and "\<And>k. cmap_find m k = cmap_find m' k"
  shows "m = m'"
proof -
  have e: "m = map (\<lambda>k. (k, the (cmap_find m k))) (map fst m)" if "cmap_ok m" for m :: "('a, 'b) cmap"
  proof -
    have "map (\<lambda>k. (k, the (cmap_find m k))) (map fst m) = map (\<lambda>e. (fst e, the (cmap_find m (fst e)))) m" by simp
    also have "\<dots> = map id m" using cmap_in [OF that] by (intro map_cong refl) force
    finally show ?thesis by simp
  qed
  have f: "cmap_find m = cmap_find m'" using assms(3) by blast
  then have "map fst m = map fst m'" using cmap_keys [OF assms(1)] cmap_keys [OF assms(2)] by simp
  then show ?thesis using e [OF assms(1)] e [OF assms(2)] f by metis
qed

definition part :: "nat \<Rightarrow> string \<Rightarrow> nat set \<Rightarrow> blob_set" where
  "part uuid msg S = map (\<lambda>i. (Suc i, piece uuid msg i)) (sorted_list_of_set S)"

lemma part_ok: "finite S \<Longrightarrow> cmap_ok (part uuid msg S)"
  by (auto simp: cmap_ok_def part_def o_def sorted_map distinct_map inj_on_def sorted_wrt_map
      intro: sorted_wrt_mono_rel [of _ "(\<le>)"])

lemma part_find: "finite S \<Longrightarrow> cmap_find (part uuid msg S) k = (case k of 0 \<Rightarrow> None | Suc i \<Rightarrow> if i \<in> S then Some (piece uuid msg i) else None)"
  by (auto simp: cmap_find_def part_def map_of_map_keys map_of_eq_None_iff split: nat.splits
      intro!: map_of_is_SomeI simp: distinct_map inj_on_def o_def)

lemma part_insert: "finite S \<Longrightarrow> j \<notin> S \<Longrightarrow> cmap_insert (Suc j) (piece uuid msg j) (part uuid msg S) = part uuid msg (insert j S)"
  by (rule cmap_eq_by_find) (auto simp: part_ok cm.invar_ins cm.find_ins part_find split: nat.splits)

text \<open>Giving received texts one by one to the receiver.\<close>

fun feed :: "string \<Rightarrow> string list \<Rightarrow> bd_map \<Rightarrow> (string option list \<times> bd_map) res" where
  "feed mem [] m = Inr ([], m)"
| "feed mem (buf # bufs) m =
     bind_res (getBdStr mem buf m) (\<lambda>(bd, m'). bind_res (feed mem bufs m') (\<lambda>(bds, m''). Inr (bd # bds, m'')))"

lemma set_set: "cmap_ok m \<Longrightarrow> cmap_set k y (cmap_set k x m) = cmap_set k y m"
  by (rule cmap_eq_by_find) (simp_all add: cm.invar_upd cm.find_upd)

lemma erase_set: "cmap_ok m \<Longrightarrow> cmap_find m k = None \<Longrightarrow> cmap_erase k (cmap_set k x m) = m"
  by (rule cmap_eq_by_find) (simp_all add: cm.invar_upd cm.invar_del cm.find_upd cm.find_del)

lemma part_length: "finite S \<Longrightarrow> length (part uuid msg S) = card S"
  by (simp add: part_def)

lemma part_all: "combineBlobs (part uuid msg {0..<blob_count msg}) = msg"
  using pieces_join [of uuid msg] by (simp add: combineBlobs_def part_def o_def)

lemma getBdStr_piece:
  assumes ok: "sendable uuid msg" and n: "1 < blob_count msg" and i: "i < blob_count msg" "i \<notin> S"
    and S: "finite S" and m: "cmap_ok m0" "cmap_find m0 uuid = None"
    and st: "m = (if S = {} then m0 else cmap_set uuid (part uuid msg S) m0)" and sub: "S \<subseteq> {0..<blob_count msg}"
  shows "getBdStr mem (blob_to_str (piece uuid msg i)) m = Inr (
    if insert i S = {0..<blob_count msg} then (Some msg, m0)
    else (None, cmap_set uuid (part uuid msg (insert i S)) m0))"
proof -
  have b: "b_total (piece uuid msg i) = blob_count msg" "b_uuid (piece uuid msg i) = uuid" "b_seqNum (piece uuid msg i) = Suc i"
    by (simp_all add: piece_def new_blob_def)
  have full: "card (insert i S) = blob_count msg \<longleftrightarrow> insert i S = {0..<blob_count msg}"
  proof
    assume "card (insert i S) = blob_count msg"
    then show "insert i S = {0..<blob_count msg}" using sub i(1) by (intro card_subset_eq) simp_all
  qed simp
  note s = piece_received [OF ok i(1), of mem]
  show ?thesis
  proof (cases "S = {}")
    case True
    then have "[(Suc i, piece uuid msg i)] = part uuid msg (insert i S)" by (simp add: part_def)
    moreover have "insert i S \<noteq> {0..<blob_count msg}" using full True n by auto
    ultimately show ?thesis using True n m st s b by (simp add: getBdStr_def)
  next
    case False
    then have f: "cmap_find m uuid = Some (part uuid msg S)" using st m by (simp add: cm.find_upd)
    show ?thesis
    proof (cases "insert i S = {0..<blob_count msg}")
      case True
      then have "length (part uuid msg (insert i S)) = blob_count msg" using full S by (simp add: part_length)
      then show ?thesis
        using False n m st s b f True
        by (simp add: getBdStr_def part_insert [OF S i(2)] set_set deleteBlobs_def erase_set part_all)
    next
      case part: False
      then have "length (part uuid msg (insert i S)) \<noteq> blob_count msg" using full S by (simp add: part_length)
      then show ?thesis
        using False n m st s b f part by (simp add: getBdStr_def part_insert [OF S i(2)] set_set)
    qed
  qed
qed

lemma feed_pieces:
  assumes ok: "sendable uuid msg" and n: "1 < blob_count msg" and m: "cmap_ok m0" "cmap_find m0 uuid = None"
    and js: "js \<noteq> []" "distinct js" "set js \<union> S = {0..<blob_count msg}" "set js \<inter> S = {}"
  shows "feed mem (map (\<lambda>i. blob_to_str (piece uuid msg i)) js) (if S = {} then m0 else cmap_set uuid (part uuid msg S) m0) =
    Inr (replicate (length js - 1) None @ [Some msg], m0)"
  using js
proof (induction js arbitrary: S)
  case (Cons i js)
  have i: "i < blob_count msg" "i \<notin> S" and S: "S \<subseteq> {0..<blob_count msg}" using Cons.prems by auto
  have fin: "finite S" using S by (rule finite_subset) simp
  note g = getBdStr_piece [OF ok n i fin m refl S, of mem]
  show ?case
  proof (cases "js = []")
    case True
    then have "insert i S = {0..<blob_count msg}" using Cons.prems(3) by auto
    then show ?thesis using True g by simp
  next
    case False
    then obtain j where "j \<in> set js" by (cases js) auto
    then have "j \<in> {0..<blob_count msg}" "j \<notin> insert i S" using Cons.prems by auto
    then have ne: "insert i S \<noteq> {0..<blob_count msg}" by blast
    have "feed mem (map (\<lambda>i. blob_to_str (piece uuid msg i)) js) (cmap_set uuid (part uuid msg (insert i S)) m0) =
        Inr (replicate (length js - 1) None @ [Some msg], m0)"
      using Cons.IH [of "insert i S"] False Cons.prems by auto
    then show ?thesis using g ne False by (cases js) simp_all
  qed
qed simp

text \<open>The order in which the blobs arrive is given by a permutation of their positions.\<close>

lemma feed_message:
  assumes ok: "sendable uuid msg" and m: "cmap_ok m" "cmap_find m uuid = None"
    and js: "mset js = mset [0..<length (fst (bsend uuid msg))]"
  shows "feed mem (map (\<lambda>j. fst (bsend uuid msg) ! j) js) m = Inr (replicate (length js - 1) None @ [Some msg], m)"
proof -
  have len: "length (fst (bsend uuid msg)) = blob_count msg" by (simp add: bsend_def bd_split_pieces)
  have d: "distinct js" "set js = {0..<blob_count msg}"
    using mset_eq_imp_distinct_iff [OF js] mset_eq_setD [OF js] by (simp_all add: len)
  have b: "map (\<lambda>j. fst (bsend uuid msg) ! j) js = map (\<lambda>i. blob_to_str (piece uuid msg i)) js"
    using d(2) by (auto simp: bsend_def bd_split_pieces)
  have pos: "0 < blob_count msg" using ok by (auto simp: sendable_def blob_count_def BLOB_SIZE_eq div_greater_zero_iff dest: dvd_imp_le)
  show ?thesis
  proof (cases "blob_count msg = 1")
    case True
    then have "js = [0]" using d by (cases js) (auto simp: subset_singleton_iff)
    moreover have "b_value (piece uuid msg 0) = msg" using pieces_join [of uuid msg] True by simp
    moreover have "b_total (piece uuid msg 0) = 1" using True by (simp add: piece_def new_blob_def)
    ultimately show ?thesis
      unfolding b using piece_received [OF ok, of 0 mem] True by (simp add: getBdStr_def)
  next
    case False
    then have n: "1 < blob_count msg" "js \<noteq> []" using pos d(2) by auto
    show ?thesis unfolding b using feed_pieces [OF ok n(1) m n(2) d(1), of "{}"] d(2) by simp
  qed
qed

lemma loopedrecv_feed:
  "feed mem bufs m = Inr (replicate k None @ [Some s], m') \<Longrightarrow> list_all (\<lambda>b. b \<noteq> []) bufs \<Longrightarrow>
    loopedrecv mem (map Some bufs @ rest) m = Inr (int (length s), s)"
proof (induction bufs arbitrary: m k)
  case (Cons b bufs)
  then show ?case by (cases k) (auto simp: bind_res_eq_Inr)
qed simp

lemma feed_Nil: "feed mem bufs m = Inr ([], m') \<Longrightarrow> bufs = [] \<and> m' = m"
  by (cases bufs) (auto simp: bind_res_eq_Inr)

lemma serve_conn_feed:
  "feed mem bufs m = Inr (replicate k None @ [Some s], m') \<Longrightarrow> list_all (\<lambda>b. b \<noteq> []) bufs \<Longrightarrow>
    serve_conn process mem (map Some bufs @ rest) m st =
      bind_res (process (c_str s) st) (\<lambda>st'. serve_conn process mem rest m' st')"
proof (induction bufs arbitrary: m k)
  case (Cons b bufs)
  then show ?case by (cases k) (auto simp: bind_res_eq_Inr dest!: feed_Nil)
qed simp

section \<open>Properties\<close>

lemma blob_nonempty: "blob_to_str b \<noteq> []"
  by (simp add: blob_to_str_def blob_format_def)

lemma sent_nonempty: "j < length (fst (bsend uuid msg)) \<Longrightarrow> fst (bsend uuid msg) ! j \<noteq> []"
  using blob_nonempty by (auto simp: bsend_def)

lemma bsend_count: "sendable uuid msg \<Longrightarrow> snd (bsend uuid msg) = int (length msg)"
proof -
  assume ok: "sendable uuid msg"
  have "int (length (blob_to_str (piece uuid msg i))) - int getHeaderLen = int (length (b_value (piece uuid msg i)))"
    if "i < blob_count msg" for i
  proof -
    have b: "blob_ok (piece uuid msg i)" by (rule piece_ok [OF ok that])
    then have "b_uuid (piece uuid msg i) < 10 ^ 20" by (simp add: blob_ok_def)
    with b show ?thesis
      by (simp add: blob_to_str_def getHeaderLen_def getUuidLen_def getCountLen_def getSizeLen_def blob_ok_def blob_format_length)
  qed
  then have "snd (bsend uuid msg) = sum_list (map (\<lambda>i. int (length (b_value (piece uuid msg i)))) [0..<blob_count msg])"
    by (auto simp: bsend_def bd_split_pieces o_def intro!: arg_cong [where f = sum_list])
  also have "\<dots> = int (length (concat (map (\<lambda>i. b_value (piece uuid msg i)) [0..<blob_count msg])))"
    by (simp add: length_concat o_def sum_list_of_nat [symmetric])
  finally show ?thesis by (simp only: pieces_join)
qed


text \<open>Property C38. A stream has no message boundaries, but the receiver takes what one \<open>recv\<close> returns for one
  blob: two short messages that arrive together are read as one, the header of the second included.\<close>

theorem joined_blobs_misread:
  assumes "sendable u1 m1" and "sendable u2 m2" and "blob_count m1 = 1" and "blob_count m2 = 1"
    and "fst (bsend u1 m1) = [s1]" and "fst (bsend u2 m2) = [s2]" and "length (s1 @ s2) \<le> ENV_BUF_SIZE"
  shows "getBdStr mem (s1 @ s2) m = Inr (Some (m1 @ s2), m)"
proof -
  have s: "s1 = blob_to_str (piece u1 m1 0)" "s2 = blob_to_str (piece u2 m2 0)"
    using assms(3-6) by (simp_all add: bsend_def bd_split_pieces)
  have r: "received mem (s1 @ s2) = s1 @ s2" using piece_clean [OF assms(1)] piece_clean [OF assms(2)] by (intro received_id) (simp add: s)
  have v: "b_value (piece u1 m1 0) = m1" using pieces_join [of u1 m1] assms(3) by simp
  let ?b = "(piece u1 m1 0)\<lparr>b_value := m1 @ s2\<rparr>"
  have "blob_ok ?b" using piece_ok [OF assms(1), of 0] assms(3) by (simp add: blob_ok_def)
  moreover have "blob_to_str ?b = s1 @ s2" using v by (simp add: s(1) blob_to_str_def)
  ultimately have "blob_assign (s1 @ s2) = Inr ?b" using blob_roundtrip [of ?b] by simp
  moreover have "b_total ?b = 1" using assms(3) by (simp add: piece_def new_blob_def)
  ultimately show ?thesis using r by (simp add: getBdStr_def)
qed

lemma demo_sendable: "sendable 1 ''hello''" "sendable 2 ''world''" "blob_count ''hello'' = 1" "blob_count ''world'' = 1"
  by (simp_all add: sendable_def blob_count_def BLOB_SIZE_eq)


theorem joined_blobs_misread_witness:
  "getBdStr [] (blob_to_str (piece 1 ''hello'' 0) @ blob_to_str (piece 2 ''world'' 0)) [] =
     Inr (Some (''hello'' @ blob_to_str (piece 2 ''world'' 0)), [])"
proof -
  have "length (blob_to_str (piece 1 ''hello'' 0) @ blob_to_str (piece 2 ''world'' 0)) \<le> ENV_BUF_SIZE"
    by (simp add: ENV_BUF_SIZE_def) code_simp
  then show ?thesis
    by (intro joined_blobs_misread [OF demo_sendable]) (simp_all add: bsend_def bd_split_pieces demo_sendable(3,4))
qed

end
