(* ===== verification/Blob_Transport.thy ===== *)
theory Blob_Transport
  imports Zht_Service Big_Data
begin

text \<open>
  The TCP transport of ZHT in full (\<^verbatim>\<open>ZHT/src/tcp_proxy_stub.cpp\<close> and \<^verbatim>\<open>ip_proxy_stub.cpp\<close>): the client's
  cache of connections and of their mutexes, and a request that travels in blobs to the server, is
  collected and handled there, and whose answer travels back in blobs. The last section shows that a
  client over this transport still sees a map.
\<close>

section \<open>Message identifiers\<close>

text \<open>\<open>rand\<close> is a parameter: the results of the calls of \<open>rand()\<close>, in order, and the number of the next.
  A call at a server takes its number from the same sequence, which may be any.\<close>

definition alphanum :: string where
  "alphanum = ''0123456789ABCDEFGHIJKLMNOPQRSTUVWXYZabcdefghijklmnopqrstuvwxyz''"

definition randomString :: "(nat \<Rightarrow> nat) \<Rightarrow> nat \<Rightarrow> nat \<Rightarrow> string" where
  "randomString rnd i len = map (\<lambda>j. alphanum ! (rnd j mod length alphanum)) [i..<i + len]"

definition genId :: "(nat \<Rightarrow> nat) \<Rightarrow> nat \<Rightarrow> 64 word" where
  "genId rnd i = genHash (randomString rnd i 62)"

section \<open>The connection cache\<close>

text \<open>\<open>CONN_CACHE\<close> and \<open>MUTEX_CACHE\<close>; a mutex is known by its key.\<close>

record tcp_proxy =
  p_conn :: "(string, int) cmap"
  p_mutex :: "(string, unit) cmap"

definition genBase :: "string \<Rightarrow> int \<Rightarrow> string" where
  "genBase host port = host @ '':'' @ num_to_str port"

definition getSockMutex :: "string \<Rightarrow> int \<Rightarrow> 'a tcp_proxy_scheme \<Rightarrow> unit option" where
  "getSockMutex host port px = cmap_find (p_mutex px) (genBase host port)"

definition putSockMutex :: "string \<Rightarrow> int \<Rightarrow> 'a tcp_proxy_scheme \<Rightarrow> 'a tcp_proxy_scheme" where
  "putSockMutex host port px =
     (if cmap_find (p_mutex px) (genBase host port) = None
      then px\<lparr>p_mutex := cmap_set (genBase host port) () (p_mutex px)\<rparr> else px)"

text \<open>\<open>connect\<close> is what \<open>makeClientSocket\<close> gets from the system: a descriptor, or -1.\<close>

definition getSockCached :: "(string \<Rightarrow> int \<Rightarrow> int) \<Rightarrow> string \<Rightarrow> int \<Rightarrow> 'a tcp_proxy_scheme \<Rightarrow> int \<times> 'a tcp_proxy_scheme" where
  "getSockCached connect host port px =
     (case cmap_find (p_conn px) (genBase host port) of
        Some sock \<Rightarrow> (sock, px)
      | None \<Rightarrow>
          let sock = connect host port in
          if sock \<le> 0 then (-1, px)
          else (sock, putSockMutex host port (px\<lparr>p_conn := cmap_set (genBase host port) sock (p_conn px)\<rparr>)))"

text \<open>\<open>close\<close> and \<open>pthread_mutex_destroy\<close> return 0 on success.\<close>

definition ip_teardown :: "(string \<Rightarrow> int) \<Rightarrow> 'a tcp_proxy_scheme \<Rightarrow> bool \<times> 'a tcp_proxy_scheme" where
  "ip_teardown destroy px = (list_all (\<lambda>e. destroy (fst e) = 0) (p_mutex px), px\<lparr>p_mutex := []\<rparr>)"

definition tcp_teardown :: "(int \<Rightarrow> int) \<Rightarrow> (string \<Rightarrow> int) \<Rightarrow> tcp_proxy \<Rightarrow> bool \<times> tcp_proxy" where
  "tcp_teardown close destroy px =
     (case ip_teardown destroy (px\<lparr>p_conn := []\<rparr>) of
        (result, px') \<Rightarrow> (list_all (\<lambda>e. close (snd e) = 0) (p_conn px) \<and> result, px'))"

section \<open>A request and its answer\<close>

text \<open>The state of the client and the servers: each server collects blobs in one map for all of its
  connections.\<close>

record tcp_state =
  t_proxy :: tcp_proxy
  t_rand :: nat
  t_bdmaps :: "bd_map list"
  t_cluster :: cluster

definition sendTo :: "(nat \<Rightarrow> nat) \<Rightarrow> nat \<Rightarrow> string \<Rightarrow> string list \<times> int" where
  "sendTo rnd i sendbuf = bsend (unat (genId rnd i)) (c_str sendbuf)"

definition sendBack :: "(nat \<Rightarrow> nat) \<Rightarrow> nat \<Rightarrow> string \<Rightarrow> string list \<times> int" where
  "sendBack rnd i sendbuf = bsend (unat (genId rnd i)) (c_str sendbuf)"

text \<open>The worker of the request sends the answer itself; \<open>recvsend\<close> collects what it sends.\<close>

definition tcp_recvsend ::
    "zht_conf \<Rightarrow> (nat \<Rightarrow> nat) \<Rightarrow> string \<Rightarrow> ht_state \<times> nat \<times> string list \<Rightarrow> (ht_state \<times> nat \<times> string list) res" where
  "tcp_recvsend c rnd recvbuf s =
     (case s of (st, i, out) \<Rightarrow>
        bind_res (ht_run (zc_serialize c) (zc_instant_swap c) 0 (c_str recvbuf) st) (\<lambda>(sent, st').
          case sent of
            None \<Rightarrow> Inr (st', i, out)
          | Some buf \<Rightarrow> Inr (st', i + 62, out @ fst (sendBack rnd i buf))))"

text \<open>\<open>recvFrom\<close> copies the received text into the caller's buffer, which holds \<open>MSG_MAXSIZE\<close> zeros.\<close>

definition recvFrom :: "nat \<Rightarrow> string \<Rightarrow> string option list \<Rightarrow> (int \<times> string) res" where
  "recvFrom mx mem cs =
     bind_res (loopedrecv mem cs []) (\<lambda>(count, s). if mx \<le> length s then Inl Undefined else Inr (count, s))"

text \<open>On the descriptor -1 every \<open>send\<close> and \<open>recv\<close> returns -1 at once and the buffer stays empty. Otherwise
  the blobs of the request reach the server one for each \<open>recv\<close>, then there is nothing to read
  (\<open>EAGAIN\<close>), and so for the answer.\<close>

definition tcp_sendrecv ::
    "zht_conf \<Rightarrow> (string \<Rightarrow> int \<Rightarrow> int) \<Rightarrow> (nat \<Rightarrow> nat) \<Rightarrow> string \<Rightarrow> tcp_state transport" where
  "tcp_sendrecv c connect rnd mem msg t =
     bind_res (getHostEntityByKey (zc_neighbors c) msg) (\<lambda>he.
       case getSockCached connect (he_host he) (he_port he) (t_proxy t) of (sock, px) \<Rightarrow>
         let i = server_index (length (zc_neighbors c)) (bytes_of (z_key (str_to_zpack msg)));
             blobs = fst (sendTo rnd (t_rand t) msg);
             t' = t\<lparr>t_proxy := px, t_rand := t_rand t + 62\<rparr> in
         if sock < 0
         then bind_res (recvFrom (zc_msg_maxsize c) mem [None]) (\<lambda>(_, buf). Inr (buf, t'))
         else bind_res (serve_conn (tcp_recvsend c rnd) mem (map Some blobs @ [None])
                          (t_bdmaps t ! i) (t_cluster t ! i, t_rand t', [])) (\<lambda>(_, bdm, st, r, out).
              bind_res (recvFrom (zc_msg_maxsize c) mem (map Some out)) (\<lambda>(_, buf).
                Inr (buf, t'\<lparr>t_rand := r, t_bdmaps := (t_bdmaps t)[i := bdm], t_cluster := (t_cluster t)[i := st]\<rparr>))))"

section \<open>The caches\<close>

text \<open>Every cached connection has a positive descriptor and a mutex.\<close>

definition proxy_ok :: "'a tcp_proxy_scheme \<Rightarrow> bool" where
  "proxy_ok px \<longleftrightarrow> cmap_ok (p_conn px) \<and> cmap_ok (p_mutex px)
     \<and> (\<forall>k sock. cmap_find (p_conn px) k = Some sock \<longrightarrow> 0 < sock \<and> cmap_find (p_mutex px) k \<noteq> None)"

lemma getSockCached_ok:
  assumes "proxy_ok px" and "getSockCached connect host port px = (sock, px')"
  shows "proxy_ok px'" and "0 < sock \<longleftrightarrow> getSockMutex host port px' \<noteq> None \<and> cmap_find (p_conn px') (genBase host port) = Some sock"
    and "0 < connect host port \<Longrightarrow> 0 < sock" and "0 < sock \<or> sock = -1 \<and> px' = px"
  using assms
  by (auto simp: proxy_ok_def getSockCached_def putSockMutex_def getSockMutex_def Let_def cm.find_upd cm.invar_upd
      split: option.splits if_splits)

lemma teardown_empty: "proxy_ok (snd (tcp_teardown close destroy px))"
  by (simp add: tcp_teardown_def ip_teardown_def proxy_ok_def cm.invar_empty cm.find_empty)

section \<open>Replies\<close>

lemma c_str_idem [simp]: "c_str (c_str s) = c_str s"
  by (simp add: c_str_def)

lemma c_str_no_nul: "CHR 0x00 \<notin> set (c_str s)"
  by (auto simp: c_str_def dest: set_takeWhileD)

lemma c_str_code: "is_code code \<Longrightarrow> c_str (code @ s) \<noteq> []"
  by (cases code) (auto simp: c_str_def is_code_def)

lemma finish_write_code: "finish_write inst r = Inr (s, m) \<Longrightarrow> is_code s"
  by (auto simp: finish_write_def codes_ok bind_res_eq_Inr split: prod.splits if_splits)

lemma code_emptykey: "is_code ZSC_REC_EMPTYKEY"
  by (simp add: is_code_def zsc_defs)

lemma insert_code: "insert_shared inst z m = Inr (s, m') \<Longrightarrow> is_code s"
  by (auto simp: insert_shared_def code_emptykey split: if_splits dest: finish_write_code)

lemma cmpswp_code: "compare_swap_internal inst z m = Inr (s, m') \<Longrightarrow> is_code s"
  by (auto simp: compare_swap_internal_def bind_res_eq_Inr Let_def codes_ok split: if_splits dest: insert_code)

definition coded :: "string \<Rightarrow> bool" where
  "coded out \<longleftrightarrow> (\<exists>code rest. is_code code \<and> out = code @ rest)"

lemma codedI: "is_code code \<Longrightarrow> coded (code @ rest)" "is_code code \<Longrightarrow> coded code"
  unfolding coded_def by (blast, metis append_Nil2)

lemma coded_c_str: "coded out \<Longrightarrow> c_str out \<noteq> []"
  using c_str_code by (auto simp: coded_def)

lemma lookup_coded: "coded (lookup_shared z m)"
  using codes_ok code_emptykey by (simp add: lookup_shared_def codedI split: option.splits)

lemma reply_coded: "reply x st = Inr (Some out, st') \<Longrightarrow> (\<And>s m. x = Inr (s, m) \<Longrightarrow> is_code s) \<Longrightarrow> coded out"
  by (auto simp: reply_def bind_res_eq_Inr intro: codedI)

lemma compare_swap_coded: "compare_swap inst z m = Inr (Some out, m') \<Longrightarrow> coded out"
  by (auto simp: compare_swap_def bind_res_eq_Inr split: if_splits dest: cmpswp_code intro: codedI)

text \<open>Every answer begins with a status code.\<close>

lemma ht_run_coded:
  assumes "ht_run ser inst addr buf st = Inr (Some out, st')"
  shows "coded out"
proof -
  have a: "append_shared ser inst z m = Inr (s, m') \<Longrightarrow> is_code s" "remove_shared inst z m = Inr (s, m') \<Longrightarrow> is_code s" for z m s m'
    by (auto simp: append_shared_def remove_shared_def code_emptykey split: if_splits dest: finish_write_code)
  show ?thesis
    using assms lookup_coded unfolding ht_run_def Let_def
    by (auto simp: bind_res_eq_Inr split: if_splits
        dest: compare_swap_coded reply_coded [OF _ insert_code] reply_coded [OF _ a(1)] reply_coded [OF _ a(2)])
qed

lemma blob_count_small:
  assumes "length msg < 2 * 10 ^ 9"
  shows "blob_count msg < 10 ^ 7 - 1"
proof -
  have "length msg div 512 \<le> 2 * 10 ^ 9 div 512" using assms by (intro div_le_mono) simp
  then show ?thesis by (simp add: blob_count_def BLOB_SIZE_eq)
qed

lemma sendable_c_str:
  assumes "c_str s \<noteq> []" and "length s < 2 * 10 ^ 9"
  shows "sendable (unat (w :: 64 word)) (c_str s)"
proof -
  have "length (c_str s) \<le> length s" by (simp add: c_str_def length_takeWhile_le)
  then have "blob_count (c_str s) < 10 ^ 7 - 1" using assms(2) by (intro blob_count_small) simp
  moreover have "unat w < 2 ^ 64" using unsigned_less [of w] by simp
  ultimately show ?thesis using assms(1) c_str_no_nul by (simp add: sendable_def)
qed

section \<open>Transparency\<close>

text \<open>The state between two requests: no blob is left at a server.\<close>

definition tcp_ok :: "zht_conf \<Rightarrow> tcp_state \<Rightarrow> bool" where
  "tcp_ok c t \<longleftrightarrow> proxy_ok (t_proxy t) \<and> t_bdmaps t = replicate (length (zc_neighbors c)) []"

definition reachable_hosts :: "zht_conf \<Rightarrow> (string \<Rightarrow> int \<Rightarrow> int) \<Rightarrow> bool" where
  "reachable_hosts c connect \<longleftrightarrow> (\<forall>(h, p) \<in> set (zc_neighbors c). 0 < connect h (toInt p))"

lemma in_order: "map (\<lambda>j. Some (xs ! j)) [0..<length xs] = map Some xs"
  by (rule nth_equalityI) simp_all

lemma blobs_in_order:
  assumes "sendable uuid msg"
  shows "loopedrecv mem (map Some (fst (bsend uuid msg))) [] = Inr (int (length msg), msg)"
    and "serve_conn process mem (map Some (fst (bsend uuid msg)) @ [None]) [] s = bind_res (process msg s) (\<lambda>s'. Inr (False, [], s'))"
proof -
  let ?bs = "fst (bsend uuid msg)"
  have f: "feed mem (map (\<lambda>j. ?bs ! j) [0..<length ?bs]) [] = Inr (replicate (length [0..<length ?bs] - 1) None @ [Some msg], [])"
    using assms by (rule feed_message) (simp_all add: cm.invar_empty cm.find_empty)
  have ne: "list_all (\<lambda>b. b \<noteq> []) (map (\<lambda>j. ?bs ! j) [0..<length ?bs])"
    using sent_nonempty [of _ uuid msg] by (simp add: list_all_iff)
  have "c_str msg = msg" using assms by (intro c_str_id) (simp add: sendable_def)
  then show "loopedrecv mem (map Some ?bs) [] = Inr (int (length msg), msg)"
    "serve_conn process mem (map Some ?bs @ [None]) [] s = bind_res (process msg s) (\<lambda>s'. Inr (False, [], s'))"
    using loopedrecv_feed [OF f ne, of "[]"] serve_conn_feed [OF f ne, of process "[None]" s] by (simp_all add: map_nth)
qed

lemma tcp_sendrecv_transparent:
  assumes conn: "reachable_hosts c connect" and mx: "zc_msg_maxsize c \<le> 10 ^ 9" and t: "tcp_ok c t"
    and msg: "c_str msg \<noteq> []" "length msg < 2 * 10 ^ 9"
    and z: "zht_sendrecv c msg (t_cluster t) = Inr (buf, ss)"
  shows "\<exists>t'. tcp_sendrecv c connect rnd mem msg t = Inr (c_str buf, t') \<and> t_cluster t' = ss \<and> tcp_ok c t'"
proof -
  let ?i = "server_index (length (zc_neighbors c)) (bytes_of (z_key (str_to_zpack msg)))"
  obtain he st where he: "getHostEntityByKey (zc_neighbors c) msg = Inr he"
    and run: "ht_run (zc_serialize c) (zc_instant_swap c) 0 (c_str msg) (t_cluster t ! ?i) = Inr (Some buf, st)"
    and len: "length buf < zc_msg_maxsize c" and ss: "ss = (t_cluster t)[?i := st]"
    using z by (auto simp: zht_sendrecv_def bind_res_eq_Inr Let_def split: option.splits if_splits)
  obtain h p where "he_host he = h" "he_port he = toInt p" "(h, p) \<in> set (zc_neighbors c)"
    using he nth_mem [of ?i "zc_neighbors c"]
    by (auto simp: getHostEntityByKey_def bind_res_eq_Inr Let_def vec_at_def buildHostEntity_def simp del: nth_mem
        split: if_splits)
  then have "0 < connect (he_host he) (he_port he)" using conn by (auto simp: reachable_hosts_def)
  moreover obtain sock px where sk: "getSockCached connect (he_host he) (he_port he) (t_proxy t) = (sock, px)" by fastforce
  ultimately have sock: "\<not> sock < 0" "proxy_ok px" using getSockCached_ok [OF _ sk] t by (auto simp: tcp_ok_def)
  have n: "zc_neighbors c \<noteq> []" using he by (auto simp: getHostEntityByKey_def)
  then have m: "t_bdmaps t ! ?i = []" using t by (simp add: tcp_ok_def server_index_def)
  have cb: "c_str buf \<noteq> []" using ht_run_coded [OF run] by (rule coded_c_str)
  have lb: "length (c_str buf) < zc_msg_maxsize c"
    using len length_takeWhile_le [of "\<lambda>ch. ch \<noteq> CHR 0x00" buf] by (simp add: c_str_def)
  note req = blobs_in_order(2) [OF sendable_c_str [OF msg]]
  have rep: "loopedrecv mem (map Some (fst (sendBack rnd i buf))) [] = Inr (int (length (c_str buf)), c_str buf)" for i
    unfolding sendBack_def using cb len mx by (intro blobs_in_order(1) sendable_c_str) simp_all
  let ?r = "t_rand t + 62"
  have ser: "serve_conn (tcp_recvsend c rnd) mem (map Some (fst (sendTo rnd (t_rand t) msg)) @ [None]) (t_bdmaps t ! ?i)
      (t_cluster t ! ?i, ?r, []) = Inr (False, [], st, ?r + 62, fst (sendBack rnd ?r buf))"
    unfolding sendTo_def m req by (simp add: tcp_recvsend_def run)
  have rcv: "recvFrom (zc_msg_maxsize c) mem (map Some (fst (sendBack rnd ?r buf))) = Inr (int (length (c_str buf)), c_str buf)"
    using lb by (simp add: recvFrom_def rep)
  let ?t = "t\<lparr>t_proxy := px, t_rand := ?r + 62, t_bdmaps := (t_bdmaps t)[?i := []], t_cluster := ss\<rparr>"
  have "tcp_sendrecv c connect rnd mem msg t = Inr (c_str buf, ?t)"
    using sock(1) by (simp add: tcp_sendrecv_def he sk Let_def ser rcv ss)
  moreover have "(t_bdmaps t)[?i := []] = t_bdmaps t" using m by (metis list_update_id)
  ultimately show ?thesis using t sock(2) by (auto simp: tcp_ok_def)
qed

section \<open>The client over this transport\<close>

lemma request_text:
  assumes "key_ok mx k" and "v = [] \<or> val_ok mx v" and "w = [] \<or> val_ok mx w" and "mx \<le> 10 ^ 9"
    and "opc \<in> {ZSC_OPC_LOOKUP, ZSC_OPC_REMOVE, ZSC_OPC_INSERT, ZSC_OPC_APPEND, ZSC_OPC_CMPSWP}"
  shows "c_str (zpack_to_str (request opc k v w 1)) \<noteq> []" and "length (zpack_to_str (request opc k v w 1)) < 2 * 10 ^ 9"
proof -
  have "c_str (zpack_to_str (request opc k v w 1)) = zpack_to_str (request opc k v w 1)"
    by (rule c_str_id [OF zpack_no_nul [OF request_ok [OF assms(1-3,5)]]])
  then show "c_str (zpack_to_str (request opc k v w 1)) \<noteq> []" by (simp add: zpack_to_str_def)
  have "length (zpack_to_str (request opc k v w 1)) \<le> length k + length v + length w + 60"
    using assms(5)
    by (auto simp: zpack_to_str_def request_def put_str_def zsc_defs bool_to_str_def num_to_str_def digits.simps)
  moreover have "length k + length v + length w + 60 < 2 * 10 ^ 9"
    using assms(1-4) by (auto simp: key_ok_def val_ok_def)
  ultimately show "length (zpack_to_str (request opc k v w 1)) < 2 * 10 ^ 9" by simp
qed

text \<open>What the client relies on: a transport that gives the answer of the server of the key, up to a NUL, whenever its
  state is \<open>up\<close>, and keeps it so. Everything the client does over it is then what it does over \<open>zht_sendrecv\<close>.\<close>

definition ops_over :: "'t transport \<Rightarrow> 't zht_ops" where
  "ops_over sr = \<lparr>zlookup = (\<lambda>k. zc_lookup sr k []), zinsert = zc_insert sr, zcswap = (\<lambda>k v w. zc_compare_swap sr k v w []), zremove = zc_remove sr\<rparr>"

lemma commonOp_unfold:
  assumes "opc \<in> {ZSC_OPC_LOOKUP, ZSC_OPC_REMOVE, ZSC_OPC_INSERT, ZSC_OPC_APPEND, ZSC_OPC_CMPSWP}" and "k \<noteq> []"
  shows "commonOp sr opc k v w r 1 s = bind_res (sr (zpack_to_str (request opc k v w 1)) s) (\<lambda>(buf, s'). bind_res
       (if c_str buf = [] then Inr (ZSC_REC_SRVEXP, r, s') else if length (c_str buf) < 3 then Inl Out_Of_Range
        else Inr (take 3 (c_str buf), drop 3 (c_str buf), s'))
       (\<lambda>(sstatus, result', s''). Inr (if sstatus = [] then ZSI_REC_CLTFAIL else toInt sstatus, result', s'')))"
proof -
  have o: "opc \<in> {ZSC_OPC_LOOKUP, ZSC_OPC_REMOVE, ZSC_OPC_INSERT, ZSC_OPC_APPEND, ZSC_OPC_CMPSWP, ZSC_OPC_STCHGCB}"
    using assms(1) by blast
  show ?thesis
    unfolding commonOp_def commonOpInternal_def
    by (simp only: o assms(2) not_True_eq_False if_False) (cases "sr (zpack_to_str (request opc k v w 1)) s"; auto simp: Let_def)
qed

locale transparent_transport =
  fixes c :: zht_conf and sr :: "'t transport" and cluster_of :: "'t \<Rightarrow> cluster" and up :: "'t \<Rightarrow> bool"
  assumes small: "up t \<Longrightarrow> zc_msg_maxsize c \<le> 10 ^ 9"
    and transparent: "up t \<Longrightarrow> c_str msg \<noteq> [] \<Longrightarrow> length msg < 2 * 10 ^ 9 \<Longrightarrow> zht_sendrecv c msg (cluster_of t) = Inr (buf, ss) \<Longrightarrow>
      \<exists>t'. sr msg t = Inr (c_str buf, t') \<and> cluster_of t' = ss \<and> up t'"
begin

lemma commonOp_over:
  assumes "up t"
    and k: "key_ok (zc_msg_maxsize c) k" "v = [] \<or> val_ok (zc_msg_maxsize c) v" "w = [] \<or> val_ok (zc_msg_maxsize c) w"
    and opc: "opc \<in> {ZSC_OPC_LOOKUP, ZSC_OPC_REMOVE, ZSC_OPC_INSERT, ZSC_OPC_APPEND, ZSC_OPC_CMPSWP}"
    and op: "commonOp (zht_sendrecv c) opc k v w r 1 (cluster_of t) = Inr (rc, result, ss)"
  shows "\<exists>t'. commonOp sr opc k v w r 1 t = Inr (rc, result, t') \<and> cluster_of t' = ss \<and> up t'"
proof -
  let ?q = "zpack_to_str (request opc k v w 1)"
  note unf = commonOp_unfold [OF opc ok_nonempty(1) [OF k(1)]]
  obtain buf ss1 where b1: "zht_sendrecv c ?q (cluster_of t) = Inr (buf, ss1)"
    using op by (cases "zht_sendrecv c ?q (cluster_of t)") (auto simp: unf)
  have ss1: "ss1 = ss" using op b1 by (simp add: unf split: if_splits)
  obtain t' where t': "sr ?q t = Inr (c_str buf, t')" "cluster_of t' = ss" "up t'"
    using transparent [OF assms(1) request_text [OF k small [OF assms(1)] opc] b1 [unfolded ss1]] by blast
  have "commonOp sr opc k v w r 1 t = Inr (rc, result, t')" using op b1 t' by (simp add: unf ss1 split: if_splits)
  with t' show ?thesis by blast
qed

lemma zht_do_over:
  assumes "up t" and "zop_ok (zc_msg_maxsize c) x" and "zht_do (zht_ops_of c) x (cluster_of t) = Inr (rc, out, ss)"
  shows "\<exists>t'. zht_do (ops_over sr) x t = Inr (rc, out, t') \<and> cluster_of t' = ss \<and> up t'"
proof (cases x)
  case (ZLookup k)
  then show ?thesis
    using assms(2,3) commonOp_over [OF assms(1), where k = k and v = "[]" and w = "[]" and opc = ZSC_OPC_LOOKUP and r = "[]"]
    by (fastforce simp: zht_ops_of_def ops_over_def zc_lookup_def bind_res_eq_Inr)
next
  case (ZInsert k v)
  then show ?thesis
    using assms(2,3) commonOp_over [OF assms(1), where k = k and v = v and w = "[]" and opc = ZSC_OPC_INSERT and r = "[]"]
    by (fastforce simp: zht_ops_of_def ops_over_def zc_insert_def bind_res_eq_Inr)
next
  case (ZCswap k v w)
  then show ?thesis
    using assms(2,3) commonOp_over [OF assms(1), where k = k and v = v and w = w and opc = ZSC_OPC_CMPSWP and r = "[]"]
    by (fastforce simp: zht_ops_of_def ops_over_def zc_compare_swap_def bind_res_eq_Inr)
next
  case (ZRemove k)
  then show ?thesis
    using assms(2,3) commonOp_over [OF assms(1), where k = k and v = "[]" and w = "[]" and opc = ZSC_OPC_REMOVE and r = "[]"]
    by (fastforce simp: zht_ops_of_def ops_over_def zc_remove_def bind_res_eq_Inr)
qed

lemma zht_run_over:
  assumes "up t" and "list_all (zop_ok (zc_msg_maxsize c)) ops" and "zht_run_ops (zht_ops_of c) ops (cluster_of t) = Inr (outs, ss)"
  shows "\<exists>t'. zht_run_ops (ops_over sr) ops t = Inr (outs, t') \<and> cluster_of t' = ss \<and> up t'"
  using assms
proof (induction ops arbitrary: t outs)
  case (Cons x xs)
  obtain rc out s1 outs' where 1: "zht_do (zht_ops_of c) x (cluster_of t) = Inr (rc, out, s1)"
      "zht_run_ops (zht_ops_of c) xs s1 = Inr (outs', ss)" "outs = (rc, out) # outs'"
    using Cons.prems(3) by (auto simp: bind_res_eq_Inr)
  obtain t1 where t1: "zht_do (ops_over sr) x t = Inr (rc, out, t1)" "cluster_of t1 = s1" "up t1"
    using zht_do_over [OF Cons.prems(1) _ 1(1)] Cons.prems(2) by auto
  with Cons.IH [of t1 outs'] Cons.prems(2) 1 show ?case by auto
qed simp

lemma refines_map:
  assumes "deployed c (cluster_of t)" and "up t" and "list_all (zop_ok (zc_msg_maxsize c)) ops"
  shows "\<exists>t'. zht_run_ops (ops_over sr) ops t = Inr (fst (spec_run ops (zht_value c (cluster_of t))), t')
    \<and> deployed c (cluster_of t') \<and> up t' \<and> zht_value c (cluster_of t') = snd (spec_run ops (zht_value c (cluster_of t)))"
proof -
  from zht_run_refines [OF assms(1,3)] obtain ss where
    "zht_run_ops (zht_ops_of c) ops (cluster_of t) = Inr (fst (spec_run ops (zht_value c (cluster_of t))), ss)"
    "deployed c ss" "zht_value c ss = snd (spec_run ops (zht_value c (cluster_of t)))" by blast
  with zht_run_over [OF assms(2,3), of _ ss] show ?thesis by blast
qed

end

definition tcp_ops_of :: "zht_conf \<Rightarrow> (string \<Rightarrow> int \<Rightarrow> int) \<Rightarrow> (nat \<Rightarrow> nat) \<Rightarrow> string \<Rightarrow> tcp_state zht_ops" where
  "tcp_ops_of c connect rnd mem = ops_over (tcp_sendrecv c connect rnd mem)"

definition tcp_up :: "zht_conf \<Rightarrow> (string \<Rightarrow> int \<Rightarrow> int) \<Rightarrow> tcp_state \<Rightarrow> bool" where
  "tcp_up c connect t \<longleftrightarrow> tcp_ok c t \<and> reachable_hosts c connect \<and> zc_msg_maxsize c \<le> 10 ^ 9"

interpretation tcp: transparent_transport c "tcp_sendrecv c connect rnd mem" t_cluster "tcp_up c connect" for c connect rnd mem
proof unfold_locales
  show "zc_msg_maxsize c \<le> 10 ^ 9" if "tcp_up c connect t" for t using that by (simp add: tcp_up_def)
  show "\<exists>t'. tcp_sendrecv c connect rnd mem msg t = Inr (c_str buf, t') \<and> t_cluster t' = ss \<and> tcp_up c connect t'"
    if "tcp_up c connect t" "c_str msg \<noteq> []" "length msg < 2 * 10 ^ 9" "zht_sendrecv c msg (t_cluster t) = Inr (buf, ss)" for t msg buf ss
    using tcp_sendrecv_transparent [where connect = connect and rnd = rnd and mem = mem, OF _ _ _ that(2-4)] that(1) by (auto simp: tcp_up_def)
qed

section \<open>Properties\<close>


text \<open>Property C40. A server that cannot be reached is reported: a lookup returns the code -98 and nothing
  changes but the identifiers used, although \<open>sendrecv\<close> itself cannot notice (its \<open>recvcount\<close> is
  unsigned).\<close>

theorem unreachable_server_reported:
  assumes "key_ok (zc_msg_maxsize c) k" and "getHostEntityByKey (zc_neighbors c) (zpack_to_str (request ZSC_OPC_LOOKUP k [] [] 1)) = Inr he"
    and "connect (he_host he) (he_port he) \<le> 0" and "cmap_find (p_conn (t_proxy t)) (genBase (he_host he) (he_port he)) = None"
    and "0 < zc_msg_maxsize c"
  shows "zc_lookup (tcp_sendrecv c connect rnd mem) k [] t = Inr (toInt ZSC_REC_SRVEXP, [], t\<lparr>t_rand := t_rand t + 62\<rparr>)"
proof -
  have "tcp_sendrecv c connect rnd mem (zpack_to_str (request ZSC_OPC_LOOKUP k [] [] 1)) t = Inr ([], t\<lparr>t_rand := t_rand t + 62\<rparr>)"
    using assms by (simp add: tcp_sendrecv_def getSockCached_def recvFrom_def Let_def)
  moreover have "c_str [] = []" "extract_value [] = []" by (simp_all add: c_str_def) code_simp
  ultimately show ?thesis
    using ok_nonempty(1) [OF assms(1)]
    by (simp add: zc_lookup_def commonOp_def commonOpInternal_def Let_def) (simp add: zsc_defs)
qed

definition demo_tcp :: tcp_state where
  "demo_tcp = \<lparr>t_proxy = \<lparr>p_conn = [], p_mutex = []\<rparr>, t_rand = 0, t_bdmaps = [[], []], t_cluster = demo_cluster\<rparr>"

lemma demo_tcp_ok: "tcp_ok demo_conf demo_tcp" "reachable_hosts demo_conf (\<lambda>_ _. 5)" "zc_msg_maxsize demo_conf \<le> 10 ^ 9"
  by (simp_all add: tcp_ok_def demo_tcp_def demo_conf_def reachable_hosts_def proxy_ok_def cm.invar_empty cm.find_empty)


theorem unreachable_server_reported_witness:
  "zc_lookup (tcp_sendrecv demo_conf (\<lambda>_ _. -1) (\<lambda>i. i) []) ''k'' [] demo_tcp = Inr (toInt ZSC_REC_SRVEXP, [], demo_tcp\<lparr>t_rand := 62\<rparr>)"
proof -
  obtain he where "getHostEntityByKey (zc_neighbors demo_conf) (zpack_to_str (request ZSC_OPC_LOOKUP ''k'' [] [] 1)) = Inr he"
    by (auto simp: getHostEntityByKey_def demo_conf_def vec_at_def server_index_def Let_def)
  then show ?thesis
    using unreachable_server_reported [OF demo_ok(1), of he "\<lambda>_ _. -1" demo_tcp "\<lambda>i. i" "[]"]
    by (simp add: demo_tcp_def cm.find_empty demo_conf_def)
qed

end
