(* ===== verification/Work_Stealing.thy ===== *)
theory Work_Stealing
  imports Complex_Main Task_Flow
begin

text \<open>
  Work stealing in the MATRIX scheduler (\<^verbatim>\<open>matrix/src/scheduler_stub.cpp\<close>): the constructor of the
  scheduler, the random choice of neighbours, the query of their loads, the steal, and the thread that
  repeats this with growing pauses. The results of \<open>rand()\<close> are a sequence with the number of the next
  call; what neighbours send is a function of their index.
\<close>

section \<open>Construction\<close>

text \<open>\<open>(int) (sqrt(n) + 0.5)\<close>, the largest \<open>k\<close> with \<open>k - 1/2 \<le> sqrt n\<close>.\<close>

definition num_neigh :: "nat \<Rightarrow> nat" where
  "num_neigh n = length (filter (\<lambda>k. k * (k - 1) < n) [1..<Suc n])"

fun self_idx_from :: "string \<Rightarrow> nat \<Rightarrow> string list \<Rightarrow> int" where
  "self_idx_from str i [] = -1"
| "self_idx_from str i (s # ss) = (if str = s then int i else self_idx_from str (Suc i) ss)"

definition get_self_idx :: "string \<Rightarrow> string list \<Rightarrow> int" where
  "get_self_idx str strVec = self_idx_from str 0 strVec"

definition reset_choosebm :: "sched \<Rightarrow> sched" where
  "reset_choosebm st = st\<lparr>sc_chooseBitMap := replicate (length (sc_vec st)) False\<rparr>"

text \<open>\<open>Peer\<close> finds the index of its own name in the member list. The array of neighbours is not
  initialised; its content \<open>junk\<close> is never read before it is written.\<close>

definition scheduler_new :: "matrix_conf \<Rightarrow> string \<Rightarrow> string list \<Rightarrow> (nat \<Rightarrow> nat) \<Rightarrow> sched" where
  "scheduler_new conf me vec junk =
     (let conf' = (if length vec = 1 then conf\<lparr>workStealingOn := 0\<rparr> else conf) in
      reset_choosebm \<lparr>sc_conf = conf', sc_id = me, sc_index = get_self_idx me vec, sc_vec = vec, sc_running = True,
        sc_numZHTMsg = 0, sc_numIdleCore = numCorePerExecutor conf', sc_prevNumTaskFin = 0, sc_numTaskFin = 0,
        sc_numWS = 0, sc_numWSFail = 0, sc_numNeigh = num_neigh (length vec),
        sc_neighIdx = map junk [0..<num_neigh (length vec)], sc_chooseBitMap = [], sc_maxLoadedIdx = -1, sc_maxLoad = -1000000,
        sc_pollInterval = wsPollIntervalStart conf', sc_localQueue = [], sc_wsQueue = [], sc_waitQueue = [],
        sc_completeQueue = [], sc_localData = [], sc_cache = True, sc_timeEntry = []\<rparr>)"

section \<open>Choosing neighbours\<close>

text \<open>Draw until the index is neither the scheduler's own nor already chosen; \<open>None\<close>: for ever.\<close>

partial_function (option) draw :: "(nat \<Rightarrow> nat) \<Rightarrow> int \<Rightarrow> bool list \<Rightarrow> nat \<Rightarrow> (nat \<times> nat) option" where
  "draw rnd self bm j =
     (let idx = rnd j mod length bm in
      if int idx = self \<or> bm ! idx then draw rnd self bm (Suc j) else Some (idx, Suc j))"

text \<open>The body for the positions \<open>i\<close> of \<open>neighIdx\<close>. Without schedulers there is no neighbour to choose,
  so the division by the number of schedulers is safe.\<close>

fun choose_loop :: "(nat \<Rightarrow> nat) \<Rightarrow> nat list \<Rightarrow> nat \<Rightarrow> sched \<Rightarrow> (nat \<times> sched) option" where
  "choose_loop rnd [] j st = Some (j, st)"
| "choose_loop rnd (i # is) j st =
     (case draw rnd (sc_index st) (sc_chooseBitMap st) j of
        None \<Rightarrow> None
      | Some (idx, j') \<Rightarrow>
          choose_loop rnd is j' (st\<lparr>sc_neighIdx := (sc_neighIdx st)[i := idx], sc_chooseBitMap := (sc_chooseBitMap st)[idx := True]\<rparr>))"

definition choose_neigh :: "(nat \<Rightarrow> nat) \<Rightarrow> nat \<Rightarrow> sched \<Rightarrow> (nat \<times> sched) option" where
  "choose_neigh rnd j st = map_option (\<lambda>(j', st'). (j', reset_choosebm st')) (choose_loop rnd [0..<sc_numNeigh st] j st)"

section \<open>Stealing\<close>

definition load_query :: string where
  "load_query = mm_to_str (default_mm ''query load'')"

definition steal_request :: string where
  "steal_request = mm_to_str (default_mm ''steal task'')"

text \<open>\<open>ask k req\<close> are the chunks the scheduler with index \<open>k\<close> sends in answer to \<open>req\<close>.\<close>

fun most_loaded_loop :: "(nat \<Rightarrow> string \<Rightarrow> string list) \<Rightarrow> nat list \<Rightarrow> sched \<Rightarrow> sched res" where
  "most_loaded_loop ask [] st = Inr st"
| "most_loaded_loop ask (k # ks) st =
     (if length (sc_vec st) \<le> k then Inl Out_Of_Range
      else bind_res (recv_bf (ask k load_query)) (\<lambda>(_, result, _).
           if result = [] then most_loaded_loop ask ks st
           else bind_res (str_to_mm result) (\<lambda>mmLoad.
             let load = opt0 (mcount mmLoad) in
             most_loaded_loop ask ks (if sc_maxLoad st < load then st\<lparr>sc_maxLoad := load, sc_maxLoadedIdx := int k\<rparr> else st))))"

definition find_most_loaded_neigh :: "(nat \<Rightarrow> string \<Rightarrow> string list) \<Rightarrow> sched \<Rightarrow> sched res" where
  "find_most_loaded_neigh ask st = most_loaded_loop ask (take (sc_numNeigh st) (sc_neighIdx st)) st"

definition steal_task :: "(nat \<Rightarrow> string \<Rightarrow> string list) \<Rightarrow> int \<Rightarrow> sched \<Rightarrow> (bool \<times> sched) res" where
  "steal_task ask now st =
     (if sc_maxLoad st \<le> 0 then Inr (False, st)
      else if sc_maxLoadedIdx st < 0 \<or> length (sc_vec st) \<le> nat (sc_maxLoadedIdx st) then Inl Out_Of_Range
      else recv_task_from_scheduler now (ask (nat (sc_maxLoadedIdx st)) steal_request) st)"

section \<open>The thread\<close>

text \<open>One pass of the inner loop. Doubling a \<open>long\<close> may overflow.\<close>

definition ws_attempt ::
    "(nat \<Rightarrow> nat) \<Rightarrow> (nat \<Rightarrow> string \<Rightarrow> string list) \<Rightarrow> int \<Rightarrow> nat \<Rightarrow> sched \<Rightarrow> (nat \<times> sched) res option" where
  "ws_attempt rnd ask now j st =
     map_option (\<lambda>(j', st1).
       bind_res (find_most_loaded_neigh ask st1) (\<lambda>st2.
       bind_res (steal_task ask now st2) (\<lambda>(success, st3).
         let st4 = st3\<lparr>sc_numWS := sc_numWS st3 + 1, sc_maxLoadedIdx := -1, sc_maxLoad := -1000000\<rparr> in
         if success then Inr (j', st4\<lparr>sc_pollInterval := wsPollIntervalStart (sc_conf st4)\<rparr>)
         else if \<not> is_long (sc_pollInterval st4 * 2) then Inl Undefined
         else Inr (j', st4\<lparr>sc_numWSFail := sc_numWSFail st4 + 1, sc_pollInterval := sc_pollInterval st4 * 2\<rparr>))))
       (choose_neigh rnd j st)"

text \<open>The thread: \<open>env i\<close> is what the other threads of the scheduler do before its step \<open>i\<close>, and \<open>ask i\<close> what
  the neighbours answer then. The flag tells the inner loop from the outer one. \<open>None\<close>: it never ends.\<close>

partial_function (option) workstealing ::
    "(nat \<Rightarrow> sched \<Rightarrow> sched) \<Rightarrow> (nat \<Rightarrow> nat) \<Rightarrow> (nat \<Rightarrow> nat \<Rightarrow> string \<Rightarrow> string list) \<Rightarrow> (nat \<Rightarrow> int) \<Rightarrow> bool \<Rightarrow> nat \<Rightarrow> nat \<Rightarrow> sched \<Rightarrow> sched res option" where
  "workstealing env rnd ask now inner i j st0 =
     (let st = env i st0 in
      if inner
      then (if length (sc_localQueue st) + length (sc_wsQueue st) = 0 \<and> sc_pollInterval st < wsPollIntervalUb (sc_conf st)
            then (case ws_attempt rnd (ask i) (now i) j st of
                    None \<Rightarrow> None
                  | Some (Inl e) \<Rightarrow> Some (Inl e)
                  | Some (Inr (j', st')) \<Rightarrow> workstealing env rnd ask now True (Suc i) j' st')
            else if wsPollIntervalUb (sc_conf st) \<le> sc_pollInterval st then Some (Inr st)
            else workstealing env rnd ask now False (Suc i) j (st\<lparr>sc_pollInterval := wsPollIntervalStart (sc_conf st)\<rparr>))
      else (if sc_running st then workstealing env rnd ask now True (Suc i) j st else Some (Inr st)))"

section \<open>The number of neighbours\<close>

text \<open>The numbers that pass the test are those up to the rounded root.\<close>

lemma root_test:
  assumes "0 < k"
  shows "k * (k - 1) < n \<longleftrightarrow> int k \<le> \<lfloor>sqrt (real n) + 1 / 2\<rfloor>"
proof -
  have k: "1 / 2 \<le> real k" "real (k - 1) = real k - 1" using assms by (simp_all add: of_nat_diff)
  have sq: "(real k - 1 / 2)\<^sup>2 = real (k * (k - 1)) + 1 / 4" using k(2) by (simp add: power2_eq_square algebra_simps)
  have "int k \<le> \<lfloor>sqrt (real n) + 1 / 2\<rfloor> \<longleftrightarrow> real k - 1 / 2 \<le> sqrt (real n)" by (simp add: le_floor_iff) linarith
  also have "\<dots> \<longleftrightarrow> (real k - 1 / 2)\<^sup>2 \<le> real n"
  proof
    assume "real k - 1 / 2 \<le> sqrt (real n)"
    then have "(real k - 1 / 2)\<^sup>2 \<le> (sqrt (real n))\<^sup>2" using k(1) by (intro power_mono) simp_all
    then show "(real k - 1 / 2)\<^sup>2 \<le> real n" by simp
  qed (rule real_le_rsqrt)
  also have "\<dots> \<longleftrightarrow> real (k * (k - 1)) + 1 / 4 \<le> real n" by (simp only: sq)
  also have "\<dots> \<longleftrightarrow> k * (k - 1) < n" 
  proof
    assume "real (k * (k - 1)) + 1 / 4 \<le> real n"
    then have "real (k * (k - 1)) < real n" by linarith
    then show "k * (k - 1) < n" by (simp only: of_nat_less_iff)
  next
    assume "k * (k - 1) < n"
    then have "real (k * (k - 1)) + 1 \<le> real n" by (metis Suc_leI of_nat_Suc of_nat_le_iff add.commute)
    then show "real (k * (k - 1)) + 1 / 4 \<le> real n" by linarith
  qed
  finally show ?thesis by simp
qed
lemma num_neigh_sqrt: "int (num_neigh n) = \<lfloor>sqrt (real n) + 1 / 2\<rfloor>"
proof -
  define r where "r = nat \<lfloor>sqrt (real n) + 1 / 2\<rfloor>"
  have r0: "int r = \<lfloor>sqrt (real n) + 1 / 2\<rfloor>" by (simp add: r_def) 
  have le: "r \<le> n"
  proof (cases "r = 0")
    case False
    then have "r * (r - 1) < n" using root_test [of r n] r0 by simp
    moreover have "r \<le> Suc (r * (r - 1))" using False by (cases r) auto
    ultimately show ?thesis by linarith
  qed simp
  have "k * (k - 1) < n \<longleftrightarrow> k \<le> r" if "k \<in> set [1..<Suc n]" for k
    using that root_test [of k n] unfolding r0 [symmetric] by auto
  then have "filter (\<lambda>k. k * (k - 1) < n) [1..<Suc n] = filter (\<lambda>k. k \<le> r) [1..<Suc n]"
    by (rule filter_cong [OF refl])
  moreover have "filter (\<lambda>k. k \<le> r) [1..<Suc n] = [1..<Suc r]"
    using le upt_add_eq_append [of 1 "Suc r" "n - r"] by (auto simp: filter_empty_conv)
  ultimately have "num_neigh n = r" by (simp add: num_neigh_def del: upt_Suc)
  then show ?thesis by (simp add: r0)
qed

lemma num_neigh_less: "2 \<le> n \<Longrightarrow> num_neigh n < n"
proof -
  assume n: "2 \<le> n"
  have "\<not> n * (n - 1) < n" using n by (cases n) auto
  then have "\<not> int n \<le> int (num_neigh n)" using root_test [of n n] n unfolding num_neigh_sqrt by simp
  then show ?thesis by simp
qed

section \<open>The choice is right\<close>

text \<open>The fields work stealing relies on, between two attempts.\<close>

definition ws_ok :: "sched \<Rightarrow> bool" where
  "ws_ok st \<longleftrightarrow> sc_chooseBitMap st = replicate (length (sc_vec st)) False \<and> length (sc_neighIdx st) = sc_numNeigh st
     \<and> sc_numNeigh st = num_neigh (length (sc_vec st)) \<and> sc_maxLoadedIdx st = -1 \<and> sc_maxLoad st = -1000000"

lemma scheduler_new_ws_ok: "ws_ok (scheduler_new conf me vec junk)"
  by (simp add: ws_ok_def scheduler_new_def reset_choosebm_def Let_def)

text \<open>Every index is drawn again and again.\<close>

definition fair :: "(nat \<Rightarrow> nat) \<Rightarrow> nat \<Rightarrow> bool" where
  "fair rnd n \<longleftrightarrow> (\<forall>k < n. \<forall>j. \<exists>j' \<ge> j. rnd j' mod n = k)"

lemma draw_step: "draw rnd self bm j =
    (if int (rnd j mod length bm) = self \<or> bm ! (rnd j mod length bm) then draw rnd self bm (Suc j) else Some (rnd j mod length bm, Suc j))"
  by (subst draw.simps) (simp add: Let_def)

lemma draw_returns:
  assumes "fair rnd (length bm)" and "k < length bm" and "int k \<noteq> self" and "\<not> bm ! k"
  shows "\<exists>idx j'. draw rnd self bm j = Some (idx, j') \<and> idx < length bm \<and> int idx \<noteq> self \<and> \<not> bm ! idx"
proof -
  obtain m where m: "j \<le> m" "rnd m mod length bm = k" using assms(1,2) by (auto simp: fair_def)
  from m show ?thesis
  proof (induction "m - j" arbitrary: j)
    case 0
    then show ?case using assms(2-4) by (simp add: draw_step)
  next
    case (Suc d)
    show ?case
    proof (cases "int (rnd j mod length bm) = self \<or> bm ! (rnd j mod length bm)")
      case True
      have "d = m - Suc j" "Suc j \<le> m" using Suc.hyps(2) by simp_all
      from Suc.hyps(1) [OF this m(2)] True show ?thesis by (subst draw_step) simp
    next
      case False
      moreover have "rnd j mod length bm < length bm" using assms(2) by (intro mod_less_divisor) linarith
      ultimately show ?thesis by (subst draw_step) simp
    qed
  qed
qed

text \<open>With a single scheduler nothing can be drawn: \<open>choose_neigh\<close> would never return. The constructor
  switches work stealing off in this case.\<close>

lemma draw_alone: "draw rnd 0 [b] j = None"
proof -
  define P where "P r self bm i y \<longleftrightarrow> (self = 0 \<longrightarrow> length bm = 1 \<longrightarrow> False)" for r :: "nat \<Rightarrow> nat" and self :: int
    and bm :: "bool list" and i :: nat and y :: "nat \<times> nat"
  have "False" if d: "draw rnd 0 [b] j = Some y" for y
  proof -
    from d have "P rnd 0 [b] j y"
    proof (rule draw.raw_induct [of P, rotated])
      fix loop r self bm i y
      assume "\<And>r self bm i y. loop r self bm i = Some y \<Longrightarrow> P r self bm i y"
        and "(let idx = r i mod length bm in if int idx = self \<or> bm ! idx then loop r self bm (Suc i) else Some (idx, Suc i)) = Some y"
      then show "P r self bm i y" by (auto simp: P_def Let_def split: if_splits)
    qed
    then show False by (simp add: P_def)
  qed
  then show ?thesis by (cases "draw rnd 0 [b] j") auto
qed

definition candidates :: "sched \<Rightarrow> nat set" where
  "candidates st = {k. k < length (sc_vec st) \<and> int k \<noteq> sc_index st}"

lemma candidates_card: "length (sc_vec st) \<le> Suc (card (candidates st))"
proof -
  have "{0..<length (sc_vec st)} \<subseteq> insert (nat (sc_index st)) (candidates st)" by (auto simp: candidates_def)
  moreover have "finite (candidates st)" by (simp add: candidates_def)
  ultimately show ?thesis using card_mono [of "insert (nat (sc_index st)) (candidates st)" "{0..<length (sc_vec st)}"]
    by (simp add: card_insert_if split: if_splits)
qed

text \<open>While the positions from \<open>i\<close> on are filled, the bitmap marks the neighbours in the positions before.\<close>

definition choosing :: "nat \<Rightarrow> sched \<Rightarrow> bool" where
  "choosing i st \<longleftrightarrow> distinct (take i (sc_neighIdx st)) \<and> set (take i (sc_neighIdx st)) \<subseteq> candidates st
     \<and> sc_chooseBitMap st = map (\<lambda>k. k \<in> set (take i (sc_neighIdx st))) [0..<length (sc_vec st)]"

lemma choosing_free:
  assumes "choosing i st" and "i < length (sc_neighIdx st)" and "length (sc_neighIdx st) < length (sc_vec st)"
  shows "\<exists>k \<in> candidates st. \<not> sc_chooseBitMap st ! k"
proof -
  have "card (set (take i (sc_neighIdx st))) = i" using assms(1,2) by (simp add: choosing_def distinct_card)
  then have "card (set (take i (sc_neighIdx st))) < card (candidates st)"
    using candidates_card [of st] assms(2,3) by linarith
  then obtain k where "k \<in> candidates st" "k \<notin> set (take i (sc_neighIdx st))"
    by (metis card_mono finite_set leD subsetI)
  then show ?thesis using assms(1) by (intro bexI [of _ k]) (auto simp: choosing_def candidates_def)
qed

lemma mark_bit: "(map P [0..<n])[k := True] = map (\<lambda>x. x = k \<or> P x) [0..<n]"
proof (rule nth_equalityI)
  fix x
  assume "x < length ((map P [0..<n])[k := True])"
  then show "(map P [0..<n])[k := True] ! x = map (\<lambda>x. x = k \<or> P x) [0..<n] ! x" by (cases "x = k") simp_all
qed simp

lemma choose_loop_returns:
  assumes "fair rnd (length (sc_vec st))" and "choosing i st" and "i \<le> length (sc_neighIdx st)"
    and "length (sc_neighIdx st) < length (sc_vec st)"
  shows "\<exists>j' ns bm. choose_loop rnd [i..<length (sc_neighIdx st)] j st = Some (j', st\<lparr>sc_neighIdx := ns, sc_chooseBitMap := bm\<rparr>)
    \<and> length ns = length (sc_neighIdx st) \<and> distinct ns \<and> set ns \<subseteq> candidates st"
  using assms
proof (induction "length (sc_neighIdx st) - i" arbitrary: i j st)
  case 0
  then have "i = length (sc_neighIdx st)" by simp
  then have "choose_loop rnd [i..<length (sc_neighIdx st)] j st = Some (j, st\<lparr>sc_neighIdx := sc_neighIdx st, sc_chooseBitMap := sc_chooseBitMap st\<rparr>)"
    "take i (sc_neighIdx st) = sc_neighIdx st" by simp_all
  then show ?case using 0(3) unfolding choosing_def by metis
next
  case (Suc d)
  let ?n = "length (sc_neighIdx st)" and ?bm = "sc_chooseBitMap st"
  have i: "i < ?n" "[i..<?n] = i # [Suc i..<?n]" using Suc.hyps(2) by (simp_all add: upt_conv_Cons)
  have bm: "length ?bm = length (sc_vec st)" using Suc.prems(2) by (simp add: choosing_def)
  obtain k where k: "k \<in> candidates st" "\<not> ?bm ! k" using choosing_free [OF Suc.prems(2) i(1) Suc.prems(4)] by blast
  then obtain idx j1 where d: "draw rnd (sc_index st) ?bm j = Some (idx, j1)" "idx < length (sc_vec st)" "int idx \<noteq> sc_index st" "\<not> ?bm ! idx"
    using draw_returns [of rnd ?bm k "sc_index st" j] Suc.prems(1) bm by (auto simp: candidates_def)
  let ?st = "st\<lparr>sc_neighIdx := (sc_neighIdx st)[i := idx], sc_chooseBitMap := ?bm[idx := True]\<rparr>"
  have tk: "take (Suc i) ((sc_neighIdx st)[i := idx]) = take i (sc_neighIdx st) @ [idx]"
    using i(1) by (simp add: take_Suc_conv_app_nth)
  have "idx \<notin> set (take i (sc_neighIdx st))" using d(2,4) Suc.prems(2) by (simp add: choosing_def)
  moreover have "?bm[idx := True] = map (\<lambda>k. k \<in> set (take i (sc_neighIdx st) @ [idx])) [0..<length (sc_vec st)]"
    using Suc.prems(2) by (simp add: choosing_def mark_bit disj_commute)
  ultimately have ch: "choosing (Suc i) ?st"
    using Suc.prems(2) d(2,3) by (auto simp: choosing_def tk candidates_def)
  have h: "d = length (sc_neighIdx ?st) - Suc i" "Suc i \<le> length (sc_neighIdx ?st)"
      "fair rnd (length (sc_vec ?st))" "length (sc_neighIdx ?st) < length (sc_vec ?st)"
    using Suc.hyps(2) Suc.prems i(1) by simp_all
  have c: "candidates ?st = candidates st" by (simp add: candidates_def)
  obtain j' ns bm where r: "choose_loop rnd [Suc i..<length (sc_neighIdx ?st)] j1 ?st = Some (j', ?st\<lparr>sc_neighIdx := ns, sc_chooseBitMap := bm\<rparr>)"
    "length ns = length (sc_neighIdx ?st)" "distinct ns" "set ns \<subseteq> candidates st"
    using Suc.hyps(1) [OF h(1,3) ch h(2,4), of j1] unfolding c by blast
  have "choose_loop rnd [i..<?n] j st = Some (j', st\<lparr>sc_neighIdx := ns, sc_chooseBitMap := bm\<rparr>)"
    unfolding i(2) using d(1) r(1) by simp
  with r(2-4) show ?case by auto
qed

lemma choose_neigh_returns:
  assumes "ws_ok st" and "2 \<le> length (sc_vec st)" and "fair rnd (length (sc_vec st))"
  shows "\<exists>j' ns. choose_neigh rnd j st = Some (j', st\<lparr>sc_neighIdx := ns\<rparr>) \<and> length ns = sc_numNeigh st
    \<and> distinct ns \<and> set ns \<subseteq> candidates st"
proof -
  have n: "length (sc_neighIdx st) = sc_numNeigh st" "length (sc_neighIdx st) < length (sc_vec st)"
    using assms(1,2) num_neigh_less by (simp_all add: ws_ok_def)
  have "choosing 0 st" using assms(1) by (simp add: choosing_def ws_ok_def map_replicate_const)
  from choose_loop_returns [OF assms(3) this _ n(2), of j] obtain j' ns bm where
    "choose_loop rnd [0..<sc_numNeigh st] j st = Some (j', st\<lparr>sc_neighIdx := ns, sc_chooseBitMap := bm\<rparr>)"
    "length ns = sc_numNeigh st" "distinct ns" "set ns \<subseteq> candidates st" by (auto simp: n(1))
  moreover have "reset_choosebm (st\<lparr>sc_neighIdx := ns, sc_chooseBitMap := bm\<rparr>) = st\<lparr>sc_neighIdx := ns\<rparr>"
    using assms(1) by (simp add: reset_choosebm_def ws_ok_def)
  ultimately show ?thesis by (auto simp: choose_neigh_def)
qed

section \<open>The most loaded neighbour\<close>

definition load_reply :: "nat \<Rightarrow> string" where
  "load_reply n = mm_to_str (default_mm ''send load''\<lparr>mcount := Some (int n)\<rparr>)"

lemma load_reply_read:
  assumes "is_int (int n)"
  shows "recv_bf [load_reply n] = Inr (int (length (load_reply n)), load_reply n, [])"
    and "str_to_mm (load_reply n) = Inr (default_mm ''send load''\<lparr>mcount := Some (int n)\<rparr>)" and "load_reply n \<noteq> []"
proof -
  have t: "load_reply n = ''send load&&noextrainfo&&'' @ num_to_str (int n) @ ''&&notask&&''"
    using assms by (simp add: load_reply_def mm_to_str_def default_mm_def put_rep_def to_int32_id)
  have "length (num_to_str (int n)) \<le> 11" using assms by (intro num_to_str_length [of _ 10, simplified]) (simp add: int_range_defs)
  then have "length (load_reply n) < BUF_SIZE" by (simp add: t BUF_SIZE_def)
  moreover have "CHR 0x00 \<notin> set (load_reply n)"
    using num_to_str_chars [of "CHR 0x00" "int n"] by (auto simp: t is_digit_def)
  then have "c_str (load_reply n) = load_reply n" by (rule c_str_id)
  ultimately show "recv_bf [load_reply n] = Inr (int (length (load_reply n)), load_reply n, [])" by (simp add: c_str_def)
  show "str_to_mm (load_reply n) = Inr (default_mm ''send load''\<lparr>mcount := Some (int n)\<rparr>)"
    unfolding load_reply_def by (rule mm_roundtrip) (use assms in \<open>simp add: mm_ok_def default_mm_def field_ok_def opt_ok_def\<close>)
  show "load_reply n \<noteq> []" by (simp add: t)
qed

text \<open>What the loop leaves in \<open>maxLoad\<close> and \<open>maxLoadedIdx\<close> when every neighbour answers.\<close>

fun best :: "(nat \<Rightarrow> nat) \<Rightarrow> nat list \<Rightarrow> int \<times> int \<Rightarrow> int \<times> int" where
  "best load [] b = b"
| "best load (k # ks) b = best load ks (if fst b < int (load k) then (int (load k), int k) else b)"

lemma most_loaded_best:
  assumes "\<And>k. k \<in> set ks \<Longrightarrow> k < length (sc_vec st) \<and> ask k load_query = [load_reply (load k)] \<and> is_int (int (load k))"
  shows "most_loaded_loop ask ks st = Inr (st\<lparr>sc_maxLoad := fst (best load ks (sc_maxLoad st, sc_maxLoadedIdx st)),
      sc_maxLoadedIdx := snd (best load ks (sc_maxLoad st, sc_maxLoadedIdx st))\<rparr>)"
  using assms
proof (induction ks arbitrary: st)
  case (Cons k ks)
  let ?st = "if sc_maxLoad st < int (load k) then st\<lparr>sc_maxLoad := int (load k), sc_maxLoadedIdx := int k\<rparr> else st"
  have k: "k < length (sc_vec st)" "ask k load_query = [load_reply (load k)]" "is_int (int (load k))" using Cons.prems by simp_all
  note r = load_reply_read [OF k(3)]
  have "most_loaded_loop ask (k # ks) st = most_loaded_loop ask ks ?st"
    using k r by (simp add: default_mm_def)
  also have "\<dots> = Inr (?st\<lparr>sc_maxLoad := fst (best load ks (sc_maxLoad ?st, sc_maxLoadedIdx ?st)),
      sc_maxLoadedIdx := snd (best load ks (sc_maxLoad ?st, sc_maxLoadedIdx ?st))\<rparr>)"
    by (rule Cons.IH) (use Cons.prems in simp)
  finally show ?case by simp
qed simp

lemma best_max:
  "fst b \<le> fst (best load ks b) \<and> (\<forall>k \<in> set ks. int (load k) \<le> fst (best load ks b))
     \<and> (best load ks b = b \<or> (\<exists>k \<in> set ks. best load ks b = (int (load k), int k)))"
proof (induction ks arbitrary: b)
  case (Cons k ks)
  show ?case
  proof (cases "fst b < int (load k)")
    case True
    then show ?thesis using Cons.IH [of "(int (load k), int k)"] by auto
  next
    case False
    then show ?thesis using Cons.IH [of b] by auto
  qed
qed simp

lemma best_of_loads:
  assumes "ks \<noteq> []"
  shows "\<exists>v \<in> set ks. best load ks (-1000000, -1) = (int (load v), int v) \<and> (\<forall>k \<in> set ks. load k \<le> load v)"
proof -
  obtain k0 where k0: "k0 \<in> set ks" using assms by (cases ks) auto
  have m: "(\<forall>k \<in> set ks. int (load k) \<le> fst (best load ks (-1000000, -1)))
     \<and> (best load ks (-1000000, -1) = (-1000000, -1) \<or> (\<exists>k \<in> set ks. best load ks (-1000000, -1) = (int (load k), int k)))"
    using best_max [of "(-1000000, -1)" load ks] by blast
  have "best load ks (-1000000, -1) \<noteq> (-1000000, -1)"
  proof
    assume "best load ks (-1000000, -1) = (-1000000, -1)"
    then have "int (load k0) \<le> -1000000" using m k0 by auto
    then show False by simp
  qed
  with m obtain v where "v \<in> set ks" "best load ks (-1000000, -1) = (int (load v), int v)" "\<forall>k \<in> set ks. int (load k) \<le> int (load v)"
    by auto
  then show ?thesis by auto
qed

section \<open>What a victim sends\<close>

lemma requests_read:
  "str_to_mm (c_str load_query) = Inr (default_mm ''query load'')" "str_to_mm (c_str steal_request) = Inr (default_mm ''steal task'')"
  "take (length ''client send tasks'') (c_str load_query) \<noteq> ''client send tasks''"
  "take (length ''client send tasks'') (c_str steal_request) \<noteq> ''client send tasks''"
  by (simp_all add: load_query_def steal_request_def) code_simp+

lemma proc_req_load: "proc_req z env now load_query cs st s = Some (Inr ([load_reply (length (sc_wsQueue st))], st, s))"
  using requests_read(1,3) by (simp add: proc_req_def Let_def default_mm_def load_reply_def)

lemma proc_req_steal: "proc_req z env now steal_request cs st s = map_option (\<lambda>(out, st'). Inr (out, st', s)) (send_task st)"
  using requests_read(2,4) by (simp add: proc_req_def Let_def default_mm_def)

lemma stolen_fields: "\<exists>q e. foldl (stolen now) st ps = st\<lparr>sc_wsQueue := q, sc_timeEntry := e\<rparr>"
proof (induction ps arbitrary: st)
  case Nil
  have "st = st\<lparr>sc_wsQueue := sc_wsQueue st, sc_timeEntry := sc_timeEntry st\<rparr>" by simp
  then show ?case by (metis foldl_Nil)
next
  case (Cons p ps)
  obtain q e where "foldl (stolen now) (stolen now st p) ps = (stolen now st p)\<lparr>sc_wsQueue := q, sc_timeEntry := e\<rparr>"
    using Cons.IH by blast
  moreover have "(stolen now st p)\<lparr>sc_wsQueue := q, sc_timeEntry := e\<rparr> = st\<lparr>sc_wsQueue := q, sc_timeEntry := e\<rparr>"
    by (simp add: stolen_def add_entries_def)
  ultimately show ?case by auto
qed

lemma recv_task_from_scheduler_fields:
  assumes "recv_task_from_scheduler now cs st = Inr (ok, st')"
  shows "\<exists>q e. st' = st\<lparr>sc_wsQueue := q, sc_timeEntry := e\<rparr>"
proof -
  have "st' = st \<or> (\<exists>ps. st' = foldl (stolen now) st ps)"
    using assms by (auto simp: recv_task_from_scheduler_stolen bind_res_eq_Inr split: option.splits)
  then show ?thesis using stolen_fields [of now st] stolen_fields [of now st "[]"] by auto
qed

section \<open>An attempt\<close>

text \<open>The outcome of an attempt, field by field.\<close>

definition attempted :: "nat list \<Rightarrow> bool \<Rightarrow> sched \<Rightarrow> sched" where
  "attempted ns success st = st\<lparr>sc_neighIdx := ns, sc_numWS := sc_numWS st + 1,
     sc_numWSFail := (if success then sc_numWSFail st else sc_numWSFail st + 1),
     sc_pollInterval := (if success then wsPollIntervalStart (sc_conf st) else sc_pollInterval st * 2)\<rparr>"

lemma attempt_with_loads:
  assumes ok: "ws_ok st" "2 \<le> length (sc_vec st)" "fair rnd (length (sc_vec st))" and long: "is_long (sc_pollInterval st * 2)"
    and loads: "\<And>k. k \<in> candidates st \<Longrightarrow> ask k load_query = [load_reply (load k)] \<and> is_int (int (load k))"
  shows "\<exists>j' ns v. length ns = num_neigh (length (sc_vec st)) \<and> distinct ns \<and> set ns \<subseteq> candidates st
    \<and> v \<in> set ns \<and> (\<forall>k \<in> set ns. load k \<le> load v)
    \<and> (load v = 0 \<longrightarrow> ws_attempt rnd ask now j st = Some (Inr (j', attempted ns False st)))
    \<and> (\<forall>success. 0 < load v \<longrightarrow> (\<forall>th. recv_task_from_scheduler now (ask v steal_request)
          (st\<lparr>sc_neighIdx := ns, sc_maxLoad := int (load v), sc_maxLoadedIdx := int v\<rparr>) = Inr (success, th) \<longrightarrow>
        ws_attempt rnd ask now j st = Some (Inr (j', (attempted ns success st)\<lparr>sc_wsQueue := sc_wsQueue th, sc_timeEntry := sc_timeEntry th\<rparr>))))"
proof -
  obtain j' ns where n: "choose_neigh rnd j st = Some (j', st\<lparr>sc_neighIdx := ns\<rparr>)" "length ns = sc_numNeigh st" "distinct ns" "set ns \<subseteq> candidates st"
    using choose_neigh_returns [OF ok] by blast
  let ?st = "st\<lparr>sc_neighIdx := ns\<rparr>"
  have "int 1 \<le> int (num_neigh (length (sc_vec st)))"
    using root_test [of 1 "length (sc_vec st)"] ok(2) unfolding num_neigh_sqrt by auto
  then have "ns \<noteq> []" using n(2) ok(1) by (auto simp: ws_ok_def)
  then obtain v where v: "v \<in> set ns" "best load ns (-1000000, -1) = (int (load v), int v)" "\<forall>k \<in> set ns. load k \<le> load v"
    using best_of_loads by blast
  have "find_most_loaded_neigh ask ?st = most_loaded_loop ask ns ?st" using n(2) by (simp add: find_most_loaded_neigh_def)
  also have "\<dots> = Inr (?st\<lparr>sc_maxLoad := int (load v), sc_maxLoadedIdx := int v\<rparr>)"
    using most_loaded_best [of ns ?st ask load] n(4) loads ok(1) v(2) by (auto simp: candidates_def ws_ok_def)
  finally have f: "find_most_loaded_neigh ask ?st = Inr (?st\<lparr>sc_maxLoad := int (load v), sc_maxLoadedIdx := int v\<rparr>)" .
  have vi: "v < length (sc_vec st)" using v(1) n(4) by (auto simp: candidates_def)
  have m: "sc_maxLoad st = -1000000" "sc_maxLoadedIdx st = -1" using ok(1) by (simp_all add: ws_ok_def)
  have "ws_attempt rnd ask now j st = Some (Inr (j', attempted ns False st))" if "load v = 0"
    using that n(1) f long m by (simp add: ws_attempt_def steal_task_def attempted_def Let_def)
  moreover have "ws_attempt rnd ask now j st =
      Some (Inr (j', (attempted ns success st)\<lparr>sc_wsQueue := sc_wsQueue th, sc_timeEntry := sc_timeEntry th\<rparr>))"
    if "0 < load v" and r: "recv_task_from_scheduler now (ask v steal_request) (?st\<lparr>sc_maxLoad := int (load v), sc_maxLoadedIdx := int v\<rparr>) = Inr (success, th)"
    for success th
  proof -
    obtain q e where th: "th = ?st\<lparr>sc_maxLoad := int (load v), sc_maxLoadedIdx := int v, sc_wsQueue := q, sc_timeEntry := e\<rparr>"
      using recv_task_from_scheduler_fields [OF r] by blast
    show ?thesis
      using that(1) r n(1) f long vi m unfolding th by (cases success) (simp_all add: ws_attempt_def steal_task_def attempted_def Let_def)
  qed
  ultimately show ?thesis using n v ok(1) by (intro exI [of _ j'] exI [of _ ns] exI [of _ v]) (simp add: ws_ok_def)
qed

section \<open>The thread without work\<close>

lemma attempted_simps [simp]:
  "sc_neighIdx (attempted ns success st) = ns" "sc_wsQueue (attempted ns success st) = sc_wsQueue st"
  "sc_pollInterval (attempted ns success st) = (if success then wsPollIntervalStart (sc_conf st) else sc_pollInterval st * 2)"
  "sc_numWSFail (attempted ns success st) = (if success then sc_numWSFail st else sc_numWSFail st + 1)"
  "sc_numWS (attempted ns success st) = sc_numWS st + 1" "sc_localQueue (attempted ns success st) = sc_localQueue st"
  "sc_conf (attempted ns success st) = sc_conf st" "sc_vec (attempted ns success st) = sc_vec st"
  "sc_index (attempted ns success st) = sc_index st" "sc_running (attempted ns success st) = sc_running st"
  by (simp_all add: attempted_def)

lemma attempted_ws_ok:
  "ws_ok st \<Longrightarrow> length ns = num_neigh (length (sc_vec st)) \<Longrightarrow> ws_ok ((attempted ns success st)\<lparr>sc_wsQueue := q, sc_timeEntry := e\<rparr>)"
  "ws_ok st \<Longrightarrow> length ns = num_neigh (length (sc_vec st)) \<Longrightarrow> ws_ok (attempted ns success st)"
  by (simp_all add: ws_ok_def attempted_def)

lemma candidates_attempted [simp]: "candidates (attempted ns success st) = candidates st"
  by (simp add: candidates_def)

text \<open>Nobody has work: an attempt fails, and doubles the pause.\<close>

lemma attempt_fails:
  assumes "ws_ok st" and "2 \<le> length (sc_vec st)" and "fair rnd (length (sc_vec st))" and "is_long (sc_pollInterval st * 2)"
    and "\<And>k. k \<in> candidates st \<Longrightarrow> ask k load_query = [load_reply 0]"
  shows "\<exists>j' ns. ws_attempt rnd ask now j st = Some (Inr (j', attempted ns False st)) \<and> ws_ok (attempted ns False st)"
proof -
  have "ask k load_query = [load_reply 0] \<and> is_int (int 0)" if "k \<in> candidates st" for k
    using assms(5) [OF that] by (simp add: int_range_defs)
  from attempt_with_loads [where ask = ask and load = "\<lambda>_. 0" and now = now and j = j, OF assms(1-4) this] obtain j' ns where
    "length ns = num_neigh (length (sc_vec st))" "ws_attempt rnd ask now j st = Some (Inr (j', attempted ns False st))" by auto
  then show ?thesis using attempted_ws_ok(2) [OF assms(1)] by blast
qed

definition idle :: "sched \<Rightarrow> bool" where
  "idle st \<longleftrightarrow> sc_localQueue st = [] \<and> sc_wsQueue st = []"

lemma workstealing_inner:
  assumes "ws_ok st" and "2 \<le> length (sc_vec st)" and "fair rnd (length (sc_vec st))" and "idle st"
    and "\<And>i k. k \<in> candidates st \<Longrightarrow> ask i k load_query = [load_reply 0]"
    and "0 < sc_pollInterval st" and "wsPollIntervalUb (sc_conf st) \<le> 2 ^ 62"
  shows "\<exists>k st'. workstealing (\<lambda>_ s. s) rnd ask now True i j st = Some (Inr st') \<and> idle st'
    \<and> sc_pollInterval st' = sc_pollInterval st * 2 ^ k \<and> wsPollIntervalUb (sc_conf st) \<le> sc_pollInterval st'
    \<and> (k = 0 \<or> sc_pollInterval st * 2 ^ (k - 1) < wsPollIntervalUb (sc_conf st))
    \<and> sc_numWS st' = sc_numWS st + int k \<and> sc_numWSFail st' = sc_numWSFail st + int k"
  using assms
proof (induction "nat (wsPollIntervalUb (sc_conf st) - sc_pollInterval st)" arbitrary: i j st rule: less_induct)
  case less
  show ?case
  proof (cases "sc_pollInterval st < wsPollIntervalUb (sc_conf st)")
    case True
    have "is_long (sc_pollInterval st * 2)" using True less.prems(6,7) by (simp add: int_range_defs)
    then obtain j' ns where a: "ws_attempt rnd (ask i) (now i) j st = Some (Inr (j', attempted ns False st))" "ws_ok (attempted ns False st)"
      using attempt_fails [OF less.prems(1-3), of "ask i" "now i" j] less.prems(5) by blast
    let ?st = "attempted ns False st"
    have s: "workstealing (\<lambda>_ s. s) rnd ask now True i j st = workstealing (\<lambda>_ s. s) rnd ask now True (Suc i) j' ?st"
      using True less.prems(4) a(1) by (subst workstealing.simps) (simp add: idle_def)
    have c: "nat (wsPollIntervalUb (sc_conf ?st) - sc_pollInterval ?st) < nat (wsPollIntervalUb (sc_conf st) - sc_pollInterval st)"
        "2 \<le> length (sc_vec ?st)" "fair rnd (length (sc_vec ?st))" "idle ?st" "0 < sc_pollInterval ?st"
        "wsPollIntervalUb (sc_conf ?st) \<le> 2 ^ 62" "\<And>i k. k \<in> candidates ?st \<Longrightarrow> ask i k load_query = [load_reply 0]"
      using True less.prems by (simp_all add: idle_def)
    obtain k st' where
      k: "workstealing (\<lambda>_ s. s) rnd ask now True (Suc i) j' ?st = Some (Inr st')" "idle st'"
        "sc_pollInterval st' = sc_pollInterval st * 2 * 2 ^ k" "wsPollIntervalUb (sc_conf st) \<le> sc_pollInterval st'"
        "k = 0 \<or> sc_pollInterval st * 2 * 2 ^ (k - 1) < wsPollIntervalUb (sc_conf st)"
        "sc_numWS st' = sc_numWS st + 1 + int k" "sc_numWSFail st' = sc_numWSFail st + 1 + int k"
      using less.hyps [OF c(1) a(2) c(2-4,7,5,6), of "Suc i" j'] unfolding attempted_simps if_False by blast
    have "sc_pollInterval st * 2 ^ k < wsPollIntervalUb (sc_conf st)" using k(5) True by (cases k) (auto simp: mult.assoc)
    then show ?thesis using s k by (intro exI [of _ "Suc k"] exI [of _ st']) (simp add: mult.assoc)
  next
    case False
    then have "workstealing (\<lambda>_ s. s) rnd ask now True i j st = Some (Inr st)" by (subst workstealing.simps) simp
    then show ?thesis using less.prems(4) False by (intro exI [of _ 0] exI [of _ st]) simp
  qed
qed

section \<open>Properties\<close>

text \<open>Property C25. The choice of neighbours: with at least two schedulers and a random source that keeps
  producing every index, \<open>choose_neigh\<close> returns. It picks as many schedulers as the rounded square root
  of their number, no one twice, never itself, all indices in range, and leaves the bitmap clear.\<close>

theorem choose_neigh_in_bounds:
  assumes "ws_ok st" and "2 \<le> length (sc_vec st)" and "fair rnd (length (sc_vec st))"
  shows "\<exists>j' ns. choose_neigh rnd j st = Some (j', st\<lparr>sc_neighIdx := ns\<rparr>) \<and> distinct ns
    \<and> int (length ns) = \<lfloor>sqrt (real (length (sc_vec st))) + 1 / 2\<rfloor>
    \<and> (\<forall>k \<in> set ns. k < length (sc_vec st) \<and> int k \<noteq> sc_index st)"
proof -
  obtain j' ns where "choose_neigh rnd j st = Some (j', st\<lparr>sc_neighIdx := ns\<rparr>)" "length ns = sc_numNeigh st"
      "distinct ns" "set ns \<subseteq> candidates st"
    using choose_neigh_returns [OF assms] by blast
  then show ?thesis using assms(1) num_neigh_sqrt by (auto simp: ws_ok_def candidates_def)
qed



section \<open>Instances\<close>

definition demo_vec :: "string list" where
  "demo_vec = [''n0'', ''n1'', ''n2'']"

lemma demo_fair: "fair (\<lambda>i. i) (length demo_vec)"
  unfolding fair_def
proof (intro allI impI)
  fix k j
  assume "k < length demo_vec"
  then have "(k + j * length demo_vec) mod length demo_vec = k" by simp
  moreover have "j \<le> k + j * length demo_vec" by (simp add: demo_vec_def)
  ultimately show "\<exists>j' \<ge> j. j' mod length demo_vec = k" by blast
qed

definition demo_thief :: sched where
  "demo_thief = scheduler_new (demo_mconf\<lparr>wsPollIntervalStart := 1, wsPollIntervalUb := 8\<rparr>) ''n0'' demo_vec (\<lambda>_. 0)"

lemma demo_thief_facts: "ws_ok demo_thief" "sc_vec demo_thief = demo_vec" "sc_index demo_thief = 0" "idle demo_thief" "sc_running demo_thief"
  "sc_pollInterval demo_thief = 1" "wsPollIntervalUb (sc_conf demo_thief) = 8" "sc_numWSFail demo_thief = 0" "sc_wsQueue demo_thief = []"
  by (simp_all add: demo_thief_def scheduler_new_ws_ok)
    (simp_all add: scheduler_new_def reset_choosebm_def idle_def demo_vec_def get_self_idx_def Let_def)

theorem choose_neigh_in_bounds_witness:
  "\<exists>j' ns. choose_neigh (\<lambda>i. i) 0 demo_thief = Some (j', demo_thief\<lparr>sc_neighIdx := ns\<rparr>) \<and> distinct ns
     \<and> (\<forall>k \<in> set ns. k < 3 \<and> k \<noteq> 0)"
proof -
  obtain j' ns where "choose_neigh (\<lambda>i. i) 0 demo_thief = Some (j', demo_thief\<lparr>sc_neighIdx := ns\<rparr>)" "distinct ns"
      "\<forall>k \<in> set ns. k < length (sc_vec demo_thief) \<and> int k \<noteq> sc_index demo_thief"
    using choose_neigh_in_bounds [OF demo_thief_facts(1), of "\<lambda>i. i" 0] demo_fair
    unfolding demo_thief_facts(2) by (auto simp: demo_vec_def)
  then show ?thesis by (intro exI [of _ j'] exI [of _ ns]) (auto simp: demo_thief_facts demo_vec_def)
qed



end
