(* ===== verification/Client.thy ===== *)
theory Client
  imports Dag System Completion
begin

text \<open>
  The MATRIX client (\<^verbatim>\<open>matrix/src/client_stub.cpp\<close> and the \<open>main\<close> of \<^verbatim>\<open>client.cpp\<close>): it generates the workload
  graph, writes a record for every task to the store, makes the task messages from the lines of the
  workload file, and submits them in batches, spread over the schedulers or to one of them. The clock,
  \<open>rand()\<close> and the success of \<open>create_sock\<close> are parameters.
\<close>

section \<open>Operations\<close>

record client =
  cl_conf :: matrix_conf
  cl_index :: int
  cl_vec :: "string list"
  cl_taskVec :: "string list"
  cl_tasks :: "task_msg list"
  cl_numZHTMsg :: int

text \<open>\<open>ss << get_index() << i\<close>.\<close>

definition client_task_id :: "int \<Rightarrow> int \<Rightarrow> string" where
  "client_task_id index i = num_to_str index @ num_to_str i"

definition task_record :: "int \<Rightarrow> int \<Rightarrow> int list \<Rightarrow> int \<Rightarrow> val_msg" where
  "task_record index i existList inDeg =
     default_value\<lparr>v_id := client_task_id index i, v_indegree := Some inDeg, v_children := map (client_task_id index) existList\<rparr>"

text \<open>\<open>dagInDegree[i]\<close> is 0 when there is no entry. The result of \<open>insert\<close> is not looked at.\<close>

fun insert_records :: "'s zht_ops \<Rightarrow> int \<Rightarrow> in_degree \<Rightarrow> adj_list \<Rightarrow> 's \<Rightarrow> 's res" where
  "insert_records z index dagInDegree [] s = Inr s"
| "insert_records z index dagInDegree ((i, existList) # rest) s =
     (let inDeg = (case cmap_find dagInDegree i of None \<Rightarrow> 0 | Some d \<Rightarrow> d) in
      bind_res (zinsert z (client_task_id index i) (value_to_str (task_record index i existList inDeg)) s)
        (\<lambda>(_, s'). insert_records z index dagInDegree rest s'))"

definition insert_taskinfo_to_zht :: "'s zht_ops \<Rightarrow> adj_list \<Rightarrow> in_degree \<Rightarrow> client \<Rightarrow> 's \<Rightarrow> (client \<times> 's) res" where
  "insert_taskinfo_to_zht z dag dagInDegree cl s =
     bind_res (insert_records z (cl_index cl) dagInDegree dag s) (\<lambda>s'.
       Inr (cl\<lparr>cl_numZHTMsg := cl_numZHTMsg cl + numTaskPerClient (cl_conf cl)\<rparr>, s'))"

definition init_one :: "client \<Rightarrow> int \<Rightarrow> task_msg res" where
  "init_one cl i =
     bind_res (vec_at (cl_taskVec cl) (nat i)) (\<lambda>line.
       let taskItemStr = tokenize (client_task_id (cl_index cl) i @ '' '' @ line) '' '' in
       bind_res (vec_at taskItemStr 0) (\<lambda>a. bind_res (vec_at taskItemStr 1) (\<lambda>b.
       bind_res (vec_at taskItemStr 2) (\<lambda>c. bind_res (vec_at taskItemStr 3) (\<lambda>d.
         Inr \<lparr>taskid = a, user = b, dir = c, cmd = d, datalength = 0\<rparr>)))))"

definition init_task :: "client \<Rightarrow> client res" where
  "init_task cl = bind_res (map_res (init_one cl) [0..numTaskPerClient (cl_conf cl) - 1]) (\<lambda>ts.
     Inr (cl\<lparr>cl_tasks := cl_tasks cl @ ts\<rparr>))"

text \<open>The loop of \<open>submit_task\<close> that sets the submission times; \<open>now i\<close> is the clock at task \<open>i\<close>.\<close>

fun stamp_tasks :: "'s zht_ops \<Rightarrow> (int \<Rightarrow> int) \<Rightarrow> task_msg list \<Rightarrow> int list \<Rightarrow> 's \<Rightarrow> 's res" where
  "stamp_tasks z now ts [] s = Inr s"
| "stamp_tasks z now ts (i # is) s =
     bind_res (vec_at ts (nat i)) (\<lambda>t.
     bind_res (zlookup z (taskid t) s) (\<lambda>(_, taskDetail, s1).
     bind_res (str_to_value taskDetail) (\<lambda>v.
     bind_res (zinsert z (taskid t) (value_to_str (v\<lparr>v_submittime := Some (now i)\<rparr>)) s1) (\<lambda>(_, s2).
       stamp_tasks z now ts is s2))))"

text \<open>What is sent: the index of the scheduler and the texts given to \<open>send\<close>. \<open>None\<close>: the sender loops for
  ever. \<open>reach k\<close> says whether a connection to scheduler \<open>k\<close> can be made.\<close>

type_synonym sent = "(nat \<times> string list) list"

definition submit_task_wc :: "(nat \<Rightarrow> bool) \<Rightarrow> client \<Rightarrow> task_msg list \<Rightarrow> nat \<Rightarrow> sent res option" where
  "submit_task_wc reach cl tmVec toScheIdx =
     (if length (cl_vec cl) \<le> toScheIdx then Some (Inl Out_Of_Range)
      else if \<not> reach toScheIdx then Some (Inr [])
      else map_option (\<lambda>out. Inr [(toScheIdx, out)]) (send_batch_tasks (maxTaskPerPkg (cl_conf cl)) tmVec ''client''))"

fun submit_all :: "(nat \<Rightarrow> bool) \<Rightarrow> client \<Rightarrow> (nat \<times> task_msg list) list \<Rightarrow> sent res option" where
  "submit_all reach cl [] = Some (Inr [])"
| "submit_all reach cl ((k, tmVec) # rest) =
     (case submit_task_wc reach cl tmVec k of
        None \<Rightarrow> None
      | Some (Inl e) \<Rightarrow> Some (Inl e)
      | Some (Inr o1) \<Rightarrow> map_option (\<lambda>r. bind_res r (\<lambda>os. Inr (o1 @ os))) (submit_all reach cl rest))"

text \<open>The tasks go round the schedulers.\<close>

fun deal :: "int list \<Rightarrow> task_msg list \<Rightarrow> task_msg list list \<Rightarrow> task_msg list list res" where
  "deal [] ts tasksVec = Inr tasksVec"
| "deal (i # is) ts tasksVec =
     (if tasksVec = [] then Inl Div_By_Zero
      else bind_res (vec_at ts (nat i)) (\<lambda>t.
             let toScheIdx = nat i mod length tasksVec in
             deal is ts (tasksVec[toScheIdx := tasksVec ! toScheIdx @ [t]])))"

definition submit_task_bc :: "(nat \<Rightarrow> bool) \<Rightarrow> client \<Rightarrow> sent res option" where
  "submit_task_bc reach cl =
     (case deal [0..numTaskPerClient (cl_conf cl) - 1] (cl_tasks cl) (replicate (length (cl_vec cl)) []) of
        Inl e \<Rightarrow> Some (Inl e)
      | Inr tasksVec \<Rightarrow> submit_all reach cl (zip [0..<length tasksVec] tasksVec))"

definition submit_task :: "'s zht_ops \<Rightarrow> (int \<Rightarrow> int) \<Rightarrow> nat \<Rightarrow> (nat \<Rightarrow> bool) \<Rightarrow> client \<Rightarrow> 's \<Rightarrow> (sent \<times> client \<times> 's) res option" where
  "submit_task z now rnd reach cl s =
     (case stamp_tasks z now (cl_tasks cl) [0..numTaskPerClient (cl_conf cl) - 1] s of
        Inl e \<Rightarrow> Some (Inl e)
      | Inr s' \<Rightarrow>
          let cl' = cl\<lparr>cl_numZHTMsg := cl_numZHTMsg cl + 2 * (if 0 < numTaskPerClient (cl_conf cl) then numTaskPerClient (cl_conf cl) else 0)\<rparr> in
          map_option (\<lambda>r. bind_res r (\<lambda>out. Inr (out, cl', s')))
            (if submitMode (cl_conf cl) = ''bestcase'' then submit_task_bc reach cl'
             else if submitMode (cl_conf cl) = ''worstcase''
             then (if cl_vec cl = [] then Some (Inl Div_By_Zero) else submit_task_wc reach cl' (cl_tasks cl') (rnd mod length (cl_vec cl)))
             else Some (Inr [])))"

text \<open>The \<open>main\<close> of the client up to the monitoring; \<open>env i\<close> is what the rest of the system does to the store before the
  \<open>i\<close>-th lookup of the wait for the schedulers.\<close>

definition client_main ::
    "'s zht_ops \<Rightarrow> (nat \<Rightarrow> 's \<Rightarrow> 's) \<Rightarrow> (int \<Rightarrow> int) \<Rightarrow> nat \<Rightarrow> (nat \<Rightarrow> bool) \<Rightarrow> client \<Rightarrow> 's \<Rightarrow> (sent \<times> client \<times> 's) res option" where
  "client_main z env now rnd reach cl s =
     (case gen_dag_adjlist [] (dagType (cl_conf cl)) (dagArg (cl_conf cl)) (numTaskPerClient (cl_conf cl)) of
        Inl e \<Rightarrow> Some (Inl e)
      | Inr dag \<Rightarrow>
          (case wait_all_scheduler z env (cl_vec cl) s of
             None \<Rightarrow> None
           | Some (Inl e) \<Rightarrow> Some (Inl e)
           | Some (Inr (_, _, s0)) \<Rightarrow>
               (case bind_res (insert_taskinfo_to_zht z dag (gen_dag_indegree dag []) cl s0) (\<lambda>(cl1, s1).
                     bind_res (init_task cl1) (\<lambda>cl2. Inr (cl2, s1))) of
                  Inl e \<Rightarrow> Some (Inl e)
                | Inr (cl2, s1) \<Rightarrow> submit_task z now rnd reach cl2 s1)))"

section \<open>Monitoring\<close>

text \<open>One pass over the schedulers' status records: idle cores, waiting and ready tasks.\<close>

fun sum_status :: "'s zht_ops \<Rightarrow> string list \<Rightarrow> int \<times> int \<times> int \<Rightarrow> 's \<Rightarrow> ((int \<times> int \<times> int) \<times> 's) res" where
  "sum_status z [] acc s = Inr (acc, s)"
| "sum_status z (n # ns) (idle, wait, ready) s =
     bind_res (zlookup z n s) (\<lambda>(_, stat, s').
       if stat = [] then sum_status z ns (idle, wait, ready) s'
       else bind_res (str_to_value stat) (\<lambda>v.
         sum_status z ns (idle + opt0 (v_numcoreavilable v), wait + opt0 (v_numtaskwait v), ready + opt0 (v_numtaskready v)) s'))"

text \<open>The monitoring loop: \<open>env i\<close> is what the rest of the system does to the store before round \<open>i\<close>; \<open>logging\<close> says whether the system
  log is open. The result has the lines of the log (idle, waiting, ready, done) and the count of requests;
  \<open>None\<close>: the counter never shows the number of all tasks.\<close>

partial_function (option) monitoring ::
    "'s zht_ops \<Rightarrow> (nat \<Rightarrow> 's \<Rightarrow> 's) \<Rightarrow> bool \<Rightarrow> client \<Rightarrow> nat \<Rightarrow> (int \<times> int \<times> int \<times> int) list \<Rightarrow> int \<Rightarrow> 's
      \<Rightarrow> ((int \<times> int \<times> int \<times> int) list \<times> client \<times> 's) res option" where
  "monitoring z env logging cl i rows increment s =
     (case bind_res (zlookup z ''num tasks done'' (env i s)) (\<lambda>(_, str, s1).
           bind_res (if logging then sum_status z (cl_vec cl) (0, 0, 0) s1 else Inr ((0, 0, 0), s1)) (\<lambda>((idle, wait, ready), s2).
             Inr (str_to_num_long str, idle, wait, ready, s2))) of
        Inl e \<Rightarrow> Some (Inl e)
      | Inr (numTaskDone, idle, wait, ready, s2) \<Rightarrow>
          let rows' = (if logging then rows @ [(idle, wait, ready, numTaskDone)] else rows);
              increment' = increment + 1 + (if logging then int (length (cl_vec cl)) else 0) in
          if numTaskDone = numAllTask (cl_conf cl) then Some (Inr (rows', cl\<lparr>cl_numZHTMsg := cl_numZHTMsg cl + increment'\<rparr>, s2))
          else monitoring z env logging cl (Suc i) rows' increment' s2)"

text \<open>Only the client with index 0 monitors.\<close>

definition do_monitoring ::
    "'s zht_ops \<Rightarrow> (nat \<Rightarrow> 's \<Rightarrow> 's) \<Rightarrow> bool \<Rightarrow> client \<Rightarrow> 's \<Rightarrow> ((int \<times> int \<times> int \<times> int) list \<times> client \<times> 's) res option" where
  "do_monitoring z env logging cl s = (if cl_index cl \<noteq> 0 then Some (Inr ([], cl, s)) else monitoring z env logging cl 0 [] 0 s)"

section \<open>The workload in the store\<close>

lemma client_task_id_inj [simp]: "client_task_id index i = client_task_id index j \<longleftrightarrow> i = j"
  by (simp add: client_task_id_def num_to_str_inj)

lemma client_task_id_field: "field_ok (task_delims @ ''~?/ '') (client_task_id index i)"
proof -
  have "b \<notin> set (task_delims @ ''~?/ '')" if "b \<in> set (client_task_id index i)" for b
    using that num_to_str_chars [of b index] num_to_str_chars [of b i] by (auto simp: client_task_id_def is_digit_def)
  moreover have "client_task_id index i \<noteq> []" using num_to_str_nonempty [of index] by (simp add: client_task_id_def)
  ultimately show ?thesis by (auto simp: field_ok_def list_all_iff)
qed

text \<open>Index and number are written without a separator, so two clients may give one id to two tasks.\<close>

lemma client_ids_collide: "client_task_id 1 11 = client_task_id 11 1"
  by code_simp

text \<open>Running through a list of distinct keys, an operation that writes one key a step leaves the written
  values under these keys and the rest alone.\<close>

lemma insert_records_store:
  assumes "deployed c s" and "distinct (map fst dag)"
    and "\<And>i cs. (i, cs) \<in> set dag \<Longrightarrow> key_ok (zc_msg_maxsize c) (client_task_id index i) \<and> val_ok (zc_msg_maxsize c) (value_to_str (r i cs))"
    and "\<And>i cs. (i, cs) \<in> set dag \<Longrightarrow> r i cs = task_record index i cs (case cmap_find deg i of None \<Rightarrow> 0 | Some d \<Rightarrow> d)"
  shows "\<exists>s'. insert_records (zht_ops_of c) index deg dag s = Inr s' \<and> deployed c s'
    \<and> (\<forall>i cs. (i, cs) \<in> set dag \<longrightarrow> zht_value c s' (client_task_id index i) = Some (value_to_str (r i cs)))
    \<and> (\<forall>k. k \<notin> client_task_id index ` fst ` set dag \<longrightarrow> zht_value c s' k = zht_value c s k)"
  using assms
proof (induction dag arbitrary: s)
  case (Cons e dag)
  obtain i cs where e: "e = (i, cs)" by fastforce
  have ok: "key_ok (zc_msg_maxsize c) (client_task_id index i)" "val_ok (zc_msg_maxsize c) (value_to_str (r i cs))"
    and r: "r i cs = task_record index i cs (case cmap_find deg i of None \<Rightarrow> 0 | Some d \<Rightarrow> d)"
    using Cons.prems(3) [of i cs] Cons.prems(4) [of i cs] by (simp_all add: e)
  obtain s1 where s1: "zinsert (zht_ops_of c) (client_task_id index i) (value_to_str (r i cs)) s = Inr (0, s1)" "deployed c s1"
      "zht_value c s1 = (zht_value c s)(client_task_id index i \<mapsto> value_to_str (r i cs))"
    using zs.insert [OF Cons.prems(1) ok] by blast
  have "distinct (map fst dag)" using Cons.prems(2) by simp
  from Cons.IH [OF s1(2) this] Cons.prems(3,4) obtain s' where s': "insert_records (zht_ops_of c) index deg dag s1 = Inr s'" "deployed c s'"
      "\<forall>i cs. (i, cs) \<in> set dag \<longrightarrow> zht_value c s' (client_task_id index i) = Some (value_to_str (r i cs))"
      "\<forall>k. k \<notin> client_task_id index ` fst ` set dag \<longrightarrow> zht_value c s' k = zht_value c s1 k"
    by (metis list.set_intros(2))
  have "i \<notin> fst ` set dag" using Cons.prems(2) by (simp add: e)
  then have "client_task_id index i \<notin> client_task_id index ` fst ` set dag" by force
  then have "zht_value c s' (client_task_id index i) = Some (value_to_str (r i cs))" using s'(4) s1(3) by simp
  then show ?case
    using s' s1(1,3) r by (intro exI [of _ s']) (auto simp: e Let_def)
qed simp

lemma stamp_tasks_store:
  assumes "deployed c s" and "distinct (map (\<lambda>i. taskid (ts ! nat i)) is)"
    and "\<And>i. i \<in> set is \<Longrightarrow> nat i < length ts \<and> key_ok (zc_msg_maxsize c) (taskid (ts ! nat i))
      \<and> zht_value c s (taskid (ts ! nat i)) = Some (value_to_str (r i)) \<and> value_ok (r i)
      \<and> val_ok (zc_msg_maxsize c) (value_to_str ((r i)\<lparr>v_submittime := Some (now i)\<rparr>))"
  shows "\<exists>s'. stamp_tasks (zht_ops_of c) now ts is s = Inr s' \<and> deployed c s'
    \<and> (\<forall>i \<in> set is. zht_value c s' (taskid (ts ! nat i)) = Some (value_to_str ((r i)\<lparr>v_submittime := Some (now i)\<rparr>)))
    \<and> (\<forall>k. k \<notin> (\<lambda>i. taskid (ts ! nat i)) ` set is \<longrightarrow> zht_value c s' k = zht_value c s k)"
  using assms
proof (induction "is" arbitrary: s)
  case (Cons i js)
  let ?k = "taskid (ts ! nat i)" and ?v = "(r i)\<lparr>v_submittime := Some (now i)\<rparr>"
  have i: "nat i < length ts" "key_ok (zc_msg_maxsize c) ?k" "zht_value c s ?k = Some (value_to_str (r i))" "value_ok (r i)"
      "val_ok (zc_msg_maxsize c) (value_to_str ?v)" using Cons.prems(3) [of i] by simp_all
  have l: "zlookup (zht_ops_of c) ?k s = Inr (0, value_to_str (r i), s)" using zs.lookup [OF Cons.prems(1) i(2)] i(3) by simp
  obtain s1 where s1: "zinsert (zht_ops_of c) ?k (value_to_str ?v) s = Inr (0, s1)" "deployed c s1"
      "zht_value c s1 = (zht_value c s)(?k \<mapsto> value_to_str ?v)"
    using zs.insert [OF Cons.prems(1) i(2,5)] by blast
  have d: "distinct (map (\<lambda>i. taskid (ts ! nat i)) js)" "?k \<notin> (\<lambda>i. taskid (ts ! nat i)) ` set js" using Cons.prems(2) by simp_all
  have "nat j < length ts \<and> key_ok (zc_msg_maxsize c) (taskid (ts ! nat j))
      \<and> zht_value c s1 (taskid (ts ! nat j)) = Some (value_to_str (r j)) \<and> value_ok (r j)
      \<and> val_ok (zc_msg_maxsize c) (value_to_str ((r j)\<lparr>v_submittime := Some (now j)\<rparr>))" if "j \<in> set js" for j
  proof -
    have "taskid (ts ! nat j) \<noteq> ?k" using that d(2) by (metis imageI)
    then show ?thesis using Cons.prems(3) [of j] that s1(3) by simp
  qed
  from Cons.IH [OF s1(2) d(1) this] obtain s' where s': "stamp_tasks (zht_ops_of c) now ts js s1 = Inr s'" "deployed c s'"
      "\<forall>i \<in> set js. zht_value c s' (taskid (ts ! nat i)) = Some (value_to_str ((r i)\<lparr>v_submittime := Some (now i)\<rparr>))"
      "\<forall>k. k \<notin> (\<lambda>i. taskid (ts ! nat i)) ` set js \<longrightarrow> zht_value c s' k = zht_value c s1 k" by blast
  have "zht_value c s' ?k = Some (value_to_str ?v)" using s'(4) d(2) s1(3) by simp
  then show ?case
    using s' s1 i l value_roundtrip [OF i(4)] by (intro exI [of _ s']) (auto simp: vec_at_def)
qed simp

section \<open>The tasks\<close>

text \<open>A line of the workload file: user, directory, command, separated by single blanks.\<close>

definition line_ok :: "string \<Rightarrow> bool" where
  "line_ok line \<longleftrightarrow> (\<exists>u d m. line = u @ '' '' @ d @ '' '' @ m \<and> field_ok (task_delims @ '' '') u \<and> field_ok (task_delims @ '' '') d
     \<and> field_ok (task_delims @ '' '') m)"

lemma field_ok_mono: "field_ok ds s \<Longrightarrow> set es \<subseteq> set ds \<Longrightarrow> field_ok es s"
  by (auto simp: field_ok_def list_all_iff)

lemma field_ok_blank: "field_ok ds s \<Longrightarrow> CHR '' '' \<in> set ds \<Longrightarrow> \<forall>b \<in> set s. b \<noteq> CHR '' ''"
  by (auto simp: field_ok_def list_all_iff)

lemma init_one_ok:
  assumes "nat i < length (cl_taskVec cl)" and "line_ok (cl_taskVec cl ! nat i)"
  shows "\<exists>t. init_one cl i = Inr t \<and> taskid t = client_task_id (cl_index cl) i \<and> task_ok t"
proof -
  obtain u d m where l: "cl_taskVec cl ! nat i = u @ '' '' @ d @ '' '' @ m" "field_ok (task_delims @ '' '') u" "field_ok (task_delims @ '' '') d"
      "field_ok (task_delims @ '' '') m" using assms(2) by (auto simp: line_ok_def)
  let ?id = "client_task_id (cl_index cl) i"
  have f: "field_ok (task_delims @ '' '') ?id" by (rule field_ok_mono [OF client_task_id_field]) auto
  have n: "?id \<noteq> []" "u \<noteq> []" "d \<noteq> []" "m \<noteq> []" using f l by (simp_all add: field_ok_def)
  have b: "\<forall>x \<in> set ?id. x \<noteq> CHR '' ''" "\<forall>x \<in> set u. x \<noteq> CHR '' ''" "\<forall>x \<in> set d. x \<noteq> CHR '' ''" "\<forall>x \<in> set m. x \<noteq> CHR '' ''"
    using field_ok_blank [OF f] field_ok_blank [OF l(2)] field_ok_blank [OF l(3)] field_ok_blank [OF l(4)] by simp_all
  have "tokenize (?id @ '' '' @ cl_taskVec cl ! nat i) '' '' = [?id, u, d, m]"
    using tokens_field [where P = "\<lambda>c. c = CHR '' ''" and d = "CHR '' ''"] tokens_clean [where P = "\<lambda>c. c = CHR '' ''"] n b
    by (simp add: tokenize_tokens l(1))
  then have "init_one cl i = Inr \<lparr>taskid = ?id, user = u, dir = d, cmd = m, datalength = 0\<rparr>"
    using assms(1) by (simp add: init_one_def vec_at_in Let_def)
  moreover have "field_ok task_delims x" if "field_ok (task_delims @ '' '') x" for x
    by (rule field_ok_mono [OF that]) auto
  ultimately show ?thesis using f l(2-4) by (simp add: task_ok_def int_range_defs)
qed

text \<open>What \<open>init_task\<close> makes of a workload file with enough good lines.\<close>

definition client_ok :: "client \<Rightarrow> bool" where
  "client_ok cl \<longleftrightarrow> cl_tasks cl = [] \<and> numTaskPerClient (cl_conf cl) \<le> int (length (cl_taskVec cl)) \<and> list_all line_ok (cl_taskVec cl)
     \<and> 0 < maxTaskPerPkg (cl_conf cl)"

lemma init_task_ok:
  assumes "client_ok cl" and "0 \<le> numTaskPerClient (cl_conf cl)"
  shows "\<exists>ts. init_task cl = Inr (cl\<lparr>cl_tasks := ts\<rparr>) \<and> length ts = nat (numTaskPerClient (cl_conf cl)) \<and> list_all task_ok ts
    \<and> (\<forall>i < length ts. taskid (ts ! i) = client_task_id (cl_index cl) (int i))"
proof -
  let ?n = "numTaskPerClient (cl_conf cl)"
  define t where "t i = (SOME t. init_one cl i = Inr t \<and> taskid t = client_task_id (cl_index cl) i \<and> task_ok t)" for i
  have t: "init_one cl i = Inr (t i) \<and> taskid (t i) = client_task_id (cl_index cl) i \<and> task_ok (t i)" if "i \<in> set [0..?n - 1]" for i
  proof -
    have "nat i < length (cl_taskVec cl)" "line_ok (cl_taskVec cl ! nat i)" using that assms(1) by (auto simp: client_ok_def list_all_length)
    from someI_ex [OF init_one_ok [OF this]] show ?thesis unfolding t_def .
  qed
  then have "map_res (init_one cl) [0..?n - 1] = Inr (map t [0..?n - 1])" by (intro map_res_Inr) blast
  moreover have "taskid (map t [0..?n - 1] ! i) = client_task_id (cl_index cl) (int i)" if "i < length (map t [0..?n - 1])" for i
    using that t [of "int i"] by (simp add: nth_upto)
  moreover have "list_all task_ok (map t [0..?n - 1])" using t by (simp add: list_all_iff)
  ultimately show ?thesis using assms by (intro exI [of _ "map t [0..?n - 1]"]) (simp add: init_task_def client_ok_def)
qed

section \<open>Dealing the tasks out\<close>

text \<open>What scheduler \<open>k\<close> of \<open>n\<close> gets of the first \<open>m\<close> tasks: every \<open>n\<close>-th, from the \<open>k\<close>-th on.\<close>

definition hand :: "task_msg list \<Rightarrow> nat \<Rightarrow> nat \<Rightarrow> nat \<Rightarrow> task_msg list" where
  "hand ts n m k = map (\<lambda>i. ts ! i) (filter (\<lambda>i. i mod n = k) [0..<m])"

lemma hand_Suc: "hand ts n (Suc m) k = (if m mod n = k then hand ts n m k @ [ts ! m] else hand ts n m k)"
  by (simp add: hand_def)

lemma deal_hands:
  assumes "0 < n" and "m \<le> length ts"
  shows "deal (map int [j..<m]) ts (map (hand ts n j) [0..<n]) = Inr (map (hand ts n (max j m)) [0..<n])"
proof (induction "m - j" arbitrary: j)
  case (Suc d)
  then have j: "j < m" "[j..<m] = j # [Suc j..<m]" "d = m - Suc j" "max j m = max (Suc j) m" by (simp_all add: upt_conv_Cons)
  have u: "(map (hand ts n j) [0..<n])[j mod n := hand ts n j (j mod n) @ [ts ! j]] = map (hand ts n (Suc j)) [0..<n]"
    using assms(1) by (intro nth_equalityI) (auto simp: hand_Suc nth_list_update)
  have "deal (map int [j..<m]) ts (map (hand ts n j) [0..<n]) = deal (map int [Suc j..<m]) ts (map (hand ts n (Suc j)) [0..<n])"
    using assms j(1,2) u by (simp add: vec_at_def)
  then show ?case using Suc.hyps(1) [OF j(3)] by (simp only: j(4))
qed simp

lemma hands_mset: "0 < n \<Longrightarrow> mset (concat (map (hand ts n m) [0..<n])) = mset (map (\<lambda>i. ts ! i) [0..<m])"
proof (induction m)
  case 0
  then show ?case by (simp add: hand_def concat_map_append_Nil)
next
  case (Suc m)
  let ?k = "m mod n"
  have k: "?k < n" using Suc.prems by simp
  have "[0..<n] = [0..<?k] @ [?k..<n]" using upt_add_eq_append [of 0 ?k "n - ?k"] k by simp
  then have sp: "[0..<n] = [0..<?k] @ ?k # [Suc ?k..<n]" using upt_conv_Cons [OF k] by simp
  have e: "map (hand ts n (Suc m)) [0..<?k] = map (hand ts n m) [0..<?k]" "map (hand ts n (Suc m)) [Suc ?k..<n] = map (hand ts n m) [Suc ?k..<n]"
    by (auto simp: hand_Suc)
  have "mset (concat (map (hand ts n (Suc m)) [0..<n])) = add_mset (ts ! m) (mset (concat (map (hand ts n m) [0..<n])))"
    unfolding sp map_append list.map concat_append concat.simps mset_append e by (simp add: hand_Suc)
  then show ?case using Suc by simp
qed

text \<open>The stream sent for a share of the tasks.\<close>

definition sent_for :: "int \<Rightarrow> nat \<times> task_msg list \<Rightarrow> nat \<times> string list \<Rightarrow> bool" where
  "sent_for mx share o1 \<longleftrightarrow> fst o1 = fst share \<and> send_batch_tasks mx (snd share) ''client'' = Some (snd o1)"

lemma submit_all_sends:
  assumes "\<And>k tv. (k, tv) \<in> set xs \<Longrightarrow> k < length (cl_vec cl) \<and> reach k" and "0 < maxTaskPerPkg (cl_conf cl)"
  shows "\<exists>outs. submit_all reach cl xs = Some (Inr outs)
    \<and> list_all2 (sent_for (maxTaskPerPkg (cl_conf cl))) xs outs"
  using assms(1)
proof (induction xs)
  case (Cons x xs)
  obtain k tv where x: "x = (k, tv)" by fastforce
  obtain out where out: "send_batch_tasks (maxTaskPerPkg (cl_conf cl)) tv ''client'' = Some out"
    using send_batch_tasks_stream [OF assms(2), of tv "''client''"] by blast
  obtain outs where "submit_all reach cl xs = Some (Inr outs)"
      "list_all2 (sent_for (maxTaskPerPkg (cl_conf cl))) xs outs"
    using Cons.IH Cons.prems by auto
  moreover have "sent_for (maxTaskPerPkg (cl_conf cl)) (k, tv) (k, out)" using out by (simp add: sent_for_def)
  ultimately show ?case using Cons.prems [of k tv] out by (intro exI [of _ "(k, out) # outs"]) (simp add: x submit_task_wc_def)
qed simp

text \<open>To whom the tasks go: in the best case each scheduler gets its hand, in the worst case one of them
  gets all.\<close>

definition shares :: "nat \<Rightarrow> client \<Rightarrow> (nat \<times> task_msg list) list" where
  "shares rnd cl =
     (let n = length (cl_vec cl); ts = cl_tasks cl in
      if submitMode (cl_conf cl) = ''bestcase'' then map (\<lambda>k. (k, hand ts n (length ts) k)) [0..<n] else [(rnd mod n, ts)])"

lemma shares_tasks:
  assumes "cl_vec cl \<noteq> []"
  shows "mset (concat (map snd (shares rnd cl))) = mset (cl_tasks cl)"
proof -
  have m: "map (\<lambda>i. cl_tasks cl ! i) [0..<length (cl_tasks cl)] = cl_tasks cl" by (rule map_nth)
  have "map snd (map (\<lambda>k. (k, hand (cl_tasks cl) n (length (cl_tasks cl)) k)) [0..<n]) = map (hand (cl_tasks cl) n (length (cl_tasks cl))) [0..<n]" for n
    by simp
  then show ?thesis
    using hands_mset [of "length (cl_vec cl)" "cl_tasks cl" "length (cl_tasks cl)"] assms m by (simp add: shares_def Let_def comp_def)
qed

lemma shares_indices: "cl_vec cl \<noteq> [] \<Longrightarrow> (k, tv) \<in> set (shares rnd cl) \<Longrightarrow> k < length (cl_vec cl)"
  by (auto simp: shares_def Let_def split: if_splits)

lemma submit_shares:
  assumes "cl_vec cl \<noteq> []" and "\<And>k. k < length (cl_vec cl) \<Longrightarrow> reach k" and "0 < maxTaskPerPkg (cl_conf cl)"
    and n: "0 \<le> numTaskPerClient (cl_conf cl)" "length (cl_tasks cl) = nat (numTaskPerClient (cl_conf cl))"
    and mode: "submitMode (cl_conf cl) \<in> {''bestcase'', ''worstcase''}"
    and s: "stamp_tasks z now (cl_tasks cl) [0..numTaskPerClient (cl_conf cl) - 1] s = Inr s'"
  shows "\<exists>outs cl'. submit_task z now rnd reach cl s = Some (Inr (outs, cl', s'))
    \<and> cl' = cl\<lparr>cl_numZHTMsg := cl_numZHTMsg cl + 2 * numTaskPerClient (cl_conf cl)\<rparr>
    \<and> list_all2 (sent_for (maxTaskPerPkg (cl_conf cl))) (shares rnd cl) outs"
proof -
  let ?cl = "cl\<lparr>cl_numZHTMsg := cl_numZHTMsg cl + 2 * numTaskPerClient (cl_conf cl)\<rparr>"
  obtain outs where o: "submit_all reach ?cl (shares rnd cl) = Some (Inr outs)"
      "list_all2 (sent_for (maxTaskPerPkg (cl_conf cl))) (shares rnd cl) outs"
    using submit_all_sends [of "shares rnd cl" ?cl reach] shares_indices [OF assms(1)] assms(2,3) by auto
  have r: "(if 0 < numTaskPerClient (cl_conf cl) then numTaskPerClient (cl_conf cl) else 0) = numTaskPerClient (cl_conf cl)" using n(1) by simp
  have "submit_task z now rnd reach cl s = Some (Inr (outs, ?cl, s'))"
  proof (cases "submitMode (cl_conf cl) = ''bestcase''")
    case True
    have up: "[0..numTaskPerClient (cl_conf cl) - 1] = map int [0..<length (cl_tasks cl)]"
      by (rule nth_equalityI) (use n in \<open>simp_all add: nth_upto\<close>)
    have "replicate (length (cl_vec cl)) [] = map (hand (cl_tasks cl) (length (cl_vec cl)) 0) [0..<length (cl_vec cl)]"
      by (rule nth_equalityI) (simp_all add: hand_def)
    then have "deal [0..numTaskPerClient (cl_conf cl) - 1] (cl_tasks cl) (replicate (length (cl_vec cl)) []) =
        Inr (map (hand (cl_tasks cl) (length (cl_vec cl)) (length (cl_tasks cl))) [0..<length (cl_vec cl)])"
      using deal_hands [of "length (cl_vec cl)" "length (cl_tasks cl)" "cl_tasks cl" 0] assms(1) unfolding up by simp
    moreover have "zip [0..<n] (map f [0..<n]) = map (\<lambda>k. (k, f k)) [0..<n]" for f :: "nat \<Rightarrow> task_msg list" and n
      by (rule nth_equalityI) simp_all
    ultimately have "submit_task_bc reach ?cl = submit_all reach ?cl (shares rnd cl)"
      using True by (simp add: submit_task_bc_def shares_def Let_def)
    then show ?thesis using True s o(1) by (simp add: submit_task_def r Let_def)
  next
    case False
    then have w: "submitMode (cl_conf cl) = ''worstcase''" using mode by simp
    have "submit_all reach ?cl (shares rnd cl) = submit_task_wc reach ?cl (cl_tasks cl) (rnd mod length (cl_vec cl))"
      using False by (auto simp: shares_def Let_def option.map_ident bind_res_def map_option_case split: option.splits sum.splits)
    then have "submit_task_wc reach ?cl (cl_tasks cl) (rnd mod length (cl_vec cl)) = Some (Inr outs)" using o(1) by simp
    then show ?thesis using w s assms(1) by (simp add: submit_task_def r Let_def)
  qed
  with o(2) show ?thesis by blast
qed

section \<open>Arrival\<close>

text \<open>The streams of the client reach the schedulers one after the other; \<open>(k, b # cs)\<close> are the chunks in which
  scheduler \<open>k\<close> reads its one.\<close>

fun deliver :: "'s zht_ops \<Rightarrow> int \<Rightarrow> (nat \<times> string list) list \<Rightarrow> sched list \<Rightarrow> 's \<Rightarrow> (sched list \<times> 's) res option" where
  "deliver z now [] ss s = Some (Inr (ss, s))"
| "deliver z now ((k, chunks) # rest) ss s =
     (case proc_req z (\<lambda>_ s. s) now (hd chunks) (tl chunks) (ss ! k) s of
        None \<Rightarrow> None
      | Some (Inl e) \<Rightarrow> Some (Inl e)
      | Some (Inr (_, st', s')) \<Rightarrow> deliver z now rest (ss[k := st']) s')"

text \<open>The chunks of a stream, the first of which shows the kind of message.\<close>

definition chunks_of :: "nat \<times> string list \<Rightarrow> nat \<times> string list \<Rightarrow> bool" where
  "chunks_of o1 ch \<longleftrightarrow> fst ch = fst o1 \<and> snd ch \<noteq> [] \<and> chunking (snd ch) (concat (snd o1)) \<and> 17 \<le> length (hd (snd ch))"

text \<open>A scheduler that has taken part in nothing yet, apart from tasks that wait.\<close>

definition fresh :: "sched \<Rightarrow> bool" where
  "fresh st \<longleftrightarrow> sched_ok st \<and> sc_localQueue st = [] \<and> sc_wsQueue st = [] \<and> sc_completeQueue st = []"

lemma fresh_submission:
  assumes "fresh st" and "list_all task_ok tv"
  shows "fresh (st\<lparr>sc_timeEntry := es, sc_waitQueue := sc_waitQueue st @ tv, sc_numZHTMsg := m\<rparr>)"
  using assms by (auto simp: fresh_def sched_ok_def list_all_iff)

lemma deliver_shares:
  assumes "deployed c s" and mx: "0 < mx" and "list_all2 (sent_for mx) xs outs" and "list_all2 chunks_of outs chs"
    and "\<And>k tv. (k, tv) \<in> set xs \<Longrightarrow> k < length ss \<and> list_all task_ok tv"
    and "\<And>t. t \<in> set (concat (map snd xs)) \<Longrightarrow> key_ok (zc_msg_maxsize c) (taskid t) \<and> taskid t \<noteq> ''num tasks recv''
      \<and> (\<exists>d v. zht_value c s (taskid t) = Some d \<and> str_to_value d = Inr v)"
    and "zht_value c s ''num tasks recv'' = Some (num_to_str n)" and "0 \<le> n" and "is_int (n + int (length (concat (map snd xs))))"
    and big: "100 \<le> zc_msg_maxsize c" and "list_all fresh ss"
  shows "\<exists>ss' s'. deliver (zht_ops_of c) now chs ss s = Some (Inr (ss', s')) \<and> length ss' = length ss \<and> list_all fresh ss'
    \<and> deployed c s' \<and> zht_value c s' = (zht_value c s)(''num tasks recv'' \<mapsto> num_to_str (n + int (length (concat (map snd xs)))))
    \<and> all_ids wait_ids ss' = all_ids wait_ids ss + image_mset taskid (mset (concat (map snd xs)))
    \<and> map sc_id ss' = map sc_id ss \<and> map sc_conf ss' = map sc_conf ss"
  using assms(1,3-9,11)
proof (induction xs arbitrary: outs chs s ss n)
  case Nil
  then show ?case by (simp add: fun_upd_idem)
next
  case (Cons x xs)
  obtain k tv where x: "x = (k, tv)" by fastforce
  obtain o1 outs' where o: "outs = o1 # outs'" "sent_for mx x o1" "list_all2 (sent_for mx) xs outs'"
    using Cons.prems(2) by (auto simp: list_all2_Cons1)
  obtain ch chs' where ch: "chs = ch # chs'" "chunks_of o1 ch" "list_all2 chunks_of outs' chs'"
    using Cons.prems(3) o(1) by (auto simp: list_all2_Cons1)
  obtain out where out: "o1 = (k, out)" "send_batch_tasks mx tv ''client'' = Some out" using o(2) by (cases o1) (auto simp: sent_for_def x)
  obtain b cs where b: "ch = (k, b # cs)" "chunking (b # cs) (concat out)" "17 \<le> length b"
    using ch(2) out(1) by (cases ch; cases "snd ch") (auto simp: chunks_of_def)
  have k: "k < length ss" "list_all task_ok tv" using Cons.prems(4) [of k tv] by (simp_all add: x)
  have i: "is_int (int (length tv))" "is_long n" using Cons.prems(7,8) by (simp_all add: x int_range_defs)
  have kn: "\<forall>t \<in> set tv. key_ok (zc_msg_maxsize c) (taskid t) \<and> (\<exists>d v. zht_value c s (taskid t) = Some d \<and> str_to_value d = Inr v)"
    using Cons.prems(5) by (simp add: x)
  obtain es m s1 where r: "proc_req (zht_ops_of c) (\<lambda>_ s. s) now b cs (ss ! k) s =
        Some (Inr ([], (ss ! k)\<lparr>sc_timeEntry := es, sc_waitQueue := sc_waitQueue (ss ! k) @ tv, sc_numZHTMsg := m\<rparr>, s1))"
      "deployed c s1" "zht_value c s1 = (zht_value c s)(''num tasks recv'' \<mapsto> num_to_str (n + int (length tv)))"
    using submission_received [OF Cons.prems(1) mx k(2) i(1) out(2) b(2,3) kn Cons.prems(6) i(2) big, of now "ss ! k"] by blast
  let ?st = "(ss ! k)\<lparr>sc_timeEntry := es, sc_waitQueue := sc_waitQueue (ss ! k) @ tv, sc_numZHTMsg := m\<rparr>"
  have f: "list_all fresh (ss[k := ?st])"
    using Cons.prems(9) k fresh_submission [where st = "ss ! k" and tv = tv and es = es and m = m] by (auto simp: list_all_length nth_list_update)
  have "all_ids wait_ids (ss[k := ?st]) + wait_ids (ss ! k) = all_ids wait_ids ss + wait_ids ?st"
    using sum_list_update [OF k(1), of wait_ids ?st] by (simp add: all_ids_def)
  moreover have "wait_ids ?st = wait_ids (ss ! k) + image_mset taskid (mset tv)" by (simp add: wait_ids_def)
  ultimately have w: "all_ids wait_ids (ss[k := ?st]) = all_ids wait_ids ss + image_mset taskid (mset tv)" by simp
  have kn': "key_ok (zc_msg_maxsize c) (taskid t) \<and> taskid t \<noteq> ''num tasks recv'' \<and> (\<exists>d v. zht_value c s1 (taskid t) = Some d \<and> str_to_value d = Inr v)"
    if "t \<in> set (concat (map snd xs))" for t
    using Cons.prems(5) [of t] that r(3) by (auto simp: x)
  have ix: "k' < length (ss[k := ?st]) \<and> list_all task_ok tv'" if "(k', tv') \<in> set xs" for k' tv' using Cons.prems(4) [of k' tv'] that by simp
  have c1: "zht_value c s1 ''num tasks recv'' = Some (num_to_str (n + int (length tv)))" "0 \<le> n + int (length tv)"
      "is_int (n + int (length tv) + int (length (concat (map snd xs))))"
    using r(3) Cons.prems(7,8) by (simp_all add: x add.assoc)
  obtain ss' s' where "deliver (zht_ops_of c) now chs' (ss[k := ?st]) s1 = Some (Inr (ss', s'))" "length ss' = length (ss[k := ?st])" "list_all fresh ss'"
      "deployed c s'" "zht_value c s' = (zht_value c s1)(''num tasks recv'' \<mapsto> num_to_str (n + int (length tv) + int (length (concat (map snd xs)))))"
      "all_ids wait_ids ss' = all_ids wait_ids (ss[k := ?st]) + image_mset taskid (mset (concat (map snd xs)))"
      "map sc_id ss' = map sc_id (ss[k := ?st])" "map sc_conf ss' = map sc_conf (ss[k := ?st])"
    using Cons.IH [OF r(2) o(3) ch(3) ix kn' c1 f] by blast
  moreover have "map sc_id (ss[k := ?st]) = map sc_id ss" "map sc_conf (ss[k := ?st]) = map sc_conf ss"
    using k(1) by (simp_all add: map_update list_update_same_conv)
  ultimately show ?case using r(1,3) w by (intro exI [of _ ss'] exI [of _ s']) (simp add: ch(1) b(1) x add.assoc)
qed

text \<open>A stream can always be cut so that the first chunk shows the kind of the message.\<close>

lemma sent_chunks:
  assumes "0 < mx" and "list_all2 (sent_for mx) xs outs" and "\<And>k tv. (k, tv) \<in> set xs \<Longrightarrow> list_all task_ok tv \<and> is_int (int (length tv))"
  shows "\<exists>chs. list_all2 chunks_of outs chs"
proof -
  have "\<exists>ch. chunks_of o1 ch" if x: "x \<in> set xs" "sent_for mx x o1" for x o1
  proof -
    have peer: "peer_ok ''client''" by (simp add: peer_ok_def)
    obtain str rest where "concat (snd o1) = str @ ''$''" "str = ''client'' @ '' send tasks&&'' @ rest"
      using batch_stream [OF assms(1) peer, of "snd x" "snd o1"] assms(3) [of "fst x" "snd x"] x by (auto simp: sent_for_def)
    then have l: "17 \<le> length (concat (snd o1))" by simp
    define w where "w = concat (snd o1)"
    have "take 17 w @ concat (map (\<lambda>b. [b]) (drop 17 w)) = w" by simp
    moreover have "w \<noteq> []" "17 \<le> length w" using l unfolding w_def [symmetric] by auto
    ultimately have "chunks_of o1 (fst o1, take 17 w # map (\<lambda>b. [b]) (drop 17 w))"
      unfolding chunks_of_def w_def [symmetric] by (auto simp: chunking_def list_all_iff BUF_SIZE_def simp del: concat_map_singleton)
    then show ?thesis ..
  qed
  then show ?thesis
    using assms(2)
  proof (induction xs arbitrary: outs)
    case (Cons x xs)
    then obtain o1 outs' where "outs = o1 # outs'" "sent_for mx x o1" "list_all2 (sent_for mx) xs outs'" by (auto simp: list_all2_Cons1)
    then show ?case using Cons.IH [of outs'] Cons.prems(1) [of x o1] Cons.prems(1) by (metis list.rel_intros(2) list.set_intros)
  qed (auto intro: exI [of _ "[]"])
qed

section \<open>The workload as the schedulers see it\<close>

definition workload_ids :: "int \<Rightarrow> int \<Rightarrow> string set" where
  "workload_ids index n = client_task_id index ` {0..n - 1}"

definition workload_children :: "int \<Rightarrow> adj_list \<Rightarrow> string \<Rightarrow> string list" where
  "workload_children index dag t = concat (map (\<lambda>(i, cs). if client_task_id index i = t then map (client_task_id index) cs else []) dag)"

lemma workload_children_id:
  assumes "dag_wf n dag" and "0 \<le> i" and "i < n"
  shows "workload_children index dag (client_task_id index i) = map (client_task_id index) (children_of dag i)"
proof -
  have c: "concat (map (\<lambda>j. if j = i then f j else []) xs) = (if i \<in> set xs then f i else [])" if "distinct xs" for f :: "int \<Rightarrow> string list" and xs
    using that by (induction xs) (auto simp: concat_eq_Nil_conv)
  have "workload_children index dag (client_task_id index i) =
      workload_children index (map (\<lambda>i. (i, children_of dag i)) [0..n - 1]) (client_task_id index i)"
    by (rule arg_cong [where f = "\<lambda>d. workload_children index d (client_task_id index i)", OF dag_wf_entries [OF assms(1)]])
  also have "\<dots> = concat (map (\<lambda>j. if j = i then map (client_task_id index) (children_of dag j) else []) [0..n - 1])"
    by (simp add: workload_children_def comp_def)
  also have "\<dots> = map (client_task_id index) (children_of dag i)" using assms(2,3) by (simp add: c)
  finally show ?thesis .
qed

lemma count_concat: "count_list (concat (map f is)) j = sum_list (map (\<lambda>i. count_list (f i) j) is)"
  by (induction "is") simp_all

lemma count_list_inj: "inj f \<Longrightarrow> count_list (map f xs) (f x) = count_list xs x"
  by (induction xs) (auto dest: injD)

lemma workload_indegree:
  assumes "dag_wf n dag" and "0 \<le> j" and "j < n"
  shows "(\<Sum>p \<in> workload_ids index n. count_list (workload_children index dag p) (client_task_id index j)) = length (parents_of dag j)"
proof -
  have inj: "inj (client_task_id index)" by (rule injI) simp
  have "(\<Sum>p \<in> workload_ids index n. count_list (workload_children index dag p) (client_task_id index j)) =
      (\<Sum>i \<in> {0..n - 1}. count_list (workload_children index dag (client_task_id index i)) (client_task_id index j))"
    unfolding workload_ids_def using inj by (subst sum.reindex) (auto simp: inj_on_def)
  also have "\<dots> = (\<Sum>i \<in> {0..n - 1}. count_list (children_of dag i) j)"
    by (intro sum.cong refl) (simp add: workload_children_id [OF assms(1)] count_list_inj [OF inj])
  also have "\<dots> = sum_list (map (\<lambda>i. count_list (children_of dag i) j) [0..n - 1])"
    by (simp add: sum_list_distinct_conv_sum_set)
  also have "\<dots> = count_list (concat (map snd (map (\<lambda>i. (i, children_of dag i)) [0..n - 1]))) j"
    by (simp add: count_concat comp_def)
  also have "\<dots> = count_list (concat (map snd dag)) j"
    by (rule arg_cong [where f = "\<lambda>d. count_list (concat (map snd d)) j", OF dag_wf_entries [OF assms(1), symmetric]])
  finally show ?thesis by (simp add: length_parents_of)
qed

text \<open>The record of task \<open>i\<close> after submission.\<close>

definition submitted_record :: "(int \<Rightarrow> int) \<Rightarrow> int \<Rightarrow> adj_list \<Rightarrow> int \<Rightarrow> val_msg" where
  "submitted_record now index dag i =
     (task_record index i (children_of dag i) (int (length (parents_of dag i))))\<lparr>v_submittime := Some (now i)\<rparr>"

text \<open>Keys, records and numbers of the workload fit what the store can hold.\<close>

definition records_fit :: "zht_conf \<Rightarrow> (int \<Rightarrow> int) \<Rightarrow> int \<Rightarrow> adj_list \<Rightarrow> int \<Rightarrow> bool" where
  "records_fit c now index dag n \<longleftrightarrow> (\<forall>i \<in> {0..n - 1}. key_ok (zc_msg_maxsize c) (client_task_id index i) \<and> is_long (now i)
     \<and> val_ok (zc_msg_maxsize c) (value_to_str (task_record index i (children_of dag i) (int (length (parents_of dag i)))))
     \<and> val_ok (zc_msg_maxsize c) (value_to_str (submitted_record now index dag i)))"

lemma record_value_ok:
  assumes "dag_wf n dag" and "i \<in> {0..n - 1}" and "is_int n" and "is_long (now i)"
  shows "value_ok (task_record index i (children_of dag i) (int (length (parents_of dag i))))"
    and "value_ok (submitted_record now index dag i)"
proof -
  have "field_ok ''~?/'' (client_task_id index j)" for j by (rule field_ok_mono [OF client_task_id_field]) auto
  note f = this
  have "length (parents_of dag i) \<le> length [0..n - 1]" unfolding parents_of_wf [OF assms(1)] by (rule length_filter_le)
  then have "int (length (parents_of dag i)) \<le> max 0 n" by simp
  moreover have "n \<le> 2147483647" using assms(3) by (simp add: int_range_defs)
  ultimately have "int (length (parents_of dag i)) \<le> 2147483647" by linarith
  then have "is_long (int (length (parents_of dag i)))" by (simp add: int_range_defs)
  with f show "value_ok (task_record index i (children_of dag i) (int (length (parents_of dag i))))"
    "value_ok (submitted_record now index dag i)"
    using assms(4) by (simp_all add: task_record_def submitted_record_def default_value_def value_ok_def opt_ok_def list_all_iff)
qed

lemma client_main_store:
  assumes s: "deployed c s" and cl: "client_ok cl" "cl_vec cl \<noteq> []" "\<And>k. k < length (cl_vec cl) \<Longrightarrow> reach k"
    and n: "n = numTaskPerClient (cl_conf cl)" "1 \<le> n" "is_int n"
    and dag: "gen_dag_adjlist [] (dagType (cl_conf cl)) (dagArg (cl_conf cl)) n = Inr dag" "dag_wf n dag"
    and mode: "submitMode (cl_conf cl) \<in> {''bestcase'', ''worstcase''}" and fit: "records_fit c now (cl_index cl) dag n"
    and reg: "200 \<le> zc_msg_maxsize c" "is_int (int (length (cl_vec cl)))"
      "zht_value c s ''number of scheduler registered'' = Some (num_to_str (int (length (cl_vec cl))))"
  shows "\<exists>outs cl' s' ts. client_main (zht_ops_of c) (\<lambda>_ s. s) now rnd reach cl s = Some (Inr (outs, cl', s')) \<and> deployed c s'
    \<and> (\<forall>i \<in> {0..n - 1}. zht_value c s' (client_task_id (cl_index cl) i) = Some (value_to_str (submitted_record now (cl_index cl) dag i)))
    \<and> (\<forall>k. k \<notin> workload_ids (cl_index cl) n \<longrightarrow> zht_value c s' k = zht_value c s k)
    \<and> length ts = nat n \<and> list_all task_ok ts \<and> (\<forall>i < length ts. taskid (ts ! i) = client_task_id (cl_index cl) (int i))
    \<and> list_all2 (sent_for (maxTaskPerPkg (cl_conf cl))) (shares rnd (cl\<lparr>cl_tasks := ts\<rparr>)) outs
    \<and> cl_numZHTMsg cl' = cl_numZHTMsg cl + 3 * n"
proof -
  let ?ix = "cl_index cl" and ?deg = "gen_dag_indegree dag []"
  let ?r = "\<lambda>i cs. task_record ?ix i cs (int (length (parents_of dag i)))"
  have ent: "(i, cs) \<in> set dag \<longleftrightarrow> i \<in> {0..n - 1} \<and> cs = children_of dag i" for i cs
    by (subst dag_wf_entries [OF dag(2)]) auto
  have keys: "distinct (map fst dag)" "fst ` set dag = {0..n - 1}" using dag(2) by (simp_all add: dag_wf_def) (metis set_map set_upto)
  have i1: "key_ok (zc_msg_maxsize c) (client_task_id ?ix i) \<and> val_ok (zc_msg_maxsize c) (value_to_str (?r i cs))" if "(i, cs) \<in> set dag" for i cs
    using that fit unfolding ent records_fit_def by blast
  have i2: "?r i cs = task_record ?ix i cs (case cmap_find ?deg i of None \<Rightarrow> 0 | Some d \<Rightarrow> d)" if "(i, cs) \<in> set dag" for i cs
    using that indegree_find [OF dag(2), of i] unfolding ent by simp
  obtain s1 where s1: "insert_records (zht_ops_of c) ?ix ?deg dag s = Inr s1" "deployed c s1"
      "\<forall>i cs. (i, cs) \<in> set dag \<longrightarrow> zht_value c s1 (client_task_id ?ix i) = Some (value_to_str (?r i cs))"
      "\<forall>k. k \<notin> client_task_id ?ix ` fst ` set dag \<longrightarrow> zht_value c s1 k = zht_value c s k"
    using insert_records_store [where r = ?r, OF s keys(1) i1 i2] by blast
  let ?cl1 = "cl\<lparr>cl_numZHTMsg := cl_numZHTMsg cl + n\<rparr>"
  have "client_ok ?cl1" "0 \<le> numTaskPerClient (cl_conf ?cl1)" using cl(1) n by (simp_all add: client_ok_def)
  from init_task_ok [OF this] obtain ts where ts: "init_task ?cl1 = Inr (?cl1\<lparr>cl_tasks := ts\<rparr>)" "length ts = nat n" "list_all task_ok ts"
      "\<forall>i < length ts. taskid (ts ! i) = client_task_id ?ix (int i)" using n(1) by auto
  have tid: "taskid (ts ! nat i) = client_task_id ?ix i" "nat i < length ts" if "i \<in> {0..n - 1}" for i
    using that ts(2,4) by auto
  have d: "distinct (map (\<lambda>i. taskid (ts ! nat i)) [0..n - 1])" using tid by (auto simp: distinct_map inj_on_def)
  have st: "nat i < length ts \<and> key_ok (zc_msg_maxsize c) (taskid (ts ! nat i)) \<and> zht_value c s1 (taskid (ts ! nat i)) = Some (value_to_str (?r i (children_of dag i)))
      \<and> value_ok (?r i (children_of dag i)) \<and> val_ok (zc_msg_maxsize c) (value_to_str ((?r i (children_of dag i))\<lparr>v_submittime := Some (now i)\<rparr>))"
    if "i \<in> set [0..n - 1]" for i
  proof -
    have i: "i \<in> {0..n - 1}" using that by simp
    have f: "is_long (now i)" "val_ok (zc_msg_maxsize c) (value_to_str (submitted_record now ?ix dag i))" "key_ok (zc_msg_maxsize c) (client_task_id ?ix i)"
      using fit i unfolding records_fit_def by blast+
    have "zht_value c s1 (client_task_id ?ix i) = Some (value_to_str (?r i (children_of dag i)))" using s1(3) i ent by blast
    then show ?thesis using tid [OF i] f(2,3) record_value_ok(1) [where now = now, OF dag(2) i n(3) f(1)] by (simp add: submitted_record_def)
  qed
  obtain s2 where s2: "stamp_tasks (zht_ops_of c) now ts [0..n - 1] s1 = Inr s2" "deployed c s2"
      "\<forall>i \<in> set [0..n - 1]. zht_value c s2 (taskid (ts ! nat i)) = Some (value_to_str ((?r i (children_of dag i))\<lparr>v_submittime := Some (now i)\<rparr>))"
      "\<forall>k. k \<notin> (\<lambda>i. taskid (ts ! nat i)) ` set [0..n - 1] \<longrightarrow> zht_value c s2 k = zht_value c s1 k"
    using stamp_tasks_store [where r = "\<lambda>i. ?r i (children_of dag i)" and now = now, OF s1(2) d st] by blast
  let ?cl2 = "?cl1\<lparr>cl_tasks := ts\<rparr>"
  have sh: "shares rnd ?cl2 = shares rnd (cl\<lparr>cl_tasks := ts\<rparr>)" by (simp add: shares_def)
  obtain outs where o: "submit_task (zht_ops_of c) now rnd reach ?cl2 s1 = Some (Inr (outs, ?cl2\<lparr>cl_numZHTMsg := cl_numZHTMsg ?cl2 + 2 * n\<rparr>, s2))"
      "list_all2 (sent_for (maxTaskPerPkg (cl_conf cl))) (shares rnd (cl\<lparr>cl_tasks := ts\<rparr>)) outs"
    using submit_shares [of ?cl2 reach "zht_ops_of c" now s1 s2 rnd] cl n ts(2) mode s2(1) unfolding sh by (auto simp: client_ok_def)
  have ids: "(\<lambda>i. taskid (ts ! nat i)) ` set [0..n - 1] = workload_ids ?ix n" "client_task_id ?ix ` fst ` set dag = workload_ids ?ix n"
    using tid(1) unfolding keys(2) workload_ids_def by auto
  have "client_main (zht_ops_of c) (\<lambda>_ s. s) now rnd reach cl s = Some (Inr (outs, ?cl2\<lparr>cl_numZHTMsg := cl_numZHTMsg ?cl2 + 2 * n\<rparr>, s2))"
    using dag(1) s1(1) ts(1) o(1) n(1) wait_all_registered [OF s reg] by (simp add: client_main_def insert_taskinfo_to_zht_def)
  moreover have "\<forall>i \<in> {0..n - 1}. zht_value c s2 (client_task_id ?ix i) = Some (value_to_str (submitted_record now ?ix dag i))"
    using s2(3) tid(1) by (simp add: submitted_record_def)
  moreover have "\<forall>k. k \<notin> workload_ids ?ix n \<longrightarrow> zht_value c s2 k = zht_value c s k" using s1(4) s2(4) unfolding ids by simp
  ultimately show ?thesis using s2(2) ts(2-4) o(2)
    by (intro exI [of _ outs] exI [of _ "?cl2\<lparr>cl_numZHTMsg := cl_numZHTMsg ?cl2 + 2 * n\<rparr>"] exI [of _ s2] exI [of _ ts]) simp
qed

section \<open>The end of monitoring\<close>

text \<open>The status record a scheduler shows, and the sums of the status records.\<close>

definition status_in :: "(string \<Rightarrow> string option) \<Rightarrow> string \<Rightarrow> val_msg" where
  "status_in m n = (case m n of None \<Rightarrow> default_value | Some t \<Rightarrow> (case str_to_value t of Inl _ \<Rightarrow> default_value | Inr v \<Rightarrow> v))"

definition total_of :: "(val_msg \<Rightarrow> int option) \<Rightarrow> (string \<Rightarrow> string option) \<Rightarrow> string list \<Rightarrow> int" where
  "total_of f m ns = sum_list (map (\<lambda>n. opt0 (f (status_in m n))) ns)"

definition statuses_readable :: "(string \<Rightarrow> string option) \<Rightarrow> string list \<Rightarrow> bool" where
  "statuses_readable m ns \<longleftrightarrow> (\<forall>n \<in> set ns. \<forall>t. m n = Some t \<longrightarrow> (\<exists>v. str_to_value t = Inr v))"

definition done_shown :: "(string \<Rightarrow> string option) \<Rightarrow> int" where
  "done_shown m = str_to_num_long (case m ''num tasks done'' of None \<Rightarrow> [] | Some t \<Rightarrow> t)"

lemma opt0_default: "opt0 (v_numcoreavilable default_value) = 0" "opt0 (v_numtaskwait default_value) = 0" "opt0 (v_numtaskready default_value) = 0"
  by (simp_all add: default_value_def)

context zht_service
begin

lemma sum_status_totals:
  assumes "good s" and "\<forall>n \<in> set ns. okk n" and "statuses_readable (value_of s) ns"
  shows "sum_status z ns (a, b, c) s = Inr ((a + total_of v_numcoreavilable (value_of s) ns, b + total_of v_numtaskwait (value_of s) ns,
    c + total_of v_numtaskready (value_of s) ns), s)"
  using assms(2,3)
proof (induction ns arbitrary: a b c)
  case (Cons n ns)
  have l: "zlookup z n s = Inr (case value_of s n of None \<Rightarrow> (-92, [], s) | Some v \<Rightarrow> (0, v, s))" using lookup [OF assms(1)] Cons.prems(1) by simp
  have k: "okk n" "\<forall>n \<in> set ns. okk n" "statuses_readable (value_of s) ns" using Cons.prems by (simp_all add: statuses_readable_def)
  show ?case
  proof (cases "value_of s n")
    case None
    then show ?thesis using l Cons.IH [OF k(2,3)] by (simp add: total_of_def status_in_def opt0_default)
  next
    case (Some t)
    then obtain v where "str_to_value t = Inr v" "t \<noteq> []"
      using Cons.prems(2) okv_nonempty [OF stored_ok [OF assms(1) k(1) Some]] by (auto simp: statuses_readable_def)
    then show ?thesis using l Some Cons.IH [OF k(2,3)] by (simp add: total_of_def status_in_def add.assoc)
  qed
qed (simp add: total_of_def)

lemma monitoring_round:
  assumes "good (env i s)" and "okk ''num tasks done''" and "\<forall>n \<in> set (cl_vec cl). okk n" and "statuses_readable (value_of (env i s)) (cl_vec cl)"
  shows "\<exists>increment'. monitoring z env logging cl i rows increment s =
    (let m = value_of (env i s);
         rows' = (if logging then rows @ [(total_of v_numcoreavilable m (cl_vec cl), total_of v_numtaskwait m (cl_vec cl),
           total_of v_numtaskready m (cl_vec cl), done_shown m)] else rows) in
     if done_shown m = numAllTask (cl_conf cl) then Some (Inr (rows', cl\<lparr>cl_numZHTMsg := cl_numZHTMsg cl + increment'\<rparr>, env i s))
     else monitoring z env logging cl (Suc i) rows' increment' (env i s))"
  using lookup [OF assms(1,2)] sum_status_totals [OF assms(1,3,4), of 0 0 0]
  by (intro exI [of _ "increment + 1 + (if logging then int (length (cl_vec cl)) else 0)"], subst monitoring.simps)
    (simp add: done_shown_def Let_def split: option.splits)

lemma monitoring_stops:
  assumes keys: "okk ''num tasks done''" "\<forall>n \<in> set (cl_vec cl). okk n"
    and G: "\<And>s. G s \<Longrightarrow> good s \<and> statuses_readable (value_of s) (cl_vec cl)" "\<And>i s. G s \<Longrightarrow> G (env i s)"
    and fin: "\<And>s. G s \<Longrightarrow> done_shown (value_of (env m s)) = numAllTask (cl_conf cl)"
    and start: "i \<le> m" "G s"
  shows "\<exists>rows' cl' s'. monitoring z env logging cl i rows increment s = Some (Inr (rows', cl', s')) \<and> G s'
    \<and> done_shown (value_of s') = numAllTask (cl_conf cl)
    \<and> (logging \<longrightarrow> rows' \<noteq> [] \<and> last rows' = (total_of v_numcoreavilable (value_of s') (cl_vec cl), total_of v_numtaskwait (value_of s') (cl_vec cl),
         total_of v_numtaskready (value_of s') (cl_vec cl), numAllTask (cl_conf cl)))"
  using start
proof (induction "m - i" arbitrary: i s rows increment rule: less_induct)
  case less
  have g: "G (env i s)" "good (env i s)" "statuses_readable (value_of (env i s)) (cl_vec cl)" using G less.prems(2) by blast+
  obtain rows' increment' where r: "monitoring z env logging cl i rows increment s =
      (if done_shown (value_of (env i s)) = numAllTask (cl_conf cl) then Some (Inr (rows', cl\<lparr>cl_numZHTMsg := cl_numZHTMsg cl + increment'\<rparr>, env i s))
       else monitoring z env logging cl (Suc i) rows' increment' (env i s))"
      "logging \<Longrightarrow> rows' \<noteq> [] \<and> last rows' = (total_of v_numcoreavilable (value_of (env i s)) (cl_vec cl),
        total_of v_numtaskwait (value_of (env i s)) (cl_vec cl), total_of v_numtaskready (value_of (env i s)) (cl_vec cl), done_shown (value_of (env i s)))"
    using monitoring_round [where env = env and i = i and s = s and cl = cl, OF g(2) keys g(3), of logging rows increment] by (cases logging) (fastforce simp: Let_def)+
  show ?case
  proof (cases "done_shown (value_of (env i s)) = numAllTask (cl_conf cl)")
    case True
    then show ?thesis using r g(1) by auto
  next
    case False
    then have "i \<noteq> m" using fin [OF less.prems(2)] by blast
    then have "m - Suc i < m - i" "Suc i \<le> m" using less.prems(1) by simp_all
    from less.hyps [OF this(1,2) g(1)] show ?thesis using r(1) False by simp
  qed
qed

end

text \<open>Property C27. The monitor of the client stops when the work is done: whatever the rest of the system does to
  the store between its rounds, as long as the status records stay readable, once the counter of finished tasks
  shows the number of all tasks the monitoring thread returns; it returns only then, and the last line of the
  system log has the sums of the idle cores and of the waiting and ready tasks over the status records.\<close>

theorem monitoring_ends_when_all_done:
  assumes "cl_index cl = 0" and "200 \<le> zc_msg_maxsize c" and "\<forall>n \<in> set (cl_vec cl). key_ok (zc_msg_maxsize c) n"
    and "\<And>s. G s \<Longrightarrow> deployed c s \<and> statuses_readable (zht_value c s) (cl_vec cl)" and "\<And>i s. G s \<Longrightarrow> G (env i s)"
    and "\<And>s. G s \<Longrightarrow> done_shown (zht_value c (env m s)) = numAllTask (cl_conf cl)" and "G s"
  shows "\<exists>rows cl' s'. do_monitoring (zht_ops_of c) env logging cl s = Some (Inr (rows, cl', s')) \<and> G s'
    \<and> done_shown (zht_value c s') = numAllTask (cl_conf cl)
    \<and> (logging \<longrightarrow> rows \<noteq> [] \<and> last rows = (total_of v_numcoreavilable (zht_value c s') (cl_vec cl), total_of v_numtaskwait (zht_value c s') (cl_vec cl),
         total_of v_numtaskready (zht_value c s') (cl_vec cl), numAllTask (cl_conf cl)))"
proof -
  have "0 \<le> m" by simp
  from zs.monitoring_stops [where G = G and env = env and m = m and i = 0, OF counter_keys(2) [OF assms(2)] assms(3-6) this assms(7)]
  show ?thesis using assms(1) by (simp add: do_monitoring_def)
qed

section \<open>Instances\<close>

text \<open>A workload of two tasks in a chain, and a system that finishes the only task of its workload between two
  rounds of the monitor.\<close>

definition demo_client :: client where
  "demo_client = \<lparr>cl_conf = demo_mconf\<lparr>numTaskPerClient := 2, dagType := ''Pipeline'', dagArg := 2, submitMode := ''bestcase'', maxTaskPerPkg := 1\<rparr>,
     cl_index = 0, cl_vec = [''n0''], cl_taskVec = [''u d m'', ''u d m''], cl_tasks = [], cl_numZHTMsg = 0\<rparr>"

definition demo_env :: "nat \<Rightarrow> cluster \<Rightarrow> cluster" where
  "demo_env i s = (if i = 1 then (case zinsert (zht_ops_of demo_conf) ''num tasks done'' ''1'' s of Inl _ \<Rightarrow> s | Inr (_, s') \<Rightarrow> s') else s)"

theorem monitoring_ends_when_all_done_witness:
  "\<exists>rows cl' s'. do_monitoring (zht_ops_of demo_conf) demo_env True (demo_client\<lparr>cl_conf := (cl_conf demo_client)\<lparr>numAllTask := 1\<rparr>\<rparr>) demo_cluster
     = Some (Inr (rows, cl', s')) \<and> rows \<noteq> [] \<and> last rows = (0, 0, 0, 1)"
proof -
  let ?cl = "demo_client\<lparr>cl_conf := (cl_conf demo_client)\<lparr>numAllTask := 1\<rparr>\<rparr>"
  let ?G = "\<lambda>s. deployed demo_conf s \<and> zht_value demo_conf s ''n0'' = None"
  have k: "key_ok 1000 ''n0''" "key_ok 1000 ''num tasks done''" "val_ok 1000 ''1''" by (simp_all add: key_ok_def val_ok_def field_ok_def)
  have ins: "\<exists>s'. zinsert (zht_ops_of demo_conf) ''num tasks done'' ''1'' s = Inr (0, s') \<and> deployed demo_conf s'
      \<and> zht_value demo_conf s' = (zht_value demo_conf s)(''num tasks done'' \<mapsto> ''1'')" if "deployed demo_conf s" for s
    by (rule zs.insert [OF that]) (use k in \<open>simp_all add: demo_conf_def\<close>)
  have env: "?G s \<Longrightarrow> ?G (demo_env i s) \<and> (i = 1 \<longrightarrow> zht_value demo_conf (demo_env i s) ''num tasks done'' = Some ''1'')" for i s
    using ins [of s] by (auto simp: demo_env_def)
  have one: "str_to_num_long ''1'' = 1" by code_simp
  have "\<exists>rows cl' s'. do_monitoring (zht_ops_of demo_conf) demo_env True ?cl demo_cluster = Some (Inr (rows, cl', s')) \<and> ?G s'
    \<and> done_shown (zht_value demo_conf s') = numAllTask (cl_conf ?cl)
    \<and> (True \<longrightarrow> rows \<noteq> [] \<and> last rows = (total_of v_numcoreavilable (zht_value demo_conf s') (cl_vec ?cl), total_of v_numtaskwait (zht_value demo_conf s') (cl_vec ?cl),
         total_of v_numtaskready (zht_value demo_conf s') (cl_vec ?cl), numAllTask (cl_conf ?cl)))"
    by (rule monitoring_ends_when_all_done [where G = ?G and m = 1 and c = demo_conf])
      (use k env one demo_deployed demo_empty in \<open>auto simp: demo_client_def demo_conf_def done_shown_def statuses_readable_def\<close>)
  then show ?thesis by (auto simp: demo_client_def total_of_def status_in_def opt0_default)
qed

end
