(* ===== verification/Zht_Config.thy ===== *)
theory Zht_Config
  imports Cxx_Map Zht_Client
begin

text \<open>
  The configuration of ZHT: \<open>Const::trim\<close>, the entries of \<^verbatim>\<open>ZHT/src/ConfEntry.cpp\<close>, the handler of the
  two configuration files in \<^verbatim>\<open>ZHT/src/ConfHandler.cpp\<close> (its static members are the fields of a record), the
  settings read from it (\<^verbatim>\<open>Env.cpp\<close>, \<^verbatim>\<open>HTWorker.cpp\<close>), the choice of the protocol
  (\<^verbatim>\<open>ProxyStubFactory.cpp\<close>) and the initialisation of a client. A file is the list of its lines; a file
  that cannot be opened has none.
\<close>

section \<open>Entries\<close>

text \<open>\<open>stringstream >> str\<close> takes the first word; when there is none the string is left as it was.\<close>

definition trim :: "string \<Rightarrow> string" where
  "trim s = (let w = dropWhile is_space s in if w = [] then s else takeWhile (\<lambda>c. \<not> is_space c) w)"

record conf_entry =
  ce_name :: string
  ce_value :: string

text \<open>\<open>sprintf\<close> into a buffer of 50 bytes; a text that does not fit with its NUL is undefined.\<close>

definition conf_entry_str :: "conf_entry \<Rightarrow> string res" where
  "conf_entry_str ce =
     (let text = c_str (ce_name ce) @ '','' @ c_str (ce_value ce)
      in if length text < 50 then Inr text else Inl Undefined)"

definition conf_entry_assign :: "string \<Rightarrow> conf_entry \<Rightarrow> conf_entry" where
  "conf_entry_assign sconfigEntry ce =
     (let remains = trim sconfigEntry in
      case find_first_of remains '','' 0 of
        None \<Rightarrow> ce
      | Some found \<Rightarrow> \<lparr>ce_name = trim (take found remains), ce_value = trim (drop (found + 1) remains)\<rparr>)"

section \<open>The handler\<close>

type_synonym zconf_map = "(string, conf_entry) cmap"

record conf_handler =
  ch_BEEN_INIT :: bool
  ch_NeighborVector :: "conf_entry list"
  ch_NeighborSeeds :: zconf_map
  ch_ZHTParameters :: zconf_map
  ch_NodeParameters :: zconf_map
  ch_MAX_ZHT :: "32 word"
  ch_NUM_REPLICAS :: "32 word"
  ch_REPLICATION_TYPE :: "32 word"
  ch_ZHT_CAPACITY :: "32 word"
  ch_FILECLIENT_PATH :: string
  ch_FILESERVER_PATH :: string
  ch_FILESERVER_PORT :: "32 word"
  ch_HTDATA_PATH :: string
  ch_MIGSLP_TIME :: "32 word"

definition conf_handler_init :: conf_handler where
  "conf_handler_init = \<lparr>ch_BEEN_INIT = False, ch_NeighborVector = [], ch_NeighborSeeds = [], ch_ZHTParameters = [], ch_NodeParameters = [],
     ch_MAX_ZHT = 0, ch_NUM_REPLICAS = 0, ch_REPLICATION_TYPE = 0, ch_ZHT_CAPACITY = 0, ch_FILECLIENT_PATH = ''./fileclient'',
     ch_FILESERVER_PATH = ''./file_server.exe'', ch_FILESERVER_PORT = 9000, ch_HTDATA_PATH = [], ch_MIGSLP_TIME = 1000000\<rparr>"

text \<open>One line of a configuration file: no entry for an empty line, a comment or a line of blanks.\<close>

definition line_entry :: "string \<Rightarrow> conf_entry option" where
  "line_entry line =
     (if line = [] \<or> take 1 line = ''#'' then None
      else
        (let strtok = str_tokenizer_new line '' '';
             (one, strtok1) = (if has_more_tokens strtok then next_token strtok else ([], strtok));
             two = (if has_more_tokens strtok1 then fst (next_token strtok1) else [])
         in if one = [] then None else Some \<lparr>ce_name = one, ce_value = two\<rparr>))"

fun setParametersInternal :: "string list \<Rightarrow> zconf_map \<Rightarrow> zconf_map res" where
  "setParametersInternal [] configMap = Inr configMap"
| "setParametersInternal (line # ls) configMap =
     (case line_entry line of
        None \<Rightarrow> setParametersInternal ls configMap
      | Some ce \<Rightarrow> bind_res (conf_entry_str ce) (\<lambda>k. setParametersInternal ls (cmap_insert k ce configMap)))"

definition setNeighborSeeds :: "string list \<Rightarrow> conf_handler \<Rightarrow> conf_handler res" where
  "setNeighborSeeds neighborCfg ch =
     bind_res (setParametersInternal neighborCfg (ch_NeighborSeeds ch)) (\<lambda>m.
       Inr (ch\<lparr>ch_NeighborSeeds := m, ch_NeighborVector := ch_NeighborVector ch @ map snd m\<rparr>))"

text \<open>\<open>atoi\<close>, converted to \<open>uint\<close>.\<close>

definition atou :: "string \<Rightarrow> 32 word" where
  "atou s = of_int (toInt s)"

definition pick_one :: "conf_entry \<Rightarrow> conf_handler \<Rightarrow> conf_handler" where
  "pick_one kv ch =
     (if ce_name kv = ''MAX_ZHT'' then ch\<lparr>ch_MAX_ZHT := atou (ce_value kv)\<rparr>
      else if ce_name kv = ''NUM_REPLICAS'' then ch\<lparr>ch_NUM_REPLICAS := atou (ce_value kv)\<rparr>
      else if ce_name kv = ''REPLICATION_TYPE'' then ch\<lparr>ch_REPLICATION_TYPE := atou (ce_value kv)\<rparr>
      else if ce_name kv = ''ZHT_CAPACITY'' then ch\<lparr>ch_ZHT_CAPACITY := atou (ce_value kv)\<rparr>
      else if ce_name kv = ''FILECLIENT_PATH'' then ch\<lparr>ch_FILECLIENT_PATH := ce_value kv\<rparr>
      else if ce_name kv = ''FILESERVER_PATH'' then ch\<lparr>ch_FILESERVER_PATH := ce_value kv\<rparr>
      else if ce_name kv = ''FILESERVER_PORT'' then ch\<lparr>ch_FILESERVER_PORT := atou (ce_value kv)\<rparr>
      else if ce_name kv = ''HTDATA_PATH'' then ch\<lparr>ch_HTDATA_PATH := ce_value kv\<rparr>
      else if ce_name kv = ''MIGSLP_TIME'' then ch\<lparr>ch_MIGSLP_TIME := atou (ce_value kv)\<rparr>
      else ch)"

definition pickZHTParameters :: "conf_handler \<Rightarrow> conf_handler" where
  "pickZHTParameters ch = foldl (\<lambda>ch (_, kv). pick_one kv ch) ch (ch_ZHTParameters ch)"

definition setZHTParameters :: "string list \<Rightarrow> conf_handler \<Rightarrow> conf_handler res" where
  "setZHTParameters zhtConfig ch =
     bind_res (setParametersInternal zhtConfig (ch_ZHTParameters ch)) (\<lambda>m. Inr (pickZHTParameters (ch\<lparr>ch_ZHTParameters := m\<rparr>)))"

text \<open>The parameters of a node are read by functions that nothing calls.\<close>

definition pick_node :: "conf_entry \<Rightarrow> conf_handler \<Rightarrow> conf_handler" where
  "pick_node kv ch =
     (if ce_name kv = ''ZHT_CAPACITY'' then ch\<lparr>ch_ZHT_CAPACITY := atou (ce_value kv)\<rparr>
      else if ce_name kv = ''FILECLIENT_PATH'' then ch\<lparr>ch_FILECLIENT_PATH := ce_value kv\<rparr>
      else if ce_name kv = ''FILESERVER_PATH'' then ch\<lparr>ch_FILESERVER_PATH := ce_value kv\<rparr>
      else if ce_name kv = ''FILESERVER_PORT'' then ch\<lparr>ch_FILESERVER_PORT := atou (ce_value kv)\<rparr>
      else ch)"

definition pickNodeParameters :: "conf_handler \<Rightarrow> conf_handler" where
  "pickNodeParameters ch = foldl (\<lambda>ch (_, kv). pick_node kv ch) ch (ch_NodeParameters ch)"

definition setNodeParameters :: "string list \<Rightarrow> conf_handler \<Rightarrow> conf_handler res" where
  "setNodeParameters nodeConfig ch =
     bind_res (setParametersInternal nodeConfig (ch_NodeParameters ch)) (\<lambda>m. Inr (ch\<lparr>ch_NodeParameters := m\<rparr>))"

definition initConf :: "string list \<Rightarrow> string list \<Rightarrow> conf_handler \<Rightarrow> conf_handler res" where
  "initConf zhtConf neighborConf ch =
     (if ch_BEEN_INIT ch then Inr ch
      else bind_res (setZHTParameters zhtConf ch) (\<lambda>ch1.
           bind_res (setNeighborSeeds neighborConf ch1) (\<lambda>ch2. Inr (ch2\<lparr>ch_BEEN_INIT := True\<rparr>))))"

text \<open>The first entry in the order of the map whose key, read back, has the name.\<close>

fun get_zhtconf_parameter :: "zconf_map \<Rightarrow> string \<Rightarrow> string" where
  "get_zhtconf_parameter [] paraname = []"
| "get_zhtconf_parameter ((k, _) # m) paraname =
     (let ce = conf_entry_assign k \<lparr>ce_name = [], ce_value = []\<rparr>
      in if ce_name ce = paraname then ce_value ce else get_zhtconf_parameter m paraname)"

definition getProtocolFromConf :: "conf_handler \<Rightarrow> string" where
  "getProtocolFromConf ch = get_zhtconf_parameter (ch_ZHTParameters ch) ''PROTOCOL''"

definition getPortFromConf :: "conf_handler \<Rightarrow> string" where
  "getPortFromConf ch = get_zhtconf_parameter (ch_ZHTParameters ch) ''PORT''"

section \<open>What is read from it\<close>

definition get_msg_maxsize :: "conf_handler \<Rightarrow> int" where
  "get_msg_maxsize ch = (let val = get_zhtconf_parameter (ch_ZHTParameters ch) ''MSG_MAXSIZE''
     in if val = [] then 1024 * 1024 * 2 else toInt val)"

definition get_sccb_poll_interval :: "conf_handler \<Rightarrow> int" where
  "get_sccb_poll_interval ch = (let val = get_zhtconf_parameter (ch_ZHTParameters ch) ''SCCB_POLL_INTERVAL''
     in if val = [] then 1 else toInt val)"

definition get_instant_swap :: "conf_handler \<Rightarrow> bool" where
  "get_instant_swap ch \<longleftrightarrow> toInt (get_zhtconf_parameter (ch_ZHTParameters ch) ''INSTANT_SWAP'') = 1"

text \<open>The \<open>PF_INET\<close> build of the factory; \<open>None\<close> is the null pointer.\<close>

datatype proxy_kind = TCPProxy | UDPProxy | MQProxy

datatype stub_kind = TCPStub | UDPStub

definition has_protocol :: "conf_handler \<Rightarrow> string \<Rightarrow> bool res" where
  "has_protocol ch v = bind_res (conf_entry_str \<lparr>ce_name = ''PROTOCOL'', ce_value = v\<rparr>) (\<lambda>k. Inr (cmap_find (ch_ZHTParameters ch) k \<noteq> None))"

definition createProxy :: "conf_handler \<Rightarrow> proxy_kind option res" where
  "createProxy ch =
     bind_res (has_protocol ch ''TCP'') (\<lambda>tcp. if tcp then Inr (Some TCPProxy) else
     bind_res (has_protocol ch ''UDP'') (\<lambda>udp. if udp then Inr (Some UDPProxy) else
     bind_res (has_protocol ch ''MPI'') (\<lambda>mpi. Inr (if mpi then Some MQProxy else None))))"

definition createStub :: "conf_handler \<Rightarrow> stub_kind option res" where
  "createStub ch =
     bind_res (has_protocol ch ''TCP'') (\<lambda>tcp. if tcp then Inr (Some TCPStub) else
     bind_res (has_protocol ch ''UDP'') (\<lambda>udp. Inr (if udp then Some UDPStub else None)))"

text \<open>\<open>ZHTClient::init\<close>: the return code, the size of the receive buffer and the proxy.\<close>

definition zht_client_init :: "string list \<Rightarrow> string list \<Rightarrow> conf_handler \<Rightarrow> (int \<times> int \<times> proxy_kind option \<times> conf_handler) res" where
  "zht_client_init zhtConf neighborConf ch =
     bind_res (initConf zhtConf neighborConf ch) (\<lambda>ch1.
     bind_res (createProxy ch1) (\<lambda>proxy. Inr (if proxy = None then -1 else 0, get_msg_maxsize ch1, proxy, ch1)))"

text \<open>The membership list as the routing uses it.\<close>

definition members :: "conf_handler \<Rightarrow> (string \<times> string) list" where
  "members ch = map (\<lambda>ce. (ce_name ce, ce_value ce)) (ch_NeighborVector ch)"

section \<open>Entries are read back\<close>

text \<open>A word: not empty, no blank, no NUL.\<close>

definition word_ok :: "string \<Rightarrow> bool" where
  "word_ok s \<longleftrightarrow> s \<noteq> [] \<and> list_all (\<lambda>c. \<not> is_space c \<and> c \<noteq> CHR 0x00) s"

definition entry_ok :: "conf_entry \<Rightarrow> bool" where
  "entry_ok ce \<longleftrightarrow> word_ok (ce_name ce) \<and> CHR '','' \<notin> set (ce_name ce) \<and> word_ok (ce_value ce)
     \<and> length (ce_name ce) + length (ce_value ce) < 49"

definition entry_key :: "conf_entry \<Rightarrow> string" where
  "entry_key ce = ce_name ce @ '','' @ ce_value ce"

lemma trim_word: "list_all (\<lambda>c. \<not> is_space c) s \<Longrightarrow> trim s = s"
  by (cases s) (auto simp: trim_def Let_def list_all_iff takeWhile_eq_all_conv)

lemma word_ok_D: "word_ok s \<Longrightarrow> s \<noteq> [] \<and> CHR 0x00 \<notin> set s \<and> list_all (\<lambda>c. \<not> is_space c) s"
  unfolding word_ok_def list_all_iff by blast

lemma entry_key_str:
  assumes "entry_ok ce"
  shows "conf_entry_str ce = Inr (entry_key ce)"
proof -
  have "c_str (ce_name ce) = ce_name ce" "c_str (ce_value ce) = ce_value ce" "length (ce_name ce) + length (ce_value ce) < 49"
    using assms unfolding entry_ok_def by (auto intro!: c_str_id dest: word_ok_D)
  then show ?thesis by (simp add: conf_entry_str_def entry_key_def)
qed

lemma conf_entry_roundtrip:
  assumes "entry_ok ce"
  shows "conf_entry_assign (entry_key ce) ce' = ce"
proof -
  have w: "list_all (\<lambda>c. \<not> is_space c) (ce_name ce)" "list_all (\<lambda>c. \<not> is_space c) (ce_value ce)" "CHR '','' \<notin> set (ce_name ce)"
    using assms unfolding entry_ok_def by (auto dest: word_ok_D)
  have "\<not> is_space (CHR '','')" by (simp add: is_space_def)
  then have t: "trim (entry_key ce) = entry_key ce" using w(1,2) by (intro trim_word) (simp add: entry_key_def)
  have "takeWhile (\<lambda>c. c \<notin> set '','') (entry_key ce) = ce_name ce" using w(3) unfolding entry_key_def by (subst takeWhile_append2) auto
  then have "find_first_of (entry_key ce) '','' 0 = Some (length (ce_name ce))" by (simp add: find_first_of_def entry_key_def Let_def)
  then show ?thesis using w(1,2) by (simp add: conf_entry_assign_def t Let_def) (simp add: entry_key_def trim_word)
qed

lemma entry_key_inj: "entry_ok a \<Longrightarrow> entry_ok b \<Longrightarrow> entry_key a = entry_key b \<Longrightarrow> a = b"
  by (metis conf_entry_roundtrip)

section \<open>Reading a file\<close>

definition entries :: "string list \<Rightarrow> conf_entry list" where
  "entries ls = List.map_filter line_entry ls"

definition file_ok :: "string list \<Rightarrow> bool" where
  "file_ok ls \<longleftrightarrow> list_all entry_ok (entries ls)"

text \<open>What a line has to look like.\<close>

lemma line_entry_words:
  assumes "word_ok n" and "word_ok v" and "hd n \<noteq> CHR ''#''"
  shows "line_entry (n @ '' '' @ v) = Some \<lparr>ce_name = n, ce_value = v\<rparr>"
proof -
  let ?P = "\<lambda>c. c \<in> set '' ''" and ?l = "n @ '' '' @ v"
  have c: "\<forall>c \<in> set n. \<not> ?P c" "\<forall>c \<in> set v. \<not> ?P c" "n \<noteq> []" "v \<noteq> []"
  proof -
    have "is_space (CHR '' '')" by (simp add: is_space_def)
    then have "\<forall>c \<in> set s. \<not> ?P c" if "word_ok s" for s using word_ok_D [OF that] by (auto simp: list_all_iff)
    then show "\<forall>c \<in> set n. \<not> ?P c" "\<forall>c \<in> set v. \<not> ?P c" using assms(1,2) by blast+
  qed (use assms(1,2) word_ok_D in blast)+
  have t: "tokens ?P [] ?l = [n, v]" using tokens_field [OF c(1,3), of "CHR '' ''" v] tokens_clean [OF c(2)] c(4) by simp
  define t0 where "t0 = str_tokenizer_new ?l '' ''"
  have 0: "st_ok t0" "st_left t0 = [n, v]" using st_new_left [of ?l "'' ''"] t by (simp_all add: t0_def)
  then have 1: "has_more_tokens t0" "st_ok (snd (next_token t0))" "fst (next_token t0) = n" "st_left (snd (next_token t0)) = [v]"
    using st_next_left [OF 0(1)] by auto
  then have 2: "has_more_tokens (snd (next_token t0))" "fst (next_token (snd (next_token t0))) = v"
    using st_next_left [OF 1(2)] by auto
  have "?l \<noteq> []" "take 1 ?l \<noteq> ''#''" using assms(3) c(3) by (cases n; simp)+
  then show ?thesis unfolding line_entry_def t0_def [symmetric] using 1 2 c(3) by (simp add: case_prod_beta Let_def)
qed

lemma entries_Cons: "entries (l # ls) = (case line_entry l of None \<Rightarrow> entries ls | Some ce \<Rightarrow> ce # entries ls)"
  by (simp add: entries_def List.map_filter_def split: option.splits)

lemma read_file:
  assumes "file_ok ls"
  shows "setParametersInternal ls m = Inr (fold (\<lambda>(k, v). cmap_insert k v) (map (\<lambda>ce. (entry_key ce, ce)) (entries ls)) m)"
  using assms
proof (induction ls arbitrary: m)
  case (Cons l ls)
  then show ?case by (cases "line_entry l") (simp_all add: file_ok_def entries_Cons entry_key_str)
qed (simp add: entries_def)

text \<open>The map a file gives: the entries under their keys, in the order of the keys.\<close>

lemma file_map:
  assumes "file_ok ls"
  obtains m where "setParametersInternal ls [] = Inr m" "cmap_ok m" "\<And>k ce. (k, ce) \<in> set m \<longleftrightarrow> ce \<in> set (entries ls) \<and> k = entry_key ce"
proof -
  let ?kvs = "map (\<lambda>ce. (entry_key ce, ce)) (entries ls)"
  let ?m = "fold (\<lambda>(k, v). cmap_insert k v) ?kvs []"
  have ok: "cmap_ok ?m" by (rule cm.invar_fold_ins [OF cm.invar_empty])
  have "ce \<in> set (entries ls) \<and> k = entry_key ce" if "map_of ?kvs k = Some ce" for k ce using map_of_SomeD [OF that] by auto
  moreover have "map_of ?kvs (entry_key ce) = Some ce" if "ce \<in> set (entries ls)" for ce
  proof -
    have "(entry_key ce, ce) \<in> set ?kvs" using that by simp
    then obtain ce' where m: "map_of ?kvs (entry_key ce) = Some ce'" by (blast dest: weak_map_of_SomeI)
    then have "ce' \<in> set (entries ls)" "entry_key ce' = entry_key ce" using map_of_SomeD [OF m] by auto
    then show ?thesis using m entry_key_inj that assms by (metis file_ok_def list_all_iff)
  qed
  ultimately have "map_of ?kvs k = Some ce \<longleftrightarrow> ce \<in> set (entries ls) \<and> k = entry_key ce" for k ce by blast
  then have "(k, ce) \<in> set ?m \<longleftrightarrow> ce \<in> set (entries ls) \<and> k = entry_key ce" for k ce
    unfolding cmap_in [OF ok] cm.find_build .
  then show ?thesis using that [OF read_file [OF assms] ok] by blast
qed

lemma cmap_ext: "cmap_ok m \<Longrightarrow> cmap_ok m' \<Longrightarrow> set m = set m' \<Longrightarrow> m = m'"
  by (rule map_sorted_distinct_set_unique [of fst]) (auto simp: cmap_ok_def distinct_map)

lemma pick_keeps_maps [simp]:
  "ch_ZHTParameters (pickZHTParameters ch) = ch_ZHTParameters ch" "ch_NeighborSeeds (pickZHTParameters ch) = ch_NeighborSeeds ch"
  "ch_NeighborVector (pickZHTParameters ch) = ch_NeighborVector ch"
proof -
  have "ch_ZHTParameters (foldl (\<lambda>ch (_, kv). pick_one kv ch) ch kvs) = ch_ZHTParameters ch
      \<and> ch_NeighborSeeds (foldl (\<lambda>ch (_, kv). pick_one kv ch) ch kvs) = ch_NeighborSeeds ch
      \<and> ch_NeighborVector (foldl (\<lambda>ch (_, kv). pick_one kv ch) ch kvs) = ch_NeighborVector ch" for kvs :: zconf_map
    by (induction kvs arbitrary: ch) (auto simp: pick_one_def)
  then show "ch_ZHTParameters (pickZHTParameters ch) = ch_ZHTParameters ch" "ch_NeighborSeeds (pickZHTParameters ch) = ch_NeighborSeeds ch"
    "ch_NeighborVector (pickZHTParameters ch) = ch_NeighborVector ch" by (simp_all add: pickZHTParameters_def)
qed

lemma init_reads_files:
  assumes "file_ok zls" and "file_ok ls"
  obtains ch p m where "initConf zls ls conf_handler_init = Inr ch" "ch_BEEN_INIT ch" "ch_ZHTParameters ch = p" "ch_NeighborVector ch = map snd m"
    "cmap_ok p" "\<And>k ce. (k, ce) \<in> set p \<longleftrightarrow> ce \<in> set (entries zls) \<and> k = entry_key ce"
    "cmap_ok m" "\<And>k ce. (k, ce) \<in> set m \<longleftrightarrow> ce \<in> set (entries ls) \<and> k = entry_key ce"
proof -
  obtain p where p: "setParametersInternal zls [] = Inr p" "cmap_ok p" "\<And>k ce. (k, ce) \<in> set p \<longleftrightarrow> ce \<in> set (entries zls) \<and> k = entry_key ce"
    using file_map [OF assms(1)] by blast
  obtain m where m: "setParametersInternal ls [] = Inr m" "cmap_ok m" "\<And>k ce. (k, ce) \<in> set m \<longleftrightarrow> ce \<in> set (entries ls) \<and> k = entry_key ce"
    using file_map [OF assms(2)] by blast
  let ?ch = "(pickZHTParameters (conf_handler_init\<lparr>ch_ZHTParameters := p\<rparr>))\<lparr>ch_NeighborSeeds := m, ch_NeighborVector := map snd m, ch_BEEN_INIT := True\<rparr>"
  have "initConf zls ls conf_handler_init = Inr ?ch"
    using p(1) m(1) by (simp add: initConf_def setZHTParameters_def setNeighborSeeds_def conf_handler_init_def)
  then show ?thesis using that [of ?ch p m] p(2,3) m(2,3) by simp
qed

section \<open>Parameters\<close>

lemma append_le_append: "xs @ ys \<le> xs @ zs \<longleftrightarrow> ys \<le> (zs :: string)"
  by (induction xs) simp_all

definition values_of :: "string list \<Rightarrow> string \<Rightarrow> string set" where
  "values_of ls n = {v. \<lparr>ce_name = n, ce_value = v\<rparr> \<in> set (entries ls)}"

lemma finite_values_of: "finite (values_of ls n)"
proof -
  have "values_of ls n \<subseteq> ce_value ` set (entries ls)" by (force simp: values_of_def)
  then show ?thesis by (rule finite_subset) simp
qed

lemma get_parameter_first:
  assumes "cmap_ok p" and "\<And>k ce. (k, ce) \<in> set p \<Longrightarrow> entry_ok ce \<and> k = entry_key ce"
  shows "(get_zhtconf_parameter p n = [] \<and> (\<forall>k ce. (k, ce) \<in> set p \<longrightarrow> ce_name ce \<noteq> n))
    \<or> (\<exists>k ce. (k, ce) \<in> set p \<and> ce_name ce = n \<and> get_zhtconf_parameter p n = ce_value ce
        \<and> (\<forall>k' ce'. (k', ce') \<in> set p \<longrightarrow> ce_name ce' = n \<longrightarrow> k \<le> k'))"
  using assms
proof (induction p)
  case (Cons e p)
  obtain k ce where e: "e = (k, ce)" by (cases e)
  have k: "entry_ok ce" "k = entry_key ce" using Cons.prems(2) [of k ce] by (simp_all add: e)
  have a: "conf_entry_assign k x = ce" for x using conf_entry_roundtrip [OF k(1)] k(2) by simp
  have le: "\<forall>k' ce'. (k', ce') \<in> set p \<longrightarrow> k \<le> k'" using Cons.prems(1) by (force simp: cmap_ok_def e)
  have p: "cmap_ok p" "\<And>k ce. (k, ce) \<in> set p \<Longrightarrow> entry_ok ce \<and> k = entry_key ce" using Cons.prems by (auto simp: cmap_ok_def)
  show ?case
  proof (cases "ce_name ce = n")
    case True
    then show ?thesis using le by (intro disjI2 exI [of _ k] exI [of _ ce]) (auto simp: e a Let_def)
  next
    case False
    then show ?thesis using Cons.IH [OF p] by (auto simp: e a Let_def)
  qed
qed simp

lemma get_parameter_min:
  assumes "file_ok zls" and "cmap_ok p" and p: "\<And>k ce. (k, ce) \<in> set p \<longleftrightarrow> ce \<in> set (entries zls) \<and> k = entry_key ce"
  shows "get_zhtconf_parameter p n = (if values_of zls n = {} then [] else Min (values_of zls n))"
proof -
  have ok: "entry_ok ce \<and> k = entry_key ce" if "(k, ce) \<in> set p" for k ce using that assms(1) p by (auto simp: file_ok_def list_all_iff)
  have in_p: "(entry_key \<lparr>ce_name = n, ce_value = v\<rparr>, \<lparr>ce_name = n, ce_value = v\<rparr>) \<in> set p \<longleftrightarrow> v \<in> values_of zls n" for v by (simp add: p values_of_def)
  consider "get_zhtconf_parameter p n = []" "\<forall>k ce. (k, ce) \<in> set p \<longrightarrow> ce_name ce \<noteq> n"
    | k ce where "(k, ce) \<in> set p" "ce_name ce = n" "get_zhtconf_parameter p n = ce_value ce" "\<forall>k' ce'. (k', ce') \<in> set p \<longrightarrow> ce_name ce' = n \<longrightarrow> k \<le> k'"
    using get_parameter_first [OF assms(2) ok] by blast
  then show ?thesis
  proof cases
    case 1
    then have "values_of zls n = {}" using in_p by fastforce
    then show ?thesis using 1(1) by simp
  next
    case 2
    have ce: "ce = \<lparr>ce_name = n, ce_value = ce_value ce\<rparr>" using 2(2) by simp
    have v: "ce_value ce \<in> values_of zls n" using 2(1) ce p unfolding values_of_def by (metis mem_Collect_eq)
    have "ce_value ce \<le> v" if "v \<in> values_of zls n" for v
    proof -
      have "k \<le> entry_key \<lparr>ce_name = n, ce_value = v\<rparr>" using 2(4) in_p that by force
      moreover have "k = entry_key ce" using ok [OF 2(1)] by simp
      ultimately have "n @ '','' @ ce_value ce \<le> n @ '','' @ v" using 2(2) by (simp add: entry_key_def)
      then show ?thesis by (simp only: append_le_append)
    qed
    then have "Min (values_of zls n) = ce_value ce" using v finite_values_of by (intro Min_eqI)
    then show ?thesis using v 2(3) by auto
  qed
qed

text \<open>Before the files are read every parameter has its default; the interval at which a server polls for a state
  change is fixed then.\<close>

lemma poll_interval_before_init: "get_sccb_poll_interval conf_handler_init = 1"
  by (simp add: get_sccb_poll_interval_def conf_handler_init_def)

text \<open>The protocols and parameters a process knows after it read its files.\<close>

lemma init_protocols:
  assumes "file_ok zls" and "file_ok ls"
  shows "\<exists>ch. initConf zls ls conf_handler_init = Inr ch \<and> ch_BEEN_INIT ch
    \<and> (\<forall>v \<in> {''TCP'', ''UDP'', ''MPI''}. has_protocol ch v = Inr (v \<in> values_of zls ''PROTOCOL''))
    \<and> (\<forall>n. get_zhtconf_parameter (ch_ZHTParameters ch) n = (if values_of zls n = {} then [] else Min (values_of zls n)))"
proof -
  obtain ch p m where c: "initConf zls ls conf_handler_init = Inr ch" "ch_BEEN_INIT ch" "ch_ZHTParameters ch = p"
      "cmap_ok p" "\<And>k ce. (k, ce) \<in> set p \<longleftrightarrow> ce \<in> set (entries zls) \<and> k = entry_key ce"
    using init_reads_files [OF assms] by metis
  have h: "has_protocol ch v = Inr (v \<in> values_of zls ''PROTOCOL'')" if "v \<in> {''TCP'', ''UDP'', ''MPI''}" for v
  proof -
    let ?ce = "\<lparr>ce_name = ''PROTOCOL'', ce_value = v\<rparr>"
    have ok: "entry_ok ?ce" using that by (auto simp: entry_ok_def word_ok_def is_space_def)
    have "cmap_find p (entry_key ?ce) \<noteq> None \<longleftrightarrow> (\<exists>ce. (entry_key ?ce, ce) \<in> set p)" using cmap_in [OF c(4)] by auto
    also have "\<dots> \<longleftrightarrow> ?ce \<in> set (entries zls)"
      using c(5) entry_key_inj [OF ok] assms(1) by (auto simp: file_ok_def list_all_iff)
    finally show ?thesis by (simp add: has_protocol_def entry_key_str [OF ok] c(3) values_of_def)
  qed
  then show ?thesis using c(1-3) get_parameter_min [OF assms(1) c(4,5)] by blast
qed

section \<open>Properties\<close>

text \<open>Property C36. A parameter of the configuration is read as the file gives it: for every file whose entries fit the
  buffer, a name without a line reads as the empty text, and of several values for a name the least one in the
  order of strings counts, wherever its line stands. The configuration is read once per process, and a client
  comes up exactly when one of the known protocols is set.\<close>

theorem parameters_are_read:
  assumes "file_ok zls" and "file_ok ls"
  shows "\<exists>ch rc mx proxy. zht_client_init zls ls conf_handler_init = Inr (rc, mx, proxy, ch)
    \<and> (\<forall>n. get_zhtconf_parameter (ch_ZHTParameters ch) n = (if values_of zls n = {} then [] else Min (values_of zls n)))
    \<and> (\<forall>zls' ls'. initConf zls' ls' ch = Inr ch)
    \<and> (rc = 0 \<longleftrightarrow> (\<exists>v \<in> {''TCP'', ''UDP'', ''MPI''}. v \<in> values_of zls ''PROTOCOL'')) \<and> rc \<in> {0, -1}"
proof -
  obtain ch where c: "initConf zls ls conf_handler_init = Inr ch" "ch_BEEN_INIT ch"
      "\<forall>v \<in> {''TCP'', ''UDP'', ''MPI''}. has_protocol ch v = Inr (v \<in> values_of zls ''PROTOCOL'')"
      "\<forall>n. get_zhtconf_parameter (ch_ZHTParameters ch) n = (if values_of zls n = {} then [] else Min (values_of zls n))"
    using init_protocols [OF assms] by blast
  have "createProxy ch = Inr (if ''TCP'' \<in> values_of zls ''PROTOCOL'' then Some TCPProxy else if ''UDP'' \<in> values_of zls ''PROTOCOL'' then Some UDPProxy
      else if ''MPI'' \<in> values_of zls ''PROTOCOL'' then Some MQProxy else None)" using c(3) by (simp add: createProxy_def)
  then show ?thesis using c(1,2,4) by (auto simp: zht_client_init_def initConf_def)
qed

text \<open>Property C35. All peers agree on the servers: two peers whose membership files list the same members, in
  whatever order and however often, have the same membership list, and send every request for a key to the same
  server, which is one of the file.\<close>

theorem peers_agree_on_the_server:
  assumes "file_ok zls" and "file_ok zls'" and "file_ok ls" and "file_ok ls'" and "set (entries ls) = set (entries ls')" and "entries ls \<noteq> []"
    and "zpack_ok z" and "zpack_ok z'" and "z_key z = z_key z'"
  shows "\<exists>ch ch' ce. initConf zls ls conf_handler_init = Inr ch \<and> initConf zls' ls' conf_handler_init = Inr ch' \<and> members ch = members ch'
    \<and> distinct (members ch) \<and> ce \<in> set (entries ls)
    \<and> getHostEntityByKey (members ch) (zpack_to_str z) = Inr (buildHostEntity (ce_name ce) (toInt (ce_value ce)))
    \<and> getHostEntityByKey (members ch') (zpack_to_str z') = Inr (buildHostEntity (ce_name ce) (toInt (ce_value ce)))"
proof -
  obtain ch m where c: "initConf zls ls conf_handler_init = Inr ch" "ch_NeighborVector ch = map snd m"
      "cmap_ok m" "\<And>k ce. (k, ce) \<in> set m \<longleftrightarrow> ce \<in> set (entries ls) \<and> k = entry_key ce"
    using init_reads_files [OF assms(1,3)] by metis
  obtain ch' m' where c': "initConf zls' ls' conf_handler_init = Inr ch'" "ch_NeighborVector ch' = map snd m'"
      "cmap_ok m'" "\<And>k ce. (k, ce) \<in> set m' \<longleftrightarrow> ce \<in> set (entries ls') \<and> k = entry_key ce"
    using init_reads_files [OF assms(2,4)] by metis
  have "m = m'" using cmap_ext [OF c(3) c'(3)] c(4) c'(4) assms(5) by (auto simp: set_eq_iff)
  then have eq: "members ch = members ch'" by (simp add: members_def c(2) c'(2))
  have "inj_on (\<lambda>(k, ce). (ce_name ce, ce_value ce)) (set m)" using c(4) by (auto simp: inj_on_def entry_key_def)
  moreover have "distinct m" using c(3) by (simp add: cmap_ok_def distinct_map)
  moreover have mem: "members ch = map (\<lambda>(k, ce). (ce_name ce, ce_value ce)) m" by (simp add: members_def c(2) case_prod_beta)
  ultimately have d: "distinct (members ch)" by (simp add: distinct_map)
  have "set m \<noteq> {}" using assms(6) c(4) by (cases "entries ls") (simp, metis empty_iff list.set_intros(1))
  then have ne: "members ch \<noteq> []" by (simp add: mem)
  obtain i where i: "i < length (members ch)"
      "getHostEntityByKey (members ch) (zpack_to_str z) = Inr (buildHostEntity (fst (members ch ! i)) (toInt (snd (members ch ! i))))"
      "getHostEntityByKey (members ch) (zpack_to_str z') = getHostEntityByKey (members ch) (zpack_to_str z)"
    using requests_for_a_key_meet [OF assms(7-9) ne] by blast
  obtain k ce where mi: "m ! i = (k, ce)" by (cases "m ! i")
  have "i < length m" using i(1) by (simp add: mem)
  then have "(k, ce) \<in> set m" "members ch ! i = (ce_name ce, ce_value ce)" using nth_mem [of i m] mi by (simp_all add: mem)
  then show ?thesis using c(1,4) c'(1) eq d i by (intro exI [of _ ch] exI [of _ ch'] exI [of _ ce]) simp
qed

section \<open>Instances\<close>

definition demo_zht_file :: "string list" where
  "demo_zht_file = [''#comment'', [], ''PROTOCOL TCP'', ''PORT 50001'', ''PORT  50000'']"

definition demo_members :: "string list" where
  "demo_members = [''n2 50000'', ''n1 50000'', ''n2 50000'']"

lemma demo_files:
  "file_ok demo_zht_file" "file_ok demo_members" "entries demo_members =
     [\<lparr>ce_name = ''n2'', ce_value = ''50000''\<rparr>, \<lparr>ce_name = ''n1'', ce_value = ''50000''\<rparr>, \<lparr>ce_name = ''n2'', ce_value = ''50000''\<rparr>]"
  "entries demo_zht_file = [\<lparr>ce_name = ''PROTOCOL'', ce_value = ''TCP''\<rparr>, \<lparr>ce_name = ''PORT'', ce_value = ''50001''\<rparr>,
     \<lparr>ce_name = ''PORT'', ce_value = ''50000''\<rparr>]"
  by code_simp+

theorem parameters_are_read_witness:
  "\<exists>ch mx proxy. zht_client_init demo_zht_file demo_members conf_handler_init = Inr (0, mx, proxy, ch)
     \<and> get_zhtconf_parameter (ch_ZHTParameters ch) ''PORT'' = ''50000'' \<and> get_zhtconf_parameter (ch_ZHTParameters ch) ''MAX_ZHT'' = []"
proof -
  have v: "values_of demo_zht_file ''PORT'' = {''50001'', ''50000''}" "values_of demo_zht_file ''MAX_ZHT'' = {}" "values_of demo_zht_file ''PROTOCOL'' = {''TCP''}"
    by (auto simp: values_of_def demo_files(4))
  have "Min {''50001'', ''50000''} = ''50000''" by code_simp
  then show ?thesis using parameters_are_read [OF demo_files(1,2)] v by fastforce
qed

theorem peers_agree_on_the_server_witness:
  "\<exists>ch ch' ce. initConf demo_zht_file demo_members conf_handler_init = Inr ch
     \<and> initConf [] [''n1 50000'', ''n2 50000''] conf_handler_init = Inr ch' \<and> members ch = members ch' \<and> ce \<in> set (entries demo_members)"
proof -
  let ?z = "default_zpack\<lparr>z_opcode := Some ''001'', z_key := Some ''k''\<rparr>"
  have z: "zpack_ok ?z" by (simp add: zpack_ok_def default_zpack_def zfield_ok_def field_ok_def)
  have e: "file_ok [''n1 50000'', ''n2 50000'']" "entries [''n1 50000'', ''n2 50000''] =
      [\<lparr>ce_name = ''n1'', ce_value = ''50000''\<rparr>, \<lparr>ce_name = ''n2'', ce_value = ''50000''\<rparr>]" "file_ok []" by code_simp+
  have "set (entries demo_members) = set (entries [''n1 50000'', ''n2 50000''])" "entries demo_members \<noteq> []"
    unfolding demo_files(3) e(2) by auto
  from peers_agree_on_the_server [OF demo_files(1) e(3) demo_files(2) e(1) this z z refl] show ?thesis by blast
qed

end
