(* ===== verification/Peer.thy ===== *)
theory Peer
  imports Zht_Config Work_Stealing Client
begin

text \<open>
  What the two kinds of peers share (class \<open>Peer\<close> of \<^verbatim>\<open>matrix/src/util.cpp\<close>): reading the files, finding
  their own name, making the ZHT client, the wrapped store operations and elapsed times; and what a scheduler
  does with files (\<open>load_data\<close>, \<open>get_task_from_file\<close>), its time log (\<open>record_task_time\<close>) and its start
  (\<open>main\<close> of \<^verbatim>\<open>scheduler.cpp\<close>). A file system is a function from names to contents.
\<close>

section \<open>Files and names\<close>

text \<open>What \<open>getline\<close> returns until the end: a last line without newline counts, an empty one does not.\<close>

function file_lines :: "string \<Rightarrow> string list" where
  "file_lines s =
     (if s = [] then []
      else takeWhile (\<lambda>c. c \<noteq> CHR 0x0A) s # file_lines (tl (dropWhile (\<lambda>c. c \<noteq> CHR 0x0A) s)))"
  by auto
termination
proof (relation "measure length")
  show "(tl (dropWhile (\<lambda>c. c \<noteq> CHR 0x0A) s), s) \<in> measure length" if "s \<noteq> []" for s :: string
    using that length_dropWhile_le [of "\<lambda>c. c \<noteq> CHR 0x0A" s] by (cases s) (auto simp: less_Suc_eq_le)
qed simp

declare file_lines.simps [simp del]

definition read_from_file :: "(string \<Rightarrow> string option) \<Rightarrow> string \<Rightarrow> string list" where
  "read_from_file fs fileName = (case fs fileName of None \<Rightarrow> [] | Some text \<Rightarrow> file_lines text)"

text \<open>The addresses of the network interfaces (\<open>None\<close>: no socket can be made); the buffer keeps its contents on failure.\<close>

fun first_ip :: "string list \<Rightarrow> string option" where
  "first_ip [] = None"
| "first_ip (ip # rest) = (if ip = ''127.0.0.1'' then first_ip rest else Some ip)"

definition get_ip :: "string list option \<Rightarrow> string \<Rightarrow> int \<times> string" where
  "get_ip ifs outIP =
     (case ifs of None \<Rightarrow> (-1, outIP) | Some ips \<Rightarrow> (case first_ip ips of None \<Rightarrow> (-1, outIP) | Some ip \<Rightarrow> (0, ip)))"

text \<open>The output of a command as \<open>fgets\<close> returns it in pieces (\<open>None\<close>: \<open>popen\<close> fails), without its last newline.\<close>

definition exec_cmd :: "string list option \<Rightarrow> string" where
  "exec_cmd pipe =
     (case pipe of
        None \<Rightarrow> ''ERROR''
      | Some buffers \<Rightarrow>
          let result = concat (map c_str buffers) in
          if result \<noteq> [] \<and> last result = CHR 0x0A then butlast result else result)"

definition get_host_id :: "string list option \<Rightarrow> string list option \<Rightarrow> string \<Rightarrow> string" where
  "get_host_id ifs hostname type =
     (if type = ''localhost'' then ''localhost''
      else if type = ''ip'' then snd (get_ip ifs [])
      else if type = ''hostname'' then exec_cmd hostname
      else [])"

lemma get_ip_not_loopback: "get_ip ifs buf = (0, ip) \<Longrightarrow> ip \<noteq> ''127.0.0.1'' \<and> ip \<in> set (the ifs)"
proof -
  have "first_ip ips = Some ip \<Longrightarrow> ip \<noteq> ''127.0.0.1'' \<and> ip \<in> set ips" for ips
    by (induction ips) (auto split: if_splits)
  then show "get_ip ifs buf = (0, ip) \<Longrightarrow> ip \<noteq> ''127.0.0.1'' \<and> ip \<in> set (the ifs)"
    by (auto simp: get_ip_def split: option.splits)
qed

text \<open>However the output is cut into pieces, a printed line is returned without its newline.\<close>

lemma exec_cmd_line:
  assumes "concat bufs = line @ [CHR 0x0A]" and "CHR 0x00 \<notin> set line"
  shows "exec_cmd (Some bufs) = line"
proof -
  have "set (concat bufs) = insert (CHR 0x0A) (set line)" using assms(1) by simp
  then have "CHR 0x00 \<notin> set (concat bufs)" using assms(2) by simp
  then have "map c_str bufs = bufs" by (intro map_idI c_str_id) auto
  then show ?thesis using assms(1) by (simp add: exec_cmd_def Let_def)
qed

section \<open>Construction\<close>

record peer =
  p_conf :: matrix_conf
  p_id :: string
  p_index :: int
  p_vec :: "string list"
  p_running :: bool
  p_numZHTMsg :: int
  p_zht :: conf_handler

definition init_zht_client :: "(string \<Rightarrow> string option) \<Rightarrow> string \<Rightarrow> string \<Rightarrow> conf_handler \<Rightarrow> (bool \<times> conf_handler) res" where
  "init_zht_client fs zhtcfgFile neighFile ch =
     (if zhtcfgFile = [] \<or> neighFile = [] then Inr (False, ch)
      else bind_res (zht_client_init (read_from_file fs zhtcfgFile) (read_from_file fs neighFile) ch) (\<lambda>(rc, _, _, ch'). Inr (rc = 0, ch')))"

text \<open>The result of \<open>init_zht_client\<close> is not looked at. When the configuration file cannot be opened the
  parameters are not initialised, and everything that reads one is undefined.\<close>

definition peer_new :: "(string \<Rightarrow> string option) \<Rightarrow> string list option \<Rightarrow> string list option \<Rightarrow> string \<Rightarrow> conf_handler \<Rightarrow> peer res" where
  "peer_new fs ifs hostname configFile ch =
     bind_res (parse_config (map_option file_lines (fs configFile))) (\<lambda>c.
       case c of
         None \<Rightarrow> Inl Undefined
       | Some config \<Rightarrow>
           let me = get_host_id ifs hostname (hostIdType config);
               schedulerVec = read_from_file fs (schedulerMemFile config) in
           bind_res (init_zht_client fs (zhtConfigFile config) (zhtMemFile config) ch) (\<lambda>(_, ch').
             Inr \<lparr>p_conf = config, p_id = me, p_index = get_self_idx me schedulerVec, p_vec = schedulerVec, p_running = True,
                  p_numZHTMsg = 0, p_zht = ch'\<rparr>))"

definition client_of :: "(string \<Rightarrow> string option) \<Rightarrow> peer \<Rightarrow> client" where
  "client_of fs p = \<lparr>cl_conf = p_conf p, cl_index = p_index p, cl_vec = p_vec p, cl_taskVec = read_from_file fs (workloadFile (p_conf p)),
     cl_tasks = [], cl_numZHTMsg = p_numZHTMsg p\<rparr>"

definition scheduler_of :: "(nat \<Rightarrow> nat) \<Rightarrow> peer \<Rightarrow> sched" where
  "scheduler_of junk p = scheduler_new (p_conf p) (p_id p) (p_vec p) junk"

section \<open>Wrapped store operations\<close>

text \<open>\<open>None\<close>: the store never accepts the pair.\<close>

partial_function (option) insert_loop ::
    "'s zht_ops \<Rightarrow> (nat \<Rightarrow> 's \<Rightarrow> 's) \<Rightarrow> string \<Rightarrow> string \<Rightarrow> nat \<Rightarrow> 's \<Rightarrow> 's res option" where
  "insert_loop z env key val i s =
     (case zinsert z key val (env i s) of
        Inl e \<Rightarrow> Some (Inl e)
      | Inr (rc, s') \<Rightarrow> if rc \<noteq> 0 then insert_loop z env key val (Suc i) s' else Some (Inr s'))"

definition insert_wrap :: "'s zht_ops \<Rightarrow> (nat \<Rightarrow> 's \<Rightarrow> 's) \<Rightarrow> string \<Rightarrow> string \<Rightarrow> 's \<Rightarrow> 's res option" where
  "insert_wrap z env key val s = (if key = [] then Some (Inr s) else insert_loop z env key val 0 s)"

partial_function (option) lookup_loop ::
    "'s zht_ops \<Rightarrow> (nat \<Rightarrow> 's \<Rightarrow> 's) \<Rightarrow> string \<Rightarrow> nat \<Rightarrow> 's \<Rightarrow> (string \<times> 's) res option" where
  "lookup_loop z env key i s =
     (case zlookup z key (env i s) of
        Inl e \<Rightarrow> Some (Inl e)
      | Inr (rc, result, s') \<Rightarrow> if rc \<noteq> 0 \<and> result = [] then lookup_loop z env key (Suc i) s' else Some (Inr (result, s')))"

text \<open>\<open>result\<close> is the value of the output parameter before the call.\<close>

definition lookup_wrap :: "'s zht_ops \<Rightarrow> (nat \<Rightarrow> 's \<Rightarrow> 's) \<Rightarrow> string \<Rightarrow> string \<Rightarrow> 's \<Rightarrow> (string \<times> 's) res option" where
  "lookup_wrap z env key result s = (if key = [] then Some (Inr (result, s)) else lookup_loop z env key 0 s)"

section \<open>Elapsed time\<close>

text \<open>The difference of two times in nanoseconds, in 64-bit unsigned arithmetic.\<close>

definition nanos :: "int \<times> int \<Rightarrow> 64 word" where
  "nanos t = of_int (fst t) * 1000000000 + of_int (snd t)"

definition time_diff :: "int \<times> int \<Rightarrow> int \<times> int \<Rightarrow> int \<times> int" where
  "time_diff start end = (let d = nanos end - nanos start in (uint (d div 1000000000), uint (d mod 1000000000)))"

section \<open>Schedulers and files\<close>

fun load_lines :: "int \<Rightarrow> string list \<Rightarrow> (string, string) cmap \<Rightarrow> (string, string) cmap res" where
  "load_lines index [] d = Inr d"
| "load_lines index (l # ls) d =
     (let lineVec = tokenize l '' '' in
      bind_res (vec_at lineVec 1) (\<lambda>loc.
        if str_to_num_int loc = index
        then bind_res (vec_at lineVec 0) (\<lambda>name. load_lines index ls (cmap_insert name ''This is the data'' d))
        else load_lines index ls d))"

definition load_data :: "(string \<Rightarrow> string option) \<Rightarrow> sched \<Rightarrow> sched res" where
  "load_data fs st =
     (let filePath = ''./workload_dag/file.'' @ num_to_str (int (length (sc_vec st))) @ ''.'' @ num_to_str (to_int32 (numTaskPerClient (sc_conf st))) in
      bind_res (load_lines (sc_index st) (read_from_file fs filePath) (sc_localData st)) (\<lambda>d. Inr (st\<lparr>sc_localData := d\<rparr>)))"

definition line_task :: "string \<Rightarrow> task_msg res" where
  "line_task line =
     (let taskItemStr = tokenize line '' '' in
      bind_res (vec_at taskItemStr 0) (\<lambda>a. bind_res (vec_at taskItemStr 1) (\<lambda>b.
      bind_res (vec_at taskItemStr 2) (\<lambda>c. bind_res (vec_at taskItemStr 3) (\<lambda>d.
        Inr \<lparr>taskid = a, user = b, dir = c, cmd = d, datalength = 0\<rparr>)))))"

text \<open>After the announcement that the workload is split, the scheduler takes its own part from a file and adds the
  number of its tasks to the shared counter; \<open>now j\<close> is the clock at line \<open>j\<close>.\<close>

definition get_task_from_file ::
    "'s zht_ops \<Rightarrow> (nat \<Rightarrow> 's \<Rightarrow> 's) \<Rightarrow> (string \<Rightarrow> string option) \<Rightarrow> (nat \<Rightarrow> int) \<Rightarrow> sched \<Rightarrow> 's \<Rightarrow> (sched \<times> 's) res option" where
  "get_task_from_file z env fs now st s =
     (case poll_until z env ''Split Workload'' (\<lambda>v. v \<noteq> []) 0 s of
        None \<Rightarrow> None
      | Some (Inl e) \<Rightarrow> Some (Inl e)
      | Some (Inr (_, i, s1)) \<Rightarrow>
          (case fs (schedulerWorkloadPath (sc_conf st) @ ''/workload.'' @ num_to_str (sc_index st)) of
             None \<Rightarrow> Some (Inr (st, s1))
           | Some text \<Rightarrow>
               (case map_res line_task (file_lines text) of
                  Inl e \<Rightarrow> Some (Inl e)
                | Inr ts \<Rightarrow>
                    let st' = (add_entries (map (\<lambda>(j, t). time_entry t ''WaitQueueTime'' (now j)) (enumerate 0 ts)) st)\<lparr>sc_waitQueue := sc_waitQueue st @ ts\<rparr> in
                    (case zlookup z ''num tasks recv'' (env i s1) of
                       Inl e \<Rightarrow> Some (Inl e)
                     | Inr (_, str, s2) \<Rightarrow>
                         map_option (\<lambda>r. bind_res r (\<lambda>(_, _, _, s3). Inr (st', s3)))
                           (cas_loop z env (add_long (int (length ts))) ''num tasks recv'' str 0 (Suc i) s2)))))"

text \<open>A round of the thread that writes the task times, the newest entry first.\<close>

definition record_task_time_round :: "sched \<Rightarrow> string list \<Rightarrow> sched \<times> string list" where
  "record_task_time_round st written = (st\<lparr>sc_timeEntry := []\<rparr>, written @ rev (sc_timeEntry st))"

section \<open>Threads\<close>

text \<open>The threads of a scheduler, by the functions they run. A \<open>fork\<close> operation calls \<open>pthread_create\<close> until it succeeds;
  \<open>rc i\<close> is the result of the \<open>i\<close>-th call in the process.\<close>

datatype sched_thread = Epoll_Serving | Checking_Ready_Task | Executing_Task | Checking_Complete_Task | Workstealing
  | LocalQueue_Monitor | Recording_Stat | Record_Task_Time

type_synonym thread_table = "nat \<times> sched_thread list"

partial_function (option) pthread_until :: "(nat \<Rightarrow> int) \<Rightarrow> nat \<Rightarrow> nat option" where
  "pthread_until rc i = (if rc i \<noteq> 0 then pthread_until rc (Suc i) else Some (Suc i))"

definition fork_thread :: "(nat \<Rightarrow> int) \<Rightarrow> sched_thread \<Rightarrow> thread_table \<Rightarrow> thread_table option" where
  "fork_thread rc t p = map_option (\<lambda>i. (i, snd p @ [t])) (pthread_until rc (fst p))"

definition fork_es_thread :: "(nat \<Rightarrow> int) \<Rightarrow> thread_table \<Rightarrow> thread_table option" where
  "fork_es_thread rc p = fork_thread rc Epoll_Serving p"

definition fork_crt_thread :: "(nat \<Rightarrow> int) \<Rightarrow> thread_table \<Rightarrow> thread_table option" where
  "fork_crt_thread rc p = fork_thread rc Checking_Ready_Task p"

definition fork_cct_thread :: "(nat \<Rightarrow> int) \<Rightarrow> thread_table \<Rightarrow> thread_table option" where
  "fork_cct_thread rc p = fork_thread rc Checking_Complete_Task p"

definition fork_ws_thread :: "(nat \<Rightarrow> int) \<Rightarrow> matrix_conf \<Rightarrow> thread_table \<Rightarrow> thread_table option" where
  "fork_ws_thread rc config p = (if workStealingOn config = 1 then fork_thread rc Workstealing p else Some p)"

definition fork_record_stat_thread :: "(nat \<Rightarrow> int) \<Rightarrow> thread_table \<Rightarrow> thread_table option" where
  "fork_record_stat_thread rc p = fork_thread rc Recording_Stat p"

definition fork_record_task_thread :: "(nat \<Rightarrow> int) \<Rightarrow> thread_table \<Rightarrow> thread_table option" where
  "fork_record_task_thread rc p = fork_thread rc Record_Task_Time p"

definition fork_localQueue_monitor_thread :: "(nat \<Rightarrow> int) \<Rightarrow> thread_table \<Rightarrow> thread_table option" where
  "fork_localQueue_monitor_thread rc p = fork_thread rc LocalQueue_Monitor p"

fun fork_exec_loop :: "(nat \<Rightarrow> int) \<Rightarrow> nat \<Rightarrow> thread_table \<Rightarrow> thread_table option" where
  "fork_exec_loop rc 0 p = Some p"
| "fork_exec_loop rc (Suc n) p = Option.bind (fork_thread rc Executing_Task p) (fork_exec_loop rc n)"

text \<open>An array of negative length cannot be allocated: an exception that nobody catches.\<close>

definition fork_exec_task_thread :: "(nat \<Rightarrow> int) \<Rightarrow> matrix_conf \<Rightarrow> thread_table \<Rightarrow> thread_table res option" where
  "fork_exec_task_thread rc config p =
     (if numCorePerExecutor config < 0 then Some (Inl Exit_Failure)
      else map_option Inr (fork_exec_loop rc (nat (numCorePerExecutor config)) p))"

section \<open>The main program of a scheduler\<close>

text \<open>The part behind \<open>wait_all_task_recv\<close>.\<close>

definition fork_workers :: "(nat \<Rightarrow> int) \<Rightarrow> matrix_conf \<Rightarrow> thread_table \<Rightarrow> thread_table res option" where
  "fork_workers rc config p =
     Option.bind (fork_crt_thread rc p) (\<lambda>p1. Option.bind (fork_exec_task_thread rc config p1) (\<lambda>r.
       case r of
         Inl e \<Rightarrow> Some (Inl e)
       | Inr p2 \<Rightarrow> map_option Inr
           (Option.bind (fork_cct_thread rc p2) (\<lambda>p3. Option.bind (fork_ws_thread rc config p3) (\<lambda>p4.
            Option.bind (if policy config = ''FLWS'' then fork_localQueue_monitor_thread rc p4 else Some p4)
              (fork_record_stat_thread rc))))))"

text \<open>The start of a scheduler until all its threads run: the threads and the store.\<close>

definition scheduler_start ::
    "'s zht_ops \<Rightarrow> (nat \<Rightarrow> int) \<Rightarrow> (nat \<Rightarrow> 's \<Rightarrow> 's) \<Rightarrow> (nat \<Rightarrow> 's \<Rightarrow> 's) \<Rightarrow> (nat \<Rightarrow> 's \<Rightarrow> 's) \<Rightarrow> sched \<Rightarrow> 's \<Rightarrow> (sched_thread list \<times> 's) res option" where
  "scheduler_start z rc env1 env2 env3 st s =
     (case regist z env1 st s of
        None \<Rightarrow> None
      | Some (Inl e) \<Rightarrow> Some (Inl e)
      | Some (Inr s1) \<Rightarrow>
          (case wait_all_scheduler z env2 (sc_vec st) s1 of
             None \<Rightarrow> None
           | Some (Inl e) \<Rightarrow> Some (Inl e)
           | Some (Inr (_, _, s2)) \<Rightarrow>
               (case fork_es_thread rc (0, []) of
                  None \<Rightarrow> None
                | Some p \<Rightarrow>
                    (case wait_all_task_recv z env3 (sc_conf st) s2 of
                       None \<Rightarrow> None
                     | Some (Inl e) \<Rightarrow> Some (Inl e)
                     | Some (Inr (_, _, s3)) \<Rightarrow>
                         map_option (\<lambda>r. bind_res r (\<lambda>(_, ts). Inr (ts, s3))) (fork_workers rc (sc_conf st) p)))))"

section \<open>Lines of a file\<close>

lemma file_lines_line:
  assumes "CHR 0x0A \<notin> set l"
  shows "file_lines (l @ CHR 0x0A # s) = l # file_lines s"
proof -
  have "takeWhile (\<lambda>c. c \<noteq> CHR 0x0A) (l @ CHR 0x0A # s) = l" "dropWhile (\<lambda>c. c \<noteq> CHR 0x0A) (l @ CHR 0x0A # s) = CHR 0x0A # s"
    using assms by (auto simp: takeWhile_append dropWhile_append)
  then show ?thesis by (subst file_lines.simps) simp
qed

text \<open>Text made of lines is read as these lines, whether or not the last one is ended.\<close>

lemma file_lines_concat:
  assumes "list_all (\<lambda>l. CHR 0x0A \<notin> set l) ls" and "CHR 0x0A \<notin> set l"
  shows "file_lines (concat (map (\<lambda>l. l @ [CHR 0x0A]) ls) @ l) = ls @ (if l = [] then [] else [l])"
  using assms(1)
proof (induction ls)
  case Nil
  have "takeWhile (\<lambda>c. c \<noteq> CHR 0x0A) l = l" "dropWhile (\<lambda>c. c \<noteq> CHR 0x0A) l = []" using assms(2) by (auto simp: takeWhile_eq_all_conv)
  then have "file_lines l = (if l = [] then [] else [l])" by (subst file_lines.simps) (simp only: list.sel file_lines.simps [of "[]"] if_True simp_thms)
  then show ?case by simp
next
  case (Cons x xs)
  then show ?case using file_lines_line [of x] by simp
qed

section \<open>Waiting\<close>

context zht_service
begin

text \<open>Every wait of a peer for a key ends when the others bring the key into the awaited state.\<close>

lemma poll_until_ends:
  assumes key: "okk key" and G: "\<And>s. G s \<Longrightarrow> good s" "\<And>i s. G s \<Longrightarrow> G (env i s)"
    and fin: "\<And>s. G s \<Longrightarrow> P (case value_of (env m s) key of None \<Rightarrow> [] | Some v \<Rightarrow> v)" and start: "i \<le> m" "G s"
  shows "\<exists>v j s'. poll_until z env key P i s = Some (Inr (v, j, s')) \<and> G s' \<and> P v \<and> v = (case value_of s' key of None \<Rightarrow> [] | Some v \<Rightarrow> v)"
  using start
proof (induction "m - i" arbitrary: i s rule: less_induct)
  case less
  let ?v = "case value_of (env i s) key of None \<Rightarrow> [] | Some v \<Rightarrow> v"
  have g: "G (env i s)" using G(2) less.prems(2) .
  have l: "\<exists>rc. zlookup z key (env i s) = Inr (rc, ?v, env i s)" using lookup [OF G(1) [OF g] key] by (auto split: option.splits)
  show ?case
  proof (cases "P ?v")
    case True
    then show ?thesis using l g by (subst poll_until.simps) auto
  next
    case False
    then have "i \<noteq> m" using fin [OF less.prems(2)] by blast
    then have "m - Suc i < m - i" "Suc i \<le> m" using less.prems(1) by simp_all
    moreover have "poll_until z env key P i s = poll_until z env key P (Suc i) (env i s)" using l False by (subst poll_until.simps) auto
    ultimately show ?thesis using less.hyps [OF _ _ g] by simp
  qed
qed

lemma insert_wrap_stores:
  assumes "good (env 0 s)" and "okk k" and "okv v" and "k \<noteq> []"
  shows "\<exists>s'. insert_wrap z env k v s = Some (Inr s') \<and> good s' \<and> value_of s' = (value_of (env 0 s))(k \<mapsto> v)"
  using insert [OF assms(1-3)] assms(4) unfolding insert_wrap_def by (subst insert_loop.simps) auto

lemma lookup_wrap_finds:
  assumes "okk k" and "k \<noteq> []" and G: "\<And>s. G s \<Longrightarrow> good s" "\<And>i s. G s \<Longrightarrow> G (env i s)"
    and fin: "\<And>s. G s \<Longrightarrow> value_of (env m s) k \<noteq> None" and "G s"
  shows "\<exists>v s'. lookup_wrap z env k r s = Some (Inr (v, s')) \<and> G s' \<and> value_of s' k = Some v"
proof -
  have "\<exists>v s'. lookup_loop z env k i s = Some (Inr (v, s')) \<and> G s' \<and> value_of s' k = Some v" if "i \<le> m" "G s" for i s
    using that
  proof (induction "m - i" arbitrary: i s rule: less_induct)
    case less
    have g: "G (env i s)" using G(2) less.prems(2) .
    note l = lookup [OF G(1) [OF g] assms(1)]
    show ?case
    proof (cases "value_of (env i s) k")
      case None
      then have "i \<noteq> m" using fin [OF less.prems(2)] by blast
      then have "m - Suc i < m - i" "Suc i \<le> m" using less.prems(1) by simp_all
      moreover have "lookup_loop z env k i s = lookup_loop z env k (Suc i) (env i s)" using l None by (subst lookup_loop.simps) simp
      ultimately show ?thesis using less.hyps [OF _ _ g] by simp
    next
      case (Some v)
      then show ?thesis using l g by (subst lookup_loop.simps) simp
    qed
  qed
  from this [of 0 s] show ?thesis using assms(2,6) by (simp add: lookup_wrap_def)
qed

end

section \<open>Elapsed time\<close>

definition time_ok :: "int \<times> int \<Rightarrow> bool" where
  "time_ok t \<longleftrightarrow> 0 \<le> fst t \<and> fst t < 2 ^ 33 \<and> 0 \<le> snd t \<and> snd t < 1000000000"

text \<open>Between two times before the year 2242 the difference is exact when the clock did not go back, and
  its nanoseconds are below a second.\<close>

lemma time_diff_exact:
  assumes "time_ok s" and "time_ok t" and "fst s * 1000000000 + snd s \<le> fst t * 1000000000 + snd t"
  shows "fst (time_diff s t) * 1000000000 + snd (time_diff s t) = (fst t * 1000000000 + snd t) - (fst s * 1000000000 + snd s)"
    and "0 \<le> snd (time_diff s t)" and "snd (time_diff s t) < 1000000000"
proof -
  let ?n = "\<lambda>t :: int \<times> int. fst t * 1000000000 + snd t"
  let ?d = "nanos t - nanos s"
  have e: "?d = of_int (?n t - ?n s)" by (simp add: nanos_def)
  have "0 \<le> ?n t - ?n s" "?n t - ?n s < 2 ^ 64" using assms by (auto simp: time_ok_def)
  then have d: "uint ?d = ?n t - ?n s" unfolding e uint_word_of_int by (simp only: take_bit_int_eq_self len_bit0 len_num1 mult_1_right numeral_times_numeral) simp
  have u: "uint (1000000000 :: 64 word) = 1000000000" by simp
  have f: "fst (time_diff s t) = (?n t - ?n s) div 1000000000" "snd (time_diff s t) = (?n t - ?n s) mod 1000000000"
    unfolding time_diff_def Let_def fst_conv snd_conv uint_div_distrib uint_mod_distrib d u by simp_all
  then show "fst (time_diff s t) * 1000000000 + snd (time_diff s t) = ?n t - ?n s" "0 \<le> snd (time_diff s t)" "snd (time_diff s t) < 1000000000" by simp_all
qed

section \<open>A scheduler that takes its tasks from a file\<close>

text \<open>Once the workload is split, the scheduler queues the tasks of its file in order, counts them in the shared
  counter, and changes nothing else in the store.\<close>

lemma tasks_from_file_queued:
  assumes s: "deployed c s" "200 \<le> zc_msg_maxsize c" and split: "zht_value c s ''Split Workload'' = Some w"
    and fl: "fs (schedulerWorkloadPath (sc_conf st) @ ''/workload.'' @ num_to_str (sc_index st)) = Some text" "map_res line_task (file_lines text) = Inr ts"
    and cnt: "zht_value c s ''num tasks recv'' = Some (num_to_str n)" "is_long n" "is_long (n + int (length ts))"
  shows "\<exists>st' s'. get_task_from_file (zht_ops_of c) (\<lambda>_ s. s) fs now st s = Some (Inr (st', s')) \<and> deployed c s'
    \<and> sc_waitQueue st' = sc_waitQueue st @ ts \<and> zht_value c s' = (zht_value c s)(''num tasks recv'' \<mapsto> num_to_str (n + int (length ts)))"
proof -
  have k: "key_ok (zc_msg_maxsize c) ''Split Workload''" "key_ok (zc_msg_maxsize c) ''num tasks recv''"
    using s(2) by (simp_all add: key_ok_def field_ok_def)
  have v: "val_ok (zc_msg_maxsize c) (num_to_str n)" "val_ok (zc_msg_maxsize c) (num_to_str (n + int (length ts)))"
    using s(2) cnt(2,3) by (auto intro!: val_ok_num simp: int_range_defs)
  have "w \<noteq> []" using zs.okv_nonempty zs.stored_ok [OF s(1) k(1) split] by blast
  then have p: "poll_until (zht_ops_of c) (\<lambda>_ s. s) ''Split Workload'' (\<lambda>v. v \<noteq> []) 0 s = Some (Inr (w, 1, s))"
    using zs.lookup [OF s(1) k(1)] split by (subst poll_until.simps) simp
  have l: "zlookup (zht_ops_of c) ''num tasks recv'' s = Inr (0, num_to_str n, s)" using zs.lookup [OF s(1) k(2)] cnt(1) by simp
  have a: "add_long (int (length ts)) (num_to_str n) = Inr (num_to_str (n + int (length ts)))" using cnt(2) by (simp add: add_long_def)
  obtain s' where "cas_loop (zht_ops_of c) (\<lambda>_ s. s) (add_long (int (length ts))) ''num tasks recv'' (num_to_str n) 0 (Suc (Suc 0)) s = Some (Inr (num_to_str n, 0, Suc (Suc (Suc 0)), s'))"
      "deployed c s'" "zht_value c s' = (zht_value c s)(''num tasks recv'' \<mapsto> num_to_str (n + int (length ts)))"
    using zs.cas_loop_step(1) [of c "\<lambda>_ s. s" "Suc (Suc 0)" s "''num tasks recv''" "num_to_str n" "num_to_str n" "add_long (int (length ts))", OF s(1) cnt(1) k(2) v(1) a v(2) refl]
    by blast
  then show ?thesis using p l fl by (intro exI [of _ "(add_entries (map (\<lambda>(j, t). time_entry t ''WaitQueueTime'' (now j)) (enumerate 0 ts)) st)\<lparr>sc_waitQueue := sc_waitQueue st @ ts\<rparr>"] exI [of _ s'])
      (simp add: get_task_from_file_def)
qed

section \<open>The start of a scheduler\<close>

text \<open>When \<open>pthread_create\<close> succeeds again and again, every \<open>fork\<close> operation returns.\<close>

definition threads_possible :: "(nat \<Rightarrow> int) \<Rightarrow> bool" where
  "threads_possible rc \<longleftrightarrow> (\<forall>i. \<exists>j \<ge> i. rc j = 0)"

lemma pthread_until_ends:
  assumes "i \<le> j" and "rc j = 0"
  shows "\<exists>k. pthread_until rc i = Some k"
  using assms(1)
proof (induction rule: inc_induct)
  case base
  then show ?case using assms(2) by (subst pthread_until.simps) simp
next
  case (step n)
  then show ?case by (cases "rc n = 0") (subst pthread_until.simps, simp)+
qed

lemma fork_thread_adds: "threads_possible rc \<Longrightarrow> \<exists>k. fork_thread rc t (i, ts) = Some (k, ts @ [t])"
  using pthread_until_ends [of i _ rc] by (fastforce simp: threads_possible_def fork_thread_def)

lemma fork_exec_loop_adds: "threads_possible rc \<Longrightarrow> \<exists>k. fork_exec_loop rc n (i, ts) = Some (k, ts @ replicate n Executing_Task)"
proof (induction n arbitrary: i ts)
  case (Suc n)
  obtain k where "fork_thread rc Executing_Task (i, ts) = Some (k, ts @ [Executing_Task])" using fork_thread_adds [OF Suc.prems] by blast
  then show ?case using Suc.IH [OF Suc.prems, of k "ts @ [Executing_Task]"] by simp
qed simp

definition worker_threads :: "matrix_conf \<Rightarrow> sched_thread list" where
  "worker_threads config = Checking_Ready_Task # replicate (nat (numCorePerExecutor config)) Executing_Task @ [Checking_Complete_Task]
     @ (if workStealingOn config = 1 then [Workstealing] else []) @ (if policy config = ''FLWS'' then [LocalQueue_Monitor] else []) @ [Recording_Stat]"

lemma fork_workers_adds:
  assumes "threads_possible rc" and "0 \<le> numCorePerExecutor config"
  shows "\<exists>k. fork_workers rc config (i, ts) = Some (Inr (k, ts @ worker_threads config))"
proof -
  note f = fork_thread_adds [OF assms(1)]
  let ?e = "ts @ [Checking_Ready_Task] @ replicate (nat (numCorePerExecutor config)) Executing_Task"
  let ?w = "?e @ [Checking_Complete_Task] @ (if workStealingOn config = 1 then [Workstealing] else [])"
  let ?q = "?w @ (if policy config = ''FLWS'' then [LocalQueue_Monitor] else [])"
  obtain k1 where 1: "fork_crt_thread rc (i, ts) = Some (k1, ts @ [Checking_Ready_Task])" using f [of Checking_Ready_Task i ts] by (auto simp: fork_crt_thread_def)
  obtain k2 where 2: "fork_exec_task_thread rc config (k1, ts @ [Checking_Ready_Task]) = Some (Inr (k2, ?e))"
    using fork_exec_loop_adds [OF assms(1), of "nat (numCorePerExecutor config)" k1 "ts @ [Checking_Ready_Task]"] assms(2) by (auto simp: fork_exec_task_thread_def)
  obtain k3 where 3: "fork_cct_thread rc (k2, ?e) = Some (k3, ?e @ [Checking_Complete_Task])" using f [of Checking_Complete_Task k2 ?e] by (auto simp: fork_cct_thread_def)
  obtain k4 where 4: "fork_ws_thread rc config (k3, ?e @ [Checking_Complete_Task]) = Some (k4, ?w)"
    using f [of Workstealing k3 "?e @ [Checking_Complete_Task]"] by (cases "workStealingOn config = 1") (auto simp: fork_ws_thread_def)
  obtain k5 where 5: "(if policy config = ''FLWS'' then fork_localQueue_monitor_thread rc (k4, ?w) else Some (k4, ?w)) = Some (k5, ?q)"
    using f [of LocalQueue_Monitor k4 ?w] by (cases "policy config = ''FLWS''") (auto simp: fork_localQueue_monitor_thread_def)
  obtain k6 where 6: "fork_record_stat_thread rc (k5, ?q) = Some (k6, ?q @ [Recording_Stat])"
    using f [of Recording_Stat k5 ?q] by (auto simp: fork_record_stat_thread_def)
  have "?q @ [Recording_Stat] = ts @ worker_threads config" by (simp add: worker_threads_def)
  then show ?thesis unfolding fork_workers_def 1 2 bind.bind_lunit sum.case 3 4 5 6 by simp
qed

text \<open>The first scheduler registers; after that, when the others have registered and the clients have submitted
  all tasks, its start ends and exactly the threads of its configuration run.\<close>

lemma first_scheduler_starts:
  assumes s: "deployed c s" "200 \<le> zc_msg_maxsize c" and st: "sc_index st = 0" "is_int (int (length (sc_vec st)))" "is_long (numAllTask (sc_conf st))"
    and e2: "\<And>i s. deployed c s \<Longrightarrow> deployed c (env2 i s)"
      "\<And>s. deployed c s \<Longrightarrow> zht_value c (env2 m s) ''number of scheduler registered'' = Some (num_to_str (int (length (sc_vec st))))"
    and e3: "\<And>i s. deployed c s \<Longrightarrow> deployed c (env3 i s)"
      "\<And>s. deployed c s \<Longrightarrow> zht_value c (env3 m' s) ''num tasks recv'' = Some (num_to_str (numAllTask (sc_conf st)))"
    and th: "threads_possible rc" "0 \<le> numCorePerExecutor (sc_conf st)"
  shows "\<exists>s'. scheduler_start (zht_ops_of c) rc (\<lambda>_ s. s) env2 env3 st s = Some (Inr (Epoll_Serving # worker_threads (sc_conf st), s')) \<and> deployed c s'"
proof -
  obtain s1 where 1: "regist (zht_ops_of c) (\<lambda>_ s. s) st s = Some (Inr s1)" "deployed c s1" using regist_first [OF s st(1)] by blast
  have "\<exists>v j s'. wait_all_scheduler (zht_ops_of c) env2 (sc_vec st) s1 = Some (Inr (v, j, s')) \<and> deployed c s'"
    unfolding wait_all_scheduler_def
    using zs.poll_until_ends [where G = "deployed c" and env = env2 and m = m and i = 0 and s = s1 and key = "''number of scheduler registered''"
        and P = "\<lambda>v. str_to_num_int v = int (length (sc_vec st))", OF counter_keys(1) [OF s(2)] _ e2(1) _ _ 1(2)] e2(2) st(2) by fastforce
  then obtain v j s2 where 2: "wait_all_scheduler (zht_ops_of c) env2 (sc_vec st) s1 = Some (Inr (v, j, s2))" "deployed c s2" by blast
  have "\<exists>v j s'. wait_all_task_recv (zht_ops_of c) env3 (sc_conf st) s2 = Some (Inr (v, j, s')) \<and> deployed c s'"
    unfolding wait_all_task_recv_def
    using zs.poll_until_ends [where G = "deployed c" and env = env3 and m = m' and i = 0 and s = s2 and key = "''num tasks recv''"
        and P = "\<lambda>v. str_to_num_long v = numAllTask (sc_conf st)", OF counter_keys(3) [OF s(2)] _ e3(1) _ _ 2(2)] e3(2) st(3) by fastforce
  then obtain v' j' s3 where 3: "wait_all_task_recv (zht_ops_of c) env3 (sc_conf st) s2 = Some (Inr (v', j', s3))" "deployed c s3" by blast
  obtain k where 4: "fork_es_thread rc (0, []) = Some (k, [Epoll_Serving])" using fork_thread_adds [OF th(1), of Epoll_Serving 0 "[]"] by (auto simp: fork_es_thread_def)
  obtain k' where "fork_workers rc (sc_conf st) (k, [Epoll_Serving]) = Some (Inr (k', [Epoll_Serving] @ worker_threads (sc_conf st)))"
    using fork_workers_adds [OF th] by blast
  then show ?thesis using 1(1) 2(1) 3 4 by (simp add: scheduler_start_def)
qed

end
