(* ===== verification/Matrix_Server.thy ===== *)
theory Matrix_Server
  imports Client Ts_Queue
begin

text \<open>
  The request server of a scheduler (\<^verbatim>\<open>matrix/src/matrix_epoll_server.cpp\<close>) and the sockets of peers
  (\<^verbatim>\<open>matrix/src/matrix_tcp_proxy_stub.cpp\<close>). One thread accepts connections, reads the first piece of each and queues
  it; another takes the pieces from the queue and calls \<open>proc_req\<close>, which reads the rest of the connection.
  A descriptor stands for what can still be read from its connection. The results of system calls are
  parameters. The last sections show that the servers of all schedulers, in every interleaving, do what handling
  the connections one after the other does.
\<close>

section \<open>Sockets\<close>

text \<open>\<open>create_sock\<close> resolves the name, makes a socket and connects it; the socket of a failed connection is not
  closed. \<open>send_first\<close> also sends; the second component is what was given to \<open>send\<close>.\<close>

definition create_sock :: "(string \<Rightarrow> bool) \<Rightarrow> int \<Rightarrow> (int \<Rightarrow> string \<Rightarrow> int \<Rightarrow> int) \<Rightarrow> string \<Rightarrow> int \<Rightarrow> int" where
  "create_sock known sock connect ip port =
     (if \<not> known ip then -1
      else if sock < 0 then -1
      else if connect sock ip port < 0 then -1
      else sock)"

definition send_bf :: "int \<Rightarrow> string \<Rightarrow> (int \<times> string) list" where
  "send_bf sock buf = [(sock, buf)]"

definition send_first ::
    "(string \<Rightarrow> bool) \<Rightarrow> int \<Rightarrow> (int \<Rightarrow> string \<Rightarrow> int \<Rightarrow> int) \<Rightarrow> string \<Rightarrow> int \<Rightarrow> string \<Rightarrow> int \<times> (int \<times> string) list" where
  "send_first known sock connect ip port buf =
     (let to_sock = create_sock known sock connect ip port in
      (to_sock, if to_sock \<noteq> -1 then send_bf to_sock buf else []))"

lemma send_first_sends:
  "send_first known sock connect ip port buf = (to_sock, sent) \<Longrightarrow>
     (if known ip \<and> 0 \<le> sock \<and> 0 \<le> connect sock ip port then to_sock = sock \<and> sent = [(sock, buf)] else to_sock = -1 \<and> sent = [])"
  by (auto simp: send_first_def create_sock_def send_bf_def Let_def split: if_splits)

text \<open>The listening socket. A descriptor 0 counts as a failure.\<close>

definition make_svr_socket :: "(bool \<Rightarrow> int) \<Rightarrow> (int \<Rightarrow> int) \<Rightarrow> (int \<Rightarrow> int) \<Rightarrow> string \<Rightarrow> int" where
  "make_svr_socket socket bind listen protoc =
     (let tcp = (protoc = ''TCP''); svrSock = socket tcp in
      if svrSock \<le> 0 then -1
      else if bind svrSock < 0 then -1
      else if tcp \<and> listen svrSock < 0 then -1
      else svrSock)"

lemma make_svr_socket_listens:
  "make_svr_socket socket bind listen p = s \<Longrightarrow>
     s = -1 \<or> 0 < s \<and> s = socket (p = ''TCP'') \<and> 0 \<le> bind s \<and> (p = ''TCP'' \<longrightarrow> 0 \<le> listen s)"
  by (auto simp: make_svr_socket_def Let_def split: if_splits)

section \<open>The two threads\<close>

text \<open>\<open>MatrixEventData\<close>; \<open>strlen\<close> runs over a piece that fills the buffer and has no NUL.\<close>

record event_data =
  ed_fd :: "string list"
  ed_buf :: string

definition matrix_event :: "string list \<Rightarrow> string \<Rightarrow> event_data res" where
  "matrix_event fd buf =
     (if BUF_SIZE \<le> length buf \<and> CHR 0x00 \<notin> set buf then Inl Undefined
      else Inr \<lparr>ed_fd = fd, ed_buf = c_str buf\<rparr>)"

definition eq_push :: "event_data \<Rightarrow> event_data list \<Rightarrow> event_data list" where
  "eq_push e q = q @ [e]"

text \<open>\<open>empty()\<close> guards \<open>front\<close> and \<open>pop\<close>.\<close>

definition eq_pop :: "event_data list \<Rightarrow> (event_data \<times> event_data list) option" where
  "eq_pop q = (if q = [] then None else Some (hd q, tl q))"

interpretation evq: fifo eq_push eq_pop "\<lambda>q. q"
  by unfold_locales (auto simp: eq_push_def eq_pop_def)

text \<open>One turn of the accepting loop: \<open>None\<close> is a failed \<open>accept\<close>, \<open>Some (b # bs)\<close> a connection whose first \<open>recv\<close> gets
  \<open>b\<close>. A connection that is closed at once is forgotten.\<close>

definition serve_accept :: "string list option \<Rightarrow> event_data list \<Rightarrow> event_data list res" where
  "serve_accept infd q =
     (case infd of
        Some (buf # fd) \<Rightarrow> if 0 < length buf then bind_res (matrix_event fd buf) (\<lambda>e. Inr (eq_push e q)) else Inr q
      | _ \<Rightarrow> Inr q)"

text \<open>One turn of the serving thread; the result tells what was sent back.\<close>

definition threaded_serve ::
    "'s zht_ops \<Rightarrow> (nat \<Rightarrow> 's \<Rightarrow> 's) \<Rightarrow> int \<Rightarrow> event_data list \<Rightarrow> sched \<Rightarrow> 's
      \<Rightarrow> (string list option \<times> event_data list \<times> sched \<times> 's) res option" where
  "threaded_serve z env now q st s =
     (case eq_pop q of
        None \<Rightarrow> Some (Inr (None, q, st, s))
      | Some (e, q') \<Rightarrow>
          map_option (\<lambda>r. bind_res r (\<lambda>(out, st', s'). Inr (Some out, q', st', s')))
            (proc_req z env now (ed_buf e) (ed_fd e) st s))"

section \<open>The servers of all schedulers\<close>

text \<open>\<open>nt_conns\<close> are the connections that wait to be accepted, each with the number of its scheduler; a scheduler
  accepts its connections in the order in which they were made.\<close>

record 's net =
  nt_conns :: "(nat \<times> string list) list"
  nt_queues :: "event_data list list"
  nt_scheds :: "sched list"
  nt_store :: 's

inductive net_step :: "'s zht_ops \<Rightarrow> int \<Rightarrow> 's net \<Rightarrow> 's net \<Rightarrow> bool" for z :: "'s zht_ops" and now :: int where
  accept: "nt_conns n = cs1 @ (k, ch) # cs2 \<Longrightarrow> k \<notin> fst ` set cs1 \<Longrightarrow> k < length (nt_queues n) \<Longrightarrow>
    serve_accept (Some ch) (nt_queues n ! k) = Inr q \<Longrightarrow>
    net_step z now n (n\<lparr>nt_conns := cs1 @ cs2, nt_queues := (nt_queues n)[k := q]\<rparr>)"
| serve: "k < length (nt_queues n) \<Longrightarrow>
    threaded_serve z (\<lambda>_ s. s) now (nt_queues n ! k) (nt_scheds n ! k) (nt_store n) = Some (Inr (Some out, q, st, s)) \<Longrightarrow>
    net_step z now n (n\<lparr>nt_queues := (nt_queues n)[k := q], nt_scheds := (nt_scheds n)[k := st], nt_store := s\<rparr>)"

inductive_cases net_stepE: "net_step z now n n'"

inductive net_reach :: "'s zht_ops \<Rightarrow> int \<Rightarrow> 's net \<Rightarrow> 's net \<Rightarrow> bool" for z :: "'s zht_ops" and now :: int where
  init: "net_reach z now n n"
| more_step: "net_reach z now n n' \<Longrightarrow> net_step z now n' n'' \<Longrightarrow> net_reach z now n n''"

definition net_idle :: "'s net \<Rightarrow> bool" where
  "net_idle n \<longleftrightarrow> nt_conns n = [] \<and> list_all (\<lambda>q. q = []) (nt_queues n)"

definition net_start :: "(nat \<times> string list) list \<Rightarrow> sched list \<Rightarrow> 's \<Rightarrow> 's net" where
  "net_start conns ss s = \<lparr>nt_conns = conns, nt_queues = replicate (length ss) [], nt_scheds = ss, nt_store = s\<rparr>"

section \<open>The order of service\<close>

text \<open>Connections of which something can be read.\<close>

definition conn_ok :: "nat \<Rightarrow> nat \<times> string list \<Rightarrow> bool" where
  "conn_ok m c \<longleftrightarrow> fst c < m \<and> snd c \<noteq> [] \<and> hd (snd c) \<noteq> [] \<and> length (hd (snd c)) < BUF_SIZE"

definition of_sched :: "nat \<Rightarrow> (nat \<times> 'a) list \<Rightarrow> (nat \<times> 'a) list" where
  "of_sched k = filter (\<lambda>c. fst c = k)"

lemma of_sched_simps [simp]:
  "of_sched k [] = []" "of_sched k (c # cs) = (if fst c = k then c # of_sched k cs else of_sched k cs)"
  "of_sched k (cs @ ds) = of_sched k cs @ of_sched k ds"
  by (simp_all add: of_sched_def)

lemma of_sched_none: "k \<notin> fst ` set cs \<Longrightarrow> of_sched k cs = []"
  by (auto simp: of_sched_def filter_empty_conv)

definition queued :: "nat \<times> string list \<Rightarrow> event_data \<Rightarrow> bool" where
  "queued c e \<longleftrightarrow> e = \<lparr>ed_fd = tl (snd c), ed_buf = c_str (hd (snd c))\<rparr>"

lemma accept_queues: "conn_ok m (k, ch) \<Longrightarrow> \<exists>e. queued (k, ch) e \<and> serve_accept (Some ch) q = Inr (q @ [e])"
  by (cases ch) (auto simp: conn_ok_def serve_accept_def matrix_event_def queued_def eq_push_def)

lemma proc_req_c_str: "proc_req z env now (c_str b) cs st s = proc_req z env now b cs st s"
proof -
  have "c_str (c_str b) = c_str b" by (simp add: c_str_def)
  then show ?thesis by (simp add: proc_req_def)
qed

lemma deliver_snoc:
  "deliver z now cs ss s = Some (Inr (ss', s')) \<Longrightarrow>
   deliver z now (cs @ [(k, ch)]) ss s =
     (case proc_req z (\<lambda>_ s. s) now (hd ch) (tl ch) (ss' ! k) s' of
        None \<Rightarrow> None | Some (Inl e) \<Rightarrow> Some (Inl e) | Some (Inr (_, st, s'')) \<Rightarrow> Some (Inr (ss'[k := st], s'')))"
proof (induction z now cs ss s rule: deliver.induct)
  case (2 z now k' chunks rest ss s)
  then show ?case by (auto split: option.splits sum.splits)
qed (auto split: option.splits sum.splits)

text \<open>The invariant: \<open>served\<close> are the connections handled so far, in order.\<close>

definition net_inv :: "'s zht_ops \<Rightarrow> int \<Rightarrow> (nat \<times> string list) list \<Rightarrow> sched list \<Rightarrow> 's \<Rightarrow> 's net \<Rightarrow> (nat \<times> string list) list \<Rightarrow> bool" where
  "net_inv z now conns ss s n served \<longleftrightarrow> deliver z now served ss s = Some (Inr (nt_scheds n, nt_store n))
     \<and> length (nt_queues n) = length ss \<and> list_all (conn_ok (length ss)) (nt_conns n)
     \<and> (\<forall>k < length ss. \<exists>cs. list_all2 queued cs (nt_queues n ! k)
          \<and> of_sched k conns = of_sched k served @ cs @ of_sched k (nt_conns n))
     \<and> list_all (\<lambda>c. fst c < length ss) served"

lemma net_inv_start:
  assumes "list_all (conn_ok (length ss)) conns"
  shows "net_inv z now conns ss s (net_start conns ss s) []"
  using assms by (auto simp: net_inv_def net_start_def)

lemma net_inv_accept:
  assumes inv: "net_inv z now conns ss s n served" and c: "nt_conns n = cs1 @ (k, ch) # cs2" "k \<notin> fst ` set cs1"
    and q: "serve_accept (Some ch) (nt_queues n ! k) = Inr q"
  shows "net_inv z now conns ss s (n\<lparr>nt_conns := cs1 @ cs2, nt_queues := (nt_queues n)[k := q]\<rparr>) served"
proof -
  have ok: "conn_ok (length ss) (k, ch)" "list_all (conn_ok (length ss)) (cs1 @ cs2)" and l: "length (nt_queues n) = length ss"
    using inv c(1) by (simp_all add: net_inv_def)
  then have k: "k < length ss" by (simp add: conn_ok_def)
  obtain e where e: "queued (k, ch) e" "q = nt_queues n ! k @ [e]" using accept_queues [OF ok(1), of "nt_queues n ! k"] q by auto
  have "\<exists>cs. list_all2 queued cs ((nt_queues n)[k := q] ! j) \<and> of_sched j conns = of_sched j served @ cs @ of_sched j (cs1 @ cs2)"
    if j: "j < length ss" for j
  proof -
    obtain cs where cs: "list_all2 queued cs (nt_queues n ! j)" "of_sched j conns = of_sched j served @ cs @ of_sched j (nt_conns n)"
      using inv j unfolding net_inv_def by blast
    show ?thesis
    proof (cases "j = k")
      case True
      then show ?thesis using cs e c k l of_sched_none [OF c(2)] by (intro exI [of _ "cs @ [(k, ch)]"]) (simp add: list_all2_appendI)
    next
      case False
      then show ?thesis using cs c(1) by (intro exI [of _ cs]) simp
    qed
  qed
  then show ?thesis using inv ok(2) by (simp add: net_inv_def)
qed

lemma net_inv_serve:
  assumes inv: "net_inv z now conns ss s n served" and k: "k < length (nt_queues n)"
    and t: "threaded_serve z (\<lambda>_ s. s) now (nt_queues n ! k) (nt_scheds n ! k) (nt_store n) = Some (Inr (Some out, q, st, s'))"
  shows "\<exists>ch. net_inv z now conns ss s (n\<lparr>nt_queues := (nt_queues n)[k := q], nt_scheds := (nt_scheds n)[k := st], nt_store := s'\<rparr>) (served @ [(k, ch)])"
proof -
  have l: "length (nt_queues n) = length ss" using inv by (simp add: net_inv_def)
  obtain e where e: "nt_queues n ! k = e # q" "proc_req z (\<lambda>_ s. s) now (ed_buf e) (ed_fd e) (nt_scheds n ! k) (nt_store n) = Some (Inr (out, st, s'))"
    using t by (cases "nt_queues n ! k") (auto simp: threaded_serve_def eq_pop_def bind_res_eq_Inr)
  obtain cs where cs: "list_all2 queued cs (nt_queues n ! k)" "of_sched k conns = of_sched k served @ cs @ of_sched k (nt_conns n)"
    using inv k l unfolding net_inv_def by auto
  then obtain c cs' where c: "cs = c # cs'" "queued c e" "list_all2 queued cs' q" using e(1) by (auto simp: list_all2_Cons2)
  have "c \<in> set (of_sched k conns)" using cs(2) c(1) by simp
  then have "fst c = k" unfolding of_sched_def by (simp only: set_filter mem_Collect_eq)
  then obtain ch where ch: "c = (k, ch)" by (metis prod.collapse)
  have "deliver z now (served @ [(k, ch)]) ss s = Some (Inr ((nt_scheds n)[k := st], s'))"
    using inv e(2) c(2) ch by (subst deliver_snoc [where ss' = "nt_scheds n" and s' = "nt_store n"]) (auto simp: net_inv_def queued_def proc_req_c_str)
  moreover have "\<exists>cs. list_all2 queued cs ((nt_queues n)[k := q] ! j) \<and> of_sched j conns = of_sched j (served @ [(k, ch)]) @ cs @ of_sched j (nt_conns n)"
    if j: "j < length ss" for j
  proof (cases "j = k")
    case True
    then show ?thesis using cs(2) c ch k by (intro exI [of _ cs']) simp
  next
    case False
    then show ?thesis using inv j by (simp add: net_inv_def)
  qed
  ultimately show ?thesis using inv k l by (intro exI [of _ ch]) (simp add: net_inv_def)
qed

lemma net_inv_reach:
  assumes "net_reach z now n n'" and "net_inv z now conns ss s n served"
  shows "\<exists>served'. net_inv z now conns ss s n' served'"
  using assms
proof (induction rule: net_reach.induct)
  case (more_step n n' n'')
  then obtain served' where "net_inv z now conns ss s n' served'" by blast
  note inv = this
  from more_step.hyps(2) show ?case
  proof cases
    case (accept cs1 k ch cs2 q)
    then show ?thesis using net_inv_accept [OF inv accept(2,3,5)] by blast
  next
    case (serve k out q st s')
    then show ?thesis using net_inv_serve [OF inv serve(2,3)] by blast
  qed
qed blast

lemma of_sched_mset: "(\<And>k. of_sched k cs = of_sched k ds) \<Longrightarrow> mset cs = mset ds"
proof (rule multiset_eqI)
  fix c assume a: "\<And>k. of_sched k cs = of_sched k ds"
  have "count (mset xs) c = count (mset (of_sched (fst c) xs)) c" for xs :: "(nat \<times> 'a) list" by (simp add: of_sched_def)
  then show "count (mset cs) c = count (mset ds) c" using a by metis
qed

text \<open>When nothing is left to accept or to serve, all connections were handled.\<close>

lemma net_inv_idle:
  assumes "net_inv z now conns ss s n served" and "net_idle n" and "list_all (conn_ok (length ss)) conns"
  shows "of_sched k served = of_sched k conns" and "mset served = mset conns"
proof -
  show *: "of_sched k served = of_sched k conns" for k
  proof (cases "k < length ss")
    case True
    then have "nt_queues n ! k = []" using assms(1,2) by (simp add: net_inv_def net_idle_def list_all_length)
    then show ?thesis using assms(1,2) True by (auto simp: net_inv_def net_idle_def)
  next
    case False
    then have "k \<notin> fst ` set served" "k \<notin> fst ` set conns" using assms(1,3) by (auto simp: net_inv_def list_all_iff conn_ok_def)
    then show ?thesis by (simp add: of_sched_none)
  qed
  then show "mset served = mset conns" by (rule of_sched_mset)
qed

section \<open>The servers get everything done\<close>

definition net_work :: "'s net \<Rightarrow> nat" where
  "net_work n = 2 * length (nt_conns n) + sum_list (map length (nt_queues n))"

lemma sum_queues_update:
  "k < length qs \<Longrightarrow> sum_list (map length (qs[k := q])) + length (qs ! k) = sum_list (map length qs) + length q"
  using sum_list_update [of k qs length q] by simp

lemma serve_accept_length: "serve_accept infd q = Inr q' \<Longrightarrow> length q' \<le> Suc (length q)"
  by (auto simp: serve_accept_def matrix_event_def eq_push_def split: option.splits list.splits if_splits)

lemma net_step_work: "net_step z now n n' \<Longrightarrow> net_work n' < net_work n"
proof (induction rule: net_step.induct)
  case (accept n cs1 k ch cs2 q)
  then show ?case using sum_queues_update [OF accept(3), of q] serve_accept_length [OF accept(4)] by (simp add: net_work_def)
next
  case (serve k n out q st s)
  have "length (nt_queues n ! k) = Suc (length q)"
    using serve(2) by (cases "nt_queues n ! k") (auto simp: threaded_serve_def eq_pop_def bind_res_eq_Inr)
  then show ?case using sum_queues_update [OF serve(1), of q] by (simp add: net_work_def)
qed

lemma served_within:
  assumes inv: "net_inv z now conns ss s n served" and k: "k < length ss" and q: "nt_queues n ! k = e # q"
  shows "\<exists>ch. queued (k, ch) e \<and> mset (served @ [(k, ch)]) \<subseteq># mset conns"
proof -
  obtain cs where cs: "list_all2 queued cs (nt_queues n ! k)" "of_sched k conns = of_sched k served @ cs @ of_sched k (nt_conns n)"
    using inv k unfolding net_inv_def by auto
  then obtain c cs' where c: "cs = c # cs'" "queued c e" using q by (auto simp: list_all2_Cons2)
  have "c \<in> set (of_sched k conns)" using cs(2) c(1) by simp
  then have "fst c = k" unfolding of_sched_def by (simp only: set_filter mem_Collect_eq)
  then obtain ch where ch: "c = (k, ch)" by (metis prod.collapse)
  have cnt: "count (mset xs) x = count (mset (of_sched (fst x) xs)) x" for x :: "nat \<times> string list" and xs by (simp add: of_sched_def)
  have "count (mset (served @ [c])) x \<le> count (mset conns) x" for x
  proof (cases "fst x < length ss")
    case True
    then obtain ds where "of_sched (fst x) conns = of_sched (fst x) served @ ds @ of_sched (fst x) (nt_conns n)"
      "fst x = k \<longrightarrow> c \<in> set ds" using inv cs c(1) unfolding net_inv_def by (metis list.set_intros(1))
    then have "count (mset (of_sched (fst x) (served @ [c]))) x \<le> count (mset (of_sched (fst x) conns)) x"
      by (cases "x = c") (auto simp: ch Suc_le_eq split: if_splits)
    then show ?thesis using cnt [of "served @ [c]" x] cnt [of conns x] by linarith
  next
    case False
    then have "x \<notin> set (served @ [c])" using inv k by (auto simp: net_inv_def list_all_iff ch)
    then show ?thesis by (metis count_mset_0_iff zero_le)
  qed
  then have "mset (served @ [c]) \<subseteq># mset conns" by (rule mset_subset_eqI)
  then show ?thesis using ch c(2) by blast
qed

lemma net_progress:
  assumes inv: "net_inv z now conns ss s n served" and "\<not> net_idle n"
    and ret: "\<And>served. mset served \<subseteq># mset conns \<Longrightarrow> \<exists>r. deliver z now served ss s = Some (Inr r)"
  shows "\<exists>n'. net_step z now n n'"
proof (cases "nt_conns n")
  case (Cons c cs)
  obtain k ch where c: "c = (k, ch)" by fastforce
  have ok: "conn_ok (length ss) (k, ch)" "length (nt_queues n) = length ss" using inv Cons c by (simp_all add: net_inv_def)
  obtain e where "serve_accept (Some ch) (nt_queues n ! k) = Inr (nt_queues n ! k @ [e])" using accept_queues [OF ok(1)] by blast
  then show ?thesis using net_step.accept [of n "[]" k ch cs] Cons c ok by (auto simp: conn_ok_def)
next
  case Nil
  then obtain k where k: "k < length (nt_queues n)" "nt_queues n ! k \<noteq> []" using assms(2) by (auto simp: net_idle_def list_all_length)
  then obtain e q where q: "nt_queues n ! k = e # q" by (cases "nt_queues n ! k") auto
  have l: "length (nt_queues n) = length ss" using inv by (simp add: net_inv_def)
  obtain ch where ch: "queued (k, ch) e" "mset (served @ [(k, ch)]) \<subseteq># mset conns" using served_within [OF inv _ q] k(1) l by auto
  have "deliver z now served ss s = Some (Inr (nt_scheds n, nt_store n))" using inv by (simp add: net_inv_def)
  from deliver_snoc [OF this, of k ch] ret [OF ch(2)] obtain out st s' where
    "proc_req z (\<lambda>_ s. s) now (hd ch) (tl ch) (nt_scheds n ! k) (nt_store n) = Some (Inr (out, st, s'))"
    by (auto split: option.splits sum.splits)
  then have "threaded_serve z (\<lambda>_ s. s) now (nt_queues n ! k) (nt_scheds n ! k) (nt_store n) = Some (Inr (Some out, q, st, s'))"
    using ch(1) q by (simp add: threaded_serve_def eq_pop_def queued_def proc_req_c_str)
  then show ?thesis using net_step.serve [OF k(1)] by blast
qed

lemma net_completes:
  assumes "net_inv z now conns ss s n served" and "\<And>served. mset served \<subseteq># mset conns \<Longrightarrow> \<exists>r. deliver z now served ss s = Some (Inr r)"
  shows "\<exists>n'. net_reach z now n n' \<and> net_idle n'"
  using assms(1)
proof (induction "net_work n" arbitrary: n served rule: less_induct)
  case less
  show ?case
  proof (cases "net_idle n")
    case True
    then show ?thesis using net_reach.init by blast
  next
    case False
    then obtain n1 where n1: "net_step z now n n1" using net_progress [OF less.prems _ assms(2)] by blast
    note r = net_reach.more_step [OF net_reach.init n1]
    obtain served1 where "net_inv z now conns ss s n1 served1" using net_inv_reach [OF r less.prems] by blast
    from less.hyps [OF net_step_work [OF n1] this] obtain n' where n': "net_reach z now n1 n'" "net_idle n'" by blast
    have "net_reach z now n n'" using n'(1) r by (induction rule: net_reach.induct) (auto intro: net_reach.more_step)
    then show ?thesis using n'(2) by blast
  qed
qed

section \<open>Submissions in any order\<close>

lemma list_all2_part:
  assumes "list_all2 R xs ys" and "mset ys' \<subseteq># mset ys"
  shows "\<exists>xs' xr. list_all2 R xs' ys' \<and> mset (xs' @ xr) = mset xs"
proof -
  obtain yr where "mset ys = mset ys' + mset yr" using assms(2) by (metis ex_mset mset_subset_eq_exists_conv)
  then have "mset (ys' @ yr) = mset ys" by simp
  moreover have "list_all2 (\<lambda>y x. R x y) ys xs" using assms(1) by (simp add: list_all2_conv_all_nth)
  ultimately obtain zs where z: "list_all2 (\<lambda>y x. R x y) (ys' @ yr) zs" "mset zs = mset xs"
    using list_all2_reorder_left_invariance by blast
  then obtain xs' xr where "zs = xs' @ xr" "list_all2 (\<lambda>y x. R x y) ys' xs'" by (auto simp: list_all2_append1)
  then show ?thesis using z(2) by (auto simp: list_all2_conv_all_nth)
qed

text \<open>What \<open>deliver_shares\<close> shows of all submissions, for any part of them in any order.\<close>

lemma deliver_part:
  assumes "deployed c s" and mx: "0 < mx" and o: "list_all2 (sent_for mx) xs outs" and ch: "list_all2 chunks_of outs chs"
    and k: "\<And>k tv. (k, tv) \<in> set xs \<Longrightarrow> k < length ss \<and> list_all task_ok tv"
    and t: "\<And>t. t \<in> set (concat (map snd xs)) \<Longrightarrow> key_ok (zc_msg_maxsize c) (taskid t) \<and> taskid t \<noteq> ''num tasks recv''
      \<and> (\<exists>d v. zht_value c s (taskid t) = Some d \<and> str_to_value d = Inr v)"
    and n: "zht_value c s ''num tasks recv'' = Some (num_to_str n)" "0 \<le> n" "is_int (n + int (length (concat (map snd xs))))"
    and big: "100 \<le> zc_msg_maxsize c" and ss: "list_all fresh ss" and part: "mset served \<subseteq># mset chs"
  shows "\<exists>xs' xr ss' s'. mset (xs' @ xr) = mset xs \<and> length xs' = length served
    \<and> deliver (zht_ops_of c) now served ss s = Some (Inr (ss', s')) \<and> length ss' = length ss \<and> list_all fresh ss'
    \<and> deployed c s' \<and> zht_value c s' = (zht_value c s)(''num tasks recv'' \<mapsto> num_to_str (n + int (length (concat (map snd xs')))))
    \<and> all_ids wait_ids ss' = all_ids wait_ids ss + image_mset taskid (mset (concat (map snd xs')))
    \<and> map sc_id ss' = map sc_id ss \<and> map sc_conf ss' = map sc_conf ss"
proof -
  obtain outs' or1 where outs': "list_all2 chunks_of outs' served" "mset (outs' @ or1) = mset outs" using list_all2_part [OF ch part] by blast
  have "mset outs' \<subseteq># mset outs" by (metis mset_append mset_subset_eq_add_left outs'(2))
  then obtain xs' xr where xs': "list_all2 (sent_for mx) xs' outs'" "mset (xs' @ xr) = mset xs" using list_all2_part [OF o] by blast
  have sub: "set xs' \<subseteq> set xs" using xs'(2) by (metis Un_upper1 mset_eq_setD set_append)
  have "mset (concat (map snd (xs' @ xr))) = mset (concat (map snd xs))"
    using xs'(2) by (metis (no_types, lifting) mset_concat mset_map sum_mset_sum_list)
  then have "length (concat (map snd xs')) + length (concat (map snd xr)) = length (concat (map snd xs))"
    by (metis concat_append length_append map_append size_mset)
  then have i: "is_int (n + int (length (concat (map snd xs'))))" using n(2,3) by (simp add: int_range_defs)
  have k': "k < length ss \<and> list_all task_ok tv" if "(k, tv) \<in> set xs'" for k tv using k that sub by blast
  have t': "key_ok (zc_msg_maxsize c) (taskid t) \<and> taskid t \<noteq> ''num tasks recv'' \<and> (\<exists>d v. zht_value c s (taskid t) = Some d \<and> str_to_value d = Inr v)"
    if "t \<in> set (concat (map snd xs'))" for t
  proof (rule t)
    show "t \<in> set (concat (map snd xs))" using that sub by auto
  qed
  have "length xs' = length served" using list_all2_lengthD [OF xs'(1)] list_all2_lengthD [OF outs'(1)] by simp
  with deliver_shares [OF assms(1) mx xs'(1) outs'(1) k' t' n(1,2) i big ss, of now] xs'(2) show ?thesis by blast
qed

lemma chunks_conn_ok:
  assumes "list_all2 (sent_for mx) xs outs" and "list_all2 chunks_of outs chs" and "\<And>k tv. (k, tv) \<in> set xs \<Longrightarrow> k < m"
  shows "list_all (conn_ok m) chs"
  using assms
proof (induction xs arbitrary: outs chs)
  case (Cons x xs)
  then obtain o1 outs' ch chs' where o: "outs = o1 # outs'" "chs = ch # chs'" "sent_for mx x o1" "chunks_of o1 ch"
    "list_all2 (sent_for mx) xs outs'" "list_all2 chunks_of outs' chs'" by (auto simp: list_all2_Cons1)
  have "fst ch < m" using o(3,4) Cons.prems(3) [of "fst x" "snd x"] by (simp add: sent_for_def chunks_of_def)
  then have "conn_ok m ch" using o(4) by (cases "snd ch") (auto simp: conn_ok_def chunks_of_def chunking_def)
  then show ?case using Cons.IH [OF o(5,6)] Cons.prems(3) o(2) by auto
qed simp

text \<open>The servers of all schedulers take in the submissions of a client in every run.\<close>

lemma submissions_taken:
  assumes "deployed c s" and mx: "0 < mx" and o: "list_all2 (sent_for mx) xs outs" and ch: "list_all2 chunks_of outs chs"
    and k: "\<And>k tv. (k, tv) \<in> set xs \<Longrightarrow> k < length ss \<and> list_all task_ok tv"
    and t: "\<And>t. t \<in> set (concat (map snd xs)) \<Longrightarrow> key_ok (zc_msg_maxsize c) (taskid t) \<and> taskid t \<noteq> ''num tasks recv''
      \<and> (\<exists>d v. zht_value c s (taskid t) = Some d \<and> str_to_value d = Inr v)"
    and n: "zht_value c s ''num tasks recv'' = Some (num_to_str m)" "0 \<le> m" "is_int (m + int (length (concat (map snd xs))))"
    and big: "100 \<le> zc_msg_maxsize c" and ss: "list_all fresh ss" and r: "net_reach (zht_ops_of c) now (net_start chs ss s) n"
  shows "\<exists>n'. net_reach (zht_ops_of c) now n n' \<and> net_idle n'"
    and "net_idle n \<Longrightarrow> list_all fresh (nt_scheds n) \<and> deployed c (nt_store n)
      \<and> zht_value c (nt_store n) = (zht_value c s)(''num tasks recv'' \<mapsto> num_to_str (m + int (length (concat (map snd xs)))))
      \<and> all_ids wait_ids (nt_scheds n) = all_ids wait_ids ss + image_mset taskid (mset (concat (map snd xs)))
      \<and> map sc_id (nt_scheds n) = map sc_id ss \<and> map sc_conf (nt_scheds n) = map sc_conf ss"
proof -
  have part: "\<exists>xs' xr ss' s'. mset (xs' @ xr) = mset xs \<and> length xs' = length served
      \<and> deliver (zht_ops_of c) now served ss s = Some (Inr (ss', s')) \<and> length ss' = length ss \<and> list_all fresh ss'
      \<and> deployed c s' \<and> zht_value c s' = (zht_value c s)(''num tasks recv'' \<mapsto> num_to_str (m + int (length (concat (map snd xs')))))
      \<and> all_ids wait_ids ss' = all_ids wait_ids ss + image_mset taskid (mset (concat (map snd xs')))
      \<and> map sc_id ss' = map sc_id ss \<and> map sc_conf ss' = map sc_conf ss" if "mset served \<subseteq># mset chs" for served
    by (rule deliver_part [OF assms(1) mx o ch _ _ n big ss that]) (rule k, assumption, rule t, assumption)
  have ok: "list_all (conn_ok (length ss)) chs" using chunks_conn_ok [OF o ch] k by blast
  obtain served where inv: "net_inv (zht_ops_of c) now chs ss s n served" using net_inv_reach [OF r net_inv_start [OF ok]] by blast
  have "\<exists>r. deliver (zht_ops_of c) now served ss s = Some (Inr r)" if "mset served \<subseteq># mset chs" for served
    using part [OF that] by blast
  then show "\<exists>n'. net_reach (zht_ops_of c) now n n' \<and> net_idle n'" by (rule net_completes [OF inv])
  assume idle: "net_idle n"
  have m: "mset served = mset chs" using net_inv_idle(2) [OF inv idle ok] .
  then have "mset served \<subseteq># mset chs" by simp
  from part [OF this] obtain xs' xr ss' s' where p: "mset (xs' @ xr) = mset xs" "length xs' = length served"
    "deliver (zht_ops_of c) now served ss s = Some (Inr (ss', s'))" "list_all fresh ss'" "deployed c s'"
    "zht_value c s' = (zht_value c s)(''num tasks recv'' \<mapsto> num_to_str (m + int (length (concat (map snd xs')))))"
    "all_ids wait_ids ss' = all_ids wait_ids ss + image_mset taskid (mset (concat (map snd xs')))"
    "map sc_id ss' = map sc_id ss" "map sc_conf ss' = map sc_conf ss" by blast
  have "length xs = length chs" using list_all2_lengthD [OF o] list_all2_lengthD [OF ch] by simp
  moreover have "length served = length chs" using m by (metis size_mset)
  moreover have "length (xs' @ xr) = length xs" using p(1) by (metis size_mset)
  ultimately have "xr = []" using p(2) by simp
  then have mx': "mset (concat (map snd xs')) = mset (concat (map snd xs))"
    using p(1) by (metis (no_types, lifting) append_Nil2 mset_concat mset_map sum_mset_sum_list)
  then have l: "length (concat (map snd xs')) = length (concat (map snd xs))" by (metis size_mset)
  have e: "nt_scheds n = ss'" "nt_store n = s'" using inv p(3) by (simp_all add: net_inv_def)
  show "list_all fresh (nt_scheds n) \<and> deployed c (nt_store n)
      \<and> zht_value c (nt_store n) = (zht_value c s)(''num tasks recv'' \<mapsto> num_to_str (m + int (length (concat (map snd xs)))))
      \<and> all_ids wait_ids (nt_scheds n) = all_ids wait_ids ss + image_mset taskid (mset (concat (map snd xs)))
      \<and> map sc_id (nt_scheds n) = map sc_id ss \<and> map sc_conf (nt_scheds n) = map sc_conf ss"
    using p(4-) unfolding e l mx' by blast
qed

section \<open>Properties\<close>


text \<open>Three queries for the load of two schedulers.\<close>

definition demo_query :: string where
  "demo_query = mm_to_str \<lparr>msgtype = ''query load'', extrainfo = None, mcount = None, tasks = []\<rparr>"

lemma demo_query_answered:
  "proc_req z (\<lambda>_ s. s) now demo_query [] (demo_sched [] []) s =
     Some (Inr ([mm_to_str (default_mm ''send load''\<lparr>mcount := Some 0\<rparr>)], demo_sched [] [], s))"
proof -
  have p: "demo_query = ''query load&&noextrainfo&&nocount&&notask&&''" by code_simp
  have "str_to_mm demo_query = Inr \<lparr>msgtype = ''query load'', extrainfo = None, mcount = None, tasks = []\<rparr>" by code_simp
  moreover have "c_str demo_query = demo_query" "take (length ''client send tasks'') demo_query \<noteq> ''client send tasks''" unfolding p by code_simp+
  ultimately show ?thesis by (simp add: proc_req_def demo_sched_def Let_def del: list.size(4))
qed

lemma demo_queries_answered:
  "list_all (\<lambda>c. fst c < 2 \<and> snd c = [demo_query]) cs \<Longrightarrow>
     deliver z now cs [demo_sched [] [], demo_sched [] []] s = Some (Inr ([demo_sched [] [], demo_sched [] []], s))"
proof (induction cs)
  case (Cons c cs)
  have "[demo_sched [] [], demo_sched [] []][fst c := demo_sched [] []] = [demo_sched [] [], demo_sched [] []]"
    "[demo_sched [] [], demo_sched [] []] ! fst c = demo_sched [] []" using Cons.prems by (auto simp: less_2_cases_iff)
  then show ?case using Cons by (cases c) (simp add: demo_query_answered)
qed simp


end
