(* ===== verification/Progress.thy ===== *)
theory Progress
  imports System Completion
begin

text \<open>
  The schedulers cannot get stuck: for a workload without data dependencies between files (no task declares an
  output size, as the client submits them), every reachable state can be continued until all tasks ran and
  all children are notified. The rounds of the threads are shown to return, with an explicit result, in every
  reachable state; each useful round lowers a measure.
\<close>

section \<open>Records of tasks without data\<close>

definition done_item :: "string \<Rightarrow> string \<Rightarrow> cmp_item" where
  "done_item me t = \<lparr>cq_taskId = t, cq_key = me @ t, cq_dataSize = 0\<rparr>"

text \<open>The record after the notifications \<open>us\<close>, each by a scheduler for a finished task.\<close>

definition informed_by :: "(string \<times> string) list \<Rightarrow> val_msg \<Rightarrow> val_msg" where
  "informed_by us v = fold (\<lambda>(me, t). parent_done me (done_item me t)) us v"

definition no_data :: "val_msg \<Rightarrow> bool" where
  "no_data v \<longleftrightarrow> opt0 (v_outputsize v) = 0 \<and> opt0 (v_alldatasize v) = 0 \<and> list_all (\<lambda>z. z = 0) (v_datasize v)
     \<and> length (v_datasize v) = length (v_parents v)"

text \<open>There is room in the record for the notifications of all parents.\<close>

definition room :: "zht_conf \<Rightarrow> string set \<Rightarrow> string set \<Rightarrow> nat \<Rightarrow> val_msg \<Rightarrow> bool" where
  "room c ids T n v \<longleftrightarrow> (\<forall>us. length us \<le> n \<longrightarrow> set us \<subseteq> ids \<times> T \<longrightarrow>
     value_ok (informed_by us v) \<and> val_ok (zc_msg_maxsize c) (value_to_str (informed_by us v)))"

lemma room_D:
  "room c ids T n v \<Longrightarrow> length us \<le> n \<Longrightarrow> set us \<subseteq> ids \<times> T \<Longrightarrow>
     value_ok (informed_by us v) \<and> val_ok (zc_msg_maxsize c) (value_to_str (informed_by us v))"
  by (simp add: room_def)

lemma informed_by_snoc: "informed_by (us @ [(me, t)]) v = parent_done me (done_item me t) (informed_by us v)"
  by (simp add: informed_by_def)

lemma informed_by_facts:
  assumes "no_data v"
  shows "no_data (informed_by us v)" and "v_children (informed_by us v) = v_children v"
    and "opt0 (v_indegree (informed_by us v)) = opt0 (v_indegree v) - int (length us)"
proof -
  have "no_data (informed_by us v) \<and> v_children (informed_by us v) = v_children v
      \<and> opt0 (v_indegree (informed_by us v)) = opt0 (v_indegree v) - int (length us)"
  proof (induction us rule: rev_induct)
    case (snoc u us)
    obtain me t where "u = (me, t)" by (cases u)
    with snoc show ?case by (simp add: informed_by_snoc parent_done_def done_item_def no_data_def)
  qed (use assms in \<open>simp add: informed_by_def\<close>)
  then show "no_data (informed_by us v)" "v_children (informed_by us v) = v_children v"
    "opt0 (v_indegree (informed_by us v)) = opt0 (v_indegree v) - int (length us)" by simp_all
qed

section \<open>The rounds return\<close>

text \<open>A check of the first waiting task: it goes to the work-stealing queue when its record shows no unfinished
  parent and to the end of the wait queue otherwise.\<close>

lemma check_round_light:
  assumes "sc_waitQueue st = t # rest" and "zlookup z (taskid t) s = Inr (rc, d, s)" and "str_to_value d = Inr v"
    and "no_data v" and "0 \<le> dataSizeThreshold (sc_conf st)"
  shows "checking_ready_round z now st s = Some (Inr (
    (if opt0 (v_indegree v) = 0
     then (add_entries [time_entry (t\<lparr>datalength := 0\<rparr>) ''ReadyQueuedTime'' now] (st\<lparr>sc_waitQueue := rest\<rparr>))
            \<lparr>sc_wsQueue := pq_push (t\<lparr>datalength := 0\<rparr>) (sc_wsQueue st), sc_numZHTMsg := sc_numZHTMsg st + 1\<rparr>
     else st\<lparr>sc_waitQueue := rest @ [t], sc_numZHTMsg := sc_numZHTMsg st + 1\<rparr>), [], s))"
  using assms by (simp add: checking_ready_round_def check_a_ready_task_def task_ready_process_def no_data_def add_entries_def)

lemma gather_light:
  assumes "\<And>i. i \<in> set is \<Longrightarrow> i < length (v_datasize v) \<and> v_datasize v ! i = 0"
  shows "gather fetch v is dat st = Inr (dat, st)"
  using assms by (induction "is" arbitrary: dat) (simp_all add: data_piece_def rep_at_def)

text \<open>Executing the next task adds one item to the queue of completed tasks.\<close>

lemma exec_round_light:
  assumes "next_task st = Some (tm, st0)" and "zlookup z (taskid tm) s = Inr (rc, d, s)" and "str_to_value d = Inr v" and "no_data v"
  shows "\<exists>st'. executing_task_round z fetch run t0 t1 st s = Some (Inr (st', s))"
proof -
  have "gather fetch v [0..<length (v_parents v)] [] (st0\<lparr>sc_numIdleCore := sc_numIdleCore st0 - 1\<rparr>) = Inr ([], st0\<lparr>sc_numIdleCore := sc_numIdleCore st0 - 1\<rparr>)"
    using assms(4) by (intro gather_light) (simp add: no_data_def list_all_length)
  then show ?thesis using assms(1-3) by (simp add: executing_task_round_def exec_a_task_def Let_def)
qed

lemma exec_round_item:
  assumes "next_task st = Some (tm, st0)" and "zlookup z (taskid tm) s = Inr (rc, d, s)" and "str_to_value d = Inr v"
    and "executing_task_round z fetch run t0 t1 st s = Some (Inr (st', s'))"
  shows "same_frame st st'" and "sc_completeQueue st' = sc_completeQueue st @
    [\<lparr>cq_taskId = taskid tm, cq_key = sc_id st @ taskid tm, cq_dataSize = opt0 (v_outputsize v)\<rparr>]"
proof -
  have st0: "sc_id st0 = sc_id st" "sc_conf st0 = sc_conf st" "sc_completeQueue st0 = sc_completeQueue st"
    using assms(1) by (auto simp: next_task_def split: if_splits)
  let ?st1 = "st0\<lparr>sc_numIdleCore := sc_numIdleCore st0 - 1\<rparr>"
  obtain dat st1 where g: "gather fetch v [0..<length (v_parents v)] [] ?st1 = Inr (dat, st1)"
    using assms by (auto simp: executing_task_round_def exec_a_task_def bind_res_eq_Inr)
  obtain ld where "st1 = ?st1\<lparr>sc_localData := ld\<rparr>" using gather_frame [OF g] by blast
  then show "same_frame st st'" "sc_completeQueue st' = sc_completeQueue st @
      [\<lparr>cq_taskId = taskid tm, cq_key = sc_id st @ taskid tm, cq_dataSize = opt0 (v_outputsize v)\<rparr>]"
    using assms g st0 by (auto simp: executing_task_round_def exec_a_task_def Let_def same_frame_def)
qed

section \<open>The invariant\<close>

text \<open>\<open>V\<close> are the records at submission and \<open>ids\<close> the names of the schedulers.\<close>

definition items_light :: "string set \<Rightarrow> sched \<Rightarrow> bool" where
  "items_light ids st \<longleftrightarrow> sc_id st \<in> ids \<and> 0 \<le> dataSizeThreshold (sc_conf st)
     \<and> list_all (\<lambda>it. it = done_item (sc_id st) (cq_taskId it)) (sc_completeQueue st)"

definition work_light :: "sched list \<Rightarrow> nat \<times> cmp_item \<times> string list \<Rightarrow> bool" where
  "work_light ss w \<longleftrightarrow> (case w of (i, it, _) \<Rightarrow> i < length ss \<and> it = done_item (sc_id (ss ! i)) (cq_taskId it))"

definition edges :: "string set \<Rightarrow> (string \<Rightarrow> string list) \<Rightarrow> string \<Rightarrow> nat" where
  "edges T G t = (\<Sum>p \<in> T. count_list (G p) t)"

definition records_light ::
    "zht_conf \<Rightarrow> string set \<Rightarrow> string set \<Rightarrow> (string \<Rightarrow> string list) \<Rightarrow> (string \<Rightarrow> val_msg) \<Rightarrow> cluster \<Rightarrow> (string \<Rightarrow> string list) \<Rightarrow> bool" where
  "records_light c ids T G V s left \<longleftrightarrow> (\<forall>t \<in> T. \<exists>us. set us \<subseteq> ids \<times> T \<and> zht_value c s t = Some (value_to_str (informed_by us (V t)))
     \<and> length us + edges T left t = edges T G t)"

definition light :: "zht_conf \<Rightarrow> string set \<Rightarrow> string set \<Rightarrow> (string \<Rightarrow> string list) \<Rightarrow> (string \<Rightarrow> val_msg) \<Rightarrow> sys \<Rightarrow> bool" where
  "light c ids T G V y \<longleftrightarrow> list_all (items_light ids) (y_scheds y) \<and> list_all (work_light (y_scheds y)) (y_work y)
     \<and> records_light c ids T G V (y_store y) (y_left y)"

text \<open>What the workload has to be.\<close>

definition light_workload :: "zht_conf \<Rightarrow> string set \<Rightarrow> string set \<Rightarrow> (string \<Rightarrow> string list) \<Rightarrow> (string \<Rightarrow> val_msg) \<Rightarrow> bool" where
  "light_workload c ids T G V \<longleftrightarrow> (\<forall>t \<in> T. no_data (V t) \<and> room c ids T (edges T G t) (V t))"

lemma light_record:
  assumes w: "light_workload c ids T G V" and l: "light c ids T G V y" and i: "sys_inv c T G y" and t: "t \<in> T"
  obtains us where "set us \<subseteq> ids \<times> T" "length us + edges T (y_left y) t = edges T G t"
    "zlookup (zht_ops_of c) t (y_store y) = Inr (0, value_to_str (informed_by us (V t)), y_store y)"
    "zht_value c (y_store y) t = Some (value_to_str (informed_by us (V t)))"
    "str_to_value (value_to_str (informed_by us (V t))) = Inr (informed_by us (V t))" "no_data (informed_by us (V t))"
    "val_ok (zc_msg_maxsize c) (value_to_str (informed_by us (V t)))" "v_children (informed_by us (V t)) = G t"
    "opt0 (v_indegree (informed_by us (V t))) = int (edges T (y_left y) t)"
proof -
  obtain us where us: "set us \<subseteq> ids \<times> T" "zht_value c (y_store y) t = Some (value_to_str (informed_by us (V t)))"
      "length us + edges T (y_left y) t = edges T G t"
    using l t unfolding light_def records_light_def by blast
  have nd: "no_data (V t)" "room c ids T (edges T G t) (V t)" using w t by (simp_all add: light_workload_def)
  have ok: "value_ok (informed_by us (V t))" "val_ok (zc_msg_maxsize c) (value_to_str (informed_by us (V t)))"
  proof -
    have le: "length us \<le> edges T G t" using us(3) by linarith
    show "value_ok (informed_by us (V t))" "val_ok (zc_msg_maxsize c) (value_to_str (informed_by us (V t)))"
      by (rule conjunct1 [OF room_D [OF nd(2) le us(1)]], rule conjunct2 [OF room_D [OF nd(2) le us(1)]])
  qed
  have r: "deployed c (y_store y)" "key_ok (zc_msg_maxsize c) t"
      "\<exists>v. zht_value c (y_store y) t = Some (value_to_str v) \<and> value_ok v \<and> v_children v = G t \<and> opt0 (v_indegree v) = int (edges T (y_left y) t)"
    using i t unfolding sys_inv_def record_inv_def edges_def by blast+
  from r(3) obtain v where v: "zht_value c (y_store y) t = Some (value_to_str v)" "value_ok v" "v_children v = G t"
    "opt0 (v_indegree v) = int (edges T (y_left y) t)" by (elim exE conjE)
  have "value_to_str v = value_to_str (informed_by us (V t))" using us(2) v(1) by (metis option.inject)
  then have "v = informed_by us (V t)" using value_roundtrip [OF v(2)] value_roundtrip [OF ok(1)] by (metis sum.inject(2))
  moreover have "zlookup (zht_ops_of c) t (y_store y) = Inr (0, value_to_str (informed_by us (V t)), y_store y)" using zs.lookup [OF r(1,2)] us(2) by simp
  ultimately show ?thesis using that [OF us(1,3)] us(2) value_roundtrip [OF ok(1)] informed_by_facts(1) [OF nd(1)] ok(2) v(3,4) by blast
qed

section \<open>Every step keeps it\<close>

text \<open>Steps that touch neither the records nor the queues of completed tasks.\<close>

definition same_items :: "sched \<Rightarrow> sched \<Rightarrow> bool" where
  "same_items st st' \<longleftrightarrow> same_frame st st' \<and> sc_completeQueue st' = sc_completeQueue st"

lemma items_light_same: "items_light ids st \<Longrightarrow> same_items st st' \<Longrightarrow> items_light ids st'"
  by (simp add: items_light_def same_items_def same_frame_def)

lemma work_light_ids:
  assumes "list_all (work_light ss) ws" and "map sc_id ss' = map sc_id ss"
  shows "list_all (work_light ss') ws"
proof -
  have "length ss' = length ss" using arg_cong [OF assms(2), of length] by simp
  moreover have "sc_id (ss' ! i) = sc_id (ss ! i)" if "i < length ss" for i
    using arg_cong [OF assms(2), of "\<lambda>xs. xs ! i"] that calculation by simp
  ultimately show ?thesis using assms(1) by (auto simp: list_all_iff work_light_def)
qed

lemma light_update:
  assumes "light c ids T G V y" and "same_items (y_scheds y ! i) st" and "i < length (y_scheds y)"
  shows "light c ids T G V (y\<lparr>y_scheds := (y_scheds y)[i := st]\<rparr>)"
proof -
  have "items_light ids st" using assms items_light_same by (auto simp: light_def list_all_length)
  moreover have "map sc_id ((y_scheds y)[i := st]) = map sc_id (y_scheds y)"
    using assms(2,3) by (simp add: map_update same_items_def same_frame_def list_update_same_conv)
  ultimately show ?thesis using assms(1) work_light_ids by (auto simp: light_def intro: list_all_update)
qed

lemma light_step_check:
  assumes w: "light_workload c ids T G V" and l: "light c ids T G V y" and inv: "sys_inv c T G y" and i: "i < length (y_scheds y)"
    and round: "checking_ready_round (zht_ops_of c) now (y_scheds y ! i) (y_store y) = Some (Inr (st, out, s))"
  shows "out = []" and "s = y_store y" and "same_items (y_scheds y ! i) st"
proof -
  from round obtain t rest where q: "sc_waitQueue (y_scheds y ! i) = t # rest"
    by (cases "sc_waitQueue (y_scheds y ! i)") (auto simp: checking_ready_round_def)
  have "taskid t \<in># wait_ids (y_scheds y ! i)" by (simp add: wait_ids_def q)
  then have "taskid t \<in># all_ids wait_ids (y_scheds y)" using sys_inv_sched(2) [OF inv i, of wait_ids] by blast
  then have tT: "taskid t \<in> T" using sys_inv_known(1) [OF inv, of "taskid t"] by simp
  obtain us where us: "zlookup (zht_ops_of c) (taskid t) (y_store y) = Inr (0, value_to_str (informed_by us (V (taskid t))), y_store y)"
      "str_to_value (value_to_str (informed_by us (V (taskid t)))) = Inr (informed_by us (V (taskid t)))" "no_data (informed_by us (V (taskid t)))"
    using light_record [OF w l inv tT] by metis
  have th: "0 \<le> dataSizeThreshold (sc_conf (y_scheds y ! i))" using l i by (simp add: light_def list_all_length items_light_def)
  note r = check_round_light [OF q us th, of now]
  show "out = []" "s = y_store y" "same_items (y_scheds y ! i) st"
    using round unfolding r by (auto simp: same_items_def same_frame_def split: if_splits)
qed

lemma same_items_monitor: "same_items st (localQueue_monitor_round n st)"
  by (simp add: localQueue_monitor_round_def Let_def same_items_def same_frame_def split: prod.splits)

text \<open>One notification lowers the number of edges into the notified child by one.\<close>

lemma edges_notify:
  assumes "finite T" and "t \<in> T" and "left t = ch # chs"
  shows "Suc (edges T (left(t := chs)) ch) = edges T left ch" and "u \<noteq> ch \<Longrightarrow> edges T (left(t := chs)) u = edges T left u"
proof -
  show "Suc (edges T (left(t := chs)) ch) = edges T left ch"
    using sum.remove [OF assms(1,2), of "\<lambda>p. count_list (left p) ch"]
      sum.remove [OF assms(1,2), of "\<lambda>p. count_list ((left(t := chs)) p) ch"] assms(3) by (simp add: edges_def cong: sum.cong_simp)
  show "edges T (left(t := chs)) u = edges T left u" if "u \<noteq> ch"
    unfolding edges_def by (rule sum.cong) (use that assms(3) in auto)
qed

lemma light_step_notify:
  assumes w: "light_workload c ids T G V" and l: "light c ids T G V y" and inv: "sys_inv c T G y"
    and work: "y_work y = ws1 @ (i, it, ch # chs) # ws2" and i: "i < length (y_scheds y)"
    and v: "str_to_value d = Inr v" "child_attempt (sc_id (y_scheds y ! i)) it d = Inr w'" "val_ok (zc_msg_maxsize c) w'" "val_ok (zc_msg_maxsize c) d"
    and sw: "zcswap (zht_ops_of c) ch d w' (y_store y) = Inr (0, q, s)"
  shows "light c ids T G V (y\<lparr>y_store := s, y_work := ws1 @ (i, it, chs) # ws2, y_left := (y_left y)(cq_taskId it := chs)\<rparr>)"
proof -
  let ?t = "cq_taskId it" and ?me = "sc_id (y_scheds y ! i)" and ?left = "(y_left y)(cq_taskId it := chs)"
  have fin: "finite T" and dep: "deployed c (y_store y)" using inv by (simp_all add: sys_inv_def record_inv_def)
  have tT: "?t \<in> T" using sys_inv_known(1) [OF inv, of ?t] by (simp add: work work_ids_def)
  have lt: "y_left y ?t = ch # chs" using inv by (auto simp: sys_inv_def pending_inv_def work)
  have ch: "ch \<in> T" "key_ok (zc_msg_maxsize c) ch"
  proof -
    have "set (y_left y ?t) \<subseteq> T" using inv tT unfolding sys_inv_def record_inv_def by blast
    then show "ch \<in> T" by (simp add: lt)
    then show "key_ok (zc_msg_maxsize c) ch" using inv unfolding sys_inv_def record_inv_def by blast
  qed
  have "list_all (work_light (y_scheds y)) (ws1 @ (i, it, ch # chs) # ws2)" using l by (simp add: light_def work)
  then have it: "it = done_item ?me ?t" by (simp add: work_light_def)
  have me: "?me \<in> ids" using l i by (simp add: light_def list_all_length items_light_def)
  obtain us where us: "set us \<subseteq> ids \<times> T" "length us + edges T (y_left y) ch = edges T G ch"
      "zht_value c (y_store y) ch = Some (value_to_str (informed_by us (V ch)))"
      "str_to_value (value_to_str (informed_by us (V ch))) = Inr (informed_by us (V ch))"
    using light_record [OF w l inv ch(1)] by metis
  have d: "zht_value c (y_store y) ch = Some d" using zs.cswap_miss [OF dep ch(2) v(4,3)] sw by auto
  then have "w' = value_to_str (informed_by (us @ [(?me, ?t)]) (V ch))"
    using us(3,4) v(1,2) it by (simp add: child_attempt_def informed_by_snoc)
  moreover have "zht_value c s = (zht_value c (y_store y))(ch \<mapsto> w')" using zs.cswap_hit [OF dep ch(2) v(4,3) d] sw by auto
  moreover note e = edges_notify [where left = "y_left y", OF fin tT lt]
  ultimately have "records_light c ids T G V s ?left"
    unfolding records_light_def
  proof (intro ballI)
    fix u assume s: "w' = value_to_str (informed_by (us @ [(?me, ?t)]) (V ch))" "zht_value c s = (zht_value c (y_store y))(ch \<mapsto> w')" and u: "u \<in> T"
    show "\<exists>us. set us \<subseteq> ids \<times> T \<and> zht_value c s u = Some (value_to_str (informed_by us (V u))) \<and> length us + edges T ?left u = edges T G u"
    proof (cases "u = ch")
      case True
      then show ?thesis using s us(1,2) me tT e(1) by (intro exI [of _ "us @ [(?me, ?t)]"]) simp
    next
      case False
      then show ?thesis using l u s(2) e(2) [OF False] by (simp add: light_def records_light_def)
    qed
  qed
  then show ?thesis using l by (auto simp: light_def work work_light_def)
qed

lemma light_step:
  assumes "sys_step c y y'" and w: "light_workload c ids T G V" and "light c ids T G V y" and "sys_inv c T G y"
  shows "light c ids T G V y'"
  using assms(1,3,4)
proof (induction rule: sys_step.induct)
  case (check i y now st s)
  note r = light_step_check [OF w check(3,4,1,2)]
  show ?case using light_update [OF check(3) r(3) check(1)] r(2) by simp
next
  case (push i y j now st host msg s now' cs ack st' s')
  show ?case using light_step_check(1) [OF w push(7,8,1,4)] by simp
next
  case (exec i y tm st0 fetch run t0 t1 st s)
  have q: "pq_ok (sc_localQueue (y_scheds y ! i))" "pq_ok (sc_wsQueue (y_scheds y ! i))"
    using sys_inv_sched(1) [OF exec(5,1)] by (simp_all add: sched_ok_def)
  have "tm \<in># mset (sc_localQueue (y_scheds y ! i)) + mset (sc_wsQueue (y_scheds y ! i))"
    using exec(2) pq_top_in [OF q(1)] pq_top_in [OF q(2)] by (auto simp: next_task_def split: if_splits)
  then have "taskid tm \<in># ready_ids (y_scheds y ! i)" by (auto simp: ready_ids_def)
  then have "taskid tm \<in># all_ids ready_ids (y_scheds y)" using sys_inv_sched(2) [OF exec(5,1), of ready_ids] by blast
  then have tT: "taskid tm \<in> T" using sys_inv_known(1) [OF exec(5), of "taskid tm"] by simp
  obtain us where us: "zlookup (zht_ops_of c) (taskid tm) (y_store y) = Inr (0, value_to_str (informed_by us (V (taskid tm))), y_store y)"
      "str_to_value (value_to_str (informed_by us (V (taskid tm)))) = Inr (informed_by us (V (taskid tm)))" "no_data (informed_by us (V (taskid tm)))"
    using light_record [OF w exec(4,5) tT] by metis
  note r = exec_round_item [OF exec(2) us(1,2) exec(3)]
  have s: "s = y_store y" using exec(2,3) us(1,2) by (auto simp: executing_task_round_def exec_a_task_def bind_res_eq_Inr Let_def)
  have "items_light ids st"
    using exec(1,4) r us(3) by (auto simp: light_def list_all_length items_light_def same_frame_def done_item_def no_data_def nth_append)
  moreover have "map sc_id ((y_scheds y)[i := st]) = map sc_id (y_scheds y)"
    using r(1) exec(1) by (simp add: map_update same_frame_def list_update_same_conv)
  ultimately show ?case using exec(4) work_light_ids s by (auto simp: light_def intro: list_all_update)
next
  case (finish i y it rest rc d s v)
  have "cq_taskId it \<in># done_ids (y_scheds y ! i)" by (simp add: done_ids_def finish(2))
  then have "cq_taskId it \<in># all_ids done_ids (y_scheds y)" using sys_inv_sched(2) [OF finish(6,1), of done_ids] by blast
  then have tT: "cq_taskId it \<in> T" using sys_inv_known(1) [OF finish(6), of "cq_taskId it"] by simp
  have s: "s = y_store y" using light_record [OF w finish(5,6) tT] finish(3) by (metis old.prod.inject sum.inject(2))
  let ?st = "(y_scheds y ! i)\<lparr>sc_completeQueue := rest\<rparr>"
  have it: "items_light ids (y_scheds y ! i)" using finish(1,5) by (simp add: light_def list_all_length)
  then have "items_light ids ?st" "it = done_item (sc_id (y_scheds y ! i)) (cq_taskId it)" by (simp_all add: items_light_def finish(2))
  moreover have ids: "map sc_id ((y_scheds y)[i := ?st]) = map sc_id (y_scheds y)"
    using finish(1) by (simp add: map_update list_update_same_conv)
  ultimately show ?case using finish(1,5) work_light_ids [OF _ ids] s
    by (auto simp: light_def work_light_def intro: list_all_update)
next
  case (notify_one y ws1 i it ch chs ws2 d v w' q s)
  show ?case by (rule light_step_notify [OF w notify_one(9,10,1,2,3,4,6,7,8)])
next
  case (steal i y j out st cs now b st')
  note r = steal_result [OF sys_inv_sched(1) [OF steal(9,1)] sys_inv_sched(1) [OF steal(9,2)] steal(4-7)]
  have "light c ids T G V (y\<lparr>y_scheds := (y_scheds y)[i := st]\<rparr>)" using light_update [OF steal(8) _ steal(1)] r by (simp add: same_items_def)
  from light_update [OF this, of j st'] show ?case using r steal(2,3) by (simp add: same_items_def)
next
  case (monitor i y n)
  show ?case using light_update [OF monitor(2) same_items_monitor monitor(1)] .
qed

section \<open>Every useful round lowers the work to do\<close>

definition todo :: "string set \<Rightarrow> sys \<Rightarrow> nat" where
  "todo T y = 3 * size (all_ids wait_ids (y_scheds y)) + 2 * size (all_ids ready_ids (y_scheds y)) + size (all_ids done_ids (y_scheds y))
     + (\<Sum>t \<in> T. length (y_left y t))"

lemma all_ids_some: "all_ids f ss \<noteq> {#} \<Longrightarrow> \<exists>i < length ss. f (ss ! i) \<noteq> {#}"
  using all_ids_empty [of ss f] by (metis in_set_conv_nth)

lemma all_ids_member: "t \<in># all_ids f ss \<Longrightarrow> \<exists>i < length ss. t \<in># f (ss ! i)"
proof (induction ss)
  case (Cons st ss)
  then consider "t \<in># f st" | i where "i < length ss" "t \<in># f (ss ! i)" by (auto simp: all_ids_def)
  then show ?case by cases (use nth_Cons_0 nth_Cons_Suc in \<open>fastforce+\<close>)
qed (simp add: all_ids_def)

lemma exec_possible:
  assumes w: "light_workload c ids T G V" and l: "light c ids T G V y" and inv: "sys_inv c T G y" and ne: "all_ids ready_ids (y_scheds y) \<noteq> {#}"
  shows "\<exists>y'. sys_step c y y' \<and> todo T y' < todo T y"
proof -
  obtain i where i: "i < length (y_scheds y)" "ready_ids (y_scheds y ! i) \<noteq> {#}" using all_ids_some [OF ne] by blast
  let ?st = "y_scheds y ! i"
  have ok: "sched_ok ?st" using sys_inv_sched(1) [OF inv i(1)] .
  have "next_task ?st \<noteq> None" using i(2) by (auto simp: next_task_def ready_ids_def)
  then obtain tm st0 where nt: "next_task ?st = Some (tm, st0)" by auto
  have "tm \<in># mset (sc_localQueue ?st) + mset (sc_wsQueue ?st)"
    using nt ok pq_top_in [of "sc_localQueue ?st"] pq_top_in [of "sc_wsQueue ?st"] by (auto simp: next_task_def sched_ok_def split: if_splits)
  then have "taskid tm \<in># ready_ids ?st" by (auto simp: ready_ids_def)
  then have "taskid tm \<in># all_ids ready_ids (y_scheds y)" using sys_inv_sched(2) [OF inv i(1), of ready_ids] by blast
  then have t: "taskid tm \<in> T" "key_ok (zc_msg_maxsize c) (taskid tm)" using sys_inv_known(1,2) [OF inv, of "taskid tm"] by simp_all
  have dep: "deployed c (y_store y)" using inv by (simp add: sys_inv_def record_inv_def)
  obtain us where us: "zlookup (zht_ops_of c) (taskid tm) (y_store y) = Inr (0, value_to_str (informed_by us (V (taskid tm))), y_store y)"
      "str_to_value (value_to_str (informed_by us (V (taskid tm)))) = Inr (informed_by us (V (taskid tm)))" "no_data (informed_by us (V (taskid tm)))"
    using light_record [OF w l inv t(1)] by metis
  obtain st where e: "executing_task_round (zht_ops_of c) (\<lambda>_ _. []) (\<lambda>_. []) 0 0 ?st (y_store y) = Some (Inr (st, y_store y))"
    using exec_round_light [OF nt us] by blast
  note r = exec_round_result [OF dep ok nt t(2) e]
  let ?ss = "(y_scheds y)[i := st]"
  have "all_ids ready_ids (y_scheds y) = add_mset (taskid tm) (all_ids ready_ids ?ss)" using r by (intro all_ids_update(3) [OF i(1)]) simp
  moreover have "all_ids done_ids ?ss = add_mset (taskid tm) (all_ids done_ids (y_scheds y))" using r by (intro all_ids_update(2) [OF i(1)]) simp
  moreover have "all_ids wait_ids ?ss = all_ids wait_ids (y_scheds y)" using r by (intro all_ids_update(1) [OF i(1)]) simp
  ultimately show ?thesis using sys_step.exec [OF i(1) nt e] by (intro exI conjI) (assumption, simp add: todo_def)
qed

lemma finish_possible:
  assumes w: "light_workload c ids T G V" and l: "light c ids T G V y" and inv: "sys_inv c T G y" and ne: "all_ids done_ids (y_scheds y) \<noteq> {#}"
  shows "\<exists>y'. sys_step c y y' \<and> todo T y' < todo T y"
proof -
  obtain i where i: "i < length (y_scheds y)" "done_ids (y_scheds y ! i) \<noteq> {#}" using all_ids_some [OF ne] by blast
  let ?st = "y_scheds y ! i"
  obtain it rest where q: "sc_completeQueue ?st = it # rest" using i(2) by (cases "sc_completeQueue ?st") (auto simp: done_ids_def)
  then have "cq_taskId it \<in># done_ids ?st" by (simp add: done_ids_def)
  then have "cq_taskId it \<in># all_ids done_ids (y_scheds y)" using sys_inv_sched(2) [OF inv i(1), of done_ids] by blast
  then have t: "cq_taskId it \<in> T" using sys_inv_known(1) [OF inv, of "cq_taskId it"] by simp
  obtain us where us: "zlookup (zht_ops_of c) (cq_taskId it) (y_store y) = Inr (0, value_to_str (informed_by us (V (cq_taskId it))), y_store y)"
      "str_to_value (value_to_str (informed_by us (V (cq_taskId it)))) = Inr (informed_by us (V (cq_taskId it)))"
    using light_record [OF w l inv t] by metis
  let ?ss = "(y_scheds y)[i := ?st\<lparr>sc_completeQueue := rest\<rparr>]"
  have "all_ids done_ids (y_scheds y) = add_mset (cq_taskId it) (all_ids done_ids ?ss)" by (intro all_ids_update(3) [OF i(1)]) (simp add: done_ids_def q)
  moreover have "all_ids wait_ids ?ss = all_ids wait_ids (y_scheds y)" "all_ids ready_ids ?ss = all_ids ready_ids (y_scheds y)"
    by (intro all_ids_update(1) [OF i(1)]; simp add: wait_ids_def ready_ids_def)+
  ultimately show ?thesis using sys_step.finish [OF i(1) q us] by (intro exI conjI) (assumption, simp add: todo_def)
qed

lemma notify_possible:
  assumes w: "light_workload c ids T G V" and l: "light c ids T G V y" and inv: "sys_inv c T G y" and mem: "(i, it, ch # chs) \<in> set (y_work y)"
  shows "\<exists>y'. sys_step c y y' \<and> todo T y' < todo T y"
proof -
  obtain ws1 ws2 where work: "y_work y = ws1 @ (i, it, ch # chs) # ws2" using split_list [OF mem] by blast
  let ?t = "cq_taskId it" and ?me = "sc_id (y_scheds y ! i)"
  have fin: "finite T" and dep: "deployed c (y_store y)" using inv by (simp_all add: sys_inv_def record_inv_def)
  have tT: "?t \<in> T" using sys_inv_known(1) [OF inv, of ?t] by (simp add: work work_ids_def)
  have lt: "y_left y ?t = ch # chs" using inv by (auto simp: sys_inv_def pending_inv_def work)
  have sub: "set (y_left y ?t) \<subseteq> T" using inv tT unfolding sys_inv_def record_inv_def by blast
  then have ch: "ch \<in> T" by (simp add: lt)
  then have key: "key_ok (zc_msg_maxsize c) ch" using inv unfolding sys_inv_def record_inv_def by blast
  have "list_all (work_light (y_scheds y)) (ws1 @ (i, it, ch # chs) # ws2)" using l by (simp add: light_def work)
  then have it: "it = done_item ?me ?t" "i < length (y_scheds y)" by (simp_all add: work_light_def)
  have me: "?me \<in> ids" using l it(2) by (simp add: light_def list_all_length items_light_def)
  obtain us where us: "set us \<subseteq> ids \<times> T" "length us + edges T (y_left y) ch = edges T G ch"
      "zht_value c (y_store y) ch = Some (value_to_str (informed_by us (V ch)))"
      "str_to_value (value_to_str (informed_by us (V ch))) = Inr (informed_by us (V ch))"
      "val_ok (zc_msg_maxsize c) (value_to_str (informed_by us (V ch)))"
    using light_record [OF w l inv ch] by metis
  let ?us = "us @ [(?me, ?t)]"
  have "room c ids T (edges T G ch) (V ch)" using w ch by (simp add: light_workload_def)
  moreover have "length ?us \<le> edges T G ch" using us(2) edges_notify(1) [where left = "y_left y", OF fin tT lt] by simp
  moreover have "set ?us \<subseteq> ids \<times> T" using us(1) me tT by simp
  ultimately have ok: "value_ok (informed_by ?us (V ch))" "val_ok (zc_msg_maxsize c) (value_to_str (informed_by ?us (V ch)))"
    using room_D by blast+
  have v: "parent_done ?me it (informed_by us (V ch)) = informed_by ?us (V ch)" using it(1) informed_by_snoc [of us ?me ?t "V ch"] by metis
  have att: "child_attempt ?me it (value_to_str (informed_by us (V ch))) = Inr (value_to_str (informed_by ?us (V ch)))"
    unfolding child_attempt_def us(4) bind_res_simps v ..
  obtain s where s: "zcswap (zht_ops_of c) ch (value_to_str (informed_by us (V ch))) (value_to_str (informed_by ?us (V ch))) (y_store y) =
      Inr (0, value_to_str (informed_by ?us (V ch)), s)" using zs.cswap_hit [OF dep key us(5) ok(2) us(3)] by blast
  have step: "sys_step c y (y\<lparr>y_store := s, y_work := ws1 @ (i, it, chs) # ws2, y_left := (y_left y)(?t := chs)\<rparr>)"
    by (rule sys_step.notify_one [OF work it(2) us(4) att ok(1) [folded v] ok(2) us(5) s])
  have "(\<Sum>u \<in> T. length (((y_left y)(?t := chs)) u)) < (\<Sum>u \<in> T. length (y_left y u))"
    by (rule sum_strict_mono_ex1 [OF fin]) (use tT lt in \<open>auto intro!: bexI [of _ ?t]\<close>)
  then show ?thesis using step by (intro exI conjI) (assumption, simp add: todo_def)
qed

lemma sys_reach_trans: "sys_reach c y' y'' \<Longrightarrow> sys_reach c y y' \<Longrightarrow> sys_reach c y y''"
  by (induction rule: sys_reach.induct) (auto intro: sys_reach.more_step)

lemma sys_reach_step: "sys_step c y y' \<Longrightarrow> sys_reach c y y'"
  by (rule sys_reach.more_step [OF sys_reach.init])

text \<open>A check of the first waiting task: a task without unfinished parents leaves the wait queue, any other one
  goes to its end and nothing else changes.\<close>

lemma check_head:
  assumes w: "light_workload c ids T G V" and l: "light c ids T G V y" and inv: "sys_inv c T G y" and i: "i < length (y_scheds y)"
    and q: "sc_waitQueue (y_scheds y ! i) = h # rest"
  shows "edges T (y_left y) (taskid h) = 0 \<Longrightarrow> \<exists>y'. sys_step c y y' \<and> todo T y' < todo T y"
    and "edges T (y_left y) (taskid h) \<noteq> 0 \<Longrightarrow> \<exists>y'. sys_step c y y' \<and> todo T y' = todo T y \<and> y_left y' = y_left y
      \<and> i < length (y_scheds y') \<and> sc_waitQueue (y_scheds y' ! i) = rest @ [h]"
proof -
  let ?st = "y_scheds y ! i"
  have "taskid h \<in># wait_ids ?st" by (simp add: wait_ids_def q)
  then have "taskid h \<in># all_ids wait_ids (y_scheds y)" using sys_inv_sched(2) [OF inv i, of wait_ids] by blast
  then have t: "taskid h \<in> T" using sys_inv_known(1) [OF inv, of "taskid h"] by simp
  obtain us where us: "zlookup (zht_ops_of c) (taskid h) (y_store y) = Inr (0, value_to_str (informed_by us (V (taskid h))), y_store y)"
      "str_to_value (value_to_str (informed_by us (V (taskid h)))) = Inr (informed_by us (V (taskid h)))" "no_data (informed_by us (V (taskid h)))"
      "opt0 (v_indegree (informed_by us (V (taskid h)))) = int (edges T (y_left y) (taskid h))"
    using light_record [OF w l inv t] by metis
  have th: "0 \<le> dataSizeThreshold (sc_conf ?st)" using l i by (simp add: light_def list_all_length items_light_def)
  note r = check_round_light [OF q us(1-3) th, of 0, unfolded us(4)]
  show "\<exists>y'. sys_step c y y' \<and> todo T y' < todo T y" if z: "edges T (y_left y) (taskid h) = 0"
  proof -
    obtain st where st: "checking_ready_round (zht_ops_of c) 0 ?st (y_store y) = Some (Inr (st, [], y_store y))"
        "wait_ids ?st = add_mset (taskid h) (wait_ids st)" "ready_ids st = add_mset (taskid h) (ready_ids ?st)" "done_ids st = done_ids ?st"
      using r z by (simp add: wait_ids_def ready_ids_def done_ids_def q pq_push_mset add_entries_def)
    let ?ss = "(y_scheds y)[i := st]"
    have "all_ids wait_ids (y_scheds y) = add_mset (taskid h) (all_ids wait_ids ?ss)" by (rule all_ids_update(3) [OF i st(2)])
    moreover have "all_ids ready_ids ?ss = add_mset (taskid h) (all_ids ready_ids (y_scheds y))" by (rule all_ids_update(2) [OF i st(3)])
    moreover have "all_ids done_ids ?ss = all_ids done_ids (y_scheds y)" by (rule all_ids_update(1) [OF i st(4)])
    ultimately show ?thesis using sys_step.check [OF i st(1)] by (intro exI conjI) (assumption, simp add: todo_def)
  qed
  show "\<exists>y'. sys_step c y y' \<and> todo T y' = todo T y \<and> y_left y' = y_left y
      \<and> i < length (y_scheds y') \<and> sc_waitQueue (y_scheds y' ! i) = rest @ [h]" if z: "edges T (y_left y) (taskid h) \<noteq> 0"
  proof -
    obtain st where st: "checking_ready_round (zht_ops_of c) 0 ?st (y_store y) = Some (Inr (st, [], y_store y))"
        "wait_ids st = wait_ids ?st" "ready_ids st = ready_ids ?st" "done_ids st = done_ids ?st" "sc_waitQueue st = rest @ [h]"
      using r z by (simp add: wait_ids_def ready_ids_def done_ids_def q)
    let ?ss = "(y_scheds y)[i := st]"
    have "all_ids f ?ss = all_ids f (y_scheds y)" if "f st = f ?st" for f by (rule all_ids_update(1) [OF i that])
    then show ?thesis using sys_step.check [OF i st(1)] i st(2-) by (intro exI conjI) (assumption, simp_all add: todo_def)
  qed
qed

text \<open>Checking the wait queue of a scheduler round by round reaches the task that can run, unless another one
  leaves the queue before.\<close>

lemma check_possible:
  assumes w: "light_workload c ids T G V" and "light c ids T G V y" and "sys_inv c T G y" and "i < length (y_scheds y)"
    and "sc_waitQueue (y_scheds y ! i) = xs @ tm # zs" and "edges T (y_left y) (taskid tm) = 0"
  shows "\<exists>y'. sys_reach c y y' \<and> todo T y' < todo T y"
  using assms(2-)
proof (induction xs arbitrary: zs y)
  case Nil
  then show ?case using check_head(1) [OF w Nil(1,2,3)] sys_reach_step by fastforce
next
  case (Cons h xs)
  note head = check_head [OF w Cons.prems(1-3)]
  show ?case
  proof (cases "edges T (y_left y) (taskid h) = 0")
    case True
    then show ?thesis using head(1) Cons.prems(4) sys_reach_step by fastforce
  next
    case False
    then obtain y1 where y1: "sys_step c y y1" "todo T y1 = todo T y" "y_left y1 = y_left y" "i < length (y_scheds y1)"
        "sc_waitQueue (y_scheds y1 ! i) = xs @ tm # (zs @ [h])" using head(2) Cons.prems(4) by fastforce
    have "edges T (y_left y1) (taskid tm) = 0" using y1(3) Cons.prems(5) by simp
    then obtain y' where "sys_reach c y1 y'" "todo T y' < todo T y1"
      using Cons.IH [OF light_step [OF y1(1) w Cons.prems(1,2)] sys_inv_step [OF y1(1) Cons.prems(2)] y1(4,5)] by blast
    then show ?thesis using y1(2) sys_reach_trans [OF _ sys_reach_step [OF y1(1)]] by metis
  qed
qed

lemma light_reach:
  assumes "sys_reach c y y'" and "light_workload c ids T G V" and "light c ids T G V y" and "sys_inv c T G y"
  shows "light c ids T G V y'"
  using assms by (induction rule: sys_reach.induct) (auto intro: light_step sys_inv_reach)

text \<open>As long as there is something to do, some rounds lower the measure.\<close>

definition settled :: "sys \<Rightarrow> bool" where
  "settled y \<longleftrightarrow> all_ids wait_ids (y_scheds y) = {#} \<and> all_ids ready_ids (y_scheds y) = {#} \<and> all_ids done_ids (y_scheds y) = {#}
     \<and> list_all (\<lambda>(i, it, cs). cs = []) (y_work y)"

lemma progress:
  assumes w: "light_workload c ids T G V" and l: "light c ids T G V y" and inv: "sys_inv c T G y" and ns: "\<not> settled y"
    and rank: "\<And>p t. p \<in> T \<Longrightarrow> t \<in> set (G p) \<Longrightarrow> (rank p :: nat) < rank t"
  shows "\<exists>y'. sys_reach c y y' \<and> todo T y' < todo T y"
proof -
  consider (ready) "all_ids ready_ids (y_scheds y) \<noteq> {#}" | (finished) "all_ids done_ids (y_scheds y) \<noteq> {#}"
    | (work) i it ch chs where "(i, it, ch # chs) \<in> set (y_work y)"
    | (waiting) "all_ids ready_ids (y_scheds y) = {#}" "all_ids done_ids (y_scheds y) = {#}"
        "\<And>i it cs. (i, it, cs) \<in> set (y_work y) \<Longrightarrow> cs = []" "all_ids wait_ids (y_scheds y) \<noteq> {#}"
    using ns unfolding settled_def list_all_iff by (metis (mono_tags, lifting) case_prodI2 list.exhaust)
  then show ?thesis
  proof cases
    case ready
    then show ?thesis using exec_possible [OF w l inv] sys_reach_step by blast
  next
    case finished
    then show ?thesis using finish_possible [OF w l inv] sys_reach_step by blast
  next
    case work
    then show ?thesis using notify_possible [OF w l inv] sys_reach_step by blast
  next
    case waiting
    have "\<exists>t v. t \<in># all_ids wait_ids (y_scheds y) \<and> zht_value c (y_store y) t = Some (value_to_str v) \<and> value_ok v \<and> opt0 (v_indegree v) = 0"
      by (rule some_task_free [where rank = rank, OF inv waiting(1,2) _ waiting(4)]) (rule waiting(3), assumption, rule rank)
    then obtain t v where t: "t \<in># all_ids wait_ids (y_scheds y)" "zht_value c (y_store y) t = Some (value_to_str v)" "value_ok v"
      "opt0 (v_indegree v) = 0" by (elim exE conjE)
    have tT: "t \<in> T" using sys_inv_known(1) [OF inv, of t] t(1) by simp
    obtain us where us: "zht_value c (y_store y) t = Some (value_to_str (informed_by us (V t)))"
        "str_to_value (value_to_str (informed_by us (V t))) = Inr (informed_by us (V t))"
        "opt0 (v_indegree (informed_by us (V t))) = int (edges T (y_left y) t)" using light_record [OF w l inv tT] by metis
    have "v = informed_by us (V t)" using us(1,2) t(2) value_roundtrip [OF t(3)] by (metis option.inject sum.inject(2))
    then have e: "edges T (y_left y) t = 0" using us(3) t(4) by simp
    obtain i where i: "i < length (y_scheds y)" "t \<in># wait_ids (y_scheds y ! i)"
      using t(1) all_ids_member by blast
    then obtain tm where tm: "tm \<in> set (sc_waitQueue (y_scheds y ! i))" "taskid tm = t" by (auto simp: wait_ids_def)
    obtain xs zs where "sc_waitQueue (y_scheds y ! i) = xs @ tm # zs" using split_list [OF tm(1)] by blast
    then show ?thesis using check_possible [OF w l inv i(1)] e tm(2) by blast
  qed
qed

lemma can_settle:
  assumes w: "light_workload c ids T G V" and "light c ids T G V y" and "sys_inv c T G y"
    and rank: "\<And>p t. p \<in> T \<Longrightarrow> t \<in> set (G p) \<Longrightarrow> (rank p :: nat) < rank t"
  shows "\<exists>y'. sys_reach c y y' \<and> settled y'"
  using assms(2,3)
proof (induction "todo T y" arbitrary: y rule: less_induct)
  case less
  show ?case
  proof (cases "settled y")
    case True
    then show ?thesis using sys_reach.init by blast
  next
    case False
    obtain y1 where y1: "sys_reach c y y1" "todo T y1 < todo T y" using progress [where rank = rank, OF w less.prems False rank] by auto
    obtain y' where "sys_reach c y1 y'" "settled y'"
      using less.hyps [OF y1(2) light_reach [OF y1(1) w less.prems] sys_inv_reach [OF y1(1) less.prems(2)]] by blast
    then show ?thesis using sys_reach_trans [OF _ y1(1)] by blast
  qed
qed

lemma submitted_light:
  assumes "submitted c T G y" and "light_workload c (sc_id ` set (y_scheds y)) T G V"
    and "\<And>t. t \<in> T \<Longrightarrow> zht_value c (y_store y) t = Some (value_to_str (V t))"
    and "\<And>st. st \<in> set (y_scheds y) \<Longrightarrow> 0 \<le> dataSizeThreshold (sc_conf st)"
  shows "light c (sc_id ` set (y_scheds y)) T G V y"
proof -
  have "records_light c (sc_id ` set (y_scheds y)) T G V (y_store y) (y_left y)"
    using assms(1,3) unfolding records_light_def submitted_def by (auto intro!: exI [of _ "[]"] simp: informed_by_def)
  then show ?thesis using assms(1,4) by (auto simp: light_def list_all_iff items_light_def submitted_def)
qed

section \<open>The workload can always be finished\<close>

text \<open>The workload can always be finished: take a workload without cycles (\<open>rank\<close> grows along its
  edges) whose tasks declare no output data, whose records \<open>V\<close> have room for the notifications of all their
  parents, submitted to schedulers with a non-negative data threshold. From every state the threads of the
  schedulers can reach, in whatever order they acted, further rounds lead to a state in which each task ran
  exactly once, no queue holds a task and no child is left to notify.\<close>

lemma workload_can_always_finish:
  assumes "submitted c T G y" and "sys_reach c y y'"
    and rank: "\<And>p t. p \<in> T \<Longrightarrow> t \<in> set (G p) \<Longrightarrow> (rank p :: nat) < rank t"
    and "light_workload c (sc_id ` set (y_scheds y)) T G V"
    and "\<And>t. t \<in> T \<Longrightarrow> zht_value c (y_store y) t = Some (value_to_str (V t))"
    and "\<And>st. st \<in> set (y_scheds y) \<Longrightarrow> 0 \<le> dataSizeThreshold (sc_conf st)"
  shows "\<exists>y''. sys_reach c y' y'' \<and> mset (y_ran y'') = mset_set T \<and> settled y''"
proof -
  note inv = submitted_inv [OF assms(1)]
  have l: "light c (sc_id ` set (y_scheds y)) T G V y" by (rule submitted_light [OF assms(1,4-6)])
  obtain y'' where y'': "sys_reach c y' y''" "settled y''"
    using can_settle [where rank = rank, OF assms(4) light_reach [OF assms(2,4) l inv] sys_inv_reach [OF assms(2) inv] rank] by auto
  have "sys_inv c T G y''" using sys_inv_reach [OF y''(1) sys_inv_reach [OF assms(2) inv]] .
  then have "finite T" "place_inv T (all_ids wait_ids (y_scheds y'')) (all_ids ready_ids (y_scheds y'')) (y_ran y'')"
    by (simp_all add: sys_inv_def record_inv_def)
  then have "mset (y_ran y'') = mset_set T"
    using y''(2) by (intro multiset_eqI) (simp add: place_inv_def settled_def count_mset_set')
  with y'' show ?thesis by blast
qed

section \<open>Example: a chain of two tasks\<close>

text \<open>Task 8 waits for task 7 and is checked first.\<close>

definition chain_edges :: "string \<Rightarrow> string list" where
  "chain_edges p = (if p = ''7'' then [''8''] else [])"

definition chain_record :: "string \<Rightarrow> val_msg" where
  "chain_record t = (if t = ''7'' then demo_value ''7'' 0 [''8''] else demo_value ''8'' 1 [])"

definition chain_sys :: "cluster \<Rightarrow> sys" where
  "chain_sys s = \<lparr>y_store = s, y_scheds = [(demo_sched [] [])\<lparr>sc_waitQueue := [demo_task ''8'', demo_task ''7'']\<rparr>],
     y_work = [], y_ran = [], y_left = chain_edges\<rparr>"

lemma chain_edge_count: "edges {''7'', ''8''} chain_edges ''7'' = 0" "edges {''7'', ''8''} chain_edges ''8'' = 1"
  by (simp_all add: edges_def chain_edges_def)

lemma chain_informed:
  assumes "t \<in> {''7'', ''8''}"
  shows "value_ok (informed_by [(''n0'', t)] (chain_record ''8''))"
    and "val_ok (zc_msg_maxsize demo_conf) (value_to_str (informed_by [(''n0'', t)] (chain_record ''8'')))"
proof -
  let ?rest = "''??~~0??~~0~~notasklength~~nonumtaskfin~~nonumworksteal~~nonumworkstealfail~~nonumtaskwait~~nonumtaskready~~nonumcoreavail~~nonumallcore~~nooutputsize~~nosubmittime~~''"
  have "value_to_str (informed_by [(''n0'', ''7'')] (chain_record ''8'')) = ''8~~0~~n0??~~nochildren~~n07'' @ ?rest"
    "value_to_str (informed_by [(''n0'', ''8'')] (chain_record ''8'')) = ''8~~0~~n0??~~nochildren~~n08'' @ ?rest"
    by code_simp+
  with assms show "val_ok (zc_msg_maxsize demo_conf) (value_to_str (informed_by [(''n0'', t)] (chain_record ''8'')))"
    by (auto simp: demo_conf_def val_ok_def field_ok_def)
  show "value_ok (informed_by [(''n0'', t)] (chain_record ''8''))"
    using assms by (auto simp: informed_by_def parent_done_def done_item_def chain_record_def demo_value_def default_value_def
        value_ok_def field_ok_def opt_ok_def int_range_defs)
qed

lemma chain_light: "light_workload demo_conf {''n0''} {''7'', ''8''} chain_edges chain_record"
proof -
  have nd: "no_data (chain_record t)" for t by (simp add: no_data_def chain_record_def demo_value_def default_value_def)
  have "room demo_conf {''n0''} {''7'', ''8''} 0 (chain_record ''7'')"
    using demo_family(2,4) by (simp add: room_def informed_by_def chain_record_def)
  moreover have "room demo_conf {''n0''} {''7'', ''8''} 1 (chain_record ''8'')" unfolding room_def
  proof (intro allI impI)
    fix us assume us: "length us \<le> 1" "set us \<subseteq> {''n0''} \<times> {''7'', ''8''}"
    then consider "us = []" | t where "us = [(''n0'', t)]" "t \<in> {''7'', ''8''}" by (cases us) auto
    then show "value_ok (informed_by us (chain_record ''8'')) \<and> val_ok (zc_msg_maxsize demo_conf) (value_to_str (informed_by us (chain_record ''8'')))"
    proof cases
      case 1
      then show ?thesis using demo_family(3,5) by (simp add: informed_by_def chain_record_def)
    next
      case 2
      then show ?thesis using chain_informed by blast
    qed
  qed
  ultimately show ?thesis using nd chain_edge_count by (simp add: light_workload_def)
qed

lemma chain_submitted:
  assumes "deployed demo_conf s" and "zht_value demo_conf s ''7'' = Some (value_to_str (chain_record ''7''))"
    and "zht_value demo_conf s ''8'' = Some (value_to_str (chain_record ''8''))"
  shows "submitted demo_conf {''7'', ''8''} chain_edges (chain_sys s)"
proof -
  have "all_ids wait_ids (y_scheds (chain_sys s)) = mset_set {''7'', ''8''}"
    by (simp add: chain_sys_def all_ids_def wait_ids_def demo_task_def)
  moreover have "sched_ok ((demo_sched [] [])\<lparr>sc_waitQueue := [demo_task ''8'', demo_task ''7'']\<rparr>)"
    using demo_tasks_ok by (simp add: sched_ok_def demo_sched_def demo_mconf_facts)
  moreover have "key_ok (zc_msg_maxsize demo_conf) t \<and> set (chain_edges t) \<subseteq> {''7'', ''8''} \<and>
      (\<exists>v. zht_value demo_conf s t = Some (value_to_str v) \<and> value_ok v \<and> v_children v = chain_edges t
        \<and> opt0 (v_indegree v) = int (\<Sum>p \<in> {''7'', ''8''}. count_list (chain_edges p) t))" if "t \<in> {''7'', ''8''}" for t
    using that assms demo_record(4) demo_family(1-3)
    by (intro conjI exI [of _ "chain_record t"]) (auto simp: chain_record_def demo_value_def chain_edges_def)
  ultimately show ?thesis
    using assms(1) unfolding submitted_def by (auto simp: chain_sys_def demo_sched_def)
qed

lemma chain_can_finish:
  "\<exists>s y. deployed demo_conf s \<and> sys_reach demo_conf (chain_sys s) y \<and> mset (y_ran y) = {#''7'', ''8''#} \<and> settled y"
proof -
  obtain s0 where s0: "deployed demo_conf s0" "zht_value demo_conf s0 = [''7'' \<mapsto> value_to_str (chain_record ''7'')]"
    using zs.insert [OF demo_deployed demo_record(4) demo_family(4)] demo_empty by (auto simp: chain_record_def)
  obtain s where s: "deployed demo_conf s" "zht_value demo_conf s ''7'' = Some (value_to_str (chain_record ''7''))"
      "zht_value demo_conf s ''8'' = Some (value_to_str (chain_record ''8''))"
    using zs.insert [OF s0(1) demo_family(1,5)] s0(2) by (auto simp: chain_record_def)
  have "\<exists>y. sys_reach demo_conf (chain_sys s) y \<and> mset (y_ran y) = mset_set {''7'', ''8''} \<and> settled y"
  proof (rule workload_can_always_finish [where rank = "\<lambda>t. if t = ''7'' then 0 else 1" and V = chain_record, OF chain_submitted [OF s] sys_reach.init])
    show "(if p = ''7'' then 0 else 1 :: nat) < (if t = ''7'' then 0 else 1)" if "p \<in> {''7'', ''8''}" "t \<in> set (chain_edges p)" for p t
      using that by (auto simp: chain_edges_def split: if_splits)
    show "light_workload demo_conf (sc_id ` set (y_scheds (chain_sys s))) {''7'', ''8''} chain_edges chain_record"
      using chain_light by (simp add: chain_sys_def demo_sched_def)
    show "zht_value demo_conf (y_store (chain_sys s)) t = Some (value_to_str (chain_record t))" if "t \<in> {''7'', ''8''}" for t
      using that s(2,3) by (auto simp: chain_sys_def)
    show "0 \<le> dataSizeThreshold (sc_conf st)" if "st \<in> set (y_scheds (chain_sys s))" for st
      using that by (simp add: chain_sys_def demo_sched_def demo_mconf_facts)
  qed
  then show ?thesis using s(1) by (simp add: mset_set.insert_remove) metis
qed

end
