(* ===== verification/Udp_Transport.thy ===== *)
theory Udp_Transport
  imports Blob_Transport
begin

text \<open>
  The UDP transport of ZHT (\<^verbatim>\<open>ZHT/src/udp_proxy_stub.cpp\<close>) and the datagram branch of the server
  (\<^verbatim>\<open>ZHT/src/EpollServer.cpp\<close>). The network is a parameter: \<open>wire i bs\<close> are the datagrams that arrive of those sent in
  transfer number \<open>i\<close>, and \<open>route a\<close> is the server that listens at the address \<open>a\<close>. When nothing is lost the
  transport fulfils the same contract as the one over TCP, in whatever order datagrams arrive; when an answer or a
  request is lost, the client waits for ever.
\<close>

section \<open>The caches\<close>

text \<open>\<open>SOCK_CACHE\<close> and the mutexes are kept as those of the TCP proxy (\<open>p_conn\<close>, \<open>p_mutex\<close>). An address is the
  resolved host, \<open>None\<close> being the zero address that an unknown name gets, and the port.\<close>

type_synonym sockaddr = "string option \<times> int"

record udp_proxy = tcp_proxy +
  p_addr :: "(string, sockaddr) cmap"

definition udp_makeClientSocket :: "int \<Rightarrow> int" where
  "udp_makeClientSocket to_sock = (if to_sock < 0 then -1 else to_sock)"

definition udp_makeClientAddr :: "(string \<Rightarrow> string option) \<Rightarrow> string \<Rightarrow> int \<Rightarrow> sockaddr" where
  "udp_makeClientAddr resolve host port = (case resolve host of None \<Rightarrow> (None, port) | Some a \<Rightarrow> (Some a, port))"

definition udp_getSockCached :: "(string \<Rightarrow> int \<Rightarrow> int) \<Rightarrow> string \<Rightarrow> int \<Rightarrow> udp_proxy \<Rightarrow> int \<times> udp_proxy" where
  "udp_getSockCached socket host port px =
     (case cmap_find (p_conn px) (genBase host port) of
        Some sock \<Rightarrow> (sock, px)
      | None \<Rightarrow>
          let sock = udp_makeClientSocket (socket host port) in
          if sock \<le> 0 then (-1, px)
          else (sock, putSockMutex host port (px\<lparr>p_conn := cmap_set (genBase host port) sock (p_conn px)\<rparr>)))"

definition udp_getAddrCached :: "(string \<Rightarrow> string option) \<Rightarrow> string \<Rightarrow> int \<Rightarrow> udp_proxy \<Rightarrow> sockaddr \<times> udp_proxy" where
  "udp_getAddrCached resolve host port px =
     (case cmap_find (p_addr px) (genBase host port) of
        None \<Rightarrow> (let result = udp_makeClientAddr resolve host port in
                 (result, px\<lparr>p_addr := cmap_set (genBase host port) result (p_addr px)\<rparr>))
      | Some a \<Rightarrow> (a, px))"

definition udp_teardown :: "(int \<Rightarrow> int) \<Rightarrow> (string \<Rightarrow> int) \<Rightarrow> udp_proxy \<Rightarrow> bool \<times> udp_proxy" where
  "udp_teardown close destroy px =
     (case ip_teardown destroy (px\<lparr>p_conn := [], p_addr := []\<rparr>) of
        (result, px') \<Rightarrow> (list_all (\<lambda>e. close (snd e) = 0) (p_conn px) \<and> result, px'))"

section \<open>The server\<close>

text \<open>The loop on the datagrams of a server: after an error (\<open>None\<close>, usually that nothing is there) it asks again at
  once; only an empty datagram ends it. At the end of the list it is still asking.\<close>

fun serve_datagrams :: "(string \<Rightarrow> 's \<Rightarrow> 's res) \<Rightarrow> string \<Rightarrow> string option list \<Rightarrow> bd_map \<Rightarrow> 's \<Rightarrow> (bool \<times> bd_map \<times> 's) res" where
  "serve_datagrams process mem [] m s = Inr (False, m, s)"
| "serve_datagrams process mem (None # cs) m s = serve_datagrams process mem cs m s"
| "serve_datagrams process mem (Some buf # cs) m s =
     (if buf = [] then Inr (True, m, s)
      else bind_res (getBdStr mem buf m) (\<lambda>(bd, m').
           bind_res (case bd of None \<Rightarrow> Inr s | Some msg \<Rightarrow> process (c_str msg) s) (\<lambda>s'.
             serve_datagrams process mem cs m' s')))"

definition udp_recvsend ::
    "zht_conf \<Rightarrow> (nat \<Rightarrow> nat) \<Rightarrow> string \<Rightarrow> ht_state \<times> nat \<times> string list \<Rightarrow> (ht_state \<times> nat \<times> string list) res" where
  "udp_recvsend c rnd recvbuf s =
     (case s of (st, i, out) \<Rightarrow>
        bind_res (ht_run (zc_serialize c) (zc_instant_swap c) 0 (c_str recvbuf) st) (\<lambda>(sent, st').
          case sent of
            None \<Rightarrow> Inr (st', i, out)
          | Some buf \<Rightarrow> Inr (st', i + 62, out @ fst (sendBack rnd i buf))))"

section \<open>A request and its answer\<close>

record udp_state =
  u_proxy :: udp_proxy
  u_rand :: nat
  u_turn :: nat
  u_bdmaps :: "bd_map list"
  u_cluster :: cluster

text \<open>Where the system calls go: sockets, names, servers and the network.\<close>

record udp_net =
  un_socket :: "string \<Rightarrow> int \<Rightarrow> int"
  un_resolve :: "string \<Rightarrow> string option"
  un_route :: "sockaddr \<Rightarrow> nat option"
  un_wire :: "nat \<Rightarrow> string list \<Rightarrow> string list"

definition udp_sendrecv :: "zht_conf \<Rightarrow> udp_net \<Rightarrow> (nat \<Rightarrow> nat) \<Rightarrow> string \<Rightarrow> udp_state transport" where
  "udp_sendrecv c net rnd mem msg t =
     bind_res (getHostEntityByKey (zc_neighbors c) msg) (\<lambda>he.
       case udp_getSockCached (un_socket net) (he_host he) (he_port he) (u_proxy t) of (sock, px) \<Rightarrow>
       case udp_getAddrCached (un_resolve net) (he_host he) (he_port he) px of (dest, px') \<Rightarrow>
         let blobs = fst (sendTo rnd (u_rand t) msg);
             t' = t\<lparr>u_proxy := px', u_rand := u_rand t + 62, u_turn := u_turn t + 2\<rparr> in
         if sock < 0
         then bind_res (recvFrom (zc_msg_maxsize c) mem [None]) (\<lambda>(_, buf). Inr (buf, t'))
         else (case un_route net dest of
                 None \<Rightarrow> bind_res (recvFrom (zc_msg_maxsize c) mem []) (\<lambda>(_, buf). Inr (buf, t'))
               | Some i \<Rightarrow>
                   bind_res (serve_datagrams (udp_recvsend c rnd) mem (map Some (un_wire net (u_turn t) blobs))
                               (u_bdmaps t ! i) (u_cluster t ! i, u_rand t', [])) (\<lambda>(_, bdm, st, r, out).
                   bind_res (recvFrom (zc_msg_maxsize c) mem (map Some (un_wire net (Suc (u_turn t)) out))) (\<lambda>(_, buf).
                     Inr (buf, t'\<lparr>u_rand := r, u_bdmaps := (u_bdmaps t)[i := bdm], u_cluster := (u_cluster t)[i := st]\<rparr>)))))"

definition udp_ops_of :: "zht_conf \<Rightarrow> udp_net \<Rightarrow> (nat \<Rightarrow> nat) \<Rightarrow> string \<Rightarrow> udp_state zht_ops" where
  "udp_ops_of c net rnd mem = ops_over (udp_sendrecv c net rnd mem)"

section \<open>The caches are right\<close>

lemma genBase_inj: "genBase h p = genBase h' p' \<longleftrightarrow> h = h' \<and> p = p'"
proof
  assume e: "genBase h p = genBase h' p'"
  have c: "CHR '':'' \<notin> set (num_to_str q)" for q using num_to_str_chars [of "CHR '':''" q] by (auto simp: is_digit_def)
  have t: "takeWhile (\<lambda>x. x \<noteq> CHR '':'') (rev (genBase g q)) = rev (num_to_str q)" for g q
    using c [of q] unfolding genBase_def by (simp, subst takeWhile_append2) auto
  have "rev (num_to_str p) = rev (num_to_str p')" using t [of h p] t [of h' p'] e by simp
  then have "p = p'" using num_to_str_inj by simp
  then show "h = h' \<and> p = p'" using e by (simp add: genBase_def)
qed simp

definition addrs_ok :: "(string \<Rightarrow> string option) \<Rightarrow> udp_proxy \<Rightarrow> bool" where
  "addrs_ok resolve px \<longleftrightarrow> cmap_ok (p_addr px)
     \<and> (\<forall>h p a. cmap_find (p_addr px) (genBase h p) = Some a \<longrightarrow> a = udp_makeClientAddr resolve h p)"

lemma udp_getSockCached_ok:
  assumes "proxy_ok px" and "addrs_ok resolve px" and "udp_getSockCached socket host port px = (sock, px')"
  shows "proxy_ok px'" and "addrs_ok resolve px'" and "0 < socket host port \<Longrightarrow> 0 < sock"
  using assms
  by (auto simp: proxy_ok_def addrs_ok_def udp_getSockCached_def udp_makeClientSocket_def putSockMutex_def Let_def cm.find_upd cm.invar_upd
      split: option.splits if_splits)

lemma udp_getAddrCached_ok:
  assumes "proxy_ok px" and "addrs_ok resolve px" and "udp_getAddrCached resolve host port px = (a, px')"
  shows "proxy_ok px'" and "addrs_ok resolve px'" and "a = udp_makeClientAddr resolve host port"
  using assms
  by (auto simp: proxy_ok_def addrs_ok_def udp_getAddrCached_def Let_def cm.find_upd cm.invar_upd genBase_inj simp del: split_paired_All
      split: option.splits if_splits)

lemma udp_teardown_empty:
  "proxy_ok (snd (udp_teardown close destroy px))" "addrs_ok resolve (snd (udp_teardown close destroy px))"
  by (simp_all add: udp_teardown_def ip_teardown_def proxy_ok_def addrs_ok_def cm.invar_empty cm.find_empty)

section \<open>Datagrams in any order\<close>

lemma serve_datagrams_feed:
  "feed mem bufs m = Inr (replicate k None @ [Some s], m') \<Longrightarrow> list_all (\<lambda>b. b \<noteq> []) bufs \<Longrightarrow>
    serve_datagrams process mem (map Some bufs @ rest) m st =
      bind_res (process (c_str s) st) (\<lambda>st'. serve_datagrams process mem rest m' st')"
proof (induction bufs arbitrary: m k)
  case (Cons b bufs)
  then show ?case by (cases k) (auto simp: bind_res_eq_Inr dest!: feed_Nil)
qed simp

lemma blobs_any_order:
  assumes "sendable uuid msg" and "mset bs = mset (fst (bsend uuid msg))"
  shows "loopedrecv mem (map Some bs) [] = Inr (int (length msg), msg)"
    and "serve_datagrams process mem (map Some bs) [] s = bind_res (process msg s) (\<lambda>s'. Inr (False, [], s'))"
proof -
  let ?bs = "fst (bsend uuid msg)"
  have "list_all2 (\<lambda>b j. b = ?bs ! j) ?bs [0..<length ?bs]" by (simp add: list_all2_conv_all_nth)
  from list_all2_reorder_left_invariance [OF this assms(2)] obtain js where
    js: "list_all2 (\<lambda>b j. b = ?bs ! j) bs js" "mset js = mset [0..<length ?bs]" by blast
  have bs: "bs = map (\<lambda>j. ?bs ! j) js" using js(1) by (auto simp: list_all2_conv_all_nth intro: nth_equalityI)
  have f: "feed mem bs [] = Inr (replicate (length js - 1) None @ [Some msg], [])"
    unfolding bs using assms(1) by (rule feed_message) (simp_all add: cm.invar_empty cm.find_empty js(2))
  have ne: "list_all (\<lambda>b. b \<noteq> []) bs"
    using sent_nonempty [of _ uuid msg] mset_eq_setD [OF assms(2)] by (auto simp: list_all_iff in_set_conv_nth)
  have "c_str msg = msg" using assms(1) by (intro c_str_id) (simp add: sendable_def)
  then show "loopedrecv mem (map Some bs) [] = Inr (int (length msg), msg)"
    "serve_datagrams process mem (map Some bs) [] s = bind_res (process msg s) (\<lambda>s'. Inr (False, [], s'))"
    using loopedrecv_feed [OF f ne, of "[]"] serve_datagrams_feed [OF f ne, of process "[]" s] by simp_all
qed

section \<open>The contract\<close>

text \<open>The state between two requests, and a network on which every server can be reached and nothing is lost.\<close>

definition udp_ok :: "zht_conf \<Rightarrow> udp_net \<Rightarrow> udp_state \<Rightarrow> bool" where
  "udp_ok c net t \<longleftrightarrow> proxy_ok (u_proxy t) \<and> addrs_ok (un_resolve net) (u_proxy t) \<and> u_bdmaps t = replicate (length (zc_neighbors c)) []"

definition loss_free :: "zht_conf \<Rightarrow> udp_net \<Rightarrow> bool" where
  "loss_free c net \<longleftrightarrow> (\<forall>i bs. mset (un_wire net i bs) = mset bs)
     \<and> (\<forall>i < length (zc_neighbors c). case zc_neighbors c ! i of (h, p) \<Rightarrow>
          0 < un_socket net h (toInt p) \<and> un_route net (udp_makeClientAddr (un_resolve net) h (toInt p)) = Some i)"

definition udp_up :: "zht_conf \<Rightarrow> udp_net \<Rightarrow> udp_state \<Rightarrow> bool" where
  "udp_up c net t \<longleftrightarrow> udp_ok c net t \<and> loss_free c net \<and> zc_msg_maxsize c \<le> 10 ^ 9"

lemma udp_sendrecv_transparent:
  assumes up: "udp_up c net t" and msg: "c_str msg \<noteq> []" "length msg < 2 * 10 ^ 9"
    and z: "zht_sendrecv c msg (u_cluster t) = Inr (buf, ss)"
  shows "\<exists>t'. udp_sendrecv c net rnd mem msg t = Inr (c_str buf, t') \<and> u_cluster t' = ss \<and> udp_up c net t'"
proof -
  let ?i = "server_index (length (zc_neighbors c)) (bytes_of (z_key (str_to_zpack msg)))"
  obtain he st where he: "getHostEntityByKey (zc_neighbors c) msg = Inr he"
    and run: "ht_run (zc_serialize c) (zc_instant_swap c) 0 (c_str msg) (u_cluster t ! ?i) = Inr (Some buf, st)"
    and len: "length buf < zc_msg_maxsize c" and ss: "ss = (u_cluster t)[?i := st]"
    using z by (auto simp: zht_sendrecv_def bind_res_eq_Inr Let_def split: option.splits if_splits)
  have mx: "zc_msg_maxsize c \<le> 10 ^ 9" and ok: "proxy_ok (u_proxy t)" "addrs_ok (un_resolve net) (u_proxy t)"
    and wire: "mset (un_wire net i bs) = mset bs" for i bs using up by (auto simp: udp_up_def udp_ok_def loss_free_def)
  have n: "zc_neighbors c \<noteq> []" using he by (auto simp: getHostEntityByKey_def)
  then have i: "?i < length (zc_neighbors c)" by (simp add: server_index_def)
  then have m: "u_bdmaps t ! ?i = []" using up by (simp add: udp_up_def udp_ok_def)
  obtain h p where hp: "zc_neighbors c ! ?i = (h, p)" "he_host he = h" "he_port he = toInt p"
    using he i by (cases "zc_neighbors c ! ?i") (auto simp: getHostEntityByKey_def bind_res_eq_Inr Let_def vec_at_def buildHostEntity_def split: if_splits)
  then have net: "0 < un_socket net (he_host he) (he_port he)" "un_route net (udp_makeClientAddr (un_resolve net) (he_host he) (he_port he)) = Some ?i"
    using up i by (auto simp: udp_up_def loss_free_def)
  obtain sock px where sk: "udp_getSockCached (un_socket net) (he_host he) (he_port he) (u_proxy t) = (sock, px)" by fastforce
  note s = udp_getSockCached_ok [OF ok sk]
  obtain a px' where ad: "udp_getAddrCached (un_resolve net) (he_host he) (he_port he) px = (a, px')" by fastforce
  note a = udp_getAddrCached_ok [OF s(1,2) ad]
  have cb: "c_str buf \<noteq> []" using ht_run_coded [OF run] by (rule coded_c_str)
  have lb: "length (c_str buf) < zc_msg_maxsize c"
    using len length_takeWhile_le [of "\<lambda>ch. ch \<noteq> CHR 0x00" buf] by (simp add: c_str_def)
  let ?r = "u_rand t + 62"
  have ser: "serve_datagrams (udp_recvsend c rnd) mem (map Some (un_wire net (u_turn t) (fst (sendTo rnd (u_rand t) msg)))) (u_bdmaps t ! ?i)
      (u_cluster t ! ?i, ?r, []) = Inr (False, [], st, ?r + 62, fst (sendBack rnd ?r buf))"
    unfolding sendTo_def m blobs_any_order(2) [OF sendable_c_str [OF msg] wire] by (simp add: udp_recvsend_def run)
  have rcv: "recvFrom (zc_msg_maxsize c) mem (map Some (un_wire net (Suc (u_turn t)) (fst (sendBack rnd ?r buf)))) = Inr (int (length (c_str buf)), c_str buf)"
  proof -
    have "sendable (unat (genId rnd ?r)) (c_str buf)" using cb len mx by (intro sendable_c_str) simp_all
    from blobs_any_order(1) [OF this wire] show ?thesis using lb by (simp add: recvFrom_def sendBack_def)
  qed
  let ?t = "t\<lparr>u_proxy := px', u_rand := ?r + 62, u_turn := u_turn t + 2, u_bdmaps := (u_bdmaps t)[?i := []], u_cluster := ss\<rparr>"
  have "udp_sendrecv c net rnd mem msg t = Inr (c_str buf, ?t)"
    using s(3) [OF net(1)] net(2) a(3) by (simp add: udp_sendrecv_def he sk ad Let_def ser rcv ss)
  moreover have "(u_bdmaps t)[?i := []] = u_bdmaps t" using m by (metis list_update_id)
  ultimately show ?thesis using up a(1,2) by (auto simp: udp_up_def udp_ok_def)
qed

interpretation udp: transparent_transport c "udp_sendrecv c net rnd mem" u_cluster "udp_up c net" for c net rnd mem
proof unfold_locales
  show "zc_msg_maxsize c \<le> 10 ^ 9" if "udp_up c net t" for t using that by (simp add: udp_up_def)
  show "\<exists>t'. udp_sendrecv c net rnd mem msg t = Inr (c_str buf, t') \<and> u_cluster t' = ss \<and> udp_up c net t'"
    if "udp_up c net t" "c_str msg \<noteq> []" "length msg < 2 * 10 ^ 9" "zht_sendrecv c msg (u_cluster t) = Inr (buf, ss)" for t msg buf ss
    using udp_sendrecv_transparent [OF that] .
qed

section \<open>Properties\<close>

text \<open>Property C12. The UDP transport is transparent on a network without losses: with every server of the membership
  list resolved and reachable, and datagrams that arrive in any order, every sequence of \<open>lookup\<close>, \<open>insert\<close>,
  \<open>remove\<close> and \<open>compare_swap\<close> calls of a client over UDP gives the codes and values of the operations on a map, no blob stays
  at a server, and the cached sockets keep a mutex and the cached addresses are those of their hosts.\<close>

theorem udp_stack_refines_map:
  assumes "deployed c (u_cluster t)" and "udp_ok c net t" and "loss_free c net" and "zc_msg_maxsize c \<le> 10 ^ 9"
    and "list_all (zop_ok (zc_msg_maxsize c)) ops"
  shows "\<exists>t'. zht_run_ops (udp_ops_of c net rnd mem) ops t = Inr (fst (spec_run ops (zht_value c (u_cluster t))), t')
    \<and> deployed c (u_cluster t') \<and> udp_ok c net t' \<and> zht_value c (u_cluster t') = snd (spec_run ops (zht_value c (u_cluster t)))"
  using udp.refines_map [of c t net ops rnd mem] assms by (auto simp: udp_up_def udp_ops_of_def)

text \<open>A lost answer is waited for without end: when none of the datagrams sent back arrives, no call returns.\<close>

lemma lost_answer_blocks:
  assumes "getHostEntityByKey (zc_neighbors c) msg = Inr he" and "udp_ok c net t" and "0 < un_socket net (he_host he) (he_port he)"
    and "un_wire net (Suc (u_turn t)) = (\<lambda>_. [])" and "udp_sendrecv c net rnd mem msg t = r"
  shows "\<exists>e. r = Inl e"
proof -
  obtain sock px where sk: "udp_getSockCached (un_socket net) (he_host he) (he_port he) (u_proxy t) = (sock, px)" by fastforce
  have "0 < sock" using udp_getSockCached_ok(3) [OF _ _ sk assms(3)] assms(2) by (auto simp: udp_ok_def)
  moreover obtain a px' where ad: "udp_getAddrCached (un_resolve net) (he_host he) (he_port he) px = (a, px')" by fastforce
  ultimately show ?thesis
    using assms(4) assms(5) [symmetric] by (auto simp: udp_sendrecv_def assms(1) sk ad Let_def recvFrom_def bind_res_def split: option.splits sum.splits)
qed

definition demo_net :: udp_net where
  "demo_net = \<lparr>un_socket = (\<lambda>_ _. 5), un_resolve = Some, un_route = (\<lambda>a. if fst a = Some ''n0'' then Some 0 else Some 1), un_wire = (\<lambda>_ bs. rev bs)\<rparr>"

definition demo_udp :: udp_state where
  "demo_udp = \<lparr>u_proxy = \<lparr>p_conn = [], p_mutex = [], p_addr = []\<rparr>, u_rand = 0, u_turn = 0, u_bdmaps = [[], []], u_cluster = demo_cluster\<rparr>"

lemma demo_udp_ok: "udp_ok demo_conf demo_net demo_udp" "loss_free demo_conf demo_net"
  by (auto simp: udp_ok_def demo_udp_def demo_conf_def loss_free_def demo_net_def proxy_ok_def addrs_ok_def cm.invar_empty cm.find_empty
      udp_makeClientAddr_def less_Suc_eq)

theorem udp_stack_refines_map_witness:
  "\<exists>t'. zht_run_ops (udp_ops_of demo_conf demo_net (\<lambda>i. i) []) [ZLookup ''k'', ZInsert ''k'' ''1'', ZCswap ''k'' ''1'' ''2'', ZLookup ''k''] demo_udp =
     Inr ([(-92, []), (0, []), (0, ''2''), (0, ''2'')], t')"
  using udp_stack_refines_map [OF _ demo_udp_ok, of "[ZLookup ''k'', ZInsert ''k'' ''1'', ZCswap ''k'' ''1'' ''2'', ZLookup ''k'']" "\<lambda>i. i" "[]"]
    demo_ok demo_deployed demo_tcp_ok(3)
  by (auto simp: demo_empty text_of_def demo_udp_def)

end
