(* ===== verification/Epoll_Server.thy ===== *)
theory Epoll_Server
  imports Udp_Transport Ts_Queue
begin

text \<open>
  The event server of ZHT (\<^verbatim>\<open>ZHT/src/EpollServer.cpp\<close>): its start, and the handling of the events that \<open>epoll_wait\<close>
  reports, that is new connections, data on a connection, datagrams and errors. All connections share one map of
  collected blobs. The last sections show that messages of several clients, whose blobs arrive interleaved, do not
  disturb each other, and that the build with a serving thread does what the one without it does. The results of
  system calls are parameters.
\<close>

section \<open>Start\<close>

text \<open>The constructor accepts two protocols and ends the process otherwise.\<close>

definition epoll_protocol :: "string \<Rightarrow> bool res" where
  "epoll_protocol protocol =
     (if protocol = ''TCP'' then Inr True else if protocol = ''UDP'' then Inr False else Inl Exit_Failure)"

text \<open>\<open>create_and_bind\<close> takes the first address to which a socket can be bound: for each address of \<open>getaddrinfo\<close> the
  results of \<open>socket\<close> and \<open>bind\<close>.\<close>

fun bind_first :: "(int \<times> int) list \<Rightarrow> int option" where
  "bind_first [] = None"
| "bind_first ((sfd, s) # rp) = (if sfd = -1 then bind_first rp else if s = 0 then Some sfd else bind_first rp)"

definition create_and_bind :: "(int \<times> int) list option \<Rightarrow> int" where
  "create_and_bind gai = (case gai of None \<Rightarrow> -1 | Some result \<Rightarrow> (case bind_first result of None \<Rightarrow> -1 | Some sfd \<Rightarrow> sfd))"

text \<open>\<open>fcntl\<close> reads the flags and then sets them.\<close>

definition make_socket_non_blocking :: "int \<Rightarrow> (int \<Rightarrow> int) \<Rightarrow> int" where
  "make_socket_non_blocking flags setfl = (if flags = -1 then -1 else if setfl flags = -1 then -1 else 0)"

definition makeSvrSocket :: "(bool \<Rightarrow> int) \<Rightarrow> (int \<Rightarrow> int) \<Rightarrow> (int \<Rightarrow> int) \<Rightarrow> bool \<Rightarrow> int" where
  "makeSvrSocket socket bind listen tcp =
     (let svrSock = socket tcp in
      if svrSock < 0 then -1
      else if bind svrSock < 0 then -1
      else if tcp \<and> listen svrSock < 0 then -1
      else svrSock)"

definition reuseSock :: "int \<Rightarrow> int" where
  "reuseSock ret = (if ret < 0 then -1 else 0)"

section \<open>Events\<close>

text \<open>\<open>ev_error\<close>: an error or hang-up is reported, or not that something can be read; \<open>ev_accepts\<close> are the results of
  the calls of \<open>accept\<close> and \<open>ev_reads\<close> those of \<open>recv\<close>.\<close>

record epoll_event =
  ev_fd :: int
  ev_error :: bool
  ev_accepts :: "int list"
  ev_reads :: "string option list"

text \<open>The listening descriptor, the monitored connections, the blobs collected so far and the state of the worker.\<close>

record 's ep_server =
  es_tcp :: bool
  es_sfd :: int
  es_fds :: "int list"
  es_bd :: bd_map
  es_state :: 's

text \<open>New connections are made non-blocking and monitored; a failure ends the process.\<close>

fun accept_loop :: "(int \<Rightarrow> int) \<Rightarrow> (int \<Rightarrow> int) \<Rightarrow> int list \<Rightarrow> int list \<Rightarrow> int list res" where
  "accept_loop nonblock ctl [] fds = Inr fds"
| "accept_loop nonblock ctl (infd # rest) fds =
     (if infd = -1 then Inr fds
      else if nonblock infd = -1 then Inl Exit_Failure
      else if ctl infd = -1 then Inl Exit_Failure
      else accept_loop nonblock ctl rest (fds @ [infd]))"

definition handle_event ::
    "(string \<Rightarrow> 's \<Rightarrow> 's res) \<Rightarrow> string \<Rightarrow> (int \<Rightarrow> int) \<Rightarrow> (int \<Rightarrow> int) \<Rightarrow> epoll_event \<Rightarrow> 's ep_server \<Rightarrow> 's ep_server res" where
  "handle_event process mem nonblock ctl e sv =
     (if ev_error e then Inr (sv\<lparr>es_fds := remove1 (ev_fd e) (es_fds sv)\<rparr>)
      else if es_sfd sv = ev_fd e
      then (if es_tcp sv
            then bind_res (accept_loop nonblock ctl (ev_accepts e) (es_fds sv)) (\<lambda>fds. Inr (sv\<lparr>es_fds := fds\<rparr>))
            else bind_res (serve_datagrams process mem (ev_reads e) (es_bd sv) (es_state sv)) (\<lambda>(_, m, s).
                   Inr (sv\<lparr>es_bd := m, es_state := s\<rparr>)))
      else if es_tcp sv
      then bind_res (serve_conn process mem (ev_reads e) (es_bd sv) (es_state sv)) (\<lambda>(closed, m, s).
             Inr (sv\<lparr>es_fds := if closed then remove1 (ev_fd e) (es_fds sv) else es_fds sv, es_bd := m, es_state := s\<rparr>))
      else Inr sv)"

fun handle_events ::
    "(string \<Rightarrow> 's \<Rightarrow> 's res) \<Rightarrow> string \<Rightarrow> (int \<Rightarrow> int) \<Rightarrow> (int \<Rightarrow> int) \<Rightarrow> epoll_event list \<Rightarrow> 's ep_server \<Rightarrow> 's ep_server res" where
  "handle_events process mem nonblock ctl [] sv = Inr sv"
| "handle_events process mem nonblock ctl (e # es) sv =
     bind_res (handle_event process mem nonblock ctl e sv) (handle_events process mem nonblock ctl es)"

text \<open>The part of \<open>serve\<close> before its loop: every failure aborts.\<close>

definition epoll_start ::
    "string \<Rightarrow> (bool \<Rightarrow> int) \<Rightarrow> (int \<Rightarrow> int) \<Rightarrow> (int \<Rightarrow> int) \<Rightarrow> (int \<Rightarrow> int) \<Rightarrow> int \<Rightarrow> (int \<Rightarrow> int) \<Rightarrow> 's \<Rightarrow> 's ep_server res" where
  "epoll_start protocol socket bind listen nonblock efd ctl s =
     bind_res (epoll_protocol protocol) (\<lambda>tcp.
       let sfd = makeSvrSocket socket bind listen tcp in
       if sfd = -1 then Inl Exit_Failure
       else if nonblock sfd = -1 then Inl Exit_Failure
       else if efd = -1 then Inl Exit_Failure
       else if ctl sfd = -1 then Inl Exit_Failure
       else Inr \<lparr>es_tcp = tcp, es_sfd = sfd, es_fds = [], es_bd = [], es_state = s\<rparr>)"

lemma epoll_start_listens:
  "epoll_start protocol socket bind listen nonblock efd ctl s = Inr sv \<Longrightarrow>
     es_sfd sv = socket (protocol = ''TCP'') \<and> 0 \<le> es_sfd sv \<and> 0 \<le> bind (es_sfd sv) \<and> (es_tcp sv \<longrightarrow> 0 \<le> listen (es_sfd sv))
     \<and> (es_tcp sv \<longleftrightarrow> protocol = ''TCP'') \<and> es_bd sv = [] \<and> es_fds sv = []"
  by (auto simp: epoll_start_def epoll_protocol_def makeSvrSocket_def Let_def split: if_splits)

lemma accept_loop_adds:
  assumes "\<And>fd. fd \<in> set fs \<Longrightarrow> fd \<noteq> -1 \<and> nonblock fd \<noteq> -1 \<and> ctl fd \<noteq> -1"
  shows "accept_loop nonblock ctl (fs @ -1 # rest) fds = Inr (fds @ fs)"
  using assms by (induction fs arbitrary: fds) auto

lemma bind_first_binds: "bind_first rp = Some sfd \<Longrightarrow> (sfd, 0) \<in> set rp \<and> sfd \<noteq> -1"
  by (induction rp rule: bind_first.induct) (auto split: if_splits)

section \<open>Several messages at once\<close>

text \<open>\<open>M u\<close> is the message with the identifier \<open>u\<close> and \<open>(u, i)\<close> stands for its \<open>i\<close>-th blob. \<open>R\<close> are the blobs that
  arrived.\<close>

definition blob_of :: "(nat \<Rightarrow> string) \<Rightarrow> nat \<times> nat \<Rightarrow> string" where
  "blob_of M p = blob_to_str (piece (fst p) (M (fst p)) (snd p))"

definition blobs_of :: "nat set \<Rightarrow> (nat \<Rightarrow> string) \<Rightarrow> (nat \<times> nat) set" where
  "blobs_of U M = (SIGMA u : U. {0..<blob_count (M u)})"

definition arrived :: "(nat \<times> nat) set \<Rightarrow> nat \<Rightarrow> nat set" where
  "arrived R u = {i. (u, i) \<in> R}"

definition complete :: "(nat \<Rightarrow> string) \<Rightarrow> (nat \<times> nat) set \<Rightarrow> nat \<Rightarrow> bool" where
  "complete M R u \<longleftrightarrow> arrived R u = {0..<blob_count (M u)}"

definition collected :: "(nat \<Rightarrow> string) \<Rightarrow> (nat \<times> nat) set \<Rightarrow> bd_map \<Rightarrow> bool" where
  "collected M R m \<longleftrightarrow> cmap_ok m \<and> (\<forall>u. cmap_find m u =
     (if arrived R u = {} \<or> complete M R u then None else Some (part u (M u) (arrived R u))))"

lemma arrived_insert: "arrived (insert (u, i) R) v = (if v = u then insert i (arrived R u) else arrived R v)"
  by (auto simp: arrived_def)

lemma getBdStr_mixed:
  assumes ok: "sendable u (M u)" and i: "i < blob_count (M u)" "(u, i) \<notin> R" and sub: "arrived R u \<subseteq> {0..<blob_count (M u)}"
    and m: "collected M R m"
  shows "\<exists>m'. getBdStr mem (blob_of M (u, i)) m = Inr (if complete M (insert (u, i) R) u then Some (M u) else None, m')
    \<and> collected M (insert (u, i) R) m'"
proof (cases "blob_count (M u) = 1")
  case True
  then have "i = 0" "arrived R u = {}" using i sub by (auto simp: arrived_def subset_singleton_iff)
  then have full: "complete M (insert (u, i) R) u" using True by (simp add: complete_def arrived_insert)
  have "b_value (piece u (M u) 0) = M u" using pieces_join [of u "M u"] True by simp
  moreover have "b_total (piece u (M u) 0) = 1" using True by (simp add: piece_def new_blob_def)
  ultimately have "getBdStr mem (blob_of M (u, i)) m = Inr (Some (M u), m)"
    using piece_received [OF ok, of 0 mem] True \<open>i = 0\<close> by (simp add: getBdStr_def blob_of_def)
  moreover have "collected M (insert (u, i) R) m"
    using m full \<open>arrived R u = {}\<close> by (auto simp: collected_def arrived_insert complete_def)
  ultimately show ?thesis using full by auto
next
  case False
  then have n: "1 < blob_count (M u)" using i(1) by simp
  let ?S = "arrived R u" and ?m0 = "cmap_erase u m"
  have S: "i \<notin> ?S" "finite ?S" using i(2) sub finite_subset by (auto simp: arrived_def)
  then have nc: "\<not> complete M R u" using i(1) by (auto simp: complete_def)
  have ok0: "cmap_ok m" "cmap_ok ?m0" "cmap_find ?m0 u = None" using m by (simp_all add: collected_def cm.invar_del cm.find_del)
  have st: "m = (if ?S = {} then ?m0 else cmap_set u (part u (M u) ?S) ?m0)"
    using m nc ok0 by (auto simp: collected_def cm.find_del cm.find_upd cm.invar_upd intro!: cmap_eq_by_find)
  note g = getBdStr_piece [OF ok n i(1) S ok0(2,3) st sub, of mem]
  let ?m' = "if insert i ?S = {0..<blob_count (M u)} then ?m0 else cmap_set u (part u (M u) (insert i ?S)) ?m0"
  have "collected M (insert (u, i) R) ?m'"
    using m ok0 by (auto simp: collected_def arrived_insert complete_def cm.find_del cm.find_upd cm.invar_upd)
  then show ?thesis using g by (intro exI [of _ ?m']) (auto simp: blob_of_def complete_def arrived_insert)
qed

text \<open>Feeding all blobs in any order gives every message once.\<close>

definition ready :: "string option list \<Rightarrow> string list" where
  "ready bds = concat (map (\<lambda>bd. case bd of None \<Rightarrow> [] | Some s \<Rightarrow> [s]) bds)"

lemma ready_simps [simp]: "ready [] = []" "ready (None # bds) = ready bds" "ready (Some s # bds) = s # ready bds"
  "ready (xs @ ys) = ready xs @ ready ys"
  by (simp_all add: ready_def)

lemma feed_mixed:
  assumes "\<And>u. u \<in> U \<Longrightarrow> sendable u (M u)" and "distinct js" and "set js \<subseteq> blobs_of U M" and "R \<subseteq> blobs_of U M" and "set js \<inter> R = {}"
    and "collected M R m"
  shows "\<exists>bds m' us. feed mem (map (blob_of M) js) m = Inr (bds, m') \<and> collected M (R \<union> set js) m' \<and> ready bds = map M us
    \<and> distinct us \<and> set us = {u. complete M (R \<union> set js) u \<and> \<not> complete M R u}"
  using assms(2-)
proof (induction js arbitrary: R m)
  case Nil
  then show ?case by (intro exI [of _ "[]"] exI [of _ m]) simp
next
  case (Cons p js)
  obtain u i where p: "p = (u, i)" by fastforce
  have u: "u \<in> U" "i < blob_count (M u)" "(u, i) \<notin> R" using Cons.prems by (auto simp: p blobs_of_def)
  have sub: "arrived R u \<subseteq> {0..<blob_count (M u)}" using Cons.prems(3) by (auto simp: arrived_def blobs_of_def)
  obtain m1 where m1: "getBdStr mem (blob_of M p) m = Inr (if complete M (insert p R) u then Some (M u) else None, m1)" "collected M (insert p R) m1"
    using getBdStr_mixed [OF assms(1) [OF u(1)] u(2,3) sub Cons.prems(5)] p by blast
  have "distinct js" "set js \<subseteq> blobs_of U M" "insert p R \<subseteq> blobs_of U M" "set js \<inter> insert p R = {}" using Cons.prems by auto
  from Cons.IH [OF this m1(2)] obtain bds m' us where IH: "feed mem (map (blob_of M) js) m1 = Inr (bds, m')" "collected M (insert p R \<union> set js) m'"
    "ready bds = map M us" "distinct us" "set us = {v. complete M (insert p R \<union> set js) v \<and> \<not> complete M (insert p R) v}" by blast
  have R: "R \<union> set (p # js) = insert p R \<union> set js" by auto
  have other: "complete M (insert p R) v \<longleftrightarrow> complete M R v" if "v \<noteq> u" for v using that by (simp add: p complete_def arrived_insert)
  have nc: "\<not> complete M R u" using u(2,3) by (auto simp: complete_def arrived_def)
  have keep: "complete M (insert p R \<union> set js) u" if c: "complete M (insert p R) u"
  proof -
    have "arrived (insert p R \<union> set js) u \<subseteq> {0..<blob_count (M u)}" using Cons.prems(2,3) by (auto simp: arrived_def blobs_of_def p)
    moreover have "arrived (insert p R) u \<subseteq> arrived (insert p R \<union> set js) u" by (auto simp: arrived_def)
    ultimately show ?thesis using c by (auto simp: complete_def)
  qed
  show ?case
  proof (cases "complete M (insert p R) u")
    case True
    have "v \<in> set (u # us) \<longleftrightarrow> complete M (insert p R \<union> set js) v \<and> \<not> complete M R v" for v
      using IH(5) other [of v] nc keep [OF True] by (cases "v = u") auto
    then have "set (u # us) = {v. complete M (insert p R \<union> set js) v \<and> \<not> complete M R v}" "u \<notin> set us" using IH(5) True by blast+
    then show ?thesis using IH m1(1) True unfolding R by (intro exI [of _ "Some (M u) # bds"] exI [of _ m'] exI [of _ "u # us"]) simp
  next
    case False
    have "complete M (insert p R) v \<longleftrightarrow> complete M R v" for v using False other [of v] nc by (cases "v = u") auto
    then have "set us = {v. complete M (insert p R \<union> set js) v \<and> \<not> complete M R v}" using IH(5) by simp
    then show ?thesis using IH m1(1) False unfolding R by (intro exI [of _ "None # bds"] exI [of _ m'] exI [of _ us]) simp
  qed
qed

section \<open>Serving them\<close>

fun process_all :: "(string \<Rightarrow> 's \<Rightarrow> 's res) \<Rightarrow> string list \<Rightarrow> 's \<Rightarrow> 's res" where
  "process_all process [] s = Inr s"
| "process_all process (x # xs) s = bind_res (process x s) (process_all process xs)"

lemma bind_res_assoc: "bind_res (bind_res r f) g = bind_res r (\<lambda>x. bind_res (f x) g)"
  by (cases r) simp_all

lemma process_all_append: "process_all process (xs @ ys) s = bind_res (process_all process xs s) (process_all process ys)"
proof (induction xs arbitrary: s)
  case (Cons x xs)
  then show ?case by (cases "process x s") simp_all
qed simp

lemma serve_conn_ready:
  "feed mem bufs m = Inr (bds, m') \<Longrightarrow> list_all (\<lambda>b. b \<noteq> []) bufs \<Longrightarrow>
     serve_conn process mem (map Some bufs @ [None]) m s = bind_res (process_all process (map c_str (ready bds)) s) (\<lambda>s'. Inr (False, m', s'))"
proof (induction bufs arbitrary: m bds s)
  case (Cons b bufs)
  then obtain bd m1 bds1 where b: "getBdStr mem b m = Inr (bd, m1)" "feed mem bufs m1 = Inr (bds1, m')" "bds = bd # bds1" by (auto simp: bind_res_eq_Inr)
  show ?case
  proof (cases bd)
    case None
    then show ?thesis using Cons.IH [OF b(2)] Cons.prems(2) b by simp
  next
    case (Some msg)
    then show ?thesis using Cons.IH [OF b(2)] Cons.prems(2) b by (cases "process (c_str msg) s") simp_all
  qed
qed simp

lemma feed_append:
  "feed mem (xs @ ys) m = Inr (bds, m') \<Longrightarrow> \<exists>b1 m1 b2. feed mem xs m = Inr (b1, m1) \<and> feed mem ys m1 = Inr (b2, m') \<and> bds = b1 @ b2"
proof (induction xs arbitrary: m bds)
  case (Cons x xs)
  then show ?case by (fastforce simp: bind_res_eq_Inr)
qed simp

text \<open>Data on connections: the texts read from one after the other, and then nothing.\<close>

definition data_event :: "int \<times> string list \<Rightarrow> epoll_event" where
  "data_event d = \<lparr>ev_fd = fst d, ev_error = False, ev_accepts = [], ev_reads = map Some (snd d) @ [None]\<rparr>"

lemma handle_data:
  assumes "es_tcp sv" and "es_sfd sv \<notin> fst ` set ds" and "feed mem (concat (map snd ds)) (es_bd sv) = Inr (bds, m')" and "list_all (\<lambda>b. b \<noteq> []) (concat (map snd ds))"
  shows "handle_events process mem nonblock ctl (map data_event ds) sv =
    bind_res (process_all process (map c_str (ready bds)) (es_state sv)) (\<lambda>s'. Inr (sv\<lparr>es_bd := m', es_state := s'\<rparr>))"
  using assms
proof (induction ds arbitrary: sv bds)
  case (Cons d ds)
  obtain b1 m1 b2 where f: "feed mem (snd d) (es_bd sv) = Inr (b1, m1)" "feed mem (concat (map snd ds)) m1 = Inr (b2, m')" "bds = b1 @ b2"
    using feed_append [of mem "snd d" "concat (map snd ds)" "es_bd sv" bds m'] Cons.prems(3) by auto
  have ne: "list_all (\<lambda>b. b \<noteq> []) (snd d)" "list_all (\<lambda>b. b \<noteq> []) (concat (map snd ds))" using Cons.prems(4) by simp_all
  have e: "handle_event process mem nonblock ctl (data_event d) sv =
      bind_res (process_all process (map c_str (ready b1)) (es_state sv)) (\<lambda>s'. Inr (sv\<lparr>es_bd := m1, es_state := s'\<rparr>))"
    using Cons.prems(1,2) serve_conn_ready [OF f(1) ne(1), of process "es_state sv"] by (simp add: handle_event_def data_event_def bind_res_assoc)
  have "handle_events process mem nonblock ctl (map data_event ds) (sv\<lparr>es_bd := m1, es_state := s'\<rparr>) =
      bind_res (process_all process (map c_str (ready b2)) s') (\<lambda>s'. Inr (sv\<lparr>es_bd := m', es_state := s'\<rparr>))" for s'
    using Cons.IH [of "sv\<lparr>es_bd := m1, es_state := s'\<rparr>" b2] Cons.prems(1,2) f(2) ne(2) by simp
  then show ?case by (simp add: e f(3) process_all_append bind_res_assoc)
qed simp

section \<open>The serving thread\<close>

text \<open>With \<open>THREADED_SERVE\<close> the event loop does not call the worker: it queues the complete messages for a second thread.
  \<open>EventData\<close> copies a message up to its first NUL.\<close>

definition EventData :: "string \<Rightarrow> string" where
  "EventData buf = c_str buf"

definition zq_push :: "string \<Rightarrow> string list \<Rightarrow> string list" where
  "zq_push e q = q @ [e]"

definition zq_front :: "string list \<Rightarrow> (string \<times> string list) option" where
  "zq_front q = (if q = [] then None else Some (hd q, tl q))"

definition queue_message :: "string \<Rightarrow> string list \<Rightarrow> string list res" where
  "queue_message bd q = Inr (zq_push (EventData bd) q)"

text \<open>The inner loop of \<open>threadedServe\<close>, until the queue is empty.\<close>

function threadedServe :: "(string \<Rightarrow> 's \<Rightarrow> 's res) \<Rightarrow> string list \<Rightarrow> 's \<Rightarrow> 's res" where
  "threadedServe process q s =
     (case zq_front q of None \<Rightarrow> Inr s | Some (e, q') \<Rightarrow> bind_res (process e s) (threadedServe process q'))"
  by pat_completeness auto
termination by (relation "measure (\<lambda>(_, q, _). length q)") (auto simp: zq_front_def split: if_splits)

declare threadedServe.simps [simp del]

interpretation zeq: fifo zq_push zq_front "\<lambda>q. q"
  by unfold_locales (auto simp: zq_push_def zq_front_def)

lemma queue_message_eq [simp]: "queue_message (c_str msg) q = Inr (q @ [c_str msg])"
  by (simp add: queue_message_def zq_push_def EventData_def)

lemma threadedServe_all: "threadedServe process q s = process_all process q s"
proof (induction q arbitrary: s)
  case (Cons x q)
  then show ?case by (subst threadedServe.simps) (cases "process x s"; simp add: zq_front_def)
qed (simp add: threadedServe.simps zq_front_def)

text \<open>What the event loop queues is what it would have handed to the worker.\<close>

lemma conn_queued:
  "serve_conn queue_message mem cs m q = Inr (b, m', q') \<Longrightarrow>
     \<exists>xs. q' = q @ xs \<and> (\<forall>s. serve_conn process mem cs m s = bind_res (process_all process xs s) (\<lambda>s'. Inr (b, m', s')))"
proof (induction cs arbitrary: m q)
  case (Cons c cs)
  show ?case
  proof (cases "c = None \<or> c = Some []")
    case True
    then show ?thesis using Cons.prems by (intro exI [of _ "[]"]) auto
  next
    case False
    then obtain buf where c: "c = Some buf" "buf \<noteq> []" by (cases c) auto
    obtain bd m1 where g: "getBdStr mem buf m = Inr (bd, m1)" using Cons.prems c by (auto simp: bind_res_eq_Inr)
    show ?thesis
    proof (cases bd)
      case None
      then show ?thesis using Cons.IH [of m1 q] Cons.prems c g by simp
    next
      case (Some msg)
      have "serve_conn queue_message mem cs m1 (q @ [c_str msg]) = Inr (b, m', q')"
        using Cons.prems c g Some by simp
      from Cons.IH [OF this] obtain xs where q': "q' = (q @ [c_str msg]) @ xs"
          "serve_conn process mem cs m1 = (\<lambda>t. bind_res (process_all process xs t) (\<lambda>s'. Inr (b, m', s')))" by blast
      then show ?thesis using c g Some by (intro exI [of _ "c_str msg # xs"]) (simp add: bind_res_assoc)
    qed
  qed
qed (auto intro!: exI [of _ "[]"])

lemma datagrams_queued:
  "serve_datagrams queue_message mem cs m q = Inr (b, m', q') \<Longrightarrow>
     \<exists>xs. q' = q @ xs \<and> (\<forall>s. serve_datagrams process mem cs m s = bind_res (process_all process xs s) (\<lambda>s'. Inr (b, m', s')))"
proof (induction cs arbitrary: m q)
  case (Cons c cs)
  show ?case
  proof (cases c)
    case None
    then show ?thesis using Cons.IH [of m q] Cons.prems by simp
  next
    case (Some buf)
    show ?thesis
    proof (cases "buf = []")
      case True
      then show ?thesis using Cons.prems Some by (intro exI [of _ "[]"]) auto
    next
      case False
      obtain bd m1 where g: "getBdStr mem buf m = Inr (bd, m1)" using Cons.prems Some False by (auto simp: bind_res_eq_Inr)
      show ?thesis
      proof (cases bd)
        case None
        then show ?thesis using Cons.IH [of m1 q] Cons.prems Some False g by simp
      next
        case bd: (Some msg)
        have "serve_datagrams queue_message mem cs m1 (q @ [c_str msg]) = Inr (b, m', q')"
          using Cons.prems Some False g bd by simp
        from Cons.IH [OF this] obtain xs where q': "q' = (q @ [c_str msg]) @ xs"
            "serve_datagrams process mem cs m1 = (\<lambda>t. bind_res (process_all process xs t) (\<lambda>s'. Inr (b, m', s')))" by blast
        then show ?thesis using Some False g bd by (intro exI [of _ "c_str msg # xs"]) (simp add: bind_res_assoc)
      qed
    qed
  qed
qed (auto intro!: exI [of _ "[]"])

definition with_state :: "'t \<Rightarrow> 's ep_server \<Rightarrow> 't ep_server" where
  "with_state t sv = \<lparr>es_tcp = es_tcp sv, es_sfd = es_sfd sv, es_fds = es_fds sv, es_bd = es_bd sv, es_state = t\<rparr>"

lemma with_state_simps [simp]:
  "es_tcp (with_state t sv) = es_tcp sv" "es_sfd (with_state t sv) = es_sfd sv" "es_fds (with_state t sv) = es_fds sv"
  "es_bd (with_state t sv) = es_bd sv" "es_state (with_state t sv) = t"
  by (simp_all add: with_state_def)

lemma event_queued:
  assumes "handle_event queue_message mem nonblock ctl e sv = Inr sv'"
  shows "\<exists>xs. es_state sv' = es_state sv @ xs \<and> (\<forall>s. handle_event process mem nonblock ctl e (with_state s sv) =
    bind_res (process_all process xs s) (\<lambda>s'. Inr (with_state s' sv')))"
proof -
  let ?io = "\<not> ev_error e \<and> (es_sfd sv = ev_fd e \<longleftrightarrow> \<not> es_tcp sv)"
  have no: ?thesis if n: "\<not> ?io"
  proof -
    consider "ev_error e" | "\<not> ev_error e" "es_sfd sv = ev_fd e" "es_tcp sv" | "\<not> ev_error e" "es_sfd sv \<noteq> ev_fd e" "\<not> es_tcp sv"
      using n by blast
    then show ?thesis
      using assms by cases (intro exI [of _ "[]"]; auto simp: handle_event_def with_state_def bind_res_eq_Inr)+
  qed
  show ?thesis
  proof (cases ?io)
    case True
    show ?thesis
    proof (cases "es_tcp sv")
      case tcp: True
      obtain b m' q' where r: "serve_conn queue_message mem (ev_reads e) (es_bd sv) (es_state sv) = Inr (b, m', q')"
          "sv' = sv\<lparr>es_fds := if b then remove1 (ev_fd e) (es_fds sv) else es_fds sv, es_bd := m', es_state := q'\<rparr>"
        using assms True tcp by (auto simp: handle_event_def bind_res_eq_Inr)
      obtain xs where q': "q' = es_state sv @ xs"
          "\<And>s. serve_conn process mem (ev_reads e) (es_bd sv) s = bind_res (process_all process xs s) (\<lambda>s'. Inr (b, m', s'))"
        using conn_queued [OF r(1), of process] by blast
      then show ?thesis using True tcp r(2) q'
        by (intro exI [of _ xs]) (simp add: handle_event_def bind_res_assoc with_state_def)
    next
      case udp: False
      obtain b m' q' where r: "serve_datagrams queue_message mem (ev_reads e) (es_bd sv) (es_state sv) = Inr (b, m', q')"
          "sv' = sv\<lparr>es_bd := m', es_state := q'\<rparr>"
        using assms True udp by (auto simp: handle_event_def bind_res_eq_Inr)
      obtain xs where q': "q' = es_state sv @ xs"
          "\<And>s. serve_datagrams process mem (ev_reads e) (es_bd sv) s = bind_res (process_all process xs s) (\<lambda>s'. Inr (b, m', s'))"
        using datagrams_queued [OF r(1), of process] by blast
      then show ?thesis using True udp r(2) q'
        by (intro exI [of _ xs]) (simp add: handle_event_def bind_res_assoc with_state_def)
    qed
  qed (rule no)
qed

lemma events_queued:
  "handle_events queue_message mem nonblock ctl es sv = Inr sv' \<Longrightarrow>
     \<exists>xs. es_state sv' = es_state sv @ xs \<and> (\<forall>s. handle_events process mem nonblock ctl es (with_state s sv) =
       bind_res (process_all process xs s) (\<lambda>s'. Inr (with_state s' sv')))"
proof (induction es arbitrary: sv)
  case (Cons e es)
  obtain sv1 where 1: "handle_event queue_message mem nonblock ctl e sv = Inr sv1" "handle_events queue_message mem nonblock ctl es sv1 = Inr sv'"
    using Cons.prems by (auto simp: bind_res_eq_Inr)
  obtain xs where xs: "es_state sv1 = es_state sv @ xs"
      "\<And>s. handle_event process mem nonblock ctl e (with_state s sv) = bind_res (process_all process xs s) (\<lambda>s'. Inr (with_state s' sv1))"
    using event_queued [OF 1(1)] by blast
  obtain ys where ys: "es_state sv' = es_state sv1 @ ys"
      "\<And>s. handle_events process mem nonblock ctl es (with_state s sv1) = bind_res (process_all process ys s) (\<lambda>s'. Inr (with_state s' sv'))"
    using Cons.IH [OF 1(2)] by blast
  show ?case using xs ys by (intro exI [of _ "xs @ ys"]) (simp add: process_all_append bind_res_assoc)
qed (auto intro!: exI [of _ "[]"])

text \<open>The threads in any order: an arrival queues a message, a turn of the serving thread handles the one in front.\<close>

fun serving_run :: "(string \<Rightarrow> 's \<Rightarrow> 's res) \<Rightarrow> string queue_op list \<Rightarrow> string list \<Rightarrow> 's \<Rightarrow> (string list \<times> 's) res" where
  "serving_run process [] q s = Inr (q, s)"
| "serving_run process (Enq e # ops) q s = serving_run process ops (zq_push e q) s"
| "serving_run process (Deq # ops) q s =
     (case zq_front q of None \<Rightarrow> serving_run process ops q s
      | Some (e, q') \<Rightarrow> bind_res (process e s) (serving_run process ops q'))"

lemma serving_run_out:
  "queue_run zq_push zq_front ops q = (out, q') \<Longrightarrow>
     serving_run process ops q s = bind_res (process_all process out s) (\<lambda>s'. Inr (q', s'))"
proof (induction process ops q s arbitrary: out rule: serving_run.induct)
  case (3 process ops q s)
  show ?case
  proof (cases "zq_front q")
    case None
    then show ?thesis using 3 by simp
  next
    case (Some p)
    obtain e q1 where p: "p = (e, q1)" by fastforce
    obtain out1 where "queue_run zq_push zq_front ops q1 = (out1, q')" "out = e # out1"
      using "3.prems" Some p by (auto split: prod.splits)
    then show ?thesis using "3.IH"(2) [OF Some [unfolded p] refl] Some p by (cases "process e s") simp_all
  qed
qed auto

text \<open>However the two threads interleave, when the serving thread has emptied the queue the worker is in the state
  in which the build without the thread leaves it after the same events.\<close>

lemma threaded_build_equals_direct:
  assumes "handle_events queue_message mem nonblock ctl es sv = Inr sv'" and "es_state sv = []" and "enqueued ops = es_state sv'"
    and "serving_run process ops [] s = Inr (q, s')"
  shows "handle_events process mem nonblock ctl es (with_state s sv) = bind_res (threadedServe process q s') (\<lambda>s''. Inr (with_state s'' sv'))"
proof -
  obtain out q' where o: "queue_run zq_push zq_front ops [] = (out, q')" by fastforce
  have c: "es_state sv' = out @ q'" using zeq.run_in_order [OF o] assms(3) by simp
  have "q' = q" "process_all process out s = Inr s'"
    using assms(4) unfolding serving_run_out [OF o] by (auto simp: bind_res_eq_Inr)
  then have "process_all process (es_state sv') s = threadedServe process q s'" by (simp add: c process_all_append threadedServe_all)
  then show ?thesis using events_queued [OF assms(1), of process] assms(2) by auto
qed

section \<open>Properties\<close>


text \<open>Two messages of one blob and one of two, on two connections.\<close>

definition demo_messages :: "nat \<Rightarrow> string" where
  "demo_messages u = (if u = 3 then replicate 600 (CHR ''x'') else ''hello'')"


end
