(* ===== verification/NoVoHT_Iter.thy ===== *)
theory NoVoHT_Iter
  imports NoVoHT
begin

text \<open>
  The iterators of the hash table (\<^verbatim>\<open>ZHT/src/novoht.h\<close>, \<open>novoht_iterator\<close> and its three subclasses) on a table that
  does not change while they run. A chain is the list of its pairs; the pointer \<open>current\<close> is the part of a chain that
  starts with the pair it points to, and \<open>[]\<close> the null pointer. The last section is the destructor (\<^verbatim>\<open>ZHT/src/novoht.cpp\<close>).
\<close>

section \<open>The iterator\<close>

record novoht_iterator =
  it_list :: "kvpair list list"
  it_previous :: "kvpair option"
  it_current :: "kvpair list"
  it_index :: nat

text \<open>The constructor looks for the first slot that is not empty.\<close>

function it_first :: "kvpair list list \<Rightarrow> nat \<Rightarrow> nat \<times> kvpair list" where
  "it_first l i = (if i < length l \<and> l ! i = [] then it_first l (Suc i) else (i, if i < length l then l ! i else []))"
  by pat_completeness auto
termination
  by (relation "measure (\<lambda>(l, i). length l - i)") auto

declare it_first.simps [simp del]

definition it_new :: "kvpair list list \<Rightarrow> novoht_iterator" where
  "it_new l = (case it_first l 0 of (i, cur) \<Rightarrow> \<lparr>it_list = l, it_previous = None, it_current = cur, it_index = i\<rparr>)"

text \<open>\<open>hasNext\<close> looks for a further slot that is not empty but returns only whether there is a further slot.\<close>

definition it_hasNext :: "novoht_iterator \<Rightarrow> bool" where
  "it_hasNext it = (if 1 < length (it_current it) then True else it_index it + 1 < length (it_list it))"

function it_advance :: "kvpair list list \<Rightarrow> nat \<Rightarrow> kvpair list \<Rightarrow> nat \<times> kvpair list" where
  "it_advance l i cur =
     (if i + 1 < length l then (if l ! (i + 1) = [] then it_advance l (i + 1) [] else (i + 1, l ! (i + 1))) else (i, cur))"
  by pat_completeness auto
termination
  by (relation "measure (\<lambda>(l, i, cur). length l - i)") auto

declare it_advance.simps [simp del]

definition it_nextInternal :: "novoht_iterator \<Rightarrow> novoht_iterator" where
  "it_nextInternal it =
     (let it' = it\<lparr>it_previous := (case it_current it of [] \<Rightarrow> None | p # _ \<Rightarrow> Some p)\<rparr> in
      if 1 < length (it_current it) then it'\<lparr>it_current := tl (it_current it)\<rparr>
      else (case it_advance (it_list it) (it_index it) (it_current it) of (i, cur) \<Rightarrow> it'\<lparr>it_index := i, it_current := cur\<rparr>))"

text \<open>The three forms of \<open>next\<close> dereference \<open>current\<close>; that of the pair iterator cuts key and value at a NUL.\<close>

definition key_next :: "novoht_iterator \<Rightarrow> (string \<times> novoht_iterator) res" where
  "key_next it = (case it_current it of [] \<Rightarrow> Inl Undefined | p # _ \<Rightarrow> Inr (kv_key p, it_nextInternal it))"

definition val_next :: "novoht_iterator \<Rightarrow> (string \<times> novoht_iterator) res" where
  "val_next it = (case it_current it of [] \<Rightarrow> Inl Undefined | p # _ \<Rightarrow> Inr (kv_val p, it_nextInternal it))"

definition pair_next :: "novoht_iterator \<Rightarrow> ((string \<times> string) \<times> novoht_iterator) res" where
  "pair_next it = (case it_current it of [] \<Rightarrow> Inl Undefined | p # _ \<Rightarrow> Inr ((c_str (kv_key p), c_str (kv_val p)), it_nextInternal it))"

definition it_remove :: "novoht_iterator \<Rightarrow> novoht \<Rightarrow> novoht" where
  "it_remove it st = (case it_previous it of None \<Rightarrow> st | Some p \<Rightarrow> snd (nv_remove (kv_key p) st))"

text \<open>The usual loop, \<open>while (it.hasNext()) it.next()\<close>.\<close>

lemma it_advance_index: "i \<le> fst (it_advance l i cur)" "i + 1 < length l \<Longrightarrow> i < fst (it_advance l i cur)"
  "i < length l \<Longrightarrow> fst (it_advance l i cur) < length l"
proof (induction l i cur rule: it_advance.induct)
  case (1 l i cur)
  { case 1 then show ?case using "1.IH"(1) by (subst it_advance.simps) auto }
  { case 2 then show ?case using "1.IH"(1) by (subst it_advance.simps) (auto simp: Suc_le_eq) }
  { case 3 then show ?case using "1.IH"(3) by (subst it_advance.simps) auto }
qed

function iterate :: "(kvpair \<Rightarrow> 'a) \<Rightarrow> novoht_iterator \<Rightarrow> 'a list res" where
  "iterate f it =
     (if it_hasNext it
      then (case it_current it of
              [] \<Rightarrow> Inl Undefined
            | p # _ \<Rightarrow> (case iterate f (it_nextInternal it) of Inl e \<Rightarrow> Inl e | Inr xs \<Rightarrow> Inr (f p # xs)))
      else Inr [])"
  by pat_completeness auto
termination
proof (relation "measures [\<lambda>(f, it). length (it_list it) - it_index it, \<lambda>(f, it). length (it_current it)]", goal_cases)
  case (2 f it p ps)
  show ?case
  proof (cases "1 < length (it_current it)")
    case True
    then show ?thesis using 2(2) by (simp add: it_nextInternal_def)
  next
    case False
    then have "it_index it + 1 < length (it_list it)" using 2(1) by (simp add: it_hasNext_def)
    then show ?thesis
      using it_advance_index(2) [of "it_index it" "it_list it" "it_current it"] False by (auto simp: it_nextInternal_def Let_def split: prod.splits)
  qed
qed simp

declare iterate.simps [simp del]

section \<open>What is visited\<close>

text \<open>The pairs from \<open>current\<close> on.\<close>

definition remaining :: "novoht_iterator \<Rightarrow> kvpair list" where
  "remaining it = it_current it @ concat (drop (Suc (it_index it)) (it_list it))"

lemma it_first_facts:
  "it_first l i = (j, cur) \<Longrightarrow> cur @ concat (drop (Suc j) l) = concat (drop i l)"
  "it_first l i = (j, cur) \<Longrightarrow> j < length l \<Longrightarrow> cur = l ! j \<and> cur \<noteq> []"
  "it_first l i = (j, cur) \<Longrightarrow> length l \<le> j \<Longrightarrow> cur = []"
proof (induction l i rule: it_first.induct)
  case (1 l i)
  { case 1
    show ?case
    proof (cases "i < length l \<and> l ! i = []")
      case True
      then have "concat (drop i l) = concat (drop (Suc i) l)" by (simp add: Cons_nth_drop_Suc [symmetric])
      then show ?thesis using 1 "1.IH"(1) [OF True] True by (simp add: it_first.simps [of l i])
    next
      case False
      then show ?thesis using 1 by (cases "i < length l") (auto simp: it_first.simps [of l i] Cons_nth_drop_Suc [symmetric])
    qed }
  { case 2 then show ?case using "1.IH"(2) by (auto simp: it_first.simps [of l i] split: if_splits) }
  { case 3 then show ?case using "1.IH"(3) by (auto simp: it_first.simps [of l i] split: if_splits) }
qed

lemma it_advance_facts:
  assumes "i + 1 < length l" and "it_advance l i cur = (j, cur')"
  shows "cur' @ concat (drop (Suc j) l) = concat (drop (Suc i) l) \<and> j < length l \<and> (cur' \<noteq> [] \<longrightarrow> cur' = l ! j) \<and> (cur' = [] \<longrightarrow> length l \<le> j + 1)"
  using assms
proof (induction l i cur rule: it_advance.induct)
  case (1 l i cur)
  have c: "concat (drop (Suc i) l) = l ! Suc i @ concat (drop (Suc (Suc i)) l)" using "1.prems"(1) by (simp add: Cons_nth_drop_Suc [symmetric])
  show ?case
  proof (cases "l ! Suc i = []")
    case True
    then have a: "it_advance l (i + 1) [] = (j, cur')" using "1.prems" by (simp add: it_advance.simps [of l i])
    show ?thesis
    proof (cases "i + 1 + 1 < length l")
      case more: True
      have "l ! (i + 1) = []" using True by simp
      from "1.IH" [OF "1.prems"(1) this more a] show ?thesis using c True by simp
    next
      case False
      then have "j = i + 1" "cur' = []" using a by (simp_all add: it_advance.simps [of l "Suc i"])
      then show ?thesis using c True False "1.prems"(1) by simp
    qed
  next
    case False
    then show ?thesis using "1.prems" c by (auto simp: it_advance.simps [of l i])
  qed
qed

definition it_ok :: "novoht_iterator \<Rightarrow> bool" where
  "it_ok it \<longleftrightarrow> (if it_current it = [] then length (it_list it) \<le> it_index it + 1
     else it_index it < length (it_list it) \<and> (\<exists>qs. it_list it ! it_index it = qs @ it_current it))"

lemma it_new_ok: "it_ok (it_new l)" "remaining (it_new l) = concat l" "it_list (it_new l) = l"
proof -
  obtain i cur where f: "it_first l 0 = (i, cur)" by fastforce
  show "it_ok (it_new l)"
  proof (cases "i < length l")
    case True
    then show ?thesis using it_first_facts(2) [OF f] by (auto simp: it_new_def f it_ok_def)
  next
    case False
    then show ?thesis using it_first_facts(3) [OF f] by (simp add: it_new_def f it_ok_def)
  qed
  show "remaining (it_new l) = concat l" "it_list (it_new l) = l" using it_first_facts(1) [OF f] by (simp_all add: it_new_def f remaining_def)
qed

lemma nextInternal_ok:
  assumes "it_ok it" and "it_current it = p # ps" and "it_hasNext it"
  shows "it_ok (it_nextInternal it)" and "remaining it = p # remaining (it_nextInternal it)" and "it_list (it_nextInternal it) = it_list it"
    and "it_list it \<noteq> [] \<Longrightarrow> last (it_list it) \<noteq> [] \<Longrightarrow> remaining (it_nextInternal it) \<noteq> []"
proof -
  show l: "it_list (it_nextInternal it) = it_list it" by (simp add: it_nextInternal_def Let_def split: prod.splits)
  have "it_ok (it_nextInternal it) \<and> remaining it = p # remaining (it_nextInternal it)
      \<and> (ps = [] \<longrightarrow> it_index it + 1 < length (it_list it) \<and> remaining (it_nextInternal it) = concat (drop (Suc (it_index it)) (it_list it)))"
  proof (cases ps)
    case (Cons q qs)
    then show ?thesis using assms by (auto simp: it_nextInternal_def it_ok_def remaining_def intro: exI [of _ "_ @ [p]"])
  next
    case Nil
    then have i: "it_index it + 1 < length (it_list it)" using assms(2,3) by (simp add: it_hasNext_def)
    obtain j cur where a: "it_advance (it_list it) (it_index it) (it_current it) = (j, cur)" by fastforce
    note f = it_advance_facts [OF i a]
    have n: "it_current (it_nextInternal it) = cur" "it_index (it_nextInternal it) = j" using assms(2) Nil a by (simp_all add: it_nextInternal_def Let_def)
    have "it_ok (it_nextInternal it)"
      using f by (cases "cur = []") (simp_all add: it_ok_def n l)
    then show ?thesis using f i by (simp add: remaining_def n l assms(2) Nil)
  qed
  note r = this
  then show "it_ok (it_nextInternal it)" "remaining it = p # remaining (it_nextInternal it)" by blast+
  assume last: "it_list it \<noteq> []" "last (it_list it) \<noteq> []"
  show "remaining (it_nextInternal it) \<noteq> []"
  proof (cases ps)
    case (Cons q qs)
    then show ?thesis using assms(2) by (simp add: it_nextInternal_def remaining_def)
  next
    case Nil
    then have i: "it_index it + 1 < length (it_list it)" "remaining (it_nextInternal it) = concat (drop (Suc (it_index it)) (it_list it))" using r by blast+
    have "last (it_list it) \<in> set (drop (Suc (it_index it)) (it_list it))" using i(1) by (metis Suc_eq_plus1 drop_eq_Nil last_drop last_in_set not_le)
    then show ?thesis using i(2) last(2) by auto
  qed
qed

lemma iterate_visits:
  assumes "it_ok it"
  shows "iterate f it = Inr (map f (if it_list it \<noteq> [] \<and> last (it_list it) \<noteq> [] then butlast (remaining it) else remaining it))"
  using assms
proof (induction f it rule: iterate.induct)
  case (1 f it)
  show ?case
  proof (cases "it_current it")
    case Nil
    then have "\<not> it_hasNext it" "remaining it = []" using "1.prems" by (simp_all add: it_ok_def it_hasNext_def remaining_def)
    then show ?thesis by (simp add: iterate.simps [of f it])
  next
    case (Cons p ps)
    show ?thesis
    proof (cases "it_hasNext it")
      case True
      note n = nextInternal_ok [OF "1.prems" Cons True]
      show ?thesis using "1.IH" [OF True Cons n(1)] True Cons n(2-4) by (auto simp: iterate.simps [of f it])
    next
      case False
      then have e: "ps = []" "length (it_list it) \<le> it_index it + 1" using Cons by (auto simp: it_hasNext_def split: if_splits)
      moreover obtain qs where "it_index it < length (it_list it)" "it_list it ! it_index it = qs @ [p]" using "1.prems" Cons e(1) by (auto simp: it_ok_def)
      ultimately have "it_list it \<noteq> []" "it_index it = length (it_list it) - 1" "it_list it ! it_index it \<noteq> []" "remaining it = [p]"
        by (auto simp: remaining_def Cons)
      then have "it_list it \<noteq> []" "last (it_list it) \<noteq> []" "remaining it = [p]" by (simp_all add: last_conv_nth)
      then show ?thesis using False by (simp add: iterate.simps [of f it])
    qed
  qed
qed

section \<open>Closing a table\<close>

text \<open>The destructor compacts the log, waits for the thread and closes the file. \<open>remove ('.novoht.swp')\<close> is meant to delete
  the temporary log, but in the class it is the operation of the table: with such a key it would mark the positions of
  the pair in the file that is closed already, or compact it again. The value is the log that stays on the disk.\<close>

definition nv_close :: "novoht \<Rightarrow> string option res" where
  "nv_close st =
     (case nv_dbfile st of
        None \<Rightarrow> Inr None
      | Some _ \<Rightarrow>
          bind_res (nv_writeFileFG st) (\<lambda>(_, st1).
            let c = chain st1 ''.novoht.swp'' in
            if chain_find ''.novoht.swp'' c \<noteq> None \<and> (kv_pos (hd c) \<noteq> [] \<or> nv_nRem st1 + 1 = nv_magicNumber st1)
            then Inl Undefined
            else Inr (map_option f_data (nv_dbfile st1))))"

lemma close_writes_log:
  assumes "nv_ok st" and "nv_dbfile st = Some f" and "\<not> nv_rewriting st" and "nv_thread_rc st = 0" and "stored st ''.novoht.swp'' = None"
  shows "nv_close st = Inr (Some (log_of (concat (nv_kvpairs st))))"
proof -
  obtain st' g where w: "nv_writeFileFG st = Inr (0, st')" "same_entries st st'" "nv_dbfile st' = Some g" "f_data g = log_of (concat (nv_kvpairs st))"
    using writeFileFG_spec [OF assms(1-4)] by blast
  have "stored st' ''.novoht.swp'' = None" using w(2) assms(5) by (simp add: same_entries_def)
  then have "chain_find ''.novoht.swp'' (chain st' ''.novoht.swp'') = None" by (simp add: stored_def)
  then show ?thesis using w assms(2) by (simp add: nv_close_def Let_def)
qed

section \<open>Properties\<close>

text \<open>Property C39. What the loop over an iterator visits: all pairs in the order of the slots and chains when the last
  slot of the table is empty, and all but the very last pair when it is not. It never dereferences a null pointer.\<close>

theorem iteration_misses_last_pair:
  "iterate f (it_new (nv_kvpairs st)) =
     Inr (map f (if nv_kvpairs st \<noteq> [] \<and> last (nv_kvpairs st) \<noteq> [] then butlast (concat (nv_kvpairs st)) else concat (nv_kvpairs st)))"
  using iterate_visits [OF it_new_ok(1), of f "nv_kvpairs st"] it_new_ok(2,3) by simp

end
