(* ===== verification/C_Binding.thy ===== *)
theory C_Binding
  imports Blob_Transport Zht_Config
begin

text \<open>
  The C interface of the ZHT client (\<^verbatim>\<open>ZHT/src/c_zhtclientStd.cpp\<close> and \<^verbatim>\<open>ZHT/src/c_zhtclient.cpp\<close>): the operations of the C++
  client with C strings as arguments and results that are copied into buffers of the caller. A buffer is the list of
  its bytes; its length never changes. The last section shows what a caller reads from a buffer it uses again and again.
\<close>

section \<open>Result buffers\<close>

text \<open>\<open>memset (result, 0, strlen (result))\<close> and \<open>strncpy (result, s.c_str (), s.size ())\<close>: the first clears up to the
  first NUL, which must exist; the second writes no NUL behind the text. A longer text runs over the buffer.\<close>

definition clear_cstr :: "string \<Rightarrow> string res" where
  "clear_cstr buf =
     (if CHR 0x00 \<notin> set buf then Inl Undefined
      else Inr (replicate (length (c_str buf)) (CHR 0x00) @ drop (length (c_str buf)) buf))"

definition copy_cstr :: "string \<Rightarrow> string \<Rightarrow> string res" where
  "copy_cstr s buf =
     (if length buf < length s then Inl Undefined
      else Inr (c_str s @ replicate (length s - length (c_str s)) (CHR 0x00) @ drop (length s) buf))"

definition put_result :: "string \<Rightarrow> string \<Rightarrow> string res" where
  "put_result s buf = bind_res (clear_cstr buf) (copy_cstr s)"

section \<open>The operations\<close>

text \<open>Only after a successful start the handle is set.\<close>

definition c_zht_init_std :: "string list \<Rightarrow> string list \<Rightarrow> bool \<Rightarrow> conf_handler \<Rightarrow> (int \<times> bool \<times> conf_handler) res" where
  "c_zht_init_std zhtConfig neighborConf h ch =
     bind_res (zht_client_init zhtConfig neighborConf ch) (\<lambda>(rc, _, _, ch').
       Inr (if rc \<noteq> 0 then (-1, h, ch') else (0, True, ch')))"

definition c_zht_lookup_std :: "'s transport \<Rightarrow> string \<Rightarrow> string \<Rightarrow> 's \<Rightarrow> ((int \<times> string) \<times> 's) res" where
  "c_zht_lookup_std sr key result s =
     bind_res (zc_lookup sr (c_str key) [] s) (\<lambda>(ret, resultStr, s').
       bind_res (put_result resultStr result) (\<lambda>result'. Inr ((ret, result'), s')))"

definition c_zht_remove_std :: "'s transport \<Rightarrow> string \<Rightarrow> 's \<Rightarrow> (int \<times> 's) res" where
  "c_zht_remove_std sr key s = zc_remove sr (c_str key) s"

definition c_zht_insert_std :: "'s transport \<Rightarrow> string \<Rightarrow> string \<Rightarrow> 's \<Rightarrow> (int \<times> 's) res" where
  "c_zht_insert_std sr key val s = zc_insert sr (c_str key) (c_str val) s"

definition c_zht_append_std :: "'s transport \<Rightarrow> string \<Rightarrow> string \<Rightarrow> 's \<Rightarrow> (int \<times> 's) res" where
  "c_zht_append_std sr key val s = zc_append sr (c_str key) (c_str val) s"

definition c_zht_compare_swap_std ::
    "'s transport \<Rightarrow> string \<Rightarrow> string \<Rightarrow> string \<Rightarrow> string \<Rightarrow> 's \<Rightarrow> ((int \<times> string) \<times> 's) res" where
  "c_zht_compare_swap_std sr key seen_value new_value value_queried s =
     bind_res (zc_compare_swap sr (c_str key) (c_str seen_value) (c_str new_value) [] s) (\<lambda>(rc, resultStr, s').
       bind_res (put_result resultStr value_queried) (\<lambda>value_queried'. Inr ((rc, value_queried'), s')))"

definition c_state_change_callback_std :: "'s transport \<Rightarrow> string \<Rightarrow> string \<Rightarrow> int \<Rightarrow> 's \<Rightarrow> (int \<times> 's) res" where
  "c_state_change_callback_std sr key expected_val lease s = zc_state_change_callback sr (c_str key) (c_str expected_val) lease s"

text \<open>\<open>teardown\<close> of the proxy, then the client is deleted: the handle may not be used any more.\<close>

definition c_zht_teardown_std :: "('s \<Rightarrow> bool \<times> 's) \<Rightarrow> 's \<Rightarrow> int \<times> bool \<times> 's" where
  "c_zht_teardown_std teardown s = (case teardown s of (done, s') \<Rightarrow> (if done then 0 else -1, False, s'))"

section \<open>The interface with a global handle\<close>

record 's c_client =
  cc_handle :: bool
  cc_state :: 's

definition with_client :: "('s \<Rightarrow> ('r \<times> 's) res) \<Rightarrow> 's c_client \<Rightarrow> ('r \<times> 's c_client) res" where
  "with_client f cc =
     (if cc_handle cc then bind_res (f (cc_state cc)) (\<lambda>(r, s). Inr (r, cc\<lparr>cc_state := s\<rparr>)) else Inl Undefined)"

definition c_zht_init :: "string list \<Rightarrow> string list \<Rightarrow> conf_handler \<Rightarrow> 's c_client \<Rightarrow> (int \<times> conf_handler \<times> 's c_client) res" where
  "c_zht_init zhtConfig neighborConf ch cc =
     bind_res (c_zht_init_std zhtConfig neighborConf (cc_handle cc) ch) (\<lambda>(rc, h, ch'). Inr (rc, ch', cc\<lparr>cc_handle := h\<rparr>))"

definition c_zht_lookup :: "'s transport \<Rightarrow> string \<Rightarrow> string \<Rightarrow> 's c_client \<Rightarrow> ((int \<times> string) \<times> 's c_client) res" where
  "c_zht_lookup sr key result = with_client (c_zht_lookup_std sr key result)"

definition c_zht_remove :: "'s transport \<Rightarrow> string \<Rightarrow> 's c_client \<Rightarrow> (int \<times> 's c_client) res" where
  "c_zht_remove sr key = with_client (c_zht_remove_std sr key)"

definition c_zht_insert :: "'s transport \<Rightarrow> string \<Rightarrow> string \<Rightarrow> 's c_client \<Rightarrow> (int \<times> 's c_client) res" where
  "c_zht_insert sr key val = with_client (c_zht_insert_std sr key val)"

definition c_zht_append :: "'s transport \<Rightarrow> string \<Rightarrow> string \<Rightarrow> 's c_client \<Rightarrow> (int \<times> 's c_client) res" where
  "c_zht_append sr key val = with_client (c_zht_append_std sr key val)"

definition c_zht_compare_swap ::
    "'s transport \<Rightarrow> string \<Rightarrow> string \<Rightarrow> string \<Rightarrow> string \<Rightarrow> 's c_client \<Rightarrow> ((int \<times> string) \<times> 's c_client) res" where
  "c_zht_compare_swap sr key seen_value new_value value_queried = with_client (c_zht_compare_swap_std sr key seen_value new_value value_queried)"

definition c_state_change_callback :: "'s transport \<Rightarrow> string \<Rightarrow> string \<Rightarrow> int \<Rightarrow> 's c_client \<Rightarrow> (int \<times> 's c_client) res" where
  "c_state_change_callback sr key expected_val lease = with_client (c_state_change_callback_std sr key expected_val lease)"

definition c_zht_teardown :: "('s \<Rightarrow> bool \<times> 's) \<Rightarrow> 's c_client \<Rightarrow> (int \<times> 's c_client) res" where
  "c_zht_teardown teardown cc =
     (if cc_handle cc
      then (case c_zht_teardown_std teardown (cc_state cc) of (rc, h, s) \<Rightarrow> Inr (rc, \<lparr>cc_handle = h, cc_state = s\<rparr>))
      else Inl Undefined)"

section \<open>What the caller reads\<close>

text \<open>A clean buffer: it holds a C string and only zeros behind it.\<close>

definition clean :: "string \<Rightarrow> bool" where
  "clean buf \<longleftrightarrow> CHR 0x00 \<in> set buf \<and> list_all (\<lambda>b. b = CHR 0x00) (drop (length (c_str buf)) buf)"

lemma clear_clean: "clean buf \<Longrightarrow> clear_cstr buf = Inr (replicate (length buf) (CHR 0x00))"
proof -
  assume c: "clean buf"
  let ?n = "length (c_str buf)"
  have le: "?n \<le> length buf" by (simp add: c_str_def length_takeWhile_le)
  have "drop ?n buf = replicate (length buf - ?n) (CHR 0x00)"
    using c by (intro replicate_eqI) (auto simp: clean_def list_all_iff)
  then show ?thesis using c le by (simp add: clear_cstr_def clean_def replicate_add [symmetric])
qed

lemma put_result_clean:
  assumes "clean buf" and "length s < length buf" and "CHR 0x00 \<notin> set s"
  shows "\<exists>buf'. put_result s buf = Inr buf' \<and> c_str buf' = s \<and> clean buf' \<and> length buf' = length buf"
proof -
  let ?z = "replicate (length buf - length s) (CHR 0x00)"
  have s: "c_str s = s" using assms(3) by (rule c_str_id)
  have r: "put_result s buf = Inr (s @ ?z)"
    using assms(2) by (simp add: put_result_def clear_clean [OF assms(1)] copy_cstr_def s)
  have "c_str (s @ ?z) = s"
    using assms(2,3) unfolding c_str_def by (subst takeWhile_append2) (auto simp: takeWhile_eq_Nil_iff)
  moreover have "clean (s @ ?z)" using assms(2) calculation by (auto simp: clean_def list_all_iff)
  ultimately show ?thesis using r assms(2) by (intro exI [of _ "s @ ?z"]) simp
qed

text \<open>A buffer with other bytes behind its NUL: the caller reads them behind a result that reaches them.\<close>

lemma put_result_stale:
  assumes "CHR 0x00 \<notin> set s" and "CHR 0x00 \<notin> set junk" and "s \<noteq> []"
  shows "put_result s (CHR 0x00 # replicate (length s - 1) (CHR 0x00) @ junk @ [CHR 0x00]) = Inr (s @ junk @ [CHR 0x00])"
    and "c_str (s @ junk @ [CHR 0x00]) = s @ junk"
proof -
  have s: "c_str s = s" using assms(1) by (rule c_str_id)
  have d: "drop (length s) (CHR 0x00 # replicate (length s - 1) (CHR 0x00) @ junk @ [CHR 0x00]) = junk @ [CHR 0x00]" using assms(3) by (cases s) simp_all
  show "put_result s (CHR 0x00 # replicate (length s - 1) (CHR 0x00) @ junk @ [CHR 0x00]) = Inr (s @ junk @ [CHR 0x00])"
    using assms(3) d by (simp add: put_result_def clear_cstr_def copy_cstr_def c_str_def [of "_ # _"] s)
  have "CHR 0x00 \<notin> set (s @ junk)" using assms(1,2) by simp
  then show "c_str (s @ junk @ [CHR 0x00]) = s @ junk"
    unfolding c_str_def append_assoc [symmetric] by (subst takeWhile_append2) auto
qed

text \<open>A caller that keeps one buffer for all results; what it reads after each call.\<close>

fun c_do :: "'s transport \<Rightarrow> zht_op \<Rightarrow> string \<Rightarrow> 's c_client \<Rightarrow> ((int \<times> string) \<times> string \<times> 's c_client) res" where
  "c_do sr (ZLookup k) buf cc = bind_res (c_zht_lookup sr k buf cc) (\<lambda>((rc, buf'), cc'). Inr ((rc, c_str buf'), buf', cc'))"
| "c_do sr (ZInsert k v) buf cc = bind_res (c_zht_insert sr k v cc) (\<lambda>(rc, cc'). Inr ((rc, []), buf, cc'))"
| "c_do sr (ZCswap k v w) buf cc = bind_res (c_zht_compare_swap sr k v w buf cc) (\<lambda>((rc, buf'), cc'). Inr ((rc, c_str buf'), buf', cc'))"
| "c_do sr (ZRemove k) buf cc = bind_res (c_zht_remove sr k cc) (\<lambda>(rc, cc'). Inr ((rc, []), buf, cc'))"

fun c_run :: "'s transport \<Rightarrow> zht_op list \<Rightarrow> string \<Rightarrow> 's c_client \<Rightarrow> ((int \<times> string) list \<times> string \<times> 's c_client) res" where
  "c_run sr [] buf cc = Inr ([], buf, cc)"
| "c_run sr (x # xs) buf cc =
     bind_res (c_do sr x buf cc) (\<lambda>(r, buf', cc').
       bind_res (c_run sr xs buf' cc') (\<lambda>(rs, buf'', cc''). Inr (r # rs, buf'', cc'')))"

definition fits :: "string \<Rightarrow> int \<times> string \<Rightarrow> bool" where
  "fits buf r \<longleftrightarrow> length (snd r) < length buf \<and> CHR 0x00 \<notin> set (snd r)"

lemma ok_c_str: "key_ok mx k \<Longrightarrow> c_str k = k" "val_ok mx v \<Longrightarrow> c_str v = v"
  by (auto simp: key_ok_def val_ok_def field_ok_def list_all_iff intro!: c_str_id)

lemma c_do_agrees:
  assumes "cc_handle cc" and "zop_ok mx x" and "zht_do (ops_over sr) x (cc_state cc) = Inr (rc, out, s')" and "clean buf" and "fits buf (rc, out)"
  shows "\<exists>buf'. c_do sr x buf cc = Inr ((rc, out), buf', cc\<lparr>cc_state := s'\<rparr>) \<and> clean buf' \<and> length buf' = length buf"
proof -
  obtain buf' where b: "put_result out buf = Inr buf'" "c_str buf' = out" "clean buf'" "length buf' = length buf"
    using put_result_clean [OF assms(4), of out] assms(5) by (auto simp: fits_def)
  show ?thesis
    using assms(1-4) b
    by (cases x) (auto simp: ops_over_def c_zht_lookup_def c_zht_insert_def c_zht_compare_swap_def c_zht_remove_def with_client_def
        c_zht_remove_std_def c_zht_lookup_std_def c_zht_insert_std_def c_zht_compare_swap_std_def ok_c_str bind_res_eq_Inr)
qed

lemma c_run_agrees:
  assumes "cc_handle cc" and "list_all (zop_ok mx) ops" and "zht_run_ops (ops_over sr) ops (cc_state cc) = Inr (outs, s')" and "clean buf"
    and "list_all (fits buf) outs"
  shows "\<exists>buf'. c_run sr ops buf cc = Inr (outs, buf', cc\<lparr>cc_state := s'\<rparr>) \<and> clean buf' \<and> length buf' = length buf"
  using assms
proof (induction ops arbitrary: cc outs buf)
  case (Cons x xs)
  obtain rc out s1 outs' where 1: "zht_do (ops_over sr) x (cc_state cc) = Inr (rc, out, s1)"
      "zht_run_ops (ops_over sr) xs s1 = Inr (outs', s')" "outs = (rc, out) # outs'"
    using Cons.prems(3) by (auto simp: bind_res_eq_Inr)
  have f: "zop_ok mx x" "fits buf (rc, out)" using Cons.prems(2,5) 1(3) by simp_all
  obtain b1 where b1: "c_do sr x buf cc = Inr ((rc, out), b1, cc\<lparr>cc_state := s1\<rparr>)" "clean b1" "length b1 = length buf"
    using c_do_agrees [OF Cons.prems(1) f(1) 1(1) Cons.prems(4) f(2)] by blast
  have "list_all (fits b1) outs'" using Cons.prems(5) 1(3) b1(3) by (simp add: fits_def list_all_iff)
  then show ?case using Cons.IH [of "cc\<lparr>cc_state := s1\<rparr>" outs' b1] Cons.prems(1,2) 1 b1 by fastforce
qed simp

section \<open>Properties\<close>

text \<open>Property C19. The C interface gives the operations on a map: a caller that started the client and keeps one buffer
  for all results, clean and longer than each of them, reads after every \<open>lookup\<close>, \<open>insert\<close>, \<open>remove\<close> and \<open>compare_swap\<close> the codes
  and values of the operations on a map, and the buffer stays clean.\<close>

theorem c_client_refines_map:
  assumes "deployed c (cc_state cc)" and "cc_handle cc" and "list_all (zop_ok (zc_msg_maxsize c)) ops" and "clean buf"
    and "list_all (fits buf) (fst (spec_run ops (zht_value c (cc_state cc))))"
  shows "\<exists>buf' ss. c_run (zht_sendrecv c) ops buf cc = Inr (fst (spec_run ops (zht_value c (cc_state cc))), buf', cc\<lparr>cc_state := ss\<rparr>)
    \<and> clean buf' \<and> deployed c ss \<and> zht_value c ss = snd (spec_run ops (zht_value c (cc_state cc)))"
proof -
  have z: "ops_over (zht_sendrecv c) = zht_ops_of c" by (simp add: ops_over_def zht_ops_of_def)
  from zht_run_refines [OF assms(1,3)] obtain ss where
    "zht_run_ops (ops_over (zht_sendrecv c)) ops (cc_state cc) = Inr (fst (spec_run ops (zht_value c (cc_state cc))), ss)"
    "deployed c ss" "zht_value c ss = snd (spec_run ops (zht_value c (cc_state cc)))" unfolding z by blast
  with c_run_agrees [OF assms(2,3) _ assms(4,5)] show ?thesis by blast
qed

theorem c_client_refines_map_witness:
  "\<exists>buf' ss. c_run (zht_sendrecv demo_conf) [ZLookup ''k'', ZInsert ''k'' ''1'', ZCswap ''k'' ''1'' ''2'', ZLookup ''k'']
       (replicate 8 (CHR 0x00)) \<lparr>cc_handle = True, cc_state = demo_cluster\<rparr> =
     Inr ([(-92, []), (0, []), (0, ''2''), (0, ''2'')], buf', \<lparr>cc_handle = True, cc_state = ss\<rparr>) \<and> clean buf'"
proof -
  have "clean (replicate 8 (CHR 0x00))" by (simp add: clean_def list_all_iff)
  then show ?thesis
    using c_client_refines_map [of demo_conf "\<lparr>cc_handle = True, cc_state = demo_cluster\<rparr>" "[ZLookup ''k'', ZInsert ''k'' ''1'', ZCswap ''k'' ''1'' ''2'', ZLookup ''k'']"
        "replicate 8 (CHR 0x00)"] demo_ok demo_deployed
    by (auto simp: demo_empty text_of_def fits_def)
qed

end
