(* ===== verification/Mq_Transport.thy ===== *)
theory Mq_Transport
  imports Zht_Client
begin

text \<open>
  The message queues between the clients of a node and its broker (\<^verbatim>\<open>ZHT/src/ipc_plus.h\<close>, \<^verbatim>\<open>ZHT/src/ipc_plus.cpp\<close>,
  \<^verbatim>\<open>ZHT/src/mq_proxy_stub.cpp\<close>, the loop of \<^verbatim>\<open>ZHT/src/mpi_broker.cpp\<close>): class \<open>Msg\<close> over a System V queue, the
  two-way queue of a server and its clients with the registration of a client at its first call, and all clients and
  the broker together as a step relation. A queue is the list of its messages, a message its type and its bytes;
  a queue that does not exist is \<open>None\<close>, and the calls on it fail. A call that the system interrupts is repeated
  at once, so an interruption is not seen.
\<close>

section \<open>Queues\<close>

type_synonym message = "int \<times> string"
type_synonym msg_queue = "message list option"

definition IPC_MAX_MSG_SZ :: nat where
  "IPC_MAX_MSG_SZ = 102400"

text \<open>\<open>msgrcv\<close>: the first message, the first of a type, or for a negative type the first of the lowest type up to its
  absolute value; \<open>None\<close> is that the caller waits.\<close>

fun take_first :: "(message \<Rightarrow> bool) \<Rightarrow> message list \<Rightarrow> (message \<times> message list) option" where
  "take_first P [] = None"
| "take_first P (x # q) = (if P x then Some (x, q) else map_option (\<lambda>(y, q'). (y, x # q')) (take_first P q))"

definition msgrcv :: "int \<Rightarrow> message list \<Rightarrow> (message \<times> message list) option" where
  "msgrcv t q =
     (if t = 0 then take_first (\<lambda>_. True) q
      else if 0 < t then take_first (\<lambda>m. fst m = t) q
      else (let ts = filter (\<lambda>t'. t' \<le> - t) (map fst q) in
            if ts = [] then None else take_first (\<lambda>m. fst m = Min (set ts)) q))"

section \<open>Class Msg\<close>

text \<open>The buffer of the current message: its type, its bytes and how many of them count.\<close>

record ipc_msg =
  m_mtype :: int
  m_mdata :: string
  m_size :: nat

definition msg_new :: ipc_msg where
  "msg_new = \<lparr>m_mtype = 0, m_mdata = [], m_size = 0\<rparr>"

definition msg_bytes :: "ipc_msg \<Rightarrow> string" where
  "msg_bytes m = take (m_size m) (m_mdata m)"

definition Snd_msg :: "ipc_msg \<Rightarrow> msg_queue \<Rightarrow> bool \<times> msg_queue" where
  "Snd_msg m q = (case q of None \<Rightarrow> (False, None) | Some ms \<Rightarrow> (True, Some (ms @ [(m_mtype m, msg_bytes m)])))"

text \<open>\<open>mSize\<close> is an \<open>unsigned int\<close>, which keeps the lower 32 bits of the size.\<close>

definition Snd :: "string \<Rightarrow> int \<Rightarrow> ipc_msg \<Rightarrow> msg_queue \<Rightarrow> bool \<times> ipc_msg \<times> msg_queue" where
  "Snd data mType m q =
     (if mType \<le> 0 then (False, m, q)
      else let m1 = m\<lparr>m_size := length data mod 2 ^ 32\<rparr> in
        if IPC_MAX_MSG_SZ < m_size m1 then (False, m1, q)
        else let m2 = m1\<lparr>m_mdata := take (m_size m1) data @ drop (m_size m1) (m_mdata m1), m_mtype := mType\<rparr> in
          (case Snd_msg m2 q of (ok, q') \<Rightarrow> (ok, m2, q')))"

text \<open>A message longer than the buffer stays in the queue, and the call fails.\<close>

definition Rcv :: "int \<Rightarrow> ipc_msg \<Rightarrow> msg_queue \<Rightarrow> (bool \<times> ipc_msg \<times> msg_queue) option" where
  "Rcv mType m q =
     (case q of
        None \<Rightarrow> Some (False, m, None)
      | Some ms \<Rightarrow>
          (case msgrcv mType ms of
             None \<Rightarrow> None
           | Some ((t, d), ms') \<Rightarrow>
               if IPC_MAX_MSG_SZ < length d then Some (False, m, Some ms)
               else Some (True, m\<lparr>m_mtype := t, m_mdata := d @ drop (length d) (m_mdata m), m_size := length d\<rparr>, Some ms')))"

definition RcvHigh :: "ipc_msg \<Rightarrow> msg_queue \<Rightarrow> (bool \<times> ipc_msg \<times> msg_queue) option" where
  "RcvHigh = Rcv (- 100)"

definition msg_destroy :: "msg_queue \<Rightarrow> bool \<times> msg_queue" where
  "msg_destroy q = (q \<noteq> None, None)"

definition numMsg :: "msg_queue \<Rightarrow> nat" where
  "numMsg q = (case q of None \<Rightarrow> 0 | Some ms \<Rightarrow> length ms)"

section \<open>Two-way queues\<close>

text \<open>The queue of the requests and the queue of the replies. \<open>destroy\<close> removes both.\<close>

record mq_queues =
  q_req :: msg_queue
  q_rep :: msg_queue

definition two_way_destroy :: "mq_queues \<Rightarrow> bool \<times> mq_queues" where
  "two_way_destroy q =
     (case msg_destroy (q_req q) of (r1, req) \<Rightarrow> case msg_destroy (q_rep q) of (r2, rep) \<Rightarrow> (r1 \<and> r2, \<lparr>q_req = req, q_rep = rep\<rparr>))"

text \<open>An \<open>int\<close> as its four bytes in memory, the lowest first, and back.\<close>

definition int_bytes :: "int \<Rightarrow> string" where
  "int_bytes n = (let k = nat (n mod 2 ^ 32) in map char_of [k, k div 256, k div 65536, k div 16777216])"

definition bytes_int :: "string \<Rightarrow> int" where
  "bytes_int s = signed_take_bit 31 (foldr (\<lambda>b n. of_char b + 256 * n) s 0)"

section \<open>The client\<close>

text \<open>A call of \<open>MQProxy::sendrecv\<close> stops at each system call: the registration is sent (\<open>Xmit\<close>), the address is awaited,
  the request is sent, the reply is awaited with what \<open>xmit\<close> returned. \<open>mc_calls\<close> and \<open>mc_got\<close> record the
  requests of all calls and the results of those that returned.\<close>

datatype call_phase = Ready | Xmit string | Await_Addr string | Xmit_Data string | Recv_Reply bool

record mq_client =
  mc_req :: ipc_msg
  mc_rep :: ipc_msg
  mc_addr :: int
  mc_phase :: call_phase
  mc_calls :: "string list"
  mc_got :: "(bool \<times> string) list"

definition client_new :: mq_client where
  "client_new = \<lparr>mc_req = msg_new, mc_rep = msg_new, mc_addr = 0, mc_phase = Ready, mc_calls = [], mc_got = []\<rparr>"

definition mq_call :: "string \<Rightarrow> mq_client \<Rightarrow> mq_client" where
  "mq_call msg c = c\<lparr>mc_phase := Xmit msg, mc_calls := mc_calls c @ [msg]\<rparr>"

definition xmit_data :: "string \<Rightarrow> mq_client \<Rightarrow> mq_queues \<Rightarrow> mq_client \<times> mq_queues" where
  "xmit_data msg c q =
     (case Snd msg (mc_addr c) (mc_req c) (q_req q) of (ok, m, req) \<Rightarrow>
        (c\<lparr>mc_req := m, mc_phase := Recv_Reply ok\<rparr>, q\<lparr>q_req := req\<rparr>))"

definition xmit_register :: "string \<Rightarrow> mq_client \<Rightarrow> mq_queues \<Rightarrow> mq_client \<times> mq_queues" where
  "xmit_register msg c q =
     (case Snd ''R'' 1 (mc_req c) (q_req q) of (ok, m, req) \<Rightarrow>
        (c\<lparr>mc_req := m, mc_phase := if ok then Await_Addr msg else Recv_Reply False\<rparr>, q\<lparr>q_req := req\<rparr>))"

definition xmit_address :: "string \<Rightarrow> mq_client \<Rightarrow> mq_queues \<Rightarrow> (mq_client \<times> mq_queues) option" where
  "xmit_address msg c q =
     map_option (\<lambda>(ok, m, rep).
       (if ok then c\<lparr>mc_rep := m, mc_addr := bytes_int (msg_bytes m), mc_phase := Xmit_Data msg\<rparr>
        else c\<lparr>mc_rep := m, mc_phase := Recv_Reply False\<rparr>, q\<lparr>q_rep := rep\<rparr>)) (Rcv 2 (mc_rep c) (q_rep q))"

definition client_recv :: "bool \<Rightarrow> mq_client \<Rightarrow> mq_queues \<Rightarrow> (mq_client \<times> mq_queues) option" where
  "client_recv sent c q =
     (if mc_addr c = 0 then Some (c\<lparr>mc_phase := Ready, mc_got := mc_got c @ [(False, [])]\<rparr>, q)
      else map_option (\<lambda>(ok, m, rep).
        (c\<lparr>mc_rep := m, mc_phase := Ready, mc_got := mc_got c @ [(sent \<and> ok, if ok then msg_bytes m else [])]\<rparr>, q\<lparr>q_rep := rep\<rparr>))
          (Rcv (mc_addr c) (mc_rep c) (q_rep q)))"

definition client_step :: "mq_client \<Rightarrow> mq_queues \<Rightarrow> (mq_client \<times> mq_queues) option" where
  "client_step c q =
     (case mc_phase c of
        Ready \<Rightarrow> None
      | Xmit msg \<Rightarrow> Some (if mc_addr c = 0 then xmit_register msg c q else xmit_data msg c q)
      | Await_Addr msg \<Rightarrow> xmit_address msg c q
      | Xmit_Data msg \<Rightarrow> Some (xmit_data msg c q)
      | Recv_Reply sent \<Rightarrow> client_recv sent c q)"

section \<open>The broker\<close>

datatype broker_phase = B_Recv | B_Serve string | B_Reply string | B_Exit

record mq_server =
  ms_req :: ipc_msg
  ms_rep :: ipc_msg
  ms_next :: int
  ms_phase :: broker_phase

definition server_new :: mq_server where
  "server_new = \<lparr>ms_req = msg_new, ms_rep = msg_new, ms_next = 0x100, ms_phase = B_Recv\<rparr>"

definition next_client :: "int \<Rightarrow> int" where
  "next_client a = (if 32000 < a + 1 then 3 else a + 1)"

text \<open>One round of the loop in \<open>MsgServer::recv\<close>: a registration is answered, whatever the answer's fate, and the loop
  goes on; any other message is returned to the broker.\<close>

definition server_recv :: "mq_server \<Rightarrow> mq_queues \<Rightarrow> (mq_server \<times> mq_queues) option" where
  "server_recv srv q =
     map_option (\<lambda>(ok, m, req).
       if \<not> ok then (srv\<lparr>ms_req := m, ms_phase := B_Exit\<rparr>, q\<lparr>q_req := req\<rparr>)
       else if m_mtype m = 1
       then (case Snd (int_bytes (ms_next srv)) 2 (ms_rep srv) (q_rep q) of (_, r, rep) \<Rightarrow>
               (srv\<lparr>ms_req := m, ms_rep := r, ms_next := next_client (ms_next srv)\<rparr>, \<lparr>q_req = req, q_rep = rep\<rparr>))
       else (srv\<lparr>ms_req := m, ms_phase := B_Serve (msg_bytes m)\<rparr>, q\<lparr>q_req := req\<rparr>)) (Rcv 0 (ms_req srv) (q_req q))"

definition server_xmit :: "string \<Rightarrow> mq_server \<Rightarrow> mq_queues \<Rightarrow> mq_server \<times> mq_queues" where
  "server_xmit ans srv q =
     (case Snd ans (m_mtype (ms_req srv)) (ms_rep srv) (q_rep q) of (ok, r, rep) \<Rightarrow>
        (srv\<lparr>ms_rep := r, ms_phase := if ok then B_Recv else B_Exit\<rparr>, q\<lparr>q_rep := rep\<rparr>))"

text \<open>The broker passes a request on (\<open>sendrecv\<close> of the proxy to the servers) and ends when a call fails.
  \<open>mq_hist\<close> records the requests it passed on, with the type they came with, and their answers.\<close>

type_synonym 's backend = "string \<Rightarrow> 's \<Rightarrow> (bool \<times> string \<times> 's) res"

record 's mq =
  mq_q :: mq_queues
  mq_srv :: mq_server
  mq_clients :: "mq_client list"
  mq_store :: 's
  mq_hist :: "(int \<times> string \<times> string) list"

definition broker_step :: "'s backend \<Rightarrow> 's mq \<Rightarrow> 's mq option" where
  "broker_step h m =
     (let srv = mq_srv m in
      case ms_phase srv of
        B_Recv \<Rightarrow> map_option (\<lambda>(srv', q'). m\<lparr>mq_srv := srv', mq_q := q'\<rparr>) (server_recv srv (mq_q m))
      | B_Serve d \<Rightarrow>
          (case h d (mq_store m) of
             Inl _ \<Rightarrow> None
           | Inr (ok, ans, s') \<Rightarrow>
               Some (if ok then m\<lparr>mq_srv := srv\<lparr>ms_phase := B_Reply ans\<rparr>, mq_store := s',
                                  mq_hist := mq_hist m @ [(m_mtype (ms_req srv), d, ans)]\<rparr>
                     else m\<lparr>mq_srv := srv\<lparr>ms_phase := B_Exit\<rparr>, mq_store := s'\<rparr>))
      | B_Reply ans \<Rightarrow> (case server_xmit ans srv (mq_q m) of (srv', q') \<Rightarrow> Some (m\<lparr>mq_srv := srv', mq_q := q'\<rparr>))
      | B_Exit \<Rightarrow> None)"

definition mq_client_step :: "nat \<Rightarrow> 's mq \<Rightarrow> 's mq option" where
  "mq_client_step i m =
     map_option (\<lambda>(c', q'). m\<lparr>mq_clients := (mq_clients m)[i := c'], mq_q := q'\<rparr>) (client_step (mq_clients m ! i) (mq_q m))"

definition mq_start :: "nat \<Rightarrow> 's \<Rightarrow> 's mq" where
  "mq_start n s = \<lparr>mq_q = \<lparr>q_req = Some [], q_rep = Some []\<rparr>, mq_srv = server_new, mq_clients = replicate n client_new, mq_store = s, mq_hist = []\<rparr>"

text \<open>Steps of the clients and the broker that started, and the same with new calls, whose requests satisfy \<open>ok\<close>.\<close>

inductive mq_work :: "'s backend \<Rightarrow> 's mq \<Rightarrow> 's mq \<Rightarrow> bool" for h where
  client: "i < length (mq_clients m) \<Longrightarrow> mq_client_step i m = Some m' \<Longrightarrow> mq_work h m m'"
| broker: "broker_step h m = Some m' \<Longrightarrow> mq_work h m m'"

inductive mq_reach :: "'s backend \<Rightarrow> (string \<Rightarrow> bool) \<Rightarrow> 's mq \<Rightarrow> 's mq \<Rightarrow> bool" for h ok m0 where
  start: "mq_reach h ok m0 m0"
| work: "mq_reach h ok m0 m \<Longrightarrow> mq_work h m m' \<Longrightarrow> mq_reach h ok m0 m'"
| call: "mq_reach h ok m0 m \<Longrightarrow> i < length (mq_clients m) \<Longrightarrow> mc_phase (mq_clients m ! i) = Ready \<Longrightarrow> ok msg \<Longrightarrow>
    mq_reach h ok m0 (m\<lparr>mq_clients := (mq_clients m)[i := mq_call msg (mq_clients m ! i)]\<rparr>)"

section \<open>Addresses\<close>

lemma int_bytes_length [simp]: "length (int_bytes n) = 4"
  by (simp add: int_bytes_def Let_def)

lemma of_char_of_int: "of_char (char_of (k :: nat)) = int (k mod 256)"
  by (metis of_char_of of_nat_of_char)

lemma bytes_int_bytes:
  assumes "0 \<le> n" and "n < 2 ^ 31"
  shows "bytes_int (int_bytes n) = n"
proof -
  define k where "k = nat n"
  have k: "n = int k" "k < 2 ^ 31" using assms by (simp_all add: k_def)
  define k1 k2 k3 where r: "k1 = k div 256" "k2 = k1 div 256" "k3 = k2 div 256"
  have e: "k div 65536 = k2" "k div 16777216 = k3" by (simp_all add: r div_mult2_eq [symmetric])
  have "k3 mod 256 = k3" using k(2) by (simp add: e(2) [symmetric] less_mult_imp_div_less)
  then have d: "k = k mod 256 + 256 * (k1 mod 256 + 256 * (k2 mod 256 + 256 * (k3 mod 256)))" by (simp add: r)
  have "nat (n mod 2 ^ 32) = k" using k by simp
  then have "foldr (\<lambda>b n. of_char b + 256 * n) (int_bytes n) 0 = int (k mod 256 + 256 * (k1 mod 256 + 256 * (k2 mod 256 + 256 * (k3 mod 256))))"
    by (simp add: int_bytes_def e r(1) Let_def of_char_of_int)
  then have "foldr (\<lambda>b n. of_char b + 256 * n) (int_bytes n) 0 = n" using d k(1) by simp
  moreover have "signed_take_bit 31 n = n" using assms by (simp add: signed_take_bit_int_eq_self)
  ultimately show ?thesis by (simp add: bytes_int_def)
qed

definition addr_seq :: "nat \<Rightarrow> int" where
  "addr_seq k = (next_client ^^ k) 0x100"

lemma addr_seq_simps: "addr_seq 0 = 256" "addr_seq (Suc k) = next_client (addr_seq k)"
  by (simp_all add: addr_seq_def)

lemma addr_seq_closed: "addr_seq k = 3 + int ((253 + k) mod 31998)"
proof (induction k)
  case (Suc k)
  have "(253 + Suc k) mod 31998 = (if Suc ((253 + k) mod 31998) = 31998 then 0 else Suc ((253 + k) mod 31998))"
    using mod_Suc [of "253 + k" 31998] by simp
  moreover have "(253 + k) mod 31998 < 31998" by (rule mod_less_divisor) simp
  ultimately show ?case unfolding addr_seq_simps(2) Suc.IH next_client_def by (simp split: if_splits)
qed (simp add: addr_seq_simps)

lemma addr_seq_range: "3 \<le> addr_seq k" "addr_seq k \<le> 32000"
proof -
  have "(253 + k) mod 31998 < 31998" by (rule mod_less_divisor) simp
  then show "3 \<le> addr_seq k" "addr_seq k \<le> 32000" unfolding addr_seq_closed by linarith+
qed

lemma addr_seq_fresh:
  assumes "k < 31998" and "j < k"
  shows "addr_seq j \<noteq> addr_seq k"
proof
  assume "addr_seq j = addr_seq k"
  then have "(253 + j) mod 31998 = (253 + k) mod 31998" by (simp add: addr_seq_closed)
  then have "31998 dvd k - j" using assms(2) using mod_eq_dvd_iff_nat [of "253 + j" "253 + k" 31998] by simp
  then show False using assms by (auto dest: dvd_imp_le)
qed

text \<open>The 31999th client would get the address of the first one.\<close>

lemma addresses_repeat: "addr_seq 31998 = addr_seq 0"
  by (simp add: addr_seq_closed)

section \<open>Taking messages\<close>

definition of_type :: "int \<Rightarrow> (int \<times> 'a) list \<Rightarrow> (int \<times> 'a) list" where
  "of_type t xs = filter (\<lambda>x. fst x = t) xs"

lemma of_type_simps [simp]:
  "of_type t [] = []" "of_type t (x # xs) = (if fst x = t then x # of_type t xs else of_type t xs)" "of_type t (xs @ ys) = of_type t xs @ of_type t ys"
  by (simp_all add: of_type_def)

lemma of_type_set: "x \<in> set (of_type t xs) \<longleftrightarrow> x \<in> set xs \<and> fst x = t"
  by (auto simp: of_type_def)

lemma take_first_Some:
  "take_first P q = Some (x, q') \<Longrightarrow> P x \<and> (\<exists>us vs. q = us @ x # vs \<and> q' = us @ vs \<and> (\<forall>u \<in> set us. \<not> P u))"
proof (induction q arbitrary: q')
  case (Cons y q)
  show ?case
  proof (cases "P y")
    case True
    then show ?thesis using Cons.prems by (intro conjI exI [of _ "[]"] exI [of _ q]) auto
  next
    case False
    then obtain q1 where q1: "take_first P q = Some (x, q1)" "q' = y # q1" using Cons.prems by auto
    from Cons.IH [OF q1(1)] obtain us vs where "P x" "q = us @ x # vs" "q1 = us @ vs" "\<forall>u \<in> set us. \<not> P u" by blast
    then show ?thesis using False q1(2) by (intro conjI exI [of _ "y # us"] exI [of _ vs]) auto
  qed
qed simp

lemma take_first_None: "take_first P q = None \<longleftrightarrow> (\<forall>x \<in> set q. \<not> P x)"
  by (induction q) auto

lemma msgrcv_any: "msgrcv 0 q = (case q of [] \<Rightarrow> None | x # q' \<Rightarrow> Some (x, q'))"
  by (cases q) (simp_all add: msgrcv_def)

lemma msgrcv_type:
  assumes "0 < t" and "msgrcv t q = Some (x, q')"
  shows "fst x = t" and "of_type t q = x # of_type t q'" and "t' \<noteq> t \<Longrightarrow> of_type t' q' = of_type t' q" and "set q = insert x (set q')"
proof -
  obtain us vs where u: "fst x = t" "q = us @ x # vs" "q' = us @ vs" "\<forall>u \<in> set us. fst u \<noteq> t"
    using take_first_Some [of "\<lambda>m. fst m = t" q x q'] assms by (auto simp: msgrcv_def)
  have "of_type t us = []" using u(4) by (simp add: of_type_def filter_empty_conv)
  then show "fst x = t" "of_type t q = x # of_type t q'" "t' \<noteq> t \<Longrightarrow> of_type t' q' = of_type t' q" "set q = insert x (set q')" using u by auto
qed

lemma msgrcv_waits: "0 < t \<Longrightarrow> msgrcv t q = None \<longleftrightarrow> of_type t q = []"
  by (auto simp: msgrcv_def take_first_None of_type_def filter_empty_conv)

definition sized :: "message list \<Rightarrow> bool" where
  "sized q \<longleftrightarrow> (\<forall>x \<in> set q. length (snd x) \<le> IPC_MAX_MSG_SZ)"

lemma Snd_ok:
  assumes "0 < t" and "length d \<le> IPC_MAX_MSG_SZ"
  shows "\<exists>m'. Snd d t m (Some q) = (True, m', Some (q @ [(t, d)]))"
  using assms by (simp add: Snd_def Snd_msg_def msg_bytes_def IPC_MAX_MSG_SZ_def Let_def)

lemma Rcv_ok:
  assumes "sized q"
  shows "Rcv t m (Some q) = (case msgrcv t q of None \<Rightarrow> None | Some (x, q') \<Rightarrow>
    Some (True, m\<lparr>m_mtype := fst x, m_mdata := snd x @ drop (length (snd x)) (m_mdata m), m_size := length (snd x)\<rparr>, Some q'))"
proof (cases "msgrcv t q")
  case (Some y)
  obtain a d q' where y: "y = ((a, d), q')" by (metis prod.collapse)
  have "\<exists>P. take_first P q = Some ((a, d), q')" using Some y by (auto simp: msgrcv_def Let_def split: if_splits)
  then have "(a, d) \<in> set q" using take_first_Some by fastforce
  then have "length d \<le> IPC_MAX_MSG_SZ" using assms by (auto simp: sized_def)
  then show ?thesis using Some y by (simp add: Rcv_def)
qed (simp add: Rcv_def)

section \<open>What a step does\<close>

lemma xmit_register_ok:
  assumes "q_req q = Some rq" and "mc_phase c = Xmit d" and "mc_addr c = 0" and "client_step c q = Some (c', q')"
  shows "\<exists>mm. c' = c\<lparr>mc_req := mm, mc_phase := Await_Addr d\<rparr> \<and> q' = q\<lparr>q_req := Some (rq @ [(1, ''R'')])\<rparr>"
proof -
  obtain mm where "Snd ''R'' 1 (mc_req c) (Some rq) = (True, mm, Some (rq @ [(1, ''R'')]))"
    using Snd_ok [of 1 "''R''" "mc_req c" rq] by (auto simp: IPC_MAX_MSG_SZ_def)
  then show ?thesis using assms by (auto simp: client_step_def xmit_register_def)
qed

lemma xmit_data_ok:
  assumes "q_req q = Some rq" and "mc_phase c = Xmit_Data d \<or> mc_phase c = Xmit d" and "0 < mc_addr c" and "length d \<le> IPC_MAX_MSG_SZ"
    and "client_step c q = Some (c', q')"
  shows "\<exists>mm. c' = c\<lparr>mc_req := mm, mc_phase := Recv_Reply True\<rparr> \<and> q' = q\<lparr>q_req := Some (rq @ [(mc_addr c, d)])\<rparr>"
proof -
  obtain mm where "Snd d (mc_addr c) (mc_req c) (Some rq) = (True, mm, Some (rq @ [(mc_addr c, d)]))"
    using Snd_ok [OF assms(3,4), of "mc_req c" rq] by blast
  then show ?thesis using assms by (auto simp: client_step_def xmit_data_def)
qed

lemma xmit_address_ok:
  assumes "q_rep q = Some rp" and "sized rp" and "mc_phase c = Await_Addr d"
  shows "client_step c q = map_option (\<lambda>(x, rp').
    (c\<lparr>mc_rep := (mc_rep c)\<lparr>m_mtype := fst x, m_mdata := snd x @ drop (length (snd x)) (m_mdata (mc_rep c)), m_size := length (snd x)\<rparr>,
       mc_addr := bytes_int (snd x), mc_phase := Xmit_Data d\<rparr>, q\<lparr>q_rep := Some rp'\<rparr>)) (msgrcv 2 rp)"
  using assms by (auto simp: client_step_def xmit_address_def Rcv_ok msg_bytes_def split: option.splits)

lemma client_recv_ok:
  assumes "q_rep q = Some rp" and "sized rp" and "mc_phase c = Recv_Reply True" and "0 < mc_addr c"
  shows "client_step c q = map_option (\<lambda>(x, rp').
    (c\<lparr>mc_rep := (mc_rep c)\<lparr>m_mtype := fst x, m_mdata := snd x @ drop (length (snd x)) (m_mdata (mc_rep c)), m_size := length (snd x)\<rparr>,
       mc_phase := Ready, mc_got := mc_got c @ [(True, snd x)]\<rparr>, q\<lparr>q_rep := Some rp'\<rparr>)) (msgrcv (mc_addr c) rp)"
  using assms by (auto simp: client_step_def client_recv_def Rcv_ok msg_bytes_def split: option.splits)

lemma server_recv_ok:
  assumes "q_req q = Some (x # rq)" and "q_rep q = Some rp" and "sized (x # rq)"
  shows "\<exists>mm r. m_mtype mm = fst x \<and> server_recv srv q =
    Some (if fst x = 1 then (srv\<lparr>ms_req := mm, ms_rep := r, ms_next := next_client (ms_next srv)\<rparr>, \<lparr>q_req = Some rq, q_rep = Some (rp @ [(2, int_bytes (ms_next srv))])\<rparr>)
          else (srv\<lparr>ms_req := mm, ms_phase := B_Serve (snd x)\<rparr>, q\<lparr>q_req := Some rq\<rparr>))"
proof -
  obtain r where r: "Snd (int_bytes (ms_next srv)) 2 (ms_rep srv) (Some rp) = (True, r, Some (rp @ [(2, int_bytes (ms_next srv))]))"
    using Snd_ok [of 2 "int_bytes (ms_next srv)" "ms_rep srv" rp] by (auto simp: IPC_MAX_MSG_SZ_def)
  let ?mm = "(ms_req srv)\<lparr>m_mtype := fst x, m_mdata := snd x @ drop (length (snd x)) (m_mdata (ms_req srv)), m_size := length (snd x)\<rparr>"
  have "Rcv 0 (ms_req srv) (q_req q) = Some (True, ?mm, Some rq)" using assms by (simp add: Rcv_ok msgrcv_any)
  then show ?thesis using r assms by (intro exI [of _ ?mm] exI [of _ r]) (auto simp: server_recv_def msg_bytes_def)
qed

lemma server_xmit_ok:
  assumes "q_rep q = Some rp" and "0 < m_mtype (ms_req srv)" and "length ans \<le> IPC_MAX_MSG_SZ"
  shows "\<exists>r. server_xmit ans srv q = (srv\<lparr>ms_rep := r, ms_phase := B_Recv\<rparr>, q\<lparr>q_rep := Some (rp @ [(m_mtype (ms_req srv), ans)])\<rparr>)"
  using Snd_ok [OF assms(2,3), of "ms_rep srv" rp] assms(1) by (auto simp: server_xmit_def)

section \<open>The invariant\<close>

definition reqs :: "'s mq \<Rightarrow> message list" where
  "reqs m = (case q_req (mq_q m) of None \<Rightarrow> [] | Some q \<Rightarrow> q)"

definition reps :: "'s mq \<Rightarrow> message list" where
  "reps m = (case q_rep (mq_q m) of None \<Rightarrow> [] | Some q \<Rightarrow> q)"

text \<open>Where the messages of an address are: in the queue of the requests, at the broker, in the queue of the replies.\<close>

definition flying :: "'s mq \<Rightarrow> int \<Rightarrow> message list \<times> broker_phase \<times> message list" where
  "flying m a = (of_type a (reqs m), if m_mtype (ms_req (mq_srv m)) = a then ms_phase (mq_srv m) else B_Recv, of_type a (reps m))"

definition asked :: "(int \<times> string \<times> string) list \<Rightarrow> string list" where
  "asked H = map (\<lambda>(_, d, _). d) H"

definition answers :: "(int \<times> string \<times> string) list \<Rightarrow> string list" where
  "answers H = map (\<lambda>(_, _, r). r) H"

lemma history_simps [simp]:
  "asked [] = []" "asked (G @ H) = asked G @ asked H" "asked [(a, d, r)] = [d]"
  "answers [] = []" "answers (G @ H) = answers G @ answers H" "answers [(a, d, r)] = [r]"
  by (simp_all add: asked_def answers_def)

definition client_fine :: "(string \<Rightarrow> bool) \<Rightarrow> 's mq \<Rightarrow> mq_client \<Rightarrow> bool" where
  "client_fine ok m c =
     (let a = mc_addr c; F = flying m a; H = of_type a (mq_hist m) in
      case mc_phase c of
        Ready \<Rightarrow> F = ([], B_Recv, []) \<and> mc_calls c = asked H \<and> mc_got c = map (Pair True) (answers H)
      | Xmit d \<Rightarrow> ok d \<and> F = ([], B_Recv, []) \<and> mc_calls c = asked H @ [d] \<and> mc_got c = map (Pair True) (answers H)
      | Await_Addr d \<Rightarrow> a = 0 \<and> ok d \<and> F = ([], B_Recv, []) \<and> mc_calls c = asked H @ [d] \<and> mc_got c = map (Pair True) (answers H)
      | Xmit_Data d \<Rightarrow> a \<noteq> 0 \<and> ok d \<and> F = ([], B_Recv, []) \<and> mc_calls c = asked H @ [d] \<and> mc_got c = map (Pair True) (answers H)
      | Recv_Reply sent \<Rightarrow> sent \<and> a \<noteq> 0 \<and>
          ((\<exists>d. ok d \<and> (F = ([(a, d)], B_Recv, []) \<or> F = ([], B_Serve d, [])) \<and> mc_calls c = asked H @ [d] \<and> mc_got c = map (Pair True) (answers H))
           \<or> (\<exists>G d r. H = G @ [(a, d, r)] \<and> length r \<le> IPC_MAX_MSG_SZ \<and> (F = ([], B_Reply r, []) \<or> F = ([], B_Recv, [(a, r)]))
                \<and> mc_calls c = asked H \<and> mc_got c = map (Pair True) (answers G))))"

definition waiting :: "mq_client \<Rightarrow> bool" where
  "waiting c \<longleftrightarrow> (case mc_phase c of Await_Addr _ \<Rightarrow> True | _ \<Rightarrow> False)"

definition addr_at :: "'s mq \<Rightarrow> nat \<Rightarrow> int" where
  "addr_at m i = mc_addr (mq_clients m ! i)"

definition held :: "'s mq \<Rightarrow> int set" where
  "held m = {a. a \<noteq> 0 \<and> (\<exists>i < length (mq_clients m). addr_at m i = a)}"

text \<open>The addresses given out so far are at different clients or on their way to one, and each client that registers
  waits for its request to be served or for an address on its way.\<close>

definition addrs_fine :: "'s mq \<Rightarrow> bool" where
  "addrs_fine m \<longleftrightarrow>
     (\<exists>g. ms_next (mq_srv m) = addr_seq g \<and> held m \<subseteq> addr_seq ` {..<g}
        \<and> (\<forall>i < length (mq_clients m). \<forall>j < length (mq_clients m). i \<noteq> j \<longrightarrow> addr_at m i = addr_at m j \<longrightarrow> addr_at m i = 0)
        \<and> distinct (map snd (of_type 2 (reps m)))
        \<and> (\<forall>x \<in> set (of_type 2 (reps m)). \<exists>a \<in> addr_seq ` {..<g} - held m. snd x = int_bytes a)
        \<and> g + length (of_type 1 (reqs m)) = length (filter (\<lambda>c. mc_addr c \<noteq> 0 \<or> waiting c) (mq_clients m))
        \<and> length (filter waiting (mq_clients m)) = length (of_type 1 (reqs m)) + length (of_type 2 (reps m)))"

definition queues_fine :: "'s mq \<Rightarrow> bool" where
  "queues_fine m \<longleftrightarrow> q_req (mq_q m) = Some (reqs m) \<and> q_rep (mq_q m) = Some (reps m) \<and> sized (reqs m) \<and> sized (reps m)
     \<and> fst ` set (reqs m) \<subseteq> insert 1 (held m) \<and> fst ` set (reps m) \<subseteq> insert 2 (held m) \<and> fst ` set (mq_hist m) \<subseteq> held m
     \<and> (ms_phase (mq_srv m) \<noteq> B_Recv \<longrightarrow> m_mtype (ms_req (mq_srv m)) \<in> held m)"

fun backend_run :: "'s backend \<Rightarrow> string list \<Rightarrow> 's \<Rightarrow> (string list \<times> 's) option" where
  "backend_run h [] s = Some ([], s)"
| "backend_run h (d # ds) s =
     (case h d s of
        Inr (True, r, s') \<Rightarrow> map_option (\<lambda>(rs, t). (r # rs, t)) (backend_run h ds s')
      | _ \<Rightarrow> None)"

lemma backend_run_snoc:
  "backend_run h ds s = Some (rs, t) \<Longrightarrow> h d t = Inr (True, r, t') \<Longrightarrow> backend_run h (ds @ [d]) s = Some (rs @ [r], t')"
  by (induction ds arbitrary: s rs) (auto split: sum.splits bool.splits)

definition mq_fine :: "'s backend \<Rightarrow> (string \<Rightarrow> bool) \<Rightarrow> ('s \<Rightarrow> bool) \<Rightarrow> 's \<Rightarrow> 's mq \<Rightarrow> bool" where
  "mq_fine h ok up s m \<longleftrightarrow> addrs_fine m \<and> queues_fine m \<and> (\<forall>c \<in> set (mq_clients m). client_fine ok m c)
     \<and> backend_run h (asked (mq_hist m)) s = Some (answers (mq_hist m), mq_store m) \<and> up (mq_store m)"

lemma held_range: "addrs_fine m \<Longrightarrow> a \<in> held m \<Longrightarrow> 3 \<le> a \<and> a \<le> 32000"
  using addr_seq_range unfolding addrs_fine_def by blast

lemma addr_cases: "addrs_fine m \<Longrightarrow> c \<in> set (mq_clients m) \<Longrightarrow> mc_addr c = 0 \<or> mc_addr c \<in> held m"
  by (auto simp: held_def addr_at_def in_set_conv_nth)

lemma client_fine_cong:
  "client_fine ok m c \<Longrightarrow> flying m' (mc_addr c) = flying m (mc_addr c) \<Longrightarrow> of_type (mc_addr c) (mq_hist m') = of_type (mc_addr c) (mq_hist m) \<Longrightarrow>
   client_fine ok m' c"
  by (simp only: client_fine_def Let_def)

lemma length_filter_update:
  "i < length xs \<Longrightarrow> length (filter P (xs[i := y])) + (if P (xs ! i) then 1 else 0) = length (filter P xs) + (if P y then 1 else 0)"
proof (induction xs arbitrary: i)
  case (Cons x xs)
  then show ?case by (cases i) auto
qed simp

lemma length_filter_same: "i < length xs \<Longrightarrow> P (xs ! i) = P y \<Longrightarrow> length (filter P (xs[i := y])) = length (filter P xs)"
  using length_filter_update [of i xs P y] by simp

lemma held_cong:
  "length (mq_clients m') = length (mq_clients m) \<Longrightarrow> (\<And>j. j < length (mq_clients m) \<Longrightarrow> addr_at m' j = addr_at m j) \<Longrightarrow> held m' = held m"
  by (auto simp: held_def)

text \<open>A step that leaves addresses and registrations as they are.\<close>

lemma addrs_fine_cong:
  assumes "addrs_fine m" and "length (mq_clients m') = length (mq_clients m)" and "\<And>j. j < length (mq_clients m) \<Longrightarrow> addr_at m' j = addr_at m j"
    and "ms_next (mq_srv m') = ms_next (mq_srv m)" and "of_type 2 (reps m') = of_type 2 (reps m)" and "of_type 1 (reqs m') = of_type 1 (reqs m)"
    and "length (filter waiting (mq_clients m')) = length (filter waiting (mq_clients m))"
    and "length (filter (\<lambda>c. mc_addr c \<noteq> 0 \<or> waiting c) (mq_clients m')) = length (filter (\<lambda>c. mc_addr c \<noteq> 0 \<or> waiting c) (mq_clients m))"
  shows "addrs_fine m'"
proof -
  have h: "held m' = held m" using assms(2,3) by (rule held_cong)
  show ?thesis using assms unfolding addrs_fine_def h by auto
qed

lemma mtype_flying: "flying m a = (us, ph, vs) \<Longrightarrow> ph \<noteq> B_Recv \<Longrightarrow> m_mtype (ms_req (mq_srv m)) = a \<and> ms_phase (mq_srv m) = ph"
  by (auto simp: flying_def split: if_splits)

text \<open>The other clients of a step of client \<open>i\<close> have other addresses.\<close>

lemma others_fine:
  assumes "addrs_fine m" and "\<forall>c \<in> set (mq_clients m). client_fine ok m c" and "i < length (mq_clients m)"
    and "mq_clients m' = (mq_clients m)[i := c']" and "mq_hist m' = mq_hist m"
    and "\<And>b. b = 0 \<or> b \<in> held m \<and> b \<noteq> addr_at m i \<Longrightarrow> flying m' b = flying m b" and "client_fine ok m' c'"
  shows "\<forall>c \<in> set (mq_clients m'). client_fine ok m' c"
proof
  fix c assume "c \<in> set (mq_clients m')"
  then obtain j where j: "j < length (mq_clients m)" "c = (mq_clients m)[i := c'] ! j" using assms(4) by (auto simp: in_set_conv_nth)
  show "client_fine ok m' c"
  proof (cases "j = i")
    case True
    then show ?thesis using j assms(7) by simp
  next
    case False
    then have c: "c = mq_clients m ! j" using j by simp
    have "client_fine ok m c" using assms(2) j(1) c by simp
    moreover have "mc_addr c = 0 \<or> mc_addr c \<in> held m \<and> mc_addr c \<noteq> addr_at m i"
    proof (cases "mc_addr c = 0")
      case n0: False
      then have "mc_addr c \<in> held m" using j(1) c by (auto simp: held_def addr_at_def)
      moreover have "mc_addr c \<noteq> addr_at m i"
        using assms(1,3) j(1) False n0 c unfolding addrs_fine_def by (metis addr_at_def)
      ultimately show ?thesis by blast
    qed simp
    ultimately show ?thesis using assms(5,6) client_fine_cong by metis
  qed
qed

lemma call_fine:
  assumes "mq_fine h ok up s m" and "i < length (mq_clients m)" and "mc_phase (mq_clients m ! i) = Ready" and "ok d"
  shows "mq_fine h ok up s (m\<lparr>mq_clients := (mq_clients m)[i := mq_call d (mq_clients m ! i)]\<rparr>)" (is "mq_fine _ _ _ _ ?m'")
proof -
  let ?c = "mq_clients m ! i"
  have c: "client_fine ok m ?c" and a: "addrs_fine m" using assms(1,2) by (simp_all add: mq_fine_def)
  have q: "reqs ?m' = reqs m" "reps ?m' = reps m" "flying ?m' = flying m" by (simp_all add: reqs_def reps_def flying_def fun_eq_iff)
  have at: "addr_at ?m' j = addr_at m j" if "j < length (mq_clients m)" for j
    using that by (cases "j = i") (simp_all add: addr_at_def mq_call_def)
  have w: "\<not> waiting ?c" "\<not> waiting (mq_call d ?c)" using assms(3) by (simp_all add: waiting_def mq_call_def)
  have n: "length (filter waiting (mq_clients ?m')) = length (filter waiting (mq_clients m))"
      "length (filter (\<lambda>c. mc_addr c \<noteq> 0 \<or> waiting c) (mq_clients ?m')) = length (filter (\<lambda>c. mc_addr c \<noteq> 0 \<or> waiting c) (mq_clients m))"
    using w assms(2) by (simp_all add: length_filter_same) (simp add: length_filter_same mq_call_def)
  have a': "addrs_fine ?m'" by (rule addrs_fine_cong [OF a _ at _ _ _ n]) (simp_all add: q)
  have fc: "client_fine ok ?m' (mq_call d ?c)" using c assms(3,4) q by (simp add: client_fine_def mq_call_def Let_def)
  have "\<forall>c \<in> set (mq_clients ?m'). client_fine ok ?m' c"
    by (rule others_fine [OF a _ assms(2) _ _ _ fc]) (use assms(1) q in \<open>simp_all add: mq_fine_def\<close>)
  moreover have "held ?m' = held m" by (rule held_cong) (use at in simp_all)
  ultimately show ?thesis using assms(1) a' q by (simp add: mq_fine_def queues_fine_def)
qed

text \<open>What stays the same when client \<open>i\<close> takes a step and keeps its address.\<close>

lemma same_address:
  assumes "mq_clients m' = (mq_clients m)[i := c']" and "i < length (mq_clients m)" and "mc_addr c' = mc_addr (mq_clients m ! i)"
  shows "length (mq_clients m') = length (mq_clients m)" and "\<And>j. j < length (mq_clients m) \<Longrightarrow> addr_at m' j = addr_at m j" and "held m' = held m"
proof -
  show l: "length (mq_clients m') = length (mq_clients m)" using assms(1) by simp
  show at: "addr_at m' j = addr_at m j" if "j < length (mq_clients m)" for j
    using that assms by (cases "j = i") (simp_all add: addr_at_def)
  show "held m' = held m" using l at by (rule held_cong)
qed

lemma held_types:
  assumes "addrs_fine m" and "b = 0 \<or> b \<in> held m"
  shows "b \<noteq> 1" and "b \<noteq> 2"
  using held_range [OF assms(1)] assms(2) by force+

lemma held_addr: "i < length (mq_clients m) \<Longrightarrow> mc_addr (mq_clients m ! i) \<noteq> 0 \<Longrightarrow> mc_addr (mq_clients m ! i) \<in> held m"
  by (auto simp: held_def addr_at_def)

lemma register_fine:
  assumes "mq_fine h ok up s m" and i: "i < length (mq_clients m)" and c: "mc_phase (mq_clients m ! i) = Xmit d" "mc_addr (mq_clients m ! i) = 0"
    and m': "m' = m\<lparr>mq_clients := (mq_clients m)[i := (mq_clients m ! i)\<lparr>mc_req := mm, mc_phase := Await_Addr d\<rparr>],
       mq_q := (mq_q m)\<lparr>q_req := Some (reqs m @ [(1, ''R'')])\<rparr>\<rparr>"
  shows "mq_fine h ok up s m'"
proof -
  let ?c = "mq_clients m ! i" and ?c' = "(mq_clients m ! i)\<lparr>mc_req := mm, mc_phase := Await_Addr d\<rparr>"
  note a = assms(1) [unfolded mq_fine_def, THEN conjunct1] and q = assms(1) [unfolded mq_fine_def, THEN conjunct2, THEN conjunct1]
  have cl: "mq_clients m' = (mq_clients m)[i := ?c']" "mc_addr ?c' = mc_addr ?c" by (simp_all add: m')
  note sm = same_address [OF cl(1) i cl(2)]
  have r: "reqs m' = reqs m @ [(1, ''R'')]" "reps m' = reps m" "mq_srv m' = mq_srv m" "mq_hist m' = mq_hist m"
    by (simp_all add: m' reqs_def) (simp add: reps_def)
  have qq: "q_req (mq_q m') = Some (reqs m')" "q_rep (mq_q m') = q_rep (mq_q m)" by (simp_all add: m' reqs_def)
  have f: "flying m' b = flying m b" if "b = 0 \<or> b \<in> held m" for b using held_types [OF a that] by (simp add: flying_def r)
  have w: "\<not> waiting ?c" "waiting ?c'" using c by (simp_all add: waiting_def)
  have n: "length (filter waiting (mq_clients m')) = Suc (length (filter waiting (mq_clients m)))"
      "length (filter (\<lambda>c. mc_addr c \<noteq> 0 \<or> waiting c) (mq_clients m')) = Suc (length (filter (\<lambda>c. mc_addr c \<noteq> 0 \<or> waiting c) (mq_clients m)))"
    using length_filter_update [OF i, of waiting ?c'] length_filter_update [OF i, of "\<lambda>c. mc_addr c \<noteq> 0 \<or> waiting c" ?c'] w c(2) by (simp_all add: cl)
  have "addrs_fine m'" using a n sm(1,2) unfolding addrs_fine_def sm(3) by (auto simp: r)
  moreover have "client_fine ok m ?c" using assms(1) i by (simp add: mq_fine_def)
  then have fc: "client_fine ok m' ?c'" using f [of 0] c by (simp add: client_fine_def r Let_def)
  have "\<forall>c \<in> set (mq_clients m'). client_fine ok m' c"
    by (rule others_fine [OF a _ i cl(1) r(4) _ fc]) (use f assms(1) in \<open>auto simp: mq_fine_def\<close>)
  moreover have "queues_fine m'" using q by (auto simp: queues_fine_def qq r sm(3) sized_def IPC_MAX_MSG_SZ_def)
  moreover have "mq_store m' = mq_store m" by (simp add: m')
  ultimately show ?thesis using assms(1) r by (simp add: mq_fine_def)
qed

lemma data_fine:
  assumes "mq_fine h ok up s m" and i: "i < length (mq_clients m)" and c: "mc_phase (mq_clients m ! i) = Xmit_Data d \<or> mc_phase (mq_clients m ! i) = Xmit d" "mc_addr (mq_clients m ! i) \<noteq> 0"
    and sz: "length d \<le> IPC_MAX_MSG_SZ"
    and m': "m' = m\<lparr>mq_clients := (mq_clients m)[i := (mq_clients m ! i)\<lparr>mc_req := mm, mc_phase := Recv_Reply True\<rparr>],
       mq_q := (mq_q m)\<lparr>q_req := Some (reqs m @ [(mc_addr (mq_clients m ! i), d)])\<rparr>\<rparr>"
  shows "mq_fine h ok up s m'"
proof -
  let ?c = "mq_clients m ! i" and ?c' = "(mq_clients m ! i)\<lparr>mc_req := mm, mc_phase := Recv_Reply True\<rparr>"
  note a = assms(1) [unfolded mq_fine_def, THEN conjunct1] and q = assms(1) [unfolded mq_fine_def, THEN conjunct2, THEN conjunct1]
  have cl: "mq_clients m' = (mq_clients m)[i := ?c']" "mc_addr ?c' = mc_addr ?c" by (simp_all add: m')
  note sm = same_address [OF cl(1) i cl(2)] and ah = held_addr [OF i c(2)]
  have r: "reqs m' = reqs m @ [(mc_addr ?c, d)]" "reps m' = reps m" "mq_srv m' = mq_srv m" "mq_hist m' = mq_hist m"
    by (simp_all add: m' reqs_def) (simp add: reps_def)
  have qq: "q_req (mq_q m') = Some (reqs m')" "q_rep (mq_q m') = q_rep (mq_q m)" by (simp_all add: m' reqs_def)
  have t: "mc_addr ?c \<noteq> 1" using held_types [OF a] ah by blast
  have f: "flying m' b = flying m b" if "b = 0 \<or> b \<in> held m \<and> b \<noteq> addr_at m i" for b
    using that c(2) by (auto simp: flying_def r addr_at_def)
  have w: "\<not> waiting ?c" "\<not> waiting ?c'" using c by (auto simp: waiting_def)
  have n: "length (filter waiting (mq_clients m')) = length (filter waiting (mq_clients m))"
      "length (filter (\<lambda>c. mc_addr c \<noteq> 0 \<or> waiting c) (mq_clients m')) = length (filter (\<lambda>c. mc_addr c \<noteq> 0 \<or> waiting c) (mq_clients m))"
    unfolding cl(1) using w c(2) i by (simp_all add: length_filter_same)
  have "addrs_fine m'" by (rule addrs_fine_cong [OF a sm(1,2) _ _ _ n]) (use t in \<open>simp_all add: r\<close>)
  moreover have fc0: "client_fine ok m ?c" using assms(1) i by (simp add: mq_fine_def)
  then have "flying m (mc_addr ?c) = ([], B_Recv, [])" using c by (auto simp: client_fine_def Let_def)
  then have "flying m' (mc_addr ?c) = ([(mc_addr ?c, d)], B_Recv, [])" by (auto simp: flying_def r split: if_splits)
  then have fc: "client_fine ok m' ?c'" using fc0 c by (auto simp: client_fine_def r Let_def)
  have "\<forall>c \<in> set (mq_clients m'). client_fine ok m' c"
    by (rule others_fine [OF a _ i cl(1) r(4) _ fc]) (use f assms(1) in \<open>auto simp: mq_fine_def\<close>)
  moreover have "queues_fine m'" using q sz ah by (auto simp: queues_fine_def qq r sm(3) sized_def)
  moreover have "mq_store m' = mq_store m" by (simp add: m')
  ultimately show ?thesis using assms(1) r by (simp add: mq_fine_def)
qed

text \<open>An address on its way is nobody's yet, and no message has it.\<close>

lemma token_quiet:
  assumes "addrs_fine m" and "queues_fine m" and "a \<notin> held m" and "a \<noteq> 1" and "a \<noteq> 2"
  shows "flying m a = ([], B_Recv, [])" and "of_type a (mq_hist m) = []"
proof -
  have "of_type a (reqs m) = []" "of_type a (reps m) = []" "of_type a (mq_hist m) = []"
    using assms(2-5) unfolding queues_fine_def of_type_def filter_empty_conv by (metis image_eqI insertE subset_eq)+
  moreover have "m_mtype (ms_req (mq_srv m)) = a \<Longrightarrow> ms_phase (mq_srv m) = B_Recv" using assms(2,3) unfolding queues_fine_def by metis
  ultimately show "flying m a = ([], B_Recv, [])" "of_type a (mq_hist m) = []" by (simp_all add: flying_def)
qed

lemma token_taken:
  assumes a: "addrs_fine m" and rcv: "of_type 2 (reps m) = x # rest" and i: "i < length (mq_clients m)"
    and wt: "waiting (mq_clients m ! i)" "mc_addr (mq_clients m ! i) = 0" "\<not> waiting c'" "mc_addr c' = bytes_int (snd x)"
    and m': "mq_clients m' = (mq_clients m)[i := c']" "of_type 2 (reps m') = rest" "reqs m' = reqs m" "mq_srv m' = mq_srv m"
  shows "bytes_int (snd x) \<notin> held m" and "3 \<le> bytes_int (snd x)" and "held m' = insert (bytes_int (snd x)) (held m)" and "addrs_fine m'"
proof -
  obtain g where g: "ms_next (mq_srv m) = addr_seq g" "held m \<subseteq> addr_seq ` {..<g}"
      "\<forall>i < length (mq_clients m). \<forall>j < length (mq_clients m). i \<noteq> j \<longrightarrow> addr_at m i = addr_at m j \<longrightarrow> addr_at m i = 0"
      "distinct (map snd (x # rest))" "\<forall>y \<in> set (x # rest). \<exists>a \<in> addr_seq ` {..<g} - held m. snd y = int_bytes a"
      "g + length (of_type 1 (reqs m)) = length (filter (\<lambda>c. mc_addr c \<noteq> 0 \<or> waiting c) (mq_clients m))"
      "length (filter waiting (mq_clients m)) = length (of_type 1 (reqs m)) + length (x # rest)"
    using a unfolding addrs_fine_def rcv by blast
  have bk: "bytes_int (int_bytes (addr_seq k)) = addr_seq k" for k using addr_seq_range [of k] by (intro bytes_int_bytes) simp_all
  obtain k where k: "k < g" "addr_seq k \<notin> held m" "snd x = int_bytes (addr_seq k)" using g(5) by auto
  then have x: "bytes_int (snd x) = addr_seq k" by (simp add: bk)
  show nh: "bytes_int (snd x) \<notin> held m" and r3: "3 \<le> bytes_int (snd x)" using k x addr_seq_range by simp_all
  have at: "addr_at m' j = (if j = i then addr_seq k else addr_at m j)" if "j < length (mq_clients m)" for j
    using that i m'(1) wt(4) x by (simp add: addr_at_def)
  have len: "length (mq_clients m') = length (mq_clients m)" by (simp add: m'(1))
  have ai: "addr_at m i = 0" using wt(2) by (simp add: addr_at_def)
  show h: "held m' = insert (bytes_int (snd x)) (held m)"
  proof
    show "held m' \<subseteq> insert (bytes_int (snd x)) (held m)" by (auto simp: held_def len at x split: if_splits)
    show "insert (bytes_int (snd x)) (held m) \<subseteq> held m'" using i at ai r3 by (fastforce simp: held_def len x)
  qed
  have c: "Suc (length (filter waiting (mq_clients m'))) = length (filter waiting (mq_clients m))"
      "length (filter (\<lambda>c. mc_addr c \<noteq> 0 \<or> waiting c) (mq_clients m')) = length (filter (\<lambda>c. mc_addr c \<noteq> 0 \<or> waiting c) (mq_clients m))"
    using length_filter_update [OF i, of waiting c'] wt r3 unfolding m'(1) by (simp_all add: length_filter_same i)
  have "\<forall>y \<in> set rest. \<exists>a \<in> addr_seq ` {..<g} - held m'. snd y = int_bytes a"
  proof
    fix y assume y: "y \<in> set rest"
    then obtain a where a: "a \<in> addr_seq ` {..<g} - held m" "snd y = int_bytes a" using g(5) by auto
    have "snd y \<noteq> snd x" using g(4) y by (metis distinct.simps(2) image_eqI list.set_map list.simps(9))
    then have "a \<noteq> bytes_int (snd x)" using a(2) k(3) x by auto
    then show "\<exists>a \<in> addr_seq ` {..<g} - held m'. snd y = int_bytes a" using a h by auto
  qed
  moreover have "\<forall>i < length (mq_clients m'). \<forall>j < length (mq_clients m'). i \<noteq> j \<longrightarrow> addr_at m' i = addr_at m' j \<longrightarrow> addr_at m' i = 0"
  proof (intro allI impI)
    fix u v assume u: "u < length (mq_clients m')" "v < length (mq_clients m')" "u \<noteq> v" "addr_at m' u = addr_at m' v"
    have "addr_at m j \<noteq> addr_seq k" if "j < length (mq_clients m)" for j using k(2) that r3 x by (auto simp: held_def)
    then show "addr_at m' u = 0" using u g(3) at [of u] at [of v] by (auto simp: len split: if_splits)
  qed
  ultimately show "addrs_fine m'"
    unfolding addrs_fine_def m'(2-4) h using g(1,2,4,6,7) c k(1) x by (intro exI [of _ g]) auto
qed

lemma address_fine:
  assumes "mq_fine h ok up s m" and i: "i < length (mq_clients m)" and c: "mc_phase (mq_clients m ! i) = Await_Addr d"
    and rcv: "msgrcv 2 (reps m) = Some (x, rp)"
    and m': "m' = m\<lparr>mq_clients := (mq_clients m)[i := (mq_clients m ! i)\<lparr>mc_rep := mm, mc_addr := bytes_int (snd x), mc_phase := Xmit_Data d\<rparr>],
       mq_q := (mq_q m)\<lparr>q_rep := Some rp\<rparr>\<rparr>"
  shows "mq_fine h ok up s m'"
proof -
  let ?c = "mq_clients m ! i" and ?c' = "(mq_clients m ! i)\<lparr>mc_rep := mm, mc_addr := bytes_int (snd x), mc_phase := Xmit_Data d\<rparr>"
  note a = assms(1) [unfolded mq_fine_def, THEN conjunct1] and q = assms(1) [unfolded mq_fine_def, THEN conjunct2, THEN conjunct1]
  note ty = msgrcv_type [OF _ rcv, simplified]
  have fc0: "client_fine ok m ?c" using assms(1) i by (simp add: mq_fine_def)
  then have c0: "mc_addr ?c = 0" "ok d" "mc_calls ?c = asked (of_type 0 (mq_hist m)) @ [d]" "mc_got ?c = map (Pair True) (answers (of_type 0 (mq_hist m)))"
    using c by (auto simp: client_fine_def Let_def)
  have r: "reps m' = rp" "reqs m' = reqs m" "mq_srv m' = mq_srv m" "mq_hist m' = mq_hist m" "mq_store m' = mq_store m"
      "q_req (mq_q m') = q_req (mq_q m)" "q_rep (mq_q m') = Some rp"
    by (simp_all add: m' reps_def) (simp add: reqs_def)
  have cl: "mq_clients m' = (mq_clients m)[i := ?c']" by (simp add: m')
  note tk = token_taken [OF a ty(2) i, of ?c' m', simplified, OF _ c0(1) _ cl _ r(2,3)]
  have t: "bytes_int (snd x) \<notin> held m" "3 \<le> bytes_int (snd x)" "held m' = insert (bytes_int (snd x)) (held m)" "addrs_fine m'"
    using tk c r(1) by (simp_all add: waiting_def)
  have z: "0 \<notin> held m" by (simp add: held_def)
  have f: "flying m' b = flying m b" if "b \<noteq> 2" for b using that ty(3) by (simp add: flying_def r)
  note qa = token_quiet [OF a q t(1)] and q0 = token_quiet [OF a q z]
  have fc: "client_fine ok m' ?c'" using c c0 qa q0 f [of "bytes_int (snd x)"] t(2) by (simp add: client_fine_def r Let_def)
  have "\<forall>c \<in> set (mq_clients m'). client_fine ok m' c"
    by (rule others_fine [OF a _ i cl r(4) _ fc]) (use f held_types [OF a] assms(1) in \<open>auto simp: mq_fine_def\<close>)
  moreover have "queues_fine m'" using q ty(4) by (auto simp: queues_fine_def r t(3) sized_def)
  ultimately show ?thesis using assms(1) r t(4) by (simp add: mq_fine_def)
qed

lemma reply_fine:
  assumes "mq_fine h ok up s m" and i: "i < length (mq_clients m)" and c: "mc_phase (mq_clients m ! i) = Recv_Reply True"
    and rcv: "msgrcv (mc_addr (mq_clients m ! i)) (reps m) = Some (x, rp)"
    and m': "m' = m\<lparr>mq_clients := (mq_clients m)[i := (mq_clients m ! i)\<lparr>mc_rep := mm, mc_phase := Ready, mc_got := mc_got (mq_clients m ! i) @ [(True, snd x)]\<rparr>],
       mq_q := (mq_q m)\<lparr>q_rep := Some rp\<rparr>\<rparr>"
  shows "mq_fine h ok up s m'"
proof -
  let ?c = "mq_clients m ! i" and ?c' = "(mq_clients m ! i)\<lparr>mc_rep := mm, mc_phase := Ready, mc_got := mc_got (mq_clients m ! i) @ [(True, snd x)]\<rparr>"
  let ?a = "mc_addr ?c"
  note a = assms(1) [unfolded mq_fine_def, THEN conjunct1] and q = assms(1) [unfolded mq_fine_def, THEN conjunct2, THEN conjunct1]
  have fc0: "client_fine ok m ?c" using assms(1) i by (simp add: mq_fine_def)
  then have a0: "?a \<noteq> 0" using c by (simp add: client_fine_def Let_def)
  note ah = held_addr [OF i a0]
  have a3: "3 \<le> ?a" using held_range [OF a ah] by simp
  then have ap: "0 < ?a" by simp
  note ty = msgrcv_type [OF ap rcv]
  have r: "reps m' = rp" "reqs m' = reqs m" "mq_srv m' = mq_srv m" "mq_hist m' = mq_hist m" "mq_store m' = mq_store m"
      "q_req (mq_q m') = q_req (mq_q m)" "q_rep (mq_q m') = Some rp"
    by (simp_all add: m' reps_def) (simp add: reqs_def)
  have cl: "mq_clients m' = (mq_clients m)[i := ?c']" "mc_addr ?c' = ?a" by (simp_all add: m')
  note sm = same_address [OF cl(1) i cl(2)]
  have "snd (snd (flying m ?a)) \<noteq> []" using ty(2) by (simp add: flying_def)
  then obtain G d res where G: "of_type ?a (mq_hist m) = G @ [(?a, d, res)]" "flying m ?a = ([], B_Recv, [(?a, res)])"
      "mc_calls ?c = asked (of_type ?a (mq_hist m))" "mc_got ?c = map (Pair True) (answers G)"
    using fc0 c unfolding client_fine_def Let_def by auto
  have x: "x = (?a, res)" "of_type ?a rp = []" using G(2) ty(2) by (simp_all add: flying_def)
  have f: "flying m' b = flying m b" if "b \<noteq> ?a" for b using that ty(3) by (simp add: flying_def r)
  have fa: "flying m' ?a = ([], B_Recv, [])" using G(2) x(2) by (auto simp: flying_def r split: if_splits)
  have fc: "client_fine ok m' ?c'" using fa G x(1) by (simp add: client_fine_def r Let_def)
  have w: "\<not> waiting ?c" "\<not> waiting ?c'" using c by (simp_all add: waiting_def)
  have n: "length (filter waiting (mq_clients m')) = length (filter waiting (mq_clients m))"
      "length (filter (\<lambda>c. mc_addr c \<noteq> 0 \<or> waiting c) (mq_clients m')) = length (filter (\<lambda>c. mc_addr c \<noteq> 0 \<or> waiting c) (mq_clients m))"
    unfolding cl(1) using w i by (simp_all add: length_filter_same)
  have "addrs_fine m'" by (rule addrs_fine_cong [OF a sm(1,2) _ _ _ n]) (use ty(3) a3 in \<open>simp_all add: r\<close>)
  moreover have "\<forall>c \<in> set (mq_clients m'). client_fine ok m' c"
    by (rule others_fine [OF a _ i cl(1) r(4) _ fc]) (use f a0 assms(1) in \<open>auto simp: mq_fine_def addr_at_def\<close>)
  moreover have "queues_fine m'" using q ty(4) by (auto simp: queues_fine_def r sm(3) sized_def)
  ultimately show ?thesis using assms(1) r by (simp add: mq_fine_def)
qed

text \<open>The steps of the broker concern at most one address.\<close>

lemma broker_fine:
  assumes "\<forall>c \<in> set (mq_clients m). client_fine ok m c" and "mq_clients m' = mq_clients m"
    and "\<And>b. b = 0 \<or> b \<in> held m \<and> b \<noteq> a \<Longrightarrow> flying m' b = flying m b \<and> of_type b (mq_hist m') = of_type b (mq_hist m)"
    and "\<And>c. c \<in> set (mq_clients m) \<Longrightarrow> mc_addr c = a \<Longrightarrow> a \<noteq> 0 \<Longrightarrow> client_fine ok m' c"
  shows "\<forall>c \<in> set (mq_clients m'). client_fine ok m' c"
proof
  fix c assume "c \<in> set (mq_clients m')"
  then have c: "c \<in> set (mq_clients m)" using assms(2) by simp
  show "client_fine ok m' c"
  proof (cases "mc_addr c = a \<and> a \<noteq> 0")
    case False
    then have "mc_addr c = 0 \<or> mc_addr c \<in> held m \<and> mc_addr c \<noteq> a" using c by (auto simp: held_def addr_at_def in_set_conv_nth)
    then show ?thesis using assms(1,3) c client_fine_cong by metis
  qed (use assms(4) c in blast)
qed

lemma same_clients: "mq_clients m' = mq_clients m \<Longrightarrow> held m' = held m" "mq_clients m' = mq_clients m \<Longrightarrow> addr_at m' = addr_at m"
  by (simp_all add: held_def addr_at_def fun_eq_iff)

lemma token_given:
  assumes a: "addrs_fine m" and n: "length (mq_clients m) \<le> 31998" and r: "of_type 1 (reqs m) = x # of_type 1 (reqs m')"
    and m': "mq_clients m' = mq_clients m" "ms_next (mq_srv m') = next_client (ms_next (mq_srv m))" "of_type 2 (reps m') = of_type 2 (reps m) @ [(2, int_bytes (ms_next (mq_srv m)))]"
  shows "addrs_fine m'"
proof -
  obtain g where g: "ms_next (mq_srv m) = addr_seq g" "held m \<subseteq> addr_seq ` {..<g}"
      "\<forall>i < length (mq_clients m). \<forall>j < length (mq_clients m). i \<noteq> j \<longrightarrow> addr_at m i = addr_at m j \<longrightarrow> addr_at m i = 0"
      "distinct (map snd (of_type 2 (reps m)))" "\<forall>y \<in> set (of_type 2 (reps m)). \<exists>a \<in> addr_seq ` {..<g} - held m. snd y = int_bytes a"
      "g + length (of_type 1 (reqs m)) = length (filter (\<lambda>c. mc_addr c \<noteq> 0 \<or> waiting c) (mq_clients m))"
      "length (filter waiting (mq_clients m)) = length (of_type 1 (reqs m)) + length (of_type 2 (reps m))"
    using a unfolding addrs_fine_def by blast
  have "g + length (x # of_type 1 (reqs m')) \<le> length (mq_clients m)" using g(6) length_filter_le unfolding r by metis
  then have "g < 31998" using n by simp
  then have new: "addr_seq g \<notin> addr_seq ` {..<g}" by (metis addr_seq_fresh imageE lessThan_iff)
  have bk: "bytes_int (int_bytes (addr_seq k)) = addr_seq k" for k using addr_seq_range [of k] by (intro bytes_int_bytes) simp_all
  have "int_bytes (addr_seq g) \<noteq> snd y" if y: "y \<in> set (of_type 2 (reps m))" for y
  proof -
    obtain k where "k < g" "snd y = int_bytes (addr_seq k)" using g(5) y by auto
    then show ?thesis using new bk by (metis imageI lessThan_iff)
  qed
  then have d: "int_bytes (addr_seq g) \<notin> snd ` set (of_type 2 (reps m))" by auto
  have l: "addr_seq ` {..<g} \<subseteq> addr_seq ` {..<Suc g}" "addr_seq g \<in> addr_seq ` {..<Suc g}" by auto
  have "\<forall>y \<in> set (of_type 2 (reps m')). \<exists>a \<in> addr_seq ` {..<Suc g} - held m. snd y = int_bytes a"
  proof
    fix y assume "y \<in> set (of_type 2 (reps m'))"
    then consider "y \<in> set (of_type 2 (reps m))" | "snd y = int_bytes (addr_seq g)" by (auto simp: m'(3) g(1))
    then show "\<exists>a \<in> addr_seq ` {..<Suc g} - held m. snd y = int_bytes a"
    proof cases
      case 1
      then show ?thesis using g(5) l(1) by blast
    next
      case 2
      then show ?thesis using new g(2) l(2) by blast
    qed
  qed
  moreover have "ms_next (mq_srv m') = addr_seq (Suc g)" by (simp add: m'(2) g(1) addr_seq_simps)
  moreover have "held m \<subseteq> addr_seq ` {..<Suc g}" using g(2) l by blast
  moreover have "distinct (map snd (of_type 2 (reps m')))" using g(1,4) d by (simp add: m'(3))
  moreover have "Suc g + length (of_type 1 (reqs m')) = length (filter (\<lambda>c. mc_addr c \<noteq> 0 \<or> waiting c) (mq_clients m))" using g(6) r by simp
  moreover have "length (filter waiting (mq_clients m)) = length (of_type 1 (reqs m')) + length (of_type 2 (reps m'))" using g(7) r m'(3) by simp
  ultimately show ?thesis unfolding addrs_fine_def same_clients [OF m'(1)] m'(1) using g(3) by blast
qed

lemma recv_registration_fine:
  assumes "mq_fine h ok up s m" and "length (mq_clients m) \<le> 31998" and ph: "ms_phase (mq_srv m) = B_Recv" and rq: "reqs m = x # rq" "fst x = 1" and mm: "m_mtype mm = 1"
    and m': "m' = m\<lparr>mq_srv := (mq_srv m)\<lparr>ms_req := mm, ms_rep := rr, ms_next := next_client (ms_next (mq_srv m))\<rparr>,
       mq_q := \<lparr>q_req = Some rq, q_rep = Some (reps m @ [(2, int_bytes (ms_next (mq_srv m)))])\<rparr>\<rparr>"
  shows "mq_fine h ok up s m'"
proof -
  note a = assms(1) [unfolded mq_fine_def, THEN conjunct1] and q = assms(1) [unfolded mq_fine_def, THEN conjunct2, THEN conjunct1]
  have r: "reqs m' = rq" "reps m' = reps m @ [(2, int_bytes (ms_next (mq_srv m)))]" "mq_clients m' = mq_clients m" "mq_hist m' = mq_hist m"
      "mq_store m' = mq_store m" "ms_phase (mq_srv m') = B_Recv" "q_req (mq_q m') = Some (reqs m')" "q_rep (mq_q m') = Some (reps m')"
    by (simp_all add: m' reqs_def reps_def ph)
  have f: "flying m' b = flying m b" if "b = 0 \<or> b \<in> held m" for b using held_types [OF a that] by (simp add: flying_def r ph rq)
  have "addrs_fine m'" by (rule token_given [OF a assms(2)]) (use rq in \<open>simp_all add: r, simp_all add: m'\<close>)
  moreover have "\<forall>c \<in> set (mq_clients m'). client_fine ok m' c"
    by (rule broker_fine [of m, where a = 0]) (use assms(1) f in \<open>auto simp: mq_fine_def r\<close>)
  moreover have "queues_fine m'" using q rq by (auto simp: queues_fine_def r same_clients [OF r(3)] sized_def IPC_MAX_MSG_SZ_def)
  ultimately show ?thesis using assms(1) r by (simp add: mq_fine_def)
qed

lemma recv_request_fine:
  assumes "mq_fine h ok up s m" and ph: "ms_phase (mq_srv m) = B_Recv" and rq: "reqs m = x # rq" "fst x \<noteq> 1" and mm: "m_mtype mm = fst x"
    and m': "m' = m\<lparr>mq_srv := (mq_srv m)\<lparr>ms_req := mm, ms_phase := B_Serve (snd x)\<rparr>, mq_q := (mq_q m)\<lparr>q_req := Some rq\<rparr>\<rparr>"
  shows "mq_fine h ok up s m'"
proof -
  note a = assms(1) [unfolded mq_fine_def, THEN conjunct1] and q = assms(1) [unfolded mq_fine_def, THEN conjunct2, THEN conjunct1]
  have r: "reqs m' = rq" "reps m' = reps m" "mq_clients m' = mq_clients m" "mq_hist m' = mq_hist m" "mq_store m' = mq_store m" "ms_next (mq_srv m') = ms_next (mq_srv m)"
      "ms_phase (mq_srv m') = B_Serve (snd x)" "m_mtype (ms_req (mq_srv m')) = fst x" "q_req (mq_q m') = Some (reqs m')" "q_rep (mq_q m') = q_rep (mq_q m)"
    by (simp_all add: m' reqs_def mm) (simp add: reps_def)
  have xh: "fst x \<in> held m" using q rq by (auto simp: queues_fine_def)
  note x3 = held_range [OF a xh]
  have f: "flying m' b = flying m b" if "b \<noteq> fst x" for b using that by (simp add: flying_def r ph rq)
  have "client_fine ok m' c" if c: "c \<in> set (mq_clients m)" "mc_addr c = fst x" for c
  proof -
    have fc: "client_fine ok m c" using assms(1) c(1) by (simp add: mq_fine_def)
    have ne: "fst (flying m (mc_addr c)) = x # of_type (fst x) rq" using c(2) rq(1) by (simp add: flying_def)
    then obtain d where d: "ok d" "flying m (mc_addr c) = ([(mc_addr c, d)], B_Recv, [])" "mc_phase c = Recv_Reply True"
        "mc_calls c = asked (of_type (mc_addr c) (mq_hist m)) @ [d]" "mc_got c = map (Pair True) (answers (of_type (mc_addr c) (mq_hist m)))"
      using fc unfolding client_fine_def Let_def by (cases "mc_phase c") auto
    have x: "x = (mc_addr c, d)" "of_type (mc_addr c) rq = []" using ne d(2) c(2) by simp_all
    then have "flying m' (mc_addr c) = ([], B_Serve d, [])" using d(2) by (simp add: flying_def r)
    then show ?thesis using d x3 c(2) by (auto simp: client_fine_def r Let_def)
  qed
  then have "\<forall>c \<in> set (mq_clients m'). client_fine ok m' c"
    by (intro broker_fine [of m, where a = "fst x", OF _ r(3)]) (use assms(1) f xh in \<open>auto simp: mq_fine_def r held_def\<close>)
  moreover have "addrs_fine m'" by (rule addrs_fine_cong [OF a]) (use rq in \<open>simp_all add: r same_clients [OF r(3)]\<close>)
  moreover have "queues_fine m'" using q rq xh by (auto simp: queues_fine_def r same_clients [OF r(3)] sized_def)
  ultimately show ?thesis using assms(1) r by (simp add: mq_fine_def)
qed

lemma at_broker:
  assumes "client_fine ok m c" and "flying m (mc_addr c) = (us, ph, vs)" and "ph \<noteq> B_Recv"
  shows "mc_phase c = Recv_Reply True"
    and "(\<exists>d. ph = B_Serve d \<and> ok d \<and> us = [] \<and> vs = [] \<and> mc_calls c = asked (of_type (mc_addr c) (mq_hist m)) @ [d]
            \<and> mc_got c = map (Pair True) (answers (of_type (mc_addr c) (mq_hist m))))
       \<or> (\<exists>r G d. ph = B_Reply r \<and> us = [] \<and> vs = [] \<and> length r \<le> IPC_MAX_MSG_SZ \<and> of_type (mc_addr c) (mq_hist m) = G @ [(mc_addr c, d, r)]
            \<and> mc_calls c = asked (of_type (mc_addr c) (mq_hist m)) \<and> mc_got c = map (Pair True) (answers G))"
  using assms unfolding client_fine_def Let_def by (cases "mc_phase c"; auto)+

text \<open>The client whose request the broker has.\<close>

lemma client_of_broker:
  assumes "mq_fine h ok up s m" and "ms_phase (mq_srv m) \<noteq> B_Recv"
  obtains c where "c \<in> set (mq_clients m)" "mc_addr c = m_mtype (ms_req (mq_srv m))" "mc_addr c \<in> held m" "client_fine ok m c"
    "fst (snd (flying m (mc_addr c))) = ms_phase (mq_srv m)"
proof -
  have "m_mtype (ms_req (mq_srv m)) \<in> held m" using assms by (simp add: mq_fine_def queues_fine_def)
  then obtain i where "i < length (mq_clients m)" "addr_at m i = m_mtype (ms_req (mq_srv m))" "addr_at m i \<in> held m" by (auto simp: held_def)
  then show thesis using assms(1) by (intro that [of "mq_clients m ! i"]) (auto simp: addr_at_def mq_fine_def flying_def)
qed

lemma serve_fine:
  assumes "mq_fine h ok up s m" and ph: "ms_phase (mq_srv m) = B_Serve d" and r: "h d (mq_store m) = Inr (True, res, t)" "length res \<le> IPC_MAX_MSG_SZ" "up t"
    and m': "m' = m\<lparr>mq_srv := (mq_srv m)\<lparr>ms_phase := B_Reply res\<rparr>, mq_store := t, mq_hist := mq_hist m @ [(m_mtype (ms_req (mq_srv m)), d, res)]\<rparr>"
  shows "mq_fine h ok up s m'"
proof -
  let ?a = "m_mtype (ms_req (mq_srv m))"
  note a = assms(1) [unfolded mq_fine_def, THEN conjunct1] and q = assms(1) [unfolded mq_fine_def, THEN conjunct2, THEN conjunct1]
  have ah: "?a \<in> held m" using q ph by (simp add: queues_fine_def)
  have e: "reqs m' = reqs m" "reps m' = reps m" "mq_clients m' = mq_clients m" "mq_hist m' = mq_hist m @ [(?a, d, res)]" "mq_store m' = t"
      "mq_q m' = mq_q m" "ms_phase (mq_srv m') = B_Reply res" "ms_req (mq_srv m') = ms_req (mq_srv m)" "ms_next (mq_srv m') = ms_next (mq_srv m)"
    by (simp_all add: m' reqs_def reps_def)
  have f: "flying m' b = flying m b" if "b \<noteq> ?a" for b using that by (simp add: flying_def e)
  have "client_fine ok m' c" if c: "c \<in> set (mq_clients m)" "mc_addr c = ?a" for c
  proof -
    have fc: "client_fine ok m c" using assms(1) c(1) by (simp add: mq_fine_def)
    have fl: "flying m (mc_addr c) = (of_type ?a (reqs m), B_Serve d, of_type ?a (reps m))" using c(2) ph by (simp add: flying_def)
    note b = at_broker [OF fc fl, simplified]
    have "flying m' (mc_addr c) = ([], B_Reply res, [])" using b(2) c(2) by (simp add: flying_def e)
    then show ?thesis using b ah r(2) c(2) by (auto simp: client_fine_def e held_def Let_def)
  qed
  then have "\<forall>c \<in> set (mq_clients m'). client_fine ok m' c"
    by (intro broker_fine [of m, where a = ?a, OF _ e(3)]) (use assms(1) f ah in \<open>auto simp: mq_fine_def e held_def\<close>)
  moreover have "addrs_fine m'" by (rule addrs_fine_cong [OF a]) (simp_all add: e same_clients [OF e(3)])
  moreover have "queues_fine m'" using q ah by (auto simp: queues_fine_def e same_clients [OF e(3)])
  moreover have "backend_run h (asked (mq_hist m')) s = Some (answers (mq_hist m'), mq_store m')"
    using backend_run_snoc [of h "asked (mq_hist m)" s "answers (mq_hist m)" "mq_store m", OF _ r(1)] assms(1) by (simp add: mq_fine_def e)
  ultimately show ?thesis using r(3) by (simp add: mq_fine_def e)
qed

lemma send_fine:
  assumes "mq_fine h ok up s m" and ph: "ms_phase (mq_srv m) = B_Reply res" and sz: "length res \<le> IPC_MAX_MSG_SZ"
    and m': "m' = m\<lparr>mq_srv := (mq_srv m)\<lparr>ms_rep := rr, ms_phase := B_Recv\<rparr>, mq_q := (mq_q m)\<lparr>q_rep := Some (reps m @ [(m_mtype (ms_req (mq_srv m)), res)])\<rparr>\<rparr>"
  shows "mq_fine h ok up s m'"
proof -
  let ?a = "m_mtype (ms_req (mq_srv m))"
  note a = assms(1) [unfolded mq_fine_def, THEN conjunct1] and q = assms(1) [unfolded mq_fine_def, THEN conjunct2, THEN conjunct1]
  have ah: "?a \<in> held m" using q ph by (simp add: queues_fine_def)
  note a3 = held_range [OF a ah]
  have e: "reqs m' = reqs m" "reps m' = reps m @ [(?a, res)]" "mq_clients m' = mq_clients m" "mq_hist m' = mq_hist m" "mq_store m' = mq_store m"
      "q_req (mq_q m') = q_req (mq_q m)" "q_rep (mq_q m') = Some (reps m')" "ms_phase (mq_srv m') = B_Recv" "ms_next (mq_srv m') = ms_next (mq_srv m)"
    by (simp_all add: m' reps_def) (simp add: reqs_def)
  have f: "flying m' b = flying m b" if "b \<noteq> ?a" for b using that by (simp add: flying_def e)
  have "client_fine ok m' c" if c: "c \<in> set (mq_clients m)" "mc_addr c = ?a" for c
  proof -
    have fc: "client_fine ok m c" using assms(1) c(1) by (simp add: mq_fine_def)
    have fl: "flying m (mc_addr c) = (of_type ?a (reqs m), B_Reply res, of_type ?a (reps m))" using c(2) ph by (simp add: flying_def)
    note b = at_broker [OF fc fl, simplified]
    have "flying m' (mc_addr c) = ([], B_Recv, [(mc_addr c, res)])" using b(2) c(2) by (auto simp: flying_def e)
    then show ?thesis using b ah c(2) by (auto simp: client_fine_def e held_def Let_def)
  qed
  then have "\<forall>c \<in> set (mq_clients m'). client_fine ok m' c"
    by (intro broker_fine [of m, where a = ?a, OF _ e(3)]) (use assms(1) f ah in \<open>auto simp: mq_fine_def e held_def\<close>)
  moreover have "addrs_fine m'" by (rule addrs_fine_cong [OF a]) (use a3 in \<open>simp_all add: e same_clients [OF e(3)]\<close>)
  moreover have "queues_fine m'" using q ah sz by (auto simp: queues_fine_def e same_clients [OF e(3)] sized_def)
  ultimately show ?thesis using assms(1) by (simp add: mq_fine_def e)
qed

section \<open>Serving all clients\<close>

inductive_cases mq_work_cases: "mq_work h m m'"

lemma start_fine: "up s \<Longrightarrow> mq_fine h ok up s (mq_start n s)"
proof -
  assume u: "up s"
  let ?m = "mq_start n s"
  have e: "reqs ?m = []" "reps ?m = []" "held ?m = {}" "ms_phase (mq_srv ?m) = B_Recv" "mq_hist ?m = []" "mq_store ?m = s"
    by (auto simp: mq_start_def reqs_def reps_def held_def addr_at_def client_new_def server_new_def)
  have "addrs_fine ?m"
    unfolding addrs_fine_def e
    by (intro exI [of _ 0]) (simp add: mq_start_def addr_at_def client_new_def server_new_def addr_seq_simps waiting_def)
  moreover have "queues_fine ?m" unfolding queues_fine_def e by (simp add: mq_start_def sized_def)
  moreover have "client_fine ok ?m client_new" unfolding client_fine_def flying_def e by (simp add: client_new_def)
  then have "\<forall>c \<in> set (mq_clients ?m). client_fine ok ?m c" by (simp add: mq_start_def)
  ultimately show ?thesis using u by (simp add: mq_fine_def e)
qed

text \<open>How many steps a call, a request and a reply may still need.\<close>

fun call_cost :: "call_phase \<Rightarrow> nat" where
  "call_cost Ready = 0"
| "call_cost (Xmit _) = 8"
| "call_cost (Await_Addr _) = 6"
| "call_cost (Xmit_Data _) = 5"
| "call_cost (Recv_Reply _) = 1"

fun broker_cost :: "broker_phase \<Rightarrow> nat" where
  "broker_cost (B_Serve _) = 2"
| "broker_cost (B_Reply _) = 1"
| "broker_cost _ = 0"

definition queue_cost :: "message list \<Rightarrow> nat" where
  "queue_cost q = sum_list (map (\<lambda>x. if fst x = 1 then 1 else 3) q)"

definition mq_cost :: "'s mq \<Rightarrow> nat" where
  "mq_cost m = sum_list (map (\<lambda>c. call_cost (mc_phase c)) (mq_clients m)) + queue_cost (reqs m) + broker_cost (ms_phase (mq_srv m))"

lemma clients_cost_update:
  "i < length cs \<Longrightarrow> sum_list (map (\<lambda>c. call_cost (mc_phase c)) (cs[i := c'])) + call_cost (mc_phase (cs ! i)) =
     sum_list (map (\<lambda>c. call_cost (mc_phase c)) cs) + call_cost (mc_phase c')"
proof (induction cs arbitrary: i)
  case (Cons c cs)
  then show ?case by (cases i) auto
qed simp

text \<open>What the broker relies on: the proxy to the servers answers every request of the clients, and the answer fits a message.\<close>

locale mq_backend =
  fixes h :: "'s backend" and ok :: "string \<Rightarrow> bool" and up :: "'s \<Rightarrow> bool"
  assumes fits: "ok d \<Longrightarrow> length d \<le> IPC_MAX_MSG_SZ"
    and serves: "ok d \<Longrightarrow> up t \<Longrightarrow> \<exists>r t'. h d t = Inr (True, r, t') \<and> length r \<le> IPC_MAX_MSG_SZ \<and> up t'"
begin

lemma client_step_fine:
  assumes f: "mq_fine h ok up s m" and i: "i < length (mq_clients m)" and st: "mq_client_step i m = Some m'"
  shows "mq_fine h ok up s m' \<and> length (mq_clients m') = length (mq_clients m)"
proof -
  let ?c = "mq_clients m ! i"
  obtain c' q' where cs: "client_step ?c (mq_q m) = Some (c', q')" "m' = m\<lparr>mq_clients := (mq_clients m)[i := c'], mq_q := q'\<rparr>"
    using st by (auto simp: mq_client_step_def)
  have a: "addrs_fine m" and q: "q_req (mq_q m) = Some (reqs m)" "q_rep (mq_q m) = Some (reps m)" "sized (reps m)"
    and c: "client_fine ok m ?c" using f i by (simp_all add: mq_fine_def queues_fine_def)
  have ap: "0 < mc_addr ?c" if "mc_addr ?c \<noteq> 0" using held_range [OF a held_addr [OF i that]] by simp
  have "mq_fine h ok up s m'"
  proof (cases "mc_phase ?c")
    case Ready
    then show ?thesis using cs(1) by (simp add: client_step_def)
  next
    case (Xmit d)
    show ?thesis
    proof (cases "mc_addr ?c = 0")
      case True
      from xmit_register_ok [OF q(1) Xmit True cs(1)] show ?thesis using register_fine [OF f i Xmit True] cs(2) by blast
    next
      case False
      have "length d \<le> IPC_MAX_MSG_SZ" using c Xmit fits by (simp add: client_fine_def Let_def)
      with xmit_data_ok [OF q(1) disjI2 [OF Xmit] ap [OF False] _ cs(1)] show ?thesis
        using data_fine [OF f i disjI2 [OF Xmit] False] cs(2) by blast
    qed
  next
    case (Await_Addr d)
    obtain x rp where "msgrcv 2 (reps m) = Some (x, rp)" "c' = ?c\<lparr>mc_rep := mc_rep c', mc_addr := bytes_int (snd x), mc_phase := Xmit_Data d\<rparr>" "q' = (mq_q m)\<lparr>q_rep := Some rp\<rparr>"
      using cs(1) xmit_address_ok [OF q(2,3) Await_Addr] by auto
    then show ?thesis using address_fine [OF f i Await_Addr] cs(2) by metis
  next
    case (Xmit_Data d)
    have d: "length d \<le> IPC_MAX_MSG_SZ" "mc_addr ?c \<noteq> 0" using c Xmit_Data fits by (simp_all add: client_fine_def Let_def)
    from xmit_data_ok [OF q(1) disjI1 [OF Xmit_Data] ap [OF d(2)] d(1) cs(1)] show ?thesis
      using data_fine [OF f i disjI1 [OF Xmit_Data] d(2,1)] cs(2) by blast
  next
    case (Recv_Reply sent)
    have s: "mc_phase ?c = Recv_Reply True" "mc_addr ?c \<noteq> 0" using c Recv_Reply by (simp_all add: client_fine_def Let_def)
    obtain x rp where "msgrcv (mc_addr ?c) (reps m) = Some (x, rp)" "c' = ?c\<lparr>mc_rep := mc_rep c', mc_phase := Ready, mc_got := mc_got ?c @ [(True, snd x)]\<rparr>"
        "q' = (mq_q m)\<lparr>q_rep := Some rp\<rparr>"
      using cs(1) client_recv_ok [OF q(2,3) s(1) ap [OF s(2)]] by auto
    then show ?thesis using reply_fine [OF f i s(1)] cs(2) by metis
  qed
  then show ?thesis using cs(2) by simp
qed

lemma broker_step_fine:
  assumes f: "mq_fine h ok up s m" and n: "length (mq_clients m) \<le> 31998" and st: "broker_step h m = Some m'"
  shows "mq_fine h ok up s m' \<and> length (mq_clients m') = length (mq_clients m)"
proof (cases "ms_phase (mq_srv m)")
  case B_Recv
  have q: "q_req (mq_q m) = Some (reqs m)" "q_rep (mq_q m) = Some (reps m)" "sized (reqs m)" using f by (simp_all add: mq_fine_def queues_fine_def)
  obtain srv q' where sr: "server_recv (mq_srv m) (mq_q m) = Some (srv, q')" "m' = m\<lparr>mq_srv := srv, mq_q := q'\<rparr>"
    using st B_Recv by (auto simp: broker_step_def Let_def)
  have "reqs m \<noteq> []" using sr(1) q(1) by (auto simp: server_recv_def Rcv_def msgrcv_any)
  then obtain x rq where x: "reqs m = x # rq" by (cases "reqs m") auto
  from server_recv_ok [OF q(1) [unfolded x] q(2) q(3) [unfolded x], of "mq_srv m"] obtain mm r where
    mm: "m_mtype mm = fst x" "server_recv (mq_srv m) (mq_q m) = Some (if fst x = 1
      then ((mq_srv m)\<lparr>ms_req := mm, ms_rep := r, ms_next := next_client (ms_next (mq_srv m))\<rparr>, \<lparr>q_req = Some rq, q_rep = Some (reps m @ [(2, int_bytes (ms_next (mq_srv m)))])\<rparr>)
      else ((mq_srv m)\<lparr>ms_req := mm, ms_phase := B_Serve (snd x)\<rparr>, (mq_q m)\<lparr>q_req := Some rq\<rparr>))" by blast
  show ?thesis
  proof (cases "fst x = 1")
    case True
    then show ?thesis using recv_registration_fine [OF f n B_Recv x True, of mm m' r] mm sr by simp
  next
    case False
    then show ?thesis using recv_request_fine [OF f B_Recv x False mm(1), of m'] mm(2) sr by simp
  qed
next
  case (B_Serve d)
  have up: "up (mq_store m)" using f by (simp add: mq_fine_def)
  obtain c where c: "client_fine ok m c" "fst (snd (flying m (mc_addr c))) = B_Serve d" using client_of_broker [OF f] B_Serve by (metis broker_phase.distinct(1))
  have "ok d" using at_broker(2) [OF c(1), of _ "B_Serve d"] c(2) by (metis broker_phase.distinct(1,7) broker_phase.inject(1) prod.collapse)
  then obtain r t where "h d (mq_store m) = Inr (True, r, t)" "length r \<le> IPC_MAX_MSG_SZ" "up t" using serves [OF _ up] by blast
  then show ?thesis using serve_fine [OF f B_Serve, of r t m'] st B_Serve by (auto simp: broker_step_def Let_def)
next
  case (B_Reply r)
  have q: "q_rep (mq_q m) = Some (reps m)" and a: "addrs_fine m" using f by (simp_all add: mq_fine_def queues_fine_def)
  obtain c where c: "client_fine ok m c" "fst (snd (flying m (mc_addr c))) = B_Reply r" "mc_addr c = m_mtype (ms_req (mq_srv m))" "mc_addr c \<in> held m"
    using client_of_broker [OF f] B_Reply by (metis broker_phase.distinct(3))
  have l: "length r \<le> IPC_MAX_MSG_SZ" using at_broker(2) [OF c(1), of _ "B_Reply r"] c(2) by (metis broker_phase.distinct(3,7) broker_phase.inject(2) prod.collapse)
  have "0 < m_mtype (ms_req (mq_srv m))" using held_range [OF a c(4)] c(3) by simp
  then obtain rr where "server_xmit r (mq_srv m) (mq_q m) =
      ((mq_srv m)\<lparr>ms_rep := rr, ms_phase := B_Recv\<rparr>, (mq_q m)\<lparr>q_rep := Some (reps m @ [(m_mtype (ms_req (mq_srv m)), r)])\<rparr>)"
    using server_xmit_ok [OF q _ l, of "mq_srv m"] by blast
  then show ?thesis using send_fine [OF f B_Reply l, of m' rr] st B_Reply by (auto simp: broker_step_def Let_def)
next
  case B_Exit
  then show ?thesis using st by (simp add: broker_step_def)
qed

lemma work_fine:
  assumes "mq_fine h ok up s m" and "length (mq_clients m) \<le> 31998" and "mq_work h m m'"
  shows "mq_fine h ok up s m'" and "length (mq_clients m') = length (mq_clients m)"
  using assms(3) client_step_fine [OF assms(1)] broker_step_fine [OF assms(1,2)] by (auto elim: mq_work_cases)

lemma reach_fine:
  assumes "mq_reach h ok (mq_start n s) m" and "n \<le> 31998" and "up s"
  shows "mq_fine h ok up s m \<and> length (mq_clients m) = n"
  using assms
proof (induction rule: mq_reach.induct)
  case start
  then show ?case using start_fine [of up s h ok n] by (simp add: mq_start_def)
next
  case (work m m')
  then show ?case using work_fine by metis
next
  case (call m i msg)
  then show ?case using call_fine [of h ok up s m i msg] by auto
qed

text \<open>Each call needs a bounded number of steps.\<close>

lemma client_step_cost:
  assumes f: "mq_fine h ok up s m" and i: "i < length (mq_clients m)" and st: "mq_client_step i m = Some m'"
  shows "mq_cost m' < mq_cost m"
proof -
  let ?c = "mq_clients m ! i"
  obtain c' q' where cs: "client_step ?c (mq_q m) = Some (c', q')" "m' = m\<lparr>mq_clients := (mq_clients m)[i := c'], mq_q := q'\<rparr>"
    using st by (auto simp: mq_client_step_def)
  have a: "addrs_fine m" and q: "q_req (mq_q m) = Some (reqs m)" "q_rep (mq_q m) = Some (reps m)" "sized (reps m)"
    and c: "client_fine ok m ?c" using f i by (simp_all add: mq_fine_def queues_fine_def)
  have ap: "3 \<le> mc_addr ?c" if "mc_addr ?c \<noteq> 0" using held_range [OF a held_addr [OF i that]] by simp
  have less: ?thesis
    if "q_req q' = Some rq" and "call_cost (mc_phase c') + queue_cost rq < call_cost (mc_phase ?c) + queue_cost (reqs m)" for rq
  proof -
    have "reqs m' = rq" "mq_srv m' = mq_srv m" using that(1) by (simp_all add: cs(2) reqs_def)
    then show ?thesis using clients_cost_update [OF i, of c'] that(2) by (simp add: mq_cost_def) (simp add: cs(2))
  qed
  show ?thesis
  proof (cases "mc_phase ?c")
    case Ready
    then show ?thesis using cs(1) by (simp add: client_step_def)
  next
    case (Xmit d)
    show ?thesis
    proof (cases "mc_addr ?c = 0")
      case True
      from xmit_register_ok [OF q(1) Xmit True cs(1)] show ?thesis
        using Xmit by (intro less [of "reqs m @ [(1, ''R'')]"]) (auto simp: queue_cost_def)
    next
      case False
      have "length d \<le> IPC_MAX_MSG_SZ" using c Xmit fits by (simp add: client_fine_def Let_def)
      with xmit_data_ok [OF q(1) disjI2 [OF Xmit] _ _ cs(1)] ap [OF False] show ?thesis
        using Xmit by (intro less [of "reqs m @ [(mc_addr ?c, d)]"]) (auto simp: queue_cost_def)
    qed
  next
    case (Await_Addr d)
    then show ?thesis using cs(1) xmit_address_ok [OF q(2,3) Await_Addr] q(1) by (intro less [of "reqs m"]) auto
  next
    case (Xmit_Data d)
    have d: "length d \<le> IPC_MAX_MSG_SZ" "mc_addr ?c \<noteq> 0" using c Xmit_Data fits by (simp_all add: client_fine_def Let_def)
    with xmit_data_ok [OF q(1) disjI1 [OF Xmit_Data] _ _ cs(1)] ap [OF d(2)] show ?thesis
      using Xmit_Data by (intro less [of "reqs m @ [(mc_addr ?c, d)]"]) (auto simp: queue_cost_def)
  next
    case (Recv_Reply sent)
    have s: "mc_phase ?c = Recv_Reply True" "mc_addr ?c \<noteq> 0" using c Recv_Reply by (simp_all add: client_fine_def Let_def)
    have "0 < mc_addr ?c" using ap [OF s(2)] by simp
    then show ?thesis using cs(1) client_recv_ok [OF q(2,3) s(1)] s(1) q(1) by (intro less [of "reqs m"]) auto
  qed
qed

lemma broker_step_cost:
  assumes f: "mq_fine h ok up s m" and st: "broker_step h m = Some m'"
  shows "mq_cost m' < mq_cost m"
proof (cases "ms_phase (mq_srv m)")
  case B_Recv
  have q: "q_req (mq_q m) = Some (reqs m)" "q_rep (mq_q m) = Some (reps m)" "sized (reqs m)" using f by (simp_all add: mq_fine_def queues_fine_def)
  obtain srv q' where sr: "server_recv (mq_srv m) (mq_q m) = Some (srv, q')" "m' = m\<lparr>mq_srv := srv, mq_q := q'\<rparr>"
    using st B_Recv by (auto simp: broker_step_def Let_def)
  have "reqs m \<noteq> []" using sr(1) q(1) by (auto simp: server_recv_def Rcv_def msgrcv_any)
  then obtain x rq where x: "reqs m = x # rq" by (cases "reqs m") auto
  from server_recv_ok [OF q(1) [unfolded x] q(2) q(3) [unfolded x], of "mq_srv m"] sr(1) have
    "q_req q' = Some rq \<and> ms_phase srv = (if fst x = 1 then B_Recv else B_Serve (snd x))" by (cases "fst x = 1") (auto simp: B_Recv)
  then show ?thesis using x sr(2) B_Recv by (simp add: mq_cost_def queue_cost_def reqs_def [of "m\<lparr>mq_srv := srv, mq_q := q'\<rparr>"])
next
  case (B_Reply r)
  then obtain srv q' where "server_xmit r (mq_srv m) (mq_q m) = (srv, q')" "m' = m\<lparr>mq_srv := srv, mq_q := q'\<rparr>"
    using st by (auto simp: broker_step_def Let_def split: prod.splits)
  moreover from this have "q_req q' = q_req (mq_q m)" "broker_cost (ms_phase srv) = 0" by (auto simp: server_xmit_def split: prod.splits)
  ultimately show ?thesis using B_Reply by (simp add: mq_cost_def reqs_def)
qed (use st in \<open>auto simp: broker_step_def mq_cost_def reqs_def Let_def split: sum.splits if_splits\<close>)

lemma not_stuck:
  assumes f: "mq_fine h ok up s m" and ne: "\<not> list_all (\<lambda>c. mc_phase c = Ready) (mq_clients m)"
  shows "\<exists>m'. mq_work h m m'"
proof (rule ccontr)
  assume no: "\<nexists>m'. mq_work h m m'"
  have a: "addrs_fine m" and q: "q_req (mq_q m) = Some (reqs m)" "q_rep (mq_q m) = Some (reps m)" "sized (reqs m)" "sized (reps m)"
    using f by (simp_all add: mq_fine_def queues_fine_def)
  have bn: "broker_step h m = None" using no by (metis mq_work.broker option.exhaust)
  have ph: "ms_phase (mq_srv m) = B_Recv"
  proof (rule ccontr)
    assume b: "ms_phase (mq_srv m) \<noteq> B_Recv"
    obtain c where c: "client_fine ok m c" "fst (snd (flying m (mc_addr c))) = ms_phase (mq_srv m)" using client_of_broker [OF f b] by metis
    obtain us vs where fl: "flying m (mc_addr c) = (us, ms_phase (mq_srv m), vs)" using c(2) by (metis prod.collapse)
    from at_broker(2) [OF c(1) fl b] consider d where "ms_phase (mq_srv m) = B_Serve d" "ok d" | r where "ms_phase (mq_srv m) = B_Reply r" by blast
    then show False
    proof cases
      case 1
      then obtain r t where "h d (mq_store m) = Inr (True, r, t)" using serves [of d "mq_store m"] f by (auto simp: mq_fine_def)
      then show False using bn 1(1) by (simp add: broker_step_def Let_def)
    next
      case 2
      then show False using bn by (simp add: broker_step_def Let_def split: prod.splits)
    qed
  qed
  have rq: "reqs m = []"
  proof (cases "reqs m")
    case (Cons x rq)
    then show ?thesis using server_recv_ok [OF q(1) [unfolded Cons] q(2) q(3) [unfolded Cons], of "mq_srv m"] bn ph by (auto simp: broker_step_def Let_def)
  qed
  obtain i where i: "i < length (mq_clients m)" "mc_phase (mq_clients m ! i) \<noteq> Ready" using ne by (auto simp: list_all_length)
  let ?c = "mq_clients m ! i"
  have cn: "client_step ?c (mq_q m) = None"
  proof (rule ccontr)
    assume "client_step ?c (mq_q m) \<noteq> None"
    then obtain m' where "mq_client_step i m = Some m'" by (auto simp: mq_client_step_def)
    then show False using no mq_work.client [OF i(1)] by blast
  qed
  have c: "client_fine ok m ?c" using f i(1) by (simp add: mq_fine_def)
  show False
  proof (cases "mc_phase ?c")
    case (Await_Addr d)
    then have "?c \<in> set (filter waiting (mq_clients m))" using i(1) by (simp add: waiting_def)
    then have "length (filter waiting (mq_clients m)) \<noteq> 0" by (metis length_0_conv list.set_cases list.distinct(1))
    then have "of_type 2 (reps m) \<noteq> []" using a rq unfolding addrs_fine_def by auto
    then show False using cn xmit_address_ok [OF q(2,4) Await_Addr] msgrcv_waits [of 2 "reps m"] by simp
  next
    case (Recv_Reply sent)
    then have s: "mc_phase ?c = Recv_Reply True" "mc_addr ?c \<noteq> 0" using c by (simp_all add: client_fine_def Let_def)
    have ap: "0 < mc_addr ?c" using held_range [OF a held_addr [OF i(1) s(2)]] by simp
    have "fst (flying m (mc_addr ?c)) = []" "fst (snd (flying m (mc_addr ?c))) = B_Recv" by (simp_all add: flying_def rq ph)
    then have "snd (snd (flying m (mc_addr ?c))) \<noteq> []" using c s(1) unfolding client_fine_def Let_def by auto
    then have "of_type (mc_addr ?c) (reps m) \<noteq> []" by (simp add: flying_def)
    then show False using cn client_recv_ok [OF q(2,4) s(1) ap] msgrcv_waits [OF ap, of "reps m"] by simp
  qed (use i(2) cn in \<open>simp_all add: client_step_def\<close>)
qed

lemma work_bounded:
  assumes "mq_fine h ok up s m" and "length (mq_clients m) \<le> 31998" and "(mq_work h ^^ k) m m'"
  shows "mq_fine h ok up s m' \<and> length (mq_clients m') = length (mq_clients m) \<and> k + mq_cost m' \<le> mq_cost m"
  using assms(3)
proof (induction k arbitrary: m')
  case 0
  then show ?case using assms(1) by simp
next
  case (Suc k)
  then obtain m1 where m1: "(mq_work h ^^ k) m m1" "mq_work h m1 m'" by auto
  note IH = Suc.IH [OF m1(1)]
  have "mq_cost m' < mq_cost m1" using m1(2) client_step_cost broker_step_cost IH by (blast elim: mq_work_cases)
  then show ?case using IH work_fine [OF _ _ m1(2)] assms(2) by fastforce
qed

text \<open>What a client knows of its own calls.\<close>

lemma own_calls:
  assumes "mq_reach h ok (mq_start n s) m" and "n \<le> 31998" and "up s" and "i < n"
  defines "c \<equiv> mq_clients m ! i"
  defines "H \<equiv> of_type (mc_addr c) (mq_hist m)"
  shows "mc_got c = map (Pair True) (take (length (mc_got c)) (answers H))" and "take (length H) (mc_calls c) = asked H"
    and "length (mc_got c) \<le> length H" and "length H \<le> length (mc_calls c)"
    and "length (mc_calls c) = length (mc_got c) + (if mc_phase c = Ready then 0 else 1)"
proof -
  have f: "client_fine ok m c" using reach_fine [OF assms(1-3)] assms(4) by (simp add: mq_fine_def c_def)
  have len: "length (asked G) = length G" "length (answers G) = length G" for G by (simp_all add: asked_def answers_def)
  have "mc_got c = map (Pair True) (take (length (mc_got c)) (answers H)) \<and> take (length H) (mc_calls c) = asked H \<and> length (mc_got c) \<le> length H
      \<and> length H \<le> length (mc_calls c) \<and> length (mc_calls c) = length (mc_got c) + (if mc_phase c = Ready then 0 else 1)"
    using f unfolding client_fine_def H_def [symmetric] Let_def
    by (cases "mc_phase c") (auto simp: len)
  then show "mc_got c = map (Pair True) (take (length (mc_got c)) (answers H))" "take (length H) (mc_calls c) = asked H"
    "length (mc_got c) \<le> length H" "length H \<le> length (mc_calls c)" "length (mc_calls c) = length (mc_got c) + (if mc_phase c = Ready then 0 else 1)" by blast+
qed

lemma calls_end:
  assumes "mq_reach h ok (mq_start n s) m" and "n \<le> 31998" and "up s" and "(mq_work h ^^ k) m m'"
  shows "k \<le> mq_cost m" and "\<nexists>m''. mq_work h m' m'' \<Longrightarrow> list_all (\<lambda>c. mc_phase c = Ready) (mq_clients m')"
proof -
  have f: "mq_fine h ok up s m" "length (mq_clients m) \<le> 31998" using reach_fine [OF assms(1-3)] assms(2) by simp_all
  note w = work_bounded [OF f assms(4)]
  then show "k \<le> mq_cost m" by simp
  show "list_all (\<lambda>c. mc_phase c = Ready) (mq_clients m')" if "\<nexists>m''. mq_work h m' m''" using not_stuck w that by blast
qed

end

section \<open>Requests that do not fit\<close>

text \<open>A request of a registered client that is longer than a message is not sent, but the call waits for its answer
  all the same.\<close>

lemma oversized_request:
  assumes "mc_phase c = Xmit d" and "0 < mc_addr c" and "IPC_MAX_MSG_SZ < length d" and "length d < 2 ^ 32"
  shows "\<exists>mm. client_step c q = Some (c\<lparr>mc_req := mm, mc_phase := Recv_Reply False\<rparr>, q)"
    and "mc_phase c' = Recv_Reply False \<Longrightarrow> 0 < mc_addr c' \<Longrightarrow> q_rep q = Some rp \<Longrightarrow> of_type (mc_addr c') rp = [] \<Longrightarrow> client_step c' q = None"
proof -
  have "length d mod 2 ^ 32 = length d" using assms(4) by simp
  then have "Snd d (mc_addr c) (mc_req c) (q_req q) = (False, (mc_req c)\<lparr>m_size := length d\<rparr>, q_req q)"
    using assms(2,3) by (simp add: Snd_def Let_def)
  then show "\<exists>mm. client_step c q = Some (c\<lparr>mc_req := mm, mc_phase := Recv_Reply False\<rparr>, q)"
    using assms(1,2) by (simp add: client_step_def xmit_data_def) blast
  show "client_step c' q = None" if "mc_phase c' = Recv_Reply False" "0 < mc_addr c'" "q_rep q = Some rp" "of_type (mc_addr c') rp = []"
    using that msgrcv_waits [OF that(2), of rp] by (simp add: client_step_def client_recv_def Rcv_def)
qed

end
