(* ===== verification/Mpi_Broker.thy ===== *)
theory Mpi_Broker
  imports Mq_Transport Blob_Transport
begin

text \<open>
  The servers behind the broker (\<^verbatim>\<open>ZHT/src/mpi_proxy_stub.cpp\<close>): the choice of the rank, the exchange over MPI, and the
  worker as this build compiles it, which returns its answer instead of sending it (\<^verbatim>\<open>ZHT/src/HTWorker.cpp\<close> without
  \<open>SCCB\<close>). MPI delivers what is sent and ends the program on an error. \<open>get_mpi_dest\<close> reads the key with the generated
  protobuf parser, which is a parameter. At the end, the broker with these servers.
\<close>

section \<open>The worker\<close>

definition mpi_compare_swap :: "bool \<Rightarrow> zpack \<Rightarrow> novoht \<Rightarrow> (string \<times> novoht) res" where
  "mpi_compare_swap inst z m =
     (if bytes_of (z_key z) = [] then Inr (ZSC_REC_EMPTYKEY, m)
      else bind_res (compare_swap_internal inst z m) (\<lambda>(result, m').
             bind_res (erase_status_code (lookup_shared z m')) (\<lambda>l. Inr (result @ l, m'))))"

definition mpi_result :: "(string \<times> novoht) res \<Rightarrow> ht_state \<Rightarrow> (string \<times> ht_state) res" where
  "mpi_result r st = bind_res r (\<lambda>(result, m). Inr (result, st\<lparr>h_map := m\<rparr>))"

definition mpi_run :: "(zpack \<Rightarrow> string) \<Rightarrow> bool \<Rightarrow> string \<Rightarrow> ht_state \<Rightarrow> (string \<times> ht_state) res" where
  "mpi_run serialize inst buf st =
     (let z = str_to_zpack (c_str buf); opc = bytes_of (z_opcode z) in
      if opc = ZSC_OPC_LOOKUP then Inr (lookup_shared z (h_map st), st)
      else if opc = ZSC_OPC_INSERT then mpi_result (insert_shared inst z (h_map st)) st
      else if opc = ZSC_OPC_APPEND then mpi_result (append_shared serialize inst z (h_map st)) st
      else if opc = ZSC_OPC_CMPSWP then mpi_result (mpi_compare_swap inst z (h_map st)) st
      else if opc = ZSC_OPC_REMOVE then mpi_result (remove_shared inst z (h_map st)) st
      else if opc = ZSC_OPC_STCHGCB then Inr ([], state_change_callback 0 z st)
      else Inr (ZSC_REC_UOPC, st))"

lemma mpi_run_agrees: "ht_run serialize inst addr buf st = Inr (Some r, st') \<Longrightarrow> mpi_run serialize inst buf st = Inr (r, st')"
  by (auto simp: ht_run_def mpi_run_def reply_def mpi_result_def compare_swap_def mpi_compare_swap_def Let_def bind_res_eq_Inr split: if_splits prod.splits)

section \<open>The exchange\<close>

record mpi_conf =
  mp_parse_key :: "string \<Rightarrow> string"
  mp_size :: int
  mp_nodes :: nat
  mp_serialize :: "zpack \<Rightarrow> string"
  mp_instant_swap :: bool

text \<open>The difference is computed in 64 bits and may be zero; the result is cut to an \<open>int\<close>.\<close>

definition get_mpi_dest :: "mpi_conf \<Rightarrow> string \<Rightarrow> int res" where
  "get_mpi_dest mc msg =
     (let d = word_of_int (mp_size mc) - of_nat (mp_nodes mc) :: 64 word in
      if d = 0 then Inl Div_By_Zero
      else Inr (sint (ucast (genHash (mp_parse_key mc msg) mod d) :: 32 word)))"

text \<open>Both sides receive into a zeroed buffer of \<open>IPC_MAX_MSG_SZ\<close> bytes and read it as a C string.\<close>

definition recv_cstr :: "string \<Rightarrow> string res" where
  "recv_cstr msg =
     (if IPC_MAX_MSG_SZ < length msg then Inl Exit_Failure
      else if length msg = IPC_MAX_MSG_SZ \<and> CHR 0x00 \<notin> set msg then Inl Undefined
      else Inr (c_str msg))"

definition mpi_recvsend :: "mpi_conf \<Rightarrow> string \<Rightarrow> ht_state \<Rightarrow> (string \<times> ht_state) res" where
  "mpi_recvsend mc msg st = bind_res (recv_cstr msg) (\<lambda>req. mpi_run (mp_serialize mc) (mp_instant_swap mc) req st)"

text \<open>A rank without a server never answers.\<close>

definition mpi_sendrecv :: "mpi_conf \<Rightarrow> cluster backend" where
  "mpi_sendrecv mc msg ss =
     bind_res (get_mpi_dest mc msg) (\<lambda>dest.
       if dest < 0 \<or> int (length ss) \<le> dest then Inl Blocks
       else bind_res (mpi_recvsend mc msg (ss ! nat dest)) (\<lambda>(ans, st).
         bind_res (recv_cstr ans) (\<lambda>ansstr. Inr (True, ansstr, ss[nat dest := st]))))"

section \<open>One server\<close>

fun op_text :: "zht_op \<Rightarrow> string" where
  "op_text (ZLookup k) = zpack_to_str (request ZSC_OPC_LOOKUP k [] [] 1)"
| "op_text (ZInsert k v) = zpack_to_str (request ZSC_OPC_INSERT k v [] 1)"
| "op_text (ZCswap k v w) = zpack_to_str (request ZSC_OPC_CMPSWP k v w 1)"
| "op_text (ZRemove k) = zpack_to_str (request ZSC_OPC_REMOVE k [] [] 1)"

lemma op_sent:
  assumes "deployed c ss" and "zop_ok (zc_msg_maxsize c) x"
  shows "\<exists>buf ss'. zht_sendrecv c (op_text x) ss = Inr (buf, ss') \<and> deployed c ss'"
proof -
  from zht_do_refines [OF assms] obtain rc out ss' where d: "zht_do (zht_ops_of c) x ss = Inr (rc, out, ss')" "deployed c ss'" by blast
  have *: "\<exists>buf. zht_sendrecv c (zpack_to_str (request opc k v w 1)) ss = Inr (buf, ss')"
    if "commonOp (zht_sendrecv c) opc k v w r 1 ss = Inr (rc', out', ss')" "opc \<in> {ZSC_OPC_LOOKUP, ZSC_OPC_REMOVE, ZSC_OPC_INSERT, ZSC_OPC_APPEND, ZSC_OPC_CMPSWP}" "k \<noteq> []" for opc k v w r rc' out'
    using that(1) unfolding commonOp_unfold [OF that(2,3)] by (auto simp: bind_res_eq_Inr split: if_splits)
  show ?thesis
  proof (cases x)
    case (ZLookup k)
    with d assms(2) ok_nonempty(1) * [of ZSC_OPC_LOOKUP k "[]" "[]"] show ?thesis by (fastforce simp: zht_ops_of_def zc_lookup_def bind_res_eq_Inr)
  next
    case (ZInsert k v)
    with d assms(2) ok_nonempty(1) * [of ZSC_OPC_INSERT k v "[]"] show ?thesis by (fastforce simp: zht_ops_of_def zc_insert_def bind_res_eq_Inr)
  next
    case (ZCswap k v w)
    with d assms(2) ok_nonempty(1) * [of ZSC_OPC_CMPSWP k v w] show ?thesis by (fastforce simp: zht_ops_of_def zc_compare_swap_def bind_res_eq_Inr)
  next
    case (ZRemove k)
    with d assms(2) ok_nonempty(1) * [of ZSC_OPC_REMOVE k "[]" "[]"] show ?thesis by (fastforce simp: zht_ops_of_def zc_remove_def bind_res_eq_Inr)
  qed
qed

text \<open>Every server answers every well-formed request, wherever the keys are.\<close>

lemma server_answers:
  assumes "table_ok mx (h_map st)" and "zop_ok mx x"
  shows "\<exists>buf st'. ht_run ser False 0 (c_str (op_text x)) st = Inr (Some buf, st') \<and> length buf < mx \<and> table_ok mx (h_map st')"
proof -
  let ?c = "\<lparr>zc_serialize = ser, zc_instant_swap = False, zc_msg_maxsize = mx, zc_neighbors = [([], [])]\<rparr>"
  have "deployed ?c [st]" using assms(1) by (simp add: deployed_def cluster_ok_def)
  then obtain buf ss' where b: "zht_sendrecv ?c (op_text x) [st] = Inr (buf, ss')" "deployed ?c ss'" using op_sent [of ?c "[st]" x] assms(2) by auto
  obtain st' where "ht_run ser False 0 (c_str (op_text x)) st = Inr (Some buf, st')" "length buf < mx" "ss' = [st']"
    using b(1) by (auto simp: zht_sendrecv_def server_index_def bind_res_eq_Inr Let_def split: option.splits if_splits)
  then show ?thesis using b(2) by (simp add: deployed_def cluster_ok_def)
qed

section \<open>The broker with its servers\<close>

definition mq_request :: "nat \<Rightarrow> string \<Rightarrow> bool" where
  "mq_request mx d \<longleftrightarrow> (\<exists>x. zop_ok mx x \<and> d = op_text x) \<and> length d < IPC_MAX_MSG_SZ"

definition mpi_up :: "nat \<Rightarrow> mpi_conf \<Rightarrow> cluster \<Rightarrow> bool" where
  "mpi_up mx mc ss \<longleftrightarrow> mx \<le> IPC_MAX_MSG_SZ \<and> \<not> mp_instant_swap mc \<and> ss \<noteq> [] \<and> mp_size mc < 2 ^ 31 \<and> int (length ss) = mp_size mc - int (mp_nodes mc)
     \<and> (\<forall>st \<in> set ss. table_ok mx (h_map st))"

lemma small_sint:
  fixes y :: "64 word"
  assumes "unat y < 2 ^ 31"
  shows "sint (ucast y :: 32 word) = int (unat y)"
proof -
  have u3: "int (unat y) = uint y" by (rule int_nat_eq [of "uint y", simplified uint_ge_0 if_True, folded unat_eq_nat_uint])
  have "int (unat y) < int (2 ^ 31)" using assms by (simp only: of_nat_less_iff)
  then have u: "0 \<le> uint y" "uint y < 2 ^ 31" unfolding u3 by simp_all
  have "uint (ucast y :: 32 word) = take_bit 32 (uint y)" by (simp add: unsigned_ucast_eq)
  also have "\<dots> = uint y" using u(1,2) by (intro take_bit_int_eq_self) simp_all
  finally have "sint (ucast y :: 32 word) = signed_take_bit 31 (uint y)" by (simp add: sint_uint)
  also have "\<dots> = uint y" using order_trans [OF _ u(1), of "- (2 ^ 31)"] u(2) by (intro signed_take_bit_int_eq_self) simp_all
  finally show ?thesis using u3 by simp
qed

lemma dest_in_range:
  assumes "mpi_up mx mc ss"
  shows "\<exists>i < length ss. get_mpi_dest mc msg = Inr (int i)"
proof -
  let ?d = "word_of_int (mp_size mc) - of_nat (mp_nodes mc) :: 64 word"
  have n: "length ss < 2 ^ 31" "0 < length ss" and sz: "mp_size mc = int (length ss) + int (mp_nodes mc)" using assms by (auto simp: mpi_up_def)
  have d: "?d = of_nat (length ss)" by (simp add: sz)
  have u: "unat ?d = length ss" unfolding d using n(1) by (simp add: unat_of_nat)
  then have nz: "?d \<noteq> 0" using n(2) by auto
  let ?i = "unat (genHash (mp_parse_key mc msg) mod ?d)"
  have i: "?i < length ss" using n(2) by (simp add: unat_mod u)
  then have "sint (ucast (genHash (mp_parse_key mc msg) mod ?d) :: 32 word) = int ?i"
    using n(1) by (intro small_sint) simp
  then show ?thesis using i nz by (auto simp: get_mpi_dest_def Let_def)
qed

lemma mpi_serves:
  assumes "mq_request mx d" and "mpi_up mx mc ss"
  shows "\<exists>r ss'. mpi_sendrecv mc d ss = Inr (True, r, ss') \<and> length r \<le> IPC_MAX_MSG_SZ \<and> mpi_up mx mc ss'"
proof -
  obtain i where i: "i < length ss" "get_mpi_dest mc d = Inr (int i)" using dest_in_range [OF assms(2)] by blast
  obtain x where x: "zop_ok mx x" "d = op_text x" "length d < IPC_MAX_MSG_SZ" using assms(1) by (auto simp: mq_request_def)
  have "table_ok mx (h_map (ss ! i))" and mx: "mx \<le> IPC_MAX_MSG_SZ" "\<not> mp_instant_swap mc" using assms(2) i(1) by (simp_all add: mpi_up_def)
  then obtain buf st where r: "ht_run (mp_serialize mc) False 0 (c_str (op_text x)) (ss ! i) = Inr (Some buf, st)" "length buf < mx" "table_ok mx (h_map st)"
    using server_answers x(1) by blast
  have "mpi_recvsend mc d (ss ! i) = Inr (buf, st)" using mpi_run_agrees [OF r(1)] x(2,3) mx(2) by (simp add: mpi_recvsend_def recv_cstr_def)
  moreover have "recv_cstr buf = Inr (c_str buf)" using r(2) mx(1) by (simp add: recv_cstr_def)
  ultimately have "mpi_sendrecv mc d ss = Inr (True, c_str buf, ss[i := st])" using i by (simp add: mpi_sendrecv_def)
  moreover have "length (c_str buf) \<le> IPC_MAX_MSG_SZ" using r(2) mx(1) length_takeWhile_le [of _ buf] unfolding c_str_def by (meson le_trans less_imp_le_nat)
  moreover have "mpi_up mx mc (ss[i := st])" using assms(2) r(3) by (auto simp: mpi_up_def dest: set_update_subset_insert [THEN subsetD])
  ultimately show ?thesis by blast
qed

interpretation mpib: mq_backend "mpi_sendrecv mc" "mq_request mx" "mpi_up mx mc" for mc mx
  by unfold_locales (simp add: mq_request_def, rule mpi_serves)

section \<open>Properties\<close>

text \<open>Steps in a given order: \<open>Some i\<close> is client \<open>i\<close>, \<open>None\<close> the broker.\<close>

fun mq_exec :: "'s backend \<Rightarrow> nat option list \<Rightarrow> 's mq \<Rightarrow> 's mq option" where
  "mq_exec h [] m = Some m"
| "mq_exec h (Some i # sched) m = (if i < length (mq_clients m) then Option.bind (mq_client_step i m) (mq_exec h sched) else None)"
| "mq_exec h (None # sched) m = Option.bind (broker_step h m) (mq_exec h sched)"

lemma mq_exec_reach: "mq_exec h sched m = Some m' \<Longrightarrow> mq_reach h ok m0 m \<Longrightarrow> mq_reach h ok m0 m'"
proof (induction h sched m rule: mq_exec.induct)
  case (2 h i sched m)
  then obtain m1 where "i < length (mq_clients m)" "mq_client_step i m = Some m1" "mq_exec h sched m1 = Some m'"
    by (auto simp: bind_eq_Some_conv split: if_splits)
  then show ?case using 2 mq_work.client mq_reach.work by metis
next
  case (3 h sched m)
  then obtain m1 where "broker_step h m = Some m1" "mq_exec h sched m1 = Some m'" by (auto simp: bind_eq_Some_conv)
  then show ?case using 3 mq_work.broker mq_reach.work by metis
qed simp

definition demo_mpi :: mpi_conf where
  "demo_mpi = \<lparr>mp_parse_key = (\<lambda>_. []), mp_size = 3, mp_nodes = 1, mp_serialize = (\<lambda>_. []), mp_instant_swap = False\<rparr>"

definition demo_call :: "cluster mq" where
  "demo_call = (let m = mq_start 2 demo_cluster in m\<lparr>mq_clients := (mq_clients m)[0 := mq_call (op_text (ZLookup ''k'')) (mq_clients m ! 0)]\<rparr>)"

lemma demo_mpi_up: "mpi_up 1000 demo_mpi demo_cluster"
  using demo_deployed by (simp add: mpi_up_def demo_mpi_def deployed_def cluster_ok_def demo_conf_def) (simp add: demo_cluster_def IPC_MAX_MSG_SZ_def)

lemma demo_request: "mq_request 1000 (op_text (ZLookup ''k''))"
proof -
  have z: "zop_ok 1000 (ZLookup ''k'')" and l: "length (op_text (ZLookup ''k'')) < 100" by code_simp+
  have "length (op_text (ZLookup ''k'')) < IPC_MAX_MSG_SZ" by (rule less_trans [OF l]) (simp add: IPC_MAX_MSG_SZ_def)
  with z show ?thesis unfolding mq_request_def by blast
qed

lemma demo_call_reach: "mq_reach (mpi_sendrecv demo_mpi) (mq_request 1000) (mq_start 2 demo_cluster) demo_call"
  unfolding demo_call_def Let_def using demo_request by (intro mq_reach.call mq_reach.start) (simp_all add: mq_start_def client_new_def)

text \<open>A whole call: registration, address, request, answer.\<close>

lemma one_call:
  assumes "length d \<le> IPC_MAX_MSG_SZ" and "h d s = Inr (True, r, s')" and "length r \<le> IPC_MAX_MSG_SZ"
  shows "\<exists>m'. mq_exec h [Some 0, None, Some 0, Some 0, None, None, None, Some 0]
      ((mq_start 2 s)\<lparr>mq_clients := [mq_call d client_new, client_new]\<rparr>) = Some m'
    \<and> map mc_got (mq_clients m') = [[(True, r)], []] \<and> map mc_phase (mq_clients m') = [Ready, Ready] \<and> mq_hist m' = [(256, d, r)]"
proof -
  have d: "length d mod 2 ^ 32 = length d" "length r mod 2 ^ 32 = length r" using assms by (simp_all add: IPC_MAX_MSG_SZ_def)
  have b: "bytes_int (int_bytes 256) = 256" by (rule bytes_int_bytes) simp_all
  have i: "\<not> IPC_MAX_MSG_SZ < length (int_bytes 256)" "\<not> IPC_MAX_MSG_SZ < length ''R''" by (simp_all add: IPC_MAX_MSG_SZ_def)
  show ?thesis
    using assms d b i
    by (simp add: mq_start_def mq_call_def client_new_def server_new_def mq_client_step_def client_step_def xmit_register_def xmit_address_def
        xmit_data_def client_recv_def broker_step_def server_recv_def server_xmit_def Snd_def Snd_msg_def Rcv_def msgrcv_def msg_new_def msg_bytes_def next_client_def Let_def)
qed

text \<open>Property C17. The clients of a node that share a broker do not get in each other's way: with at most 31998 of them, in
  every interleaving of their calls, registrations and replies with the loop of the broker, the requests that reached
  the servers are a run of the servers one after the other, each client has got exactly the answers to its own
  requests, in the order of its calls, and at most its last call is open.\<close>

theorem clients_get_their_own_answers:
  assumes "mq_reach (mpi_sendrecv mc) (mq_request mx) (mq_start n ss) m" and "n \<le> 31998" and "mpi_up mx mc ss"
  shows "backend_run (mpi_sendrecv mc) (asked (mq_hist m)) ss = Some (answers (mq_hist m), mq_store m)
    \<and> (\<forall>i < n. let c = mq_clients m ! i; own = of_type (mc_addr c) (mq_hist m) in
         mc_got c = map (Pair True) (take (length (mc_got c)) (answers own)) \<and> take (length own) (mc_calls c) = asked own
         \<and> length (mc_got c) \<le> length own \<and> length own \<le> length (mc_calls c)
         \<and> length (mc_calls c) = length (mc_got c) + (if mc_phase c = Ready then 0 else 1))"
  using mpib.own_calls [OF assms] mpib.reach_fine [OF assms] by (simp add: mq_fine_def Let_def)

theorem clients_get_their_own_answers_witness:
  "\<exists>m r. mq_exec (mpi_sendrecv demo_mpi) [Some 0, None, Some 0, Some 0, None, None, None, Some 0] demo_call = Some m
     \<and> map mc_got (mq_clients m) = [[(True, r)], []] \<and> backend_run (mpi_sendrecv demo_mpi) [op_text (ZLookup ''k'')] demo_cluster = Some ([r], mq_store m)"
proof -
  obtain r ss where r: "mpi_sendrecv demo_mpi (op_text (ZLookup ''k'')) demo_cluster = Inr (True, r, ss)" "length r \<le> IPC_MAX_MSG_SZ"
    using mpi_serves [OF demo_request demo_mpi_up] by blast
  have "demo_call = (mq_start 2 demo_cluster)\<lparr>mq_clients := [mq_call (op_text (ZLookup ''k'')) client_new, client_new]\<rparr>"
    by (simp add: demo_call_def mq_start_def Let_def numeral_2_eq_2)
  with one_call [of "op_text (ZLookup ''k'')" "mpi_sendrecv demo_mpi", OF _ r] demo_request obtain m where
    m: "mq_exec (mpi_sendrecv demo_mpi) [Some 0, None, Some 0, Some 0, None, None, None, Some 0] demo_call = Some m"
      "map mc_got (mq_clients m) = [[(True, r)], []]" "mq_hist m = [(256, op_text (ZLookup ''k''), r)]"
    unfolding mq_request_def by (metis less_imp_le_nat)
  then show ?thesis
    using clients_get_their_own_answers [OF mq_exec_reach [OF m(1) demo_call_reach] _ demo_mpi_up]
    by (intro exI [of _ m] exI [of _ r]) (simp add: asked_def answers_def)
qed



end
