(* ===== verification/Zht_Server.thy ===== *)
theory Zht_Server
  imports Zht_Config Epoll_Server
begin

text \<open>
  The main program of a ZHT server (\<^verbatim>\<open>ZHT/src/ZHTServer.cpp\<close>, with \<open>IPServer\<close> of \<^verbatim>\<open>ZHT/src/ip_server.cpp\<close>): options,
  configuration, port and protocol, up to the start of the event server; and the ring helper of
  \<^verbatim>\<open>ZHT/src/Util.cpp\<close>. It is shown that a server and its clients choose the same protocol from the same files.
\<close>

section \<open>The main program\<close>

record server_args =
  sa_printHelp :: bool
  sa_zhtConf :: string
  sa_neighborConf :: string
  sa_port_from_input :: string
  sa_novohtDbFile :: string

definition no_args :: server_args where
  "no_args = \<lparr>sa_printHelp = False, sa_zhtConf = [], sa_neighborConf = [], sa_port_from_input = [], sa_novohtDbFile = []\<rparr>"

text \<open>The options as \<open>getopt\<close> returns them, with their arguments.\<close>

fun server_getopt :: "(char \<times> string) list \<Rightarrow> server_args \<Rightarrow> server_args res" where
  "server_getopt [] a = Inr a"
| "server_getopt ((c, optarg) # os) a =
     (if c = CHR ''z'' then server_getopt os (a\<lparr>sa_zhtConf := optarg\<rparr>)
      else if c = CHR ''n'' then server_getopt os (a\<lparr>sa_neighborConf := optarg\<rparr>)
      else if c = CHR ''p'' then server_getopt os (a\<lparr>sa_port_from_input := optarg\<rparr>)
      else if c = CHR ''f'' then server_getopt os (a\<lparr>sa_novohtDbFile := optarg\<rparr>)
      else if c = CHR ''h'' then server_getopt os (a\<lparr>sa_printHelp := True\<rparr>)
      else Inl Exit_Failure)"

text \<open>The message of the start is printed into a buffer of 100 bytes.\<close>

definition startup_text :: "string \<Rightarrow> string \<Rightarrow> string res" where
  "startup_text port protocol =
     (let t = (if protocol = ''MPI'' then ''ZHT server- <protocol:'' @ c_str protocol @ ''> started...''
               else ''ZHT server- <localhost:'' @ c_str port @ ''> <protocol:'' @ c_str protocol @ ''> started...'')
      in if length t < 100 then Inr t else Inl Undefined)"

text \<open>\<open>None\<close> is that only the usage is printed. Otherwise the port and the protocol the event server starts with, the stub
  of \<open>IPServer\<close> (\<open>None\<close> is the null pointer), the file of the hash table and the configuration; \<open>files\<close> are the lines of the files.\<close>

definition zht_server_main ::
    "(string \<Rightarrow> string list) \<Rightarrow> (char \<times> string) list \<Rightarrow> conf_handler \<Rightarrow> (string \<times> string \<times> stub_kind option \<times> string \<times> conf_handler) option res" where
  "zht_server_main files opts ch =
     bind_res (server_getopt opts no_args) (\<lambda>a.
       if sa_zhtConf a = [] \<or> sa_neighborConf a = [] then Inr None
       else bind_res (initConf (files (sa_zhtConf a)) (files (sa_neighborConf a)) ch) (\<lambda>ch1.
         let protocol = getProtocolFromConf ch1;
             port = (if sa_port_from_input a \<noteq> [] then sa_port_from_input a else getPortFromConf ch1)
         in if port = [] then Inl Exit_Failure
            else if protocol = [] then Inl Exit_Failure
            else bind_res (startup_text port protocol) (\<lambda>_.
              bind_res (createStub ch1) (\<lambda>stub. Inr (Some (port, protocol, stub, trim (sa_novohtDbFile a), ch1))))))"

text \<open>Without a stub a message is dropped.\<close>

definition ip_process :: "stub_kind option \<Rightarrow> (string \<Rightarrow> 's \<Rightarrow> 's res) \<Rightarrow> string \<Rightarrow> 's \<Rightarrow> 's res" where
  "ip_process stub recvsend buf s = (if stub = None then Inr s else recvsend (c_str buf) s)"

section \<open>Ranges of the ring\<close>

text \<open>The end of a range of the ring that starts behind its end: 1 stands for the largest token.\<close>

definition ring_unwrap :: "64 word \<Rightarrow> 64 word \<Rightarrow> 64 word \<times> 64 word" where
  "ring_unwrap b e = (b, if e < b \<and> e = 1 then - 1 else e)"

lemma ring_unwrap_range: "ring_unwrap b e = (b', e') \<Longrightarrow> e = 1 \<or> b \<le> e \<Longrightarrow> b' = b \<and> b \<le> e'"
  by (auto simp: ring_unwrap_def split: if_splits)

section \<open>Server and clients\<close>

definition matches :: "proxy_kind \<Rightarrow> stub_kind \<Rightarrow> bool" where
  "matches px st \<longleftrightarrow> (px = TCPProxy \<and> st = TCPStub) \<or> (px = UDPProxy \<and> st = UDPStub)"

text \<open>With one known protocol in the file, a server that has a port comes up with the event server, the stub and the port
  it asks for, and a client with the same files gets the matching proxy.\<close>

lemma server_matches_clients:
  assumes "file_ok zls" and "file_ok ls" and "values_of zls ''PROTOCOL'' = {p}" and "p \<in> {''TCP'', ''UDP''}"
    and "files zf = zls" and "files nf = ls" and "zf \<noteq> []" and "nf \<noteq> []" and "port \<noteq> []" and "length port < 40"
  shows "\<exists>ch st mx px. zht_server_main files [(CHR ''z'', zf), (CHR ''n'', nf), (CHR ''p'', port)] conf_handler_init = Inr (Some (port, p, Some st, [], ch))
    \<and> zht_client_init zls ls conf_handler_init = Inr (0, mx, Some px, ch) \<and> matches px st \<and> epoll_protocol p = Inr (px = TCPProxy)"
proof -
  obtain ch where c: "initConf zls ls conf_handler_init = Inr ch"
      "\<forall>v \<in> {''TCP'', ''UDP'', ''MPI''}. has_protocol ch v = Inr (v \<in> values_of zls ''PROTOCOL'')"
      "\<forall>n. get_zhtconf_parameter (ch_ZHTParameters ch) n = (if values_of zls n = {} then [] else Min (values_of zls n))"
    using init_protocols [OF assms(1,2)] by blast
  have pr: "getProtocolFromConf ch = p" using c(3) assms(3) by (simp add: getProtocolFromConf_def)
  have "length (c_str port) < 40" using assms(10) length_takeWhile_le [of _ port] unfolding c_str_def by (meson le_less_trans)
  then have st: "\<exists>t. startup_text port p = Inr t" using assms(4) by (auto simp: startup_text_def c_str_def)
  have e: "epoll_protocol p = Inr (p = ''TCP'')" using assms(4) by (auto simp: epoll_protocol_def)
  have k: "createStub ch = Inr (Some (if p = ''TCP'' then TCPStub else UDPStub))" "createProxy ch = Inr (Some (if p = ''TCP'' then TCPProxy else UDPProxy))"
    using c(2) assms(3,4) by (auto simp: createStub_def createProxy_def)
  obtain t where t: "startup_text port p = Inr t" using st by blast
  have "zht_server_main files [(CHR ''z'', zf), (CHR ''n'', nf), (CHR ''p'', port)] conf_handler_init =
      Inr (Some (port, p, Some (if p = ''TCP'' then TCPStub else UDPStub), [], ch))"
    using assms(4-9) by (auto simp: zht_server_main_def no_args_def trim_def c(1) pr t k Let_def)
  moreover have "zht_client_init zls ls conf_handler_init = Inr (0, get_msg_maxsize ch, Some (if p = ''TCP'' then TCPProxy else UDPProxy), ch)"
    by (simp add: zht_client_init_def c(1) k)
  moreover have "epoll_protocol p = Inr ((if p = ''TCP'' then TCPProxy else UDPProxy) = TCPProxy)" using e by simp
  moreover have "matches (if p = ''TCP'' then TCPProxy else UDPProxy) (if p = ''TCP'' then TCPStub else UDPStub)" by (simp add: matches_def)
  ultimately show ?thesis by blast
qed

end
