(* ===== verification/Zht_Bench.thy ===== *)
theory Zht_Bench
  imports Blob_Transport
begin

text \<open>
  The operation \<open>append\<close> of a ZHT client, and the program that measures the operations
  (\<^verbatim>\<open>ZHT/src/benchmark_client.cpp\<close>). The server appends the protobuf encoding of the request to the text of the packet
  that \<open>insert\<close> stored: \<open>lookup\<close> never shows it. Encoder and decoder of \<open>Package\<close> are generated code and parameters.
\<close>

section \<open>Stores with appended values\<close>

text \<open>What \<open>append\<close> and \<open>remove\<close> rely on; nothing is said about what the tables hold. \<open>raw\<close> is what a key has there.\<close>

definition sound :: "zht_conf \<Rightarrow> cluster \<Rightarrow> bool" where
  "sound c ss \<longleftrightarrow> zc_neighbors c \<noteq> [] \<and> length ss = length (zc_neighbors c) \<and> \<not> zc_instant_swap c \<and> 3 < zc_msg_maxsize c
     \<and> (\<forall>st \<in> set ss. nv_ok (h_map st) \<and> writable (h_map st))"

definition raw :: "zht_conf \<Rightarrow> cluster \<Rightarrow> string \<Rightarrow> string option" where
  "raw c ss k = stored (h_map (ss ! home c k)) k"

lemma sound_home:
  assumes "sound c ss"
  shows "home c k < length ss" and "nv_ok (h_map (ss ! home c k))" and "writable (h_map (ss ! home c k))"
proof -
  show h: "home c k < length ss" using assms by (simp add: sound_def home_def server_index_def)
  then show "nv_ok (h_map (ss ! home c k))" "writable (h_map (ss ! home c k))" using assms by (simp_all add: sound_def)
qed

lemma sound_upd:
  assumes "sound c ss" and "ss' = ss[home c k := (ss ! home c k)\<lparr>h_map := m\<rparr>]" and "nv_ok m" and "writable m"
    and "stored m = (stored (h_map (ss ! home c k)))(k := x)"
  shows "sound c ss'" and "raw c ss' = (raw c ss)(k := x)"
proof -
  show "sound c ss'" using assms(1-4) by (auto simp: sound_def dest: set_update_subset_insert [THEN subsetD])
  show "raw c ss' = (raw c ss)(k := x)"
  proof
    fix k'
    show "raw c ss' k' = ((raw c ss)(k := x)) k'"
      using sound_home(1) [OF assms(1)] assms(2,5) by (cases "home c k' = home c k") (auto simp: raw_def)
  qed
qed

lemma deployed_sound:
  assumes "deployed c ss"
  shows "3 < zc_msg_maxsize c \<Longrightarrow> sound c ss" and "raw c ss k = None \<longleftrightarrow> zht_value c ss k = None"
  using assms by (auto simp: deployed_def cluster_ok_def table_ok_def sound_def raw_def zht_value_def)

lemma append_writable:
  assumes "writable m"
  shows "fst (nv_append k v m) = 0" and "writable (snd (nv_append k v m))"
  using assms
  by (auto simp: writable_def nv_append_def nv_write_def nv_writeAppend_def no_file_rc_def Let_def split: option.splits)

text \<open>What \<open>append\<close> adds to a key.\<close>

definition appended :: "zht_conf \<Rightarrow> string \<Rightarrow> string \<Rightarrow> string option \<Rightarrow> string" where
  "appended c k v old = (let t = zc_serialize c (request ZSC_OPC_APPEND k v [] 1) in case old of None \<Rightarrow> t | Some s \<Rightarrow> s @ '':'' @ t)"

lemma append_law:
  assumes s: "sound c ss" and k: "key_ok (zc_msg_maxsize c) k" and v: "val_ok (zc_msg_maxsize c) v"
  shows "\<exists>ss'. zc_append (zht_sendrecv c) k v ss = Inr (0, ss') \<and> sound c ss' \<and> raw c ss' = (raw c ss)(k \<mapsto> appended c k v (raw c ss k))"
proof -
  define z where "z = request ZSC_OPC_APPEND k v [] 1"
  have z: "zpack_ok z" unfolding z_def by (rule request_ok [OF k]) (simp_all add: v)
  have key: "z_key z = Some k" "z_opcode z = Some ZSC_OPC_APPEND" by (simp_all add: z_def request_def)
  let ?m = "h_map (ss ! home c k)"
  define m' where "m' = snd (nv_append k (zc_serialize c z) ?m)"
  define ss' where "ss' = ss[home c k := (ss ! home c k)\<lparr>h_map := m'\<rparr>]"
  note h = sound_home [OF s, of k]
  have st: "stored m' = (stored ?m)(k \<mapsto> appended c k v (raw c ss k))"
    using append_stored [OF h(2), of k "zc_serialize c z"] by (auto simp: m'_def appended_def raw_def z_def [symmetric] Let_def fun_eq_iff)
  have ok: "nv_ok m'" "writable m'" using append_stored [OF h(2)] append_writable(2) [OF h(3)] by (simp_all add: m'_def)
  have "append_shared (zc_serialize c) False z ?m = Inr (ZSC_REC_SUCC, m')"
    using append_writable(1) [OF h(3), of k "zc_serialize c z"] ok_nonempty(1) [OF k]
    by (cases "nv_append k (zc_serialize c z) ?m") (simp add: append_shared_def finish_write_def key m'_def)
  then have "ht_run (zc_serialize c) (zc_instant_swap c) 0 (zpack_to_str z) (ss ! home c k) = Inr (Some ZSC_REC_SUCC, (ss ! home c k)\<lparr>h_map := m'\<rparr>)"
    using z s by (simp add: ht_run_def zpack_roundtrip key(2) reply_def Let_def sound_def) (simp add: zsc_defs)
  from sendrecv_at [OF _ z key(1) this]
  have "zht_sendrecv c (zpack_to_str z) ss = Inr (ZSC_REC_SUCC @ [], ss')" using s by (simp add: sound_def ss'_def zsc_defs)
  from commonOp_answer [where sendrecv = "zht_sendrecv c", OF k _ this [unfolded z_def] codes_ok(1)]
  have "zc_append (zht_sendrecv c) k v ss = Inr (0, ss')" by (simp add: zc_append_def)
  then show ?thesis using sound_upd [OF s ss'_def ok st] by blast
qed

lemma remove_sound:
  assumes s: "sound c ss" and k: "key_ok (zc_msg_maxsize c) k" and st: "raw c ss k \<noteq> None"
  shows "\<exists>ss'. zc_remove (zht_sendrecv c) k ss = Inr (0, ss') \<and> sound c ss' \<and> raw c ss' = (raw c ss)(k := None)"
proof -
  define z where "z = request ZSC_OPC_REMOVE k [] [] 1"
  have z: "zpack_ok z" unfolding z_def by (rule request_ok [OF k]) simp_all
  have key: "z_key z = Some k" "z_opcode z = Some ZSC_OPC_REMOVE" by (simp_all add: z_def request_def)
  let ?m = "h_map (ss ! home c k)"
  define m' where "m' = snd (nv_remove k ?m)"
  define ss' where "ss' = ss[home c k := (ss ! home c k)\<lparr>h_map := m'\<rparr>]"
  note h = sound_home [OF s, of k]
  have ok: "nv_ok m'" "writable m'" "stored m' = (stored ?m)(k := None)"
    using nv.del_ok [OF h(2)] remove_writable(2) [OF h(3)] nv.contents_del [OF h(2)] by (simp_all add: m'_def)
  have "remove_shared False z ?m = Inr (ZSC_REC_SUCC, m')"
    using remove_shared_ok [OF h(3), of z] ok_nonempty(1) [OF k] st by (auto simp: key m'_def raw_def)
  then have "ht_run (zc_serialize c) (zc_instant_swap c) 0 (zpack_to_str z) (ss ! home c k) = Inr (Some ZSC_REC_SUCC, (ss ! home c k)\<lparr>h_map := m'\<rparr>)"
    using z s by (simp add: ht_run_def zpack_roundtrip key(2) reply_def Let_def sound_def) (simp add: zsc_defs)
  from sendrecv_at [OF _ z key(1) this]
  have "zht_sendrecv c (zpack_to_str z) ss = Inr (ZSC_REC_SUCC @ [], ss')" using s by (simp add: sound_def ss'_def zsc_defs)
  from commonOp_answer [where sendrecv = "zht_sendrecv c", OF k _ this [unfolded z_def] codes_ok(1)]
  have "zc_remove (zht_sendrecv c) k ss = Inr (0, ss')" by (simp add: zc_remove_def)
  then show ?thesis using sound_upd [OF s ss'_def ok] by blast
qed

section \<open>What a lookup shows of an append\<close>

lemma str_to_zpack_rest: "zpack_ok z \<Longrightarrow> str_to_zpack (zpack_to_str z @ t) = z"
proof -
  assume ok: "zpack_ok z"
  have 1: "zht_tokenize (zpack_to_str z @ t) ''//'' = zpack_fields z @ zht_tokenize t ''//''"
    using tokens_sep_fields [OF zpack_fields_clean [OF ok], of t] by (simp add: zpack_to_str_fields zht_tokenize_tokens)
  have 2: "zht_tokenize (zpack_to_str z) ''//'' = zpack_fields z"
    using tokens_sep_fields [OF zpack_fields_clean [OF ok], of "[]"] by (simp add: zpack_to_str_fields zht_tokenize_tokens)
  have l: "length (zpack_fields z) = 8" by (simp add: zpack_fields_def)
  have "str_to_zpack (zpack_to_str z @ t) = str_to_zpack (zpack_to_str z)"
    unfolding str_to_zpack_def 1 2 using l by (simp add: Let_def nth_append zpack_to_str_nonempty)
  then show ?thesis using zpack_roundtrip [OF ok] by simp
qed

text \<open>The client reports success, and the next lookup returns the value from before, whatever the encoding is.\<close>

lemma append_is_not_seen:
  assumes s: "deployed c ss" and k: "key_ok (zc_msg_maxsize c) k" and w: "val_ok (zc_msg_maxsize c) w"
    and v: "zht_value c ss k = Some v" and fits: "length (appended c k w (raw c ss k)) + 3 < zc_msg_maxsize c"
  shows "\<exists>ss'. zc_append (zht_sendrecv c) k w ss = Inr (0, ss') \<and> zc_lookup (zht_sendrecv c) k r ss' = Inr (0, v, ss')"
proof -
  have ok: "cluster_ok c ss" and sd: "sound c ss" using s deployed_sound(1) [OF s] fits by (simp_all add: deployed_def)
  obtain ss' where a: "zc_append (zht_sendrecv c) k w ss = Inr (0, ss')" "sound c ss'" "raw c ss' = (raw c ss)(k \<mapsto> appended c k w (raw c ss k))"
    using append_law [OF sd k w] by blast
  have vo: "val_ok (zc_msg_maxsize c) v" "raw c ss k = Some (zpack_to_str (entry k v))"
    using stored_entry [OF ok k] v by (simp_all add: raw_def)
  define t where "t = '':'' @ zc_serialize c (request ZSC_OPC_APPEND k w [] 1)"
  have raw': "stored (h_map (ss' ! home c k)) k = Some (zpack_to_str (entry k v) @ t)" "length (zpack_to_str (entry k v) @ t) + 3 < zc_msg_maxsize c"
    using a(3) vo(2) fits by (simp_all add: raw_def appended_def t_def Let_def fun_eq_iff)
  define z where "z = request ZSC_OPC_LOOKUP k [] [] 1"
  have z: "zpack_ok z" unfolding z_def using k by (rule request_ok) simp_all
  have key: "z_key z = Some k" "z_opcode z = Some ZSC_OPC_LOOKUP" by (simp_all add: z_def request_def)
  have "ht_run (zc_serialize c) (zc_instant_swap c) 0 (zpack_to_str z) (ss' ! home c k) =
      Inr (Some (ZSC_REC_SUCC @ zpack_to_str (entry k v) @ t), ss' ! home c k)"
    using z raw'(1) ok_nonempty(1) [OF k] by (simp add: ht_run_def zpack_roundtrip key lookup_shared_stored Let_def)
  from sendrecv_at [OF _ z key(1) this]
  have "zht_sendrecv c (zpack_to_str z) ss' = Inr (ZSC_REC_SUCC @ zpack_to_str (entry k v) @ t, ss')"
    using a(2) raw'(2) by (simp add: sound_def zsc_defs)
  moreover have "c_str (ZSC_REC_SUCC @ zpack_to_str (entry k v) @ t) = ZSC_REC_SUCC @ zpack_to_str (entry k v) @ c_str t"
    using zpack_no_nul [OF entry_ok [OF k vo(1)]] codes_ok(1) unfolding c_str_def is_code_def by (auto simp: takeWhile_append)
  ultimately have "commonOp (zht_sendrecv c) ZSC_OPC_LOOKUP k [] [] r 1 ss' = Inr (0, zpack_to_str (entry k v) @ c_str t, ss')"
    using ok_nonempty(1) [OF k] codes_ok(1) by (auto simp: commonOp_def commonOpInternal_def z_def is_code_def Let_def)
  moreover have "extract_value (zpack_to_str (entry k v) @ c_str t) = v"
    using str_to_zpack_rest [OF entry_ok [OF k vo(1)]] extract_entry [OF k vo(1)] zpack_roundtrip [OF entry_ok [OF k vo(1)]] by (simp add: extract_value_def)
  ultimately show ?thesis using a(1) by (simp add: zc_lookup_def)
qed

section \<open>The benchmark\<close>

text \<open>The message \<open>Package\<close> (\<^verbatim>\<open>ZHT/src/meta.proto\<close>); \<open>ser\<close> and \<open>par\<close> stand for \<open>SerializeAsString\<close> and \<open>ParseFromString\<close>.\<close>

record package =
  p_virtualpath :: string
  p_realfullpath :: string
  p_isdir :: bool
  p_replicanum :: int
  p_listitem :: "string list"

definition new_package :: "string \<Rightarrow> package" where
  "new_package key = \<lparr>p_virtualpath = key, p_realfullpath = ''Some-Real-longer-longer-and-longer-Paths--------'', p_isdir = True, p_replicanum = 5,
     p_listitem = [''item-----1'', ''item-----2'', ''item-----3'', ''item-----4'', ''item-----5'']\<rparr>"

text \<open>A random key takes \<open>lenString\<close> (52) calls of \<open>rand\<close>.\<close>

definition init_packages :: "(package \<Rightarrow> string) \<Rightarrow> (nat \<Rightarrow> nat) \<Rightarrow> int \<Rightarrow> string list" where
  "init_packages ser rnd numOfOps = map (\<lambda>i. ser (new_package (randomString rnd (52 * i) 52))) [0..<nat numOfOps]"

text \<open>The loops over \<open>pkgList\<close> count the calls that fail.\<close>

fun bench_loop :: "(string \<Rightarrow> 's \<Rightarrow> (bool \<times> 's) res) \<Rightarrow> string list \<Rightarrow> int \<Rightarrow> 's \<Rightarrow> (int \<times> 's) res" where
  "bench_loop call [] errCount s = Inr (errCount, s)"
| "bench_loop call (pkg_str # pkgs) errCount s =
     bind_res (call pkg_str s) (\<lambda>(err, s'). bench_loop call pkgs (if err then errCount + 1 else errCount) s')"

definition benchmarkInsert :: "'s transport \<Rightarrow> (string \<Rightarrow> package) \<Rightarrow> string list \<Rightarrow> 's \<Rightarrow> (int \<times> 's) res" where
  "benchmarkInsert sendrecv par pkgList s =
     bench_loop (\<lambda>pkg_str s. bind_res (zc_insert sendrecv (p_virtualpath (par pkg_str)) pkg_str s) (\<lambda>(ret, s'). Inr (ret < 0, s'))) pkgList 0 s"

definition benchmarkLookup :: "'s transport \<Rightarrow> (string \<Rightarrow> package) \<Rightarrow> string list \<Rightarrow> 's \<Rightarrow> (int \<times> 's) res" where
  "benchmarkLookup sendrecv par pkgList s =
     bench_loop (\<lambda>pkg_str s. bind_res (zc_lookup sendrecv (p_virtualpath (par pkg_str)) [] s) (\<lambda>(ret, result, s'). Inr (ret < 0 \<or> result = [], s'))) pkgList 0 s"

definition append_packages :: "(package \<Rightarrow> string) \<Rightarrow> (string \<Rightarrow> package) \<Rightarrow> string list \<Rightarrow> string list" where
  "append_packages ser par pkgList =
     map (\<lambda>pkg_str. let p = par pkg_str in ser (p\<lparr>p_listitem := p_listitem p @ [''item-----6-append'']\<rparr>)) pkgList"

definition benchmarkAppend :: "'s transport \<Rightarrow> (package \<Rightarrow> string) \<Rightarrow> (string \<Rightarrow> package) \<Rightarrow> string list \<Rightarrow> 's \<Rightarrow> (int \<times> 's) res" where
  "benchmarkAppend sendrecv ser par pkgList s =
     bench_loop (\<lambda>pkg_str s. bind_res (zc_append sendrecv (p_virtualpath (par pkg_str)) pkg_str s) (\<lambda>(ret, s'). Inr (ret < 0, s')))
       (append_packages ser par pkgList) 0 s"

definition benchmarkRemove :: "'s transport \<Rightarrow> (string \<Rightarrow> package) \<Rightarrow> string list \<Rightarrow> 's \<Rightarrow> (int \<times> 's) res" where
  "benchmarkRemove sendrecv par pkgList s =
     bench_loop (\<lambda>pkg_str s. bind_res (zc_remove sendrecv (p_virtualpath (par pkg_str)) s) (\<lambda>(ret, s'). Inr (ret < 0, s'))) pkgList 0 s"

text \<open>The counted errors of the four loops, after a successful \<open>init\<close> of the client.\<close>

definition benchmark ::
    "'s transport \<Rightarrow> int \<Rightarrow> (package \<Rightarrow> string) \<Rightarrow> (string \<Rightarrow> package) \<Rightarrow> (nat \<Rightarrow> nat) \<Rightarrow> int \<Rightarrow> 's \<Rightarrow> (int \<times> int list \<times> 's) res" where
  "benchmark sendrecv init_rc ser par rnd numOfOps s =
     (if init_rc \<noteq> 0 then Inr (-1, [], s)
      else let pkgList = init_packages ser rnd numOfOps in
        bind_res (benchmarkInsert sendrecv par pkgList s) (\<lambda>(e1, s1).
        bind_res (benchmarkLookup sendrecv par pkgList s1) (\<lambda>(e2, s2).
        bind_res (benchmarkAppend sendrecv ser par pkgList s2) (\<lambda>(e3, s3).
        bind_res (benchmarkRemove sendrecv par pkgList s3) (\<lambda>(e4, s4). Inr (0, [e1, e2, e3, e4], s4))))))"

section \<open>A benchmark run counts no error\<close>

text \<open>A loop all of whose calls succeed, by an invariant \<open>I\<close> on the packages that are left.\<close>

lemma bench_loop_clean:
  assumes "I ps s" and "\<And>p ps s. I (p # ps) s \<Longrightarrow> \<exists>s'. call p s = Inr (False, s') \<and> I ps s'"
  shows "\<exists>s'. bench_loop call ps e s = Inr (e, s') \<and> I [] s'"
  using assms(1)
proof (induction ps arbitrary: s)
  case (Cons p ps)
  then obtain s' where "call p s = Inr (False, s')" "I ps s'" using assms(2) by blast
  then show ?case using Cons.IH by simp
qed simp

definition pkg_ok :: "zht_conf \<Rightarrow> (string \<Rightarrow> package) \<Rightarrow> string \<Rightarrow> bool" where
  "pkg_ok c par p \<longleftrightarrow> key_ok (zc_msg_maxsize c) (p_virtualpath (par p)) \<and> val_ok (zc_msg_maxsize c) p"

abbreviation pkg_key :: "(string \<Rightarrow> package) \<Rightarrow> string \<Rightarrow> string" where
  "pkg_key par p \<equiv> p_virtualpath (par p)"

lemma inserts_clean:
  assumes "deployed c s" and "list_all (pkg_ok c par) ps"
  shows "\<exists>s'. benchmarkInsert (zht_sendrecv c) par ps s = Inr (0, s') \<and> deployed c s' \<and> (\<forall>p \<in> set ps. zht_value c s' (pkg_key par p) \<noteq> None)"
proof -
  define I where "I qs s \<longleftrightarrow> deployed c s \<and> list_all (pkg_ok c par) qs \<and> (\<forall>p \<in> set ps - set qs. zht_value c s (pkg_key par p) \<noteq> None)" for qs s
  have "\<exists>s'. benchmarkInsert (zht_sendrecv c) par ps s = Inr (0, s') \<and> I [] s'"
    unfolding benchmarkInsert_def
  proof (rule bench_loop_clean [where I = I])
    show "I ps s" using assms by (simp add: I_def)
    fix p qs s
    assume I: "I (p # qs) s"
    then have "deployed c s" "pkg_ok c par p" by (simp_all add: I_def)
    then obtain s' where "zc_insert (zht_sendrecv c) (pkg_key par p) p s = Inr (0, s')" "deployed c s'" "zht_value c s' = (zht_value c s)(pkg_key par p \<mapsto> p)"
      using zs.insert [of c s "pkg_key par p" p] by (auto simp: pkg_ok_def zht_ops_of_def)
    then show "\<exists>s'. bind_res (zc_insert (zht_sendrecv c) (pkg_key par p) p s) (\<lambda>(ret, s'). Inr (ret < 0, s')) = Inr (False, s') \<and> I qs s'"
      using I by (auto simp: I_def)
  qed
  then show ?thesis by (auto simp: I_def)
qed

lemma lookups_clean:
  assumes "deployed c s" and "list_all (\<lambda>p. pkg_ok c par p \<and> zht_value c s (pkg_key par p) \<noteq> None) ps"
  shows "benchmarkLookup (zht_sendrecv c) par ps s = Inr (0, s)"
proof -
  define I where "I qs t \<longleftrightarrow> t = s \<and> list_all (\<lambda>p. pkg_ok c par p \<and> zht_value c s (pkg_key par p) \<noteq> None) qs" for qs t
  have "\<exists>s'. benchmarkLookup (zht_sendrecv c) par ps s = Inr (0, s') \<and> I [] s'"
    unfolding benchmarkLookup_def
  proof (rule bench_loop_clean [where I = I])
    show "I ps s" using assms(2) by (simp add: I_def)
    fix p qs t
    assume I: "I (p # qs) t"
    then obtain v where v: "zht_value c s (pkg_key par p) = Some v" "key_ok (zc_msg_maxsize c) (pkg_key par p)" by (auto simp: I_def pkg_ok_def)
    then have "zc_lookup (zht_sendrecv c) (pkg_key par p) [] s = Inr (0, v, s)" "v \<noteq> []"
      using zs.lookup [OF assms(1)] zs.okv_nonempty zs.stored_ok [OF assms(1)] by (fastforce simp: zht_ops_of_def)+
    then show "\<exists>s'. bind_res (zc_lookup (zht_sendrecv c) (pkg_key par p) [] t) (\<lambda>(ret, result, s'). Inr (ret < 0 \<or> result = [], s')) = Inr (False, s') \<and> I qs s'"
      using I by (auto simp: I_def)
  qed
  then show ?thesis by (auto simp: I_def)
qed

lemma appends_clean:
  assumes "sound c s" and "list_all (pkg_ok c par) (append_packages ser par ps)" and "\<forall>k \<in> K. raw c s k \<noteq> None"
  shows "\<exists>s'. benchmarkAppend (zht_sendrecv c) ser par ps s = Inr (0, s') \<and> sound c s' \<and> (\<forall>k \<in> K. raw c s' k \<noteq> None)"
proof -
  define I where "I qs s \<longleftrightarrow> sound c s \<and> list_all (pkg_ok c par) qs \<and> (\<forall>k \<in> K. raw c s k \<noteq> None)" for qs s
  have "\<exists>s'. benchmarkAppend (zht_sendrecv c) ser par ps s = Inr (0, s') \<and> I [] s'"
    unfolding benchmarkAppend_def
  proof (rule bench_loop_clean [where I = I])
    show "I (append_packages ser par ps) s" using assms by (simp add: I_def)
    fix p qs s
    assume I: "I (p # qs) s"
    then obtain s' where "zc_append (zht_sendrecv c) (pkg_key par p) p s = Inr (0, s')" "sound c s'"
        "raw c s' = (raw c s)(pkg_key par p \<mapsto> appended c (pkg_key par p) p (raw c s (pkg_key par p)))"
      using append_law [of c s "pkg_key par p" p] by (auto simp: I_def pkg_ok_def)
    then show "\<exists>s'. bind_res (zc_append (zht_sendrecv c) (pkg_key par p) p s) (\<lambda>(ret, s'). Inr (ret < 0, s')) = Inr (False, s') \<and> I qs s'"
      using I by (auto simp: I_def)
  qed
  then show ?thesis by (simp add: I_def)
qed

lemma removes_clean:
  assumes "sound c s" and "list_all (\<lambda>p. key_ok (zc_msg_maxsize c) (pkg_key par p)) ps" and "\<forall>p \<in> set ps. raw c s (pkg_key par p) \<noteq> None"
    and "distinct (map (pkg_key par) ps)"
  shows "\<exists>s'. benchmarkRemove (zht_sendrecv c) par ps s = Inr (0, s')"
proof -
  define I where "I qs s \<longleftrightarrow> sound c s \<and> list_all (\<lambda>p. key_ok (zc_msg_maxsize c) (pkg_key par p)) qs \<and> (\<forall>p \<in> set qs. raw c s (pkg_key par p) \<noteq> None)
      \<and> distinct (map (pkg_key par) qs)" for qs s
  have "\<exists>s'. benchmarkRemove (zht_sendrecv c) par ps s = Inr (0, s') \<and> I [] s'"
    unfolding benchmarkRemove_def
  proof (rule bench_loop_clean [where I = I])
    show "I ps s" using assms by (simp add: I_def)
    fix p qs s
    assume I: "I (p # qs) s"
    then obtain s' where "zc_remove (zht_sendrecv c) (pkg_key par p) s = Inr (0, s')" "sound c s'" "raw c s' = (raw c s)(pkg_key par p := None)"
      using remove_sound [of c s "pkg_key par p"] by (auto simp: I_def)
    moreover have "pkg_key par p \<notin> pkg_key par ` set qs" using I by (simp add: I_def)
    then have "\<forall>q \<in> set qs. pkg_key par q \<noteq> pkg_key par p" by (metis imageI)
    ultimately show "\<exists>s'. bind_res (zc_remove (zht_sendrecv c) (pkg_key par p) s) (\<lambda>(ret, s'). Inr (ret < 0, s')) = Inr (False, s') \<and> I qs s'"
      using I by (auto simp: I_def)
  qed
  then show ?thesis by blast
qed

text \<open>On a deployed store all four loops succeed, when the keys drawn differ and packages are encoded in texts the store
  can hold.\<close>

lemma benchmark_counts_no_error:
  assumes "deployed c s" and "3 < zc_msg_maxsize c" and pkgs: "pkgs = init_packages ser rnd n"
    and "list_all (pkg_ok c par) pkgs" and "list_all (pkg_ok c par) (append_packages ser par pkgs)" and "distinct (map (pkg_key par) pkgs)"
  shows "\<exists>s'. benchmark (zht_sendrecv c) 0 ser par rnd n s = Inr (0, [0, 0, 0, 0], s')"
proof -
  let ?K = "pkg_key par ` set pkgs"
  obtain s1 where 1: "benchmarkInsert (zht_sendrecv c) par pkgs s = Inr (0, s1)" "deployed c s1" "\<forall>p \<in> set pkgs. zht_value c s1 (pkg_key par p) \<noteq> None"
    using inserts_clean [OF assms(1,4)] by blast
  have 2: "benchmarkLookup (zht_sendrecv c) par pkgs s1 = Inr (0, s1)"
    using lookups_clean [OF 1(2), of par pkgs] 1(3) assms(4) by (simp add: list_all_iff)
  have "\<forall>k \<in> ?K. raw c s1 k \<noteq> None" using 1(3) deployed_sound(2) [OF 1(2)] by blast
  then obtain s3 where 3: "benchmarkAppend (zht_sendrecv c) ser par pkgs s1 = Inr (0, s3)" "sound c s3" "\<forall>k \<in> ?K. raw c s3 k \<noteq> None"
    using appends_clean [OF deployed_sound(1) [OF 1(2) assms(2)] assms(5), of ?K] by blast
  obtain s4 where 4: "benchmarkRemove (zht_sendrecv c) par pkgs s3 = Inr (0, s4)"
    using removes_clean [OF 3(2), of par pkgs] 3(3) assms(4,6) by (auto simp: list_all_iff pkg_ok_def)
  show ?thesis using 1(1) 2 3(1) 4 by (simp add: benchmark_def Let_def pkgs [symmetric])
qed

end
