(* ===== verification/Spec2Isabelle.thy ===== *)
theory Spec2Isabelle
  imports Dag System Completion Lru_Cache Blob_Transport Work_Stealing Client Zht_Config Peer Matrix_Server Progress Epoll_Server NoVoHT_Iter C_Binding Mpi_Broker Zht_Server Zht_Bench
begin

text \<open>
  A verification library for MATRIX, a distributed many-task scheduler (\<^verbatim>\<open>src/matrix/src\<close>), and for ZHT, the
  distributed hash table it keeps its metadata in (\<^verbatim>\<open>src/ZHT/src\<close>).

  \<^bold>\<open>The program.\<close> A MATRIX client generates a workload, a directed graph of tasks, writes one record per task
  to ZHT (its children, the number of parents not yet finished), and submits the tasks to the schedulers over TCP.
  A scheduler keeps a wait queue and two priority queues of ready tasks. Its threads look up the records of waiting
  tasks and move those without unfinished parents to a ready queue, or push them to the scheduler that has their
  data; execute ready tasks; tell the children of finished ones, by a compare-and-swap loop on their records; steal
  tasks from a loaded neighbour when idle; and publish statistics. A ZHT client turns each store operation into
  a packet, chooses the server by a hash of the key, and sends it through cached connections in blobs; the server
  keeps the pairs in NoVoHT, a chained hash table with a log file.

  \<^bold>\<open>The theories\<close>, from the bottom (\<^verbatim>\<open>file\<close>: what of it).

  \<^item> \<open>Prelude\<close>: failing computations (\<open>fault\<close>, \<open>res\<close>), the ranges of \<open>int\<close> and \<open>long\<close>, C strings, shared list facts.
  \<^item> \<open>Numbers\<close>, \<open>Tokenizer\<close>, \<open>Cxx_Map\<close>: \<open>num_to_str\<close>/\<open>str_to_num\<close> (\<^verbatim>\<open>util.h\<close>, \<^verbatim>\<open>ZHTUtil.h\<close>), \<open>tokenize\<close>
    and \<open>StrTokenizer\<close> against one recursive reference, and \<open>std::map\<close> as an ordered association list behind the
    locale \<open>dictionary\<close>.
  \<^item> \<open>Wire\<close>, \<open>Framing\<close>: the texts of the three MATRIX messages (\<^verbatim>\<open>util.cpp\<close>) and their transfer over a byte
    stream (\<^verbatim>\<open>matrix_tcp_proxy_stub.cpp\<close>, \<open>send_batch_tasks\<close>): printing and parsing are inverse, and a text or a
    batch of tasks arrives under every chunking of the stream.
  \<^item> \<open>Dag\<close>: the four generators, in-degrees and parents (\<^verbatim>\<open>util.cpp\<close>): well-formed, acyclic, in-degree = number of edges.
  \<^item> \<open>Config\<close>, \<open>Zht_Config\<close>: the configuration of MATRIX (\<^verbatim>\<open>config.cpp\<close>) and of ZHT (\<^verbatim>\<open>ConfEntry.cpp\<close>,
    \<^verbatim>\<open>ConfHandler.cpp\<close>, \<^verbatim>\<open>Env.cpp\<close>, \<^verbatim>\<open>ProxyStubFactory.cpp\<close>, \<open>ZHTClient::init\<close>): what is read, and that peers with the
    same members agree on the server of every key.
  \<^item> \<open>NoVoHT\<close>: the hash table with resize, log, compaction and restart (\<^verbatim>\<open>novoht.cpp\<close>): it refines a map (locale
    \<open>kv_table\<close>); what the log holds and loses.
  \<^item> \<open>NoVoHT_Iter\<close>: the iterators and the destructor (\<^verbatim>\<open>novoht.h\<close>): which pairs a loop visits.
  \<^item> \<open>Ts_Queue\<close>: the locale \<open>fifo\<close> of queues between threads, what it gives for every interleaving, and the thread-safe
    queue of ZHT (\<^verbatim>\<open>TSafeQueue-impl.h\<close>). The queues of both event servers are further instances.
  \<^item> \<open>Zpack\<close>, \<open>Ht_Worker\<close>, \<open>Zht_Client\<close>, \<open>Zht_Service\<close>: the packet and the routing (\<^verbatim>\<open>ZHTUtil.cpp\<close>, \<^verbatim>\<open>Util.cpp\<close>),
    the handlers of the server (\<^verbatim>\<open>HTWorker.cpp\<close>), the operations of the client (\<^verbatim>\<open>cpp_zhtclient.cpp\<close>) and the
    contract the rest relies on, the locale \<open>zht_service\<close>: lookup, insert, remove and compare-and-swap on a map. Its
    interpretation \<open>zs\<close> on the whole stack is the refinement; the compare-and-swap loop is proved inside the locale.
  \<^item> \<open>Big_Data\<close>, \<open>Blob_Transport\<close>, \<open>Udp_Transport\<close>: messages in blobs (\<^verbatim>\<open>bigdata_transfer.cpp\<close>), connection, mutex and
    address caches of the TCP and UDP proxies (\<^verbatim>\<open>tcp_proxy_stub.cpp\<close>, \<^verbatim>\<open>ip_proxy_stub.cpp\<close>, \<^verbatim>\<open>udp_proxy_stub.cpp\<close>).
    The locale \<open>transparent_transport\<close> says what a transport has to promise for the store contract to hold through
    it; both are instances.
  \<^item> \<open>Epoll_Server\<close>, \<open>Zht_Server\<close>: the event server (\<^verbatim>\<open>EpollServer.cpp\<close>), with the messages of several clients interleaved
    and with or without a serving thread, and the main program of a server (\<^verbatim>\<open>ZHTServer.cpp\<close>, \<^verbatim>\<open>ip_server.cpp\<close>).
  \<^item> \<open>Mq_Transport\<close>, \<open>Mpi_Broker\<close>: the message-queue transport (\<^verbatim>\<open>ipc_plus.cpp\<close>, \<^verbatim>\<open>ipc_plus.h\<close>, \<^verbatim>\<open>mq_proxy_stub.cpp\<close>) as a
    step relation of clients and broker with an invariant over its reachable states, for any service behind the broker
    that fulfils the locale \<open>mq_backend\<close>; and the broker in front of MPI servers (\<^verbatim>\<open>mpi_broker.cpp\<close>,
    \<^verbatim>\<open>mpi_proxy_stub.cpp\<close>), which does.
  \<^item> \<open>C_Binding\<close>, \<open>Zht_Bench\<close>: the C interface (\<^verbatim>\<open>c_zhtclient.cpp\<close>, \<^verbatim>\<open>c_zhtclientStd.cpp\<close>), which refines the map when
    buffers are clean and large enough; \<open>append\<close> and the benchmark program (\<^verbatim>\<open>benchmark_client.cpp\<close>).
  \<^item> \<open>Lru_Cache\<close>: \<^verbatim>\<open>lru_cache.h\<close> with numbered list nodes, against a recency list.
  \<^item> \<open>Task_Queue\<close>, \<open>Scheduler\<close>, \<open>Task_Flow\<close>, \<open>Completion\<close>, \<open>Work_Stealing\<close>: the record \<open>sched\<close> of a scheduler, its request
    handlers and one definition per round of each thread (\<^verbatim>\<open>scheduler_stub.cpp\<close>, \<^verbatim>\<open>scheduler_stub.h\<close>), its ready queues
    behind the locale \<open>prio_queue\<close>, and what each does: submission, readiness, stealing, pushing, execution, notification, statistics, registration.
  \<^item> \<open>System\<close>: all schedulers over one store as the step relation \<open>sys_step\<close>, with an invariant by rule induction over
    the reachable states \<open>sys_reach\<close>.
  \<^item> \<open>Progress\<close>: for workloads as the client submits them, with room in the records for the notifications, steps lead
    from every reachable state of \<open>sys_step\<close> to one in which all tasks have run and all children are notified.
  \<^item> \<open>Client\<close>, \<open>Peer\<close>: the MATRIX client (\<^verbatim>\<open>client_stub.cpp\<close>, \<^verbatim>\<open>client.cpp\<close>) and class \<open>Peer\<close> with the main program of a
    scheduler and the threads it creates (\<^verbatim>\<open>util.cpp\<close>, \<^verbatim>\<open>scheduler.cpp\<close>).
  \<^item> \<open>Matrix_Server\<close>: the accepting and the serving thread of the request server of a scheduler
    (\<^verbatim>\<open>matrix_epoll_server.cpp\<close>): in every interleaving they do what handling the connections in order does.
  \<^item> This theory: the composition of client, network, request servers, store and schedulers: what a client submits
    is run, each task once and after its parents, in every interleaving, and can always be finished.

  \<^bold>\<open>How the code is modelled.\<close> State is passed explicitly. A result \<open>Inl\<close> is the end of the process
  (an exception nobody catches, undefined behaviour, a division by zero) or a wait for a message nobody sends.
  A loop that may not end is a \<open>partial_function (option)\<close>, \<open>None\<close> being that it does not; the theorems show
  that it returns (\<open>cas_loop_ends\<close>, \<open>workstealing_gives_up\<close>, \<open>monitoring_ends_when_all_done\<close>,
  \<open>callbacks_answered_in_order\<close>, \<open>broker_calls_return\<close>, the loops that wait or create threads); no fuel is used. Between two requests of a thread the others act: \<open>env i\<close> is an arbitrary change
  of the store (or of the scheduler) before request \<open>i\<close>. In \<open>sys_step\<close> a step is the body of one round of a
  thread; notifications, pushes and steals are separate steps that interleave with all others. Byte streams are cut
  arbitrarily (\<open>chunking\<close>).

  \<^bold>\<open>Parameters\<close> stand for what is outside the sources: the clock, \<open>rand()\<close>, the output of a command, whether a
  connection can be made, the answers of other peers, the contents of files, and \<open>SerializeAsString\<close> of the generated
  protobuf code, of which nothing is assumed.

  \<^bold>\<open>Hypotheses\<close> of the system theorems: keys and values are not empty, have neither the separator \<open>/\<close> nor
  NUL and fit the receive buffer (\<open>key_ok\<close>, \<open>val_ok\<close>); the fields of tasks and records do not contain the
  separators of the message formats (\<open>task_ok\<close>, \<open>value_ok\<close>); the store is \<open>deployed\<close>, with well-formed tables and
  every pair at the server of its key. The code checks none of this; what happens otherwise is among the findings.

  \<^bold>\<open>Not modelled:\<close> the system calls and the MPI library themselves (their results are parameters, or a queue is a
  list), log and console output with the durations that only appear there, destructors that only free memory, the main program and the signal handlers of the broker,
  the option parsing of the benchmark, the test and tutorial programs, which only call the clients, the generated
  protobuf code, and code that is commented out or behind macros that no build of the repository sets. The compaction
  thread of NoVoHT is one atomic step, and operations under one mutex are one step; the unsynchronised accesses the
  sources make elsewhere are taken to be atomic.
\<close>

section \<open>From the workload to its execution\<close>

lemma task_ids_mset:
  assumes "length ts = nat n" and "1 \<le> n" and "\<forall>i < length ts. taskid (ts ! i) = client_task_id index (int i)"
  shows "image_mset taskid (mset ts) = mset_set (workload_ids index n)"
proof -
  have "map taskid ts = map (\<lambda>i. client_task_id index (int i)) [0..<nat n]"
    by (rule nth_equalityI) (use assms(1,3) in simp_all)
  then have m: "image_mset taskid (mset ts) = mset (map (\<lambda>i. client_task_id index (int i)) [0..<nat n])" by (metis mset_map)
  have "(\<lambda>i. client_task_id index (int i)) ` {0..<nat n} = workload_ids index n"
  proof -
    have "int ` {0..<nat n} = {0..n - 1}" using assms(2) by (auto simp: image_iff Bex_def intro!: exI [of _ "nat _"])
    then show ?thesis unfolding workload_ids_def by (metis image_image)
  qed
  moreover have "distinct (map (\<lambda>i. client_task_id index (int i)) [0..<nat n])" by (simp add: distinct_map inj_on_def)
  ultimately show ?thesis unfolding m by (metis mset_set_set set_map set_upt)
qed

text \<open>The schedulers start their other threads when all tasks are received (\<open>wait_all_task_recv\<close>).\<close>

definition sys_start :: "(string \<Rightarrow> string list) \<Rightarrow> cluster net \<Rightarrow> sys" where
  "sys_start G nt = \<lparr>y_store = nt_store nt, y_scheds = nt_scheds nt, y_work = [], y_ran = [], y_left = G\<rparr>"

lemma workload_submitted:
  assumes s: "deployed c s" and big: "200 \<le> zc_msg_maxsize c"
    and cl: "client_ok cl" "cl_vec cl \<noteq> []" "\<And>k. k < length (cl_vec cl) \<Longrightarrow> reach k"
    and n: "n = numTaskPerClient (cl_conf cl)" "1 \<le> n" "is_int n"
    and dag: "gen_dag_adjlist [] (dagType (cl_conf cl)) (dagArg (cl_conf cl)) n = Inr dag" "dag_wf n dag"
    and mode: "submitMode (cl_conf cl) \<in> {''bestcase'', ''worstcase''}" and fit: "records_fit c now (cl_index cl) dag n"
    and cnt: "zht_value c s ''num tasks recv'' = Some (num_to_str 0)"
    and reg: "is_int (int (length (cl_vec cl)))" "zht_value c s ''number of scheduler registered'' = Some (num_to_str (int (length (cl_vec cl))))"
    and ss: "length ss = length (cl_vec cl)" "list_all fresh ss" "\<forall>st \<in> set ss. sc_waitQueue st = []"
  shows "\<exists>outs cl' s1. client_main (zht_ops_of c) (\<lambda>_ s. s) now rnd reach cl s = Some (Inr (outs, cl', s1)) \<and> (\<exists>chs. list_all2 chunks_of outs chs)
    \<and> (\<forall>chs t0 nt. list_all2 chunks_of outs chs \<longrightarrow> net_reach (zht_ops_of c) t0 (net_start chs ss s1) nt \<longrightarrow>
        (\<exists>nt'. net_reach (zht_ops_of c) t0 nt nt' \<and> net_idle nt')
        \<and> (net_idle nt \<longrightarrow> zht_value c (nt_store nt) ''num tasks recv'' = Some (num_to_str n)
            \<and> submitted c (workload_ids (cl_index cl) n) (workload_children (cl_index cl) dag) (sys_start (workload_children (cl_index cl) dag) nt)
            \<and> (\<forall>i \<in> {0..n - 1}. zht_value c (nt_store nt) (client_task_id (cl_index cl) i) = Some (value_to_str (submitted_record now (cl_index cl) dag i)))
            \<and> map sc_id (nt_scheds nt) = map sc_id ss \<and> map sc_conf (nt_scheds nt) = map sc_conf ss))"
proof -
  let ?ix = "cl_index cl" and ?T = "workload_ids (cl_index cl) n" and ?G = "workload_children (cl_index cl) dag"
  obtain outs cl' s1 ts where r: "client_main (zht_ops_of c) (\<lambda>_ s. s) now rnd reach cl s = Some (Inr (outs, cl', s1))" "deployed c s1"
      "\<forall>i \<in> {0..n - 1}. zht_value c s1 (client_task_id ?ix i) = Some (value_to_str (submitted_record now ?ix dag i))"
      "\<forall>k. k \<notin> ?T \<longrightarrow> zht_value c s1 k = zht_value c s k"
      "length ts = nat n" "list_all task_ok ts" "\<forall>i < length ts. taskid (ts ! i) = client_task_id ?ix (int i)"
      "list_all2 (sent_for (maxTaskPerPkg (cl_conf cl))) (shares rnd (cl\<lparr>cl_tasks := ts\<rparr>)) outs"
    using client_main_store [where rnd = rnd and reach = reach, OF s cl n dag mode fit big reg] by blast
  let ?xs = "shares rnd (cl\<lparr>cl_tasks := ts\<rparr>)"
  have rec: "t \<in> ?T \<Longrightarrow> \<exists>i \<in> {0..n - 1}. t = client_task_id ?ix i" for t by (auto simp: workload_ids_def)
  have key: "t \<noteq> ''num tasks recv''" if "t \<in> ?T" for t
  proof -
    have "field_ok (task_delims @ ''~?/ '') t" using rec [OF that] client_task_id_field by auto
    then show ?thesis by (auto simp: field_ok_def)
  qed
  have fits: "key_ok (zc_msg_maxsize c) (client_task_id ?ix i)" "value_ok (submitted_record now ?ix dag i)" if "i \<in> {0..n - 1}" for i
    using fit that record_value_ok(2) [where now = now, OF dag(2) that n(3)] unfolding records_fit_def by blast+
  have xs: "mset (concat (map snd ?xs)) = mset ts" using shares_tasks [of "cl\<lparr>cl_tasks := ts\<rparr>" rnd] cl(2) by simp
  then have xs': "set (concat (map snd ?xs)) = set ts" "length (concat (map snd ?xs)) = length ts" by (metis set_mset_mset, metis size_mset)
  have ids: "image_mset taskid (mset ts) = mset_set ?T" using task_ids_mset [OF r(5) n(2) r(7)] .
  have fin: "finite ?T" by (simp add: workload_ids_def)
  have tT: "taskid t \<in> ?T" if "t \<in> set ts" for t
  proof -
    have "taskid t \<in># mset_set ?T" unfolding ids [symmetric] using that by simp
    then show ?thesis using fin by simp
  qed
  have k1: "k < length ss \<and> list_all task_ok tv" if "(k, tv) \<in> set ?xs" for k tv
  proof -
    have "set tv \<subseteq> set (concat (map snd ?xs))" using that by force
    then show ?thesis using r(6) xs'(1) shares_indices [OF _ that] cl(2) ss(1) by (auto simp: list_all_iff)
  qed
  have k2: "key_ok (zc_msg_maxsize c) (taskid t) \<and> taskid t \<noteq> ''num tasks recv'' \<and> (\<exists>d v. zht_value c s1 (taskid t) = Some d \<and> str_to_value d = Inr v)"
    if "t \<in> set (concat (map snd ?xs))" for t
  proof -
    have tt: "taskid t \<in> ?T" using that tT unfolding xs'(1) by blast
    then obtain i where i: "i \<in> {0..n - 1}" "taskid t = client_task_id ?ix i" using rec by blast
    then show ?thesis using fits [OF i(1)] r(3) key [OF tt] value_roundtrip by (simp add: i(2))
  qed
  have mx: "0 < maxTaskPerPkg (cl_conf cl)" using cl(1) by (simp add: client_ok_def)
  have c0: "zht_value c s1 ''num tasks recv'' = Some (num_to_str 0)" "is_int (0 + int (length (concat (map snd ?xs))))"
  proof -
    have "''num tasks recv'' \<notin> ?T" using key by blast
    then show "zht_value c s1 ''num tasks recv'' = Some (num_to_str 0)" using r(4) cnt by simp
    show "is_int (0 + int (length (concat (map snd ?xs))))" using r(5) n(2,3) xs'(2) by simp
  qed
  have len: "is_int (int (length tv))" if mem: "(k, tv) \<in> set ?xs" for k tv
  proof -
    obtain ys zs where "?xs = ys @ (k, tv) # zs" using split_list [OF mem] by blast
    then have "length tv \<le> length (concat (map snd ?xs))" by simp
    then show ?thesis using c0(2) by (simp add: int_range_defs)
  qed
  have ex: "\<exists>chs. list_all2 chunks_of outs chs" using sent_chunks [OF mx r(8)] k1 len by blast
  have w0: "all_ids wait_ids ss = {#}" by (rule all_ids_empty) (use ss(3) in \<open>simp add: wait_ids_def\<close>)
  have fin_state: "(\<exists>nt'. net_reach (zht_ops_of c) t0 nt nt' \<and> net_idle nt') \<and> (net_idle nt \<longrightarrow> list_all fresh (nt_scheds nt) \<and> deployed c (nt_store nt)
        \<and> zht_value c (nt_store nt) = (zht_value c s1)(''num tasks recv'' \<mapsto> num_to_str n) \<and> all_ids wait_ids (nt_scheds nt) = mset_set ?T
        \<and> map sc_id (nt_scheds nt) = map sc_id ss \<and> map sc_conf (nt_scheds nt) = map sc_conf ss)"
    if ch: "list_all2 chunks_of outs chs" and rc: "net_reach (zht_ops_of c) t0 (net_start chs ss s1) nt" for chs t0 nt
  proof -
    have nn: "0 + int (length (concat (map snd ?xs))) = n" using xs'(2) r(5) n(2) by simp
    have w: "all_ids wait_ids ss + image_mset taskid (mset (concat (map snd ?xs))) = mset_set ?T" unfolding w0 xs ids by simp
    have b: "100 \<le> zc_msg_maxsize c" using big by simp
    note taken = submissions_taken [where m = 0, OF r(2) mx r(8) ch _ _ c0(1) order_refl c0(2) b ss(2) rc, unfolded nn w]
    show ?thesis
    proof (intro conjI impI)
      show "\<exists>nt'. net_reach (zht_ops_of c) t0 nt nt' \<and> net_idle nt'" by (rule taken(1)) (rule k1, assumption, rule k2, assumption)
      assume "net_idle nt"
      then have "list_all fresh (nt_scheds nt) \<and> deployed c (nt_store nt)
        \<and> zht_value c (nt_store nt) = (zht_value c s1)(''num tasks recv'' \<mapsto> num_to_str n) \<and> all_ids wait_ids (nt_scheds nt) = mset_set ?T
        \<and> map sc_id (nt_scheds nt) = map sc_id ss \<and> map sc_conf (nt_scheds nt) = map sc_conf ss"
        by (rule taken(2) [rotated 2]) (rule k1, assumption, rule k2, assumption)
      then show "list_all fresh (nt_scheds nt)" "deployed c (nt_store nt)"
        "zht_value c (nt_store nt) = (zht_value c s1)(''num tasks recv'' \<mapsto> num_to_str n)" "all_ids wait_ids (nt_scheds nt) = mset_set ?T"
        "map sc_id (nt_scheds nt) = map sc_id ss" "map sc_conf (nt_scheds nt) = map sc_conf ss" by blast+
    qed
  qed
  have "zht_value c (nt_store nt) ''num tasks recv'' = Some (num_to_str n) \<and> submitted c ?T ?G (sys_start ?G nt)
      \<and> (\<forall>i \<in> {0..n - 1}. zht_value c (nt_store nt) (client_task_id ?ix i) = Some (value_to_str (submitted_record now ?ix dag i)))
      \<and> map sc_id (nt_scheds nt) = map sc_id ss \<and> map sc_conf (nt_scheds nt) = map sc_conf ss"
    if ch: "list_all2 chunks_of outs chs" and rc: "net_reach (zht_ops_of c) t0 (net_start chs ss s1) nt" and idle: "net_idle nt" for chs t0 nt
  proof -
    let ?s2 = "nt_store nt"
    have d: "list_all fresh (nt_scheds nt)" "deployed c ?s2" "zht_value c ?s2 = (zht_value c s1)(''num tasks recv'' \<mapsto> num_to_str n)"
        "all_ids wait_ids (nt_scheds nt) = mset_set ?T" "map sc_id (nt_scheds nt) = map sc_id ss" "map sc_conf (nt_scheds nt) = map sc_conf ss"
      using fin_state [OF ch rc] idle by blast+
    have rec2: "zht_value c ?s2 (client_task_id ?ix i) = Some (value_to_str (submitted_record now ?ix dag i))" if i: "i \<in> {0..n - 1}" for i
    proof -
      have "client_task_id ?ix i \<in> ?T" using i by (simp add: workload_ids_def)
      then show ?thesis using d(3) r(3) key i by simp
    qed
    have "key_ok (zc_msg_maxsize c) t \<and> set (?G t) \<subseteq> ?T \<and> (\<exists>v. zht_value c ?s2 t = Some (value_to_str v) \<and> value_ok v \<and> v_children v = ?G t
        \<and> opt0 (v_indegree v) = int (\<Sum>p \<in> ?T. count_list (?G p) t))" if tT: "t \<in> ?T" for t
    proof -
      obtain i where i: "i \<in> {0..n - 1}" "t = client_task_id ?ix i" using rec [OF tT] by blast
      have g: "?G t = map (client_task_id ?ix) (children_of dag i)" using workload_children_id [OF dag(2)] i by simp
      have "set (children_of dag i) \<subseteq> {0..n - 1}" using dag_wf_children(4) [OF dag(2)] by force
      moreover have "zht_value c ?s2 t = Some (value_to_str (submitted_record now ?ix dag i))" using rec2 i by simp
      moreover have "(\<Sum>p \<in> ?T. count_list (?G p) t) = length (parents_of dag i)" using workload_indegree [OF dag(2), of i ?ix] i by simp
      ultimately show ?thesis
        using fits [OF i(1)] g by (auto simp: i(2) workload_ids_def submitted_record_def task_record_def)
    qed
    then have "submitted c ?T ?G (sys_start ?G nt)" using d(1,2,4) fin unfolding submitted_def sys_start_def by (auto simp: list_all_iff fresh_def)
    then show ?thesis using d(3,5,6) rec2 by simp
  qed
  with r(1) ex fin_state show ?thesis by blast
qed

text \<open>Property C1. From the workload to its execution: a client that generates one of the four kinds of graph, writes
  its records and submits the tasks in either mode makes connections to the schedulers. Whatever way the network
  cuts its streams and in whatever order the accepting and serving threads of all schedulers act, they can
  always take in what is left, and when all is taken in, all tasks wait and are counted; in every run of the
  schedulers from there, in every interleaving, each task is in one place, and a task is executed once and
  only after the tasks the generated graph puts before it.\<close>

theorem workload_runs_in_order:
  assumes "deployed c s" and "200 \<le> zc_msg_maxsize c"
    and "client_ok cl" and "cl_vec cl \<noteq> []" and "\<And>k. k < length (cl_vec cl) \<Longrightarrow> reach k"
    and "n = numTaskPerClient (cl_conf cl)" and "1 \<le> n" and "is_int n"
    and "dagType (cl_conf cl) \<in> {''BOT'', ''FanOut'', ''FanIn'', ''Pipeline''}" and "1 \<le> dagArg (cl_conf cl)"
    and "gen_dag_adjlist [] (dagType (cl_conf cl)) (dagArg (cl_conf cl)) n = Inr dag"
    and "submitMode (cl_conf cl) \<in> {''bestcase'', ''worstcase''}" and "records_fit c now (cl_index cl) dag n"
    and "zht_value c s ''num tasks recv'' = Some (num_to_str 0)"
    and "is_int (int (length (cl_vec cl)))" and "zht_value c s ''number of scheduler registered'' = Some (num_to_str (int (length (cl_vec cl))))"
    and "length ss = length (cl_vec cl)" and "list_all fresh ss" and "\<forall>st \<in> set ss. sc_waitQueue st = []"
  shows "\<exists>outs cl' s1. client_main (zht_ops_of c) (\<lambda>_ s. s) now rnd reach cl s = Some (Inr (outs, cl', s1)) \<and> (\<exists>chs. list_all2 chunks_of outs chs)
    \<and> (\<forall>chs t0 nt. list_all2 chunks_of outs chs \<longrightarrow> net_reach (zht_ops_of c) t0 (net_start chs ss s1) nt \<longrightarrow>
        (\<exists>nt'. net_reach (zht_ops_of c) t0 nt nt' \<and> net_idle nt')
        \<and> (net_idle nt \<longrightarrow> zht_value c (nt_store nt) ''num tasks recv'' = Some (num_to_str n)
            \<and> (\<forall>y. sys_reach c (sys_start (workload_children (cl_index cl) dag) nt) y \<longrightarrow>
                all_ids wait_ids (y_scheds y) + all_ids ready_ids (y_scheds y) + mset (y_ran y) = mset_set (workload_ids (cl_index cl) n)
                \<and> (\<forall>i j xs zs. j \<in> set (children_of dag i) \<longrightarrow> y_ran y = xs @ client_task_id (cl_index cl) j # zs \<longrightarrow>
                    client_task_id (cl_index cl) i \<in> set xs \<and> client_task_id (cl_index cl) j \<notin> set xs \<union> set zs))))"
proof -
  let ?ix = "cl_index cl" and ?G = "workload_children (cl_index cl) dag"
  have wf: "dag_wf n dag" using gen_dag_wf [OF assms(9,10,7)] assms(11) by auto
  have ord: "client_task_id ?ix i \<in> set xs \<and> client_task_id ?ix j \<notin> set xs \<union> set zs"
    if y: "submitted c (workload_ids ?ix n) ?G y0" "sys_reach c y0 y"
      and e: "j \<in> set (children_of dag i)" "y_ran y = xs @ client_task_id ?ix j # zs" for y0 y i j xs zs
  proof -
    have i: "0 \<le> i" "i < n" using dag_wf_children(4) [OF wf e(1)] by simp_all
    have "client_task_id ?ix i \<in> workload_ids ?ix n" using i by (simp add: workload_ids_def)
    moreover have "client_task_id ?ix j \<in> set (?G (client_task_id ?ix i))" using workload_children_id [OF wf i] e(1) by simp
    ultimately show ?thesis using runs_in_order [OF y e(2)] by blast
  qed
  obtain outs cl' s1 where r: "client_main (zht_ops_of c) (\<lambda>_ s. s) now rnd reach cl s = Some (Inr (outs, cl', s1))" "\<exists>chs. list_all2 chunks_of outs chs"
      "\<And>chs t0 nt. list_all2 chunks_of outs chs \<Longrightarrow> net_reach (zht_ops_of c) t0 (net_start chs ss s1) nt \<Longrightarrow>
        (\<exists>nt'. net_reach (zht_ops_of c) t0 nt nt' \<and> net_idle nt')
        \<and> (net_idle nt \<longrightarrow> zht_value c (nt_store nt) ''num tasks recv'' = Some (num_to_str n) \<and> submitted c (workload_ids ?ix n) ?G (sys_start ?G nt))"
    using workload_submitted [where reach = reach and rnd = rnd, OF assms(1-8,11) wf assms(12-19)] by blast
  then show ?thesis using ord conserved by blast
qed

text \<open>The records of a generated workload as a function of the task ids.\<close>

definition task_number :: "int \<Rightarrow> int \<Rightarrow> string \<Rightarrow> int" where
  "task_number index n t = the_inv_into {0..n - 1} (client_task_id index) t"

lemma task_number_id [simp]: "i \<in> {0..n - 1} \<Longrightarrow> task_number index n (client_task_id index i) = i"
  unfolding task_number_def by (rule the_inv_into_f_f) (simp_all add: inj_on_def)

lemma workload_light:
  assumes "dag_wf n dag"
    and "\<And>i. i \<in> {0..n - 1} \<Longrightarrow> room c ids (workload_ids index n) (length (parents_of dag i)) (submitted_record now index dag i)"
  shows "light_workload c ids (workload_ids index n) (workload_children index dag) (\<lambda>t. submitted_record now index dag (task_number index n t))"
    and "p \<in> workload_ids index n \<Longrightarrow> t \<in> set (workload_children index dag p) \<Longrightarrow> nat (task_number index n p) < nat (task_number index n t)"
proof -
  show "light_workload c ids (workload_ids index n) (workload_children index dag) (\<lambda>t. submitted_record now index dag (task_number index n t))"
    unfolding light_workload_def
  proof
    fix t assume "t \<in> workload_ids index n"
    then obtain i where i: "i \<in> {0..n - 1}" "t = client_task_id index i" by (auto simp: workload_ids_def)
    then have "edges (workload_ids index n) (workload_children index dag) t = length (parents_of dag i)"
      using workload_indegree [OF assms(1), of i index] by (simp add: edges_def)
    then show "no_data (submitted_record now index dag (task_number index n t)) \<and>
        room c ids (workload_ids index n) (edges (workload_ids index n) (workload_children index dag) t) (submitted_record now index dag (task_number index n t))"
      using assms(2) [OF i(1)] i by (simp add: no_data_def submitted_record_def task_record_def default_value_def)
  qed
  assume p: "p \<in> workload_ids index n" "t \<in> set (workload_children index dag p)"
  then obtain i where i: "i \<in> {0..n - 1}" "p = client_task_id index i" by (auto simp: workload_ids_def)
  then obtain j where j: "j \<in> set (children_of dag i)" "t = client_task_id index j" using p(2) workload_children_id [OF assms(1), of i index] by auto
  then have "i < j" "j \<in> {0..n - 1}" using dag_wf_children(4) [OF assms(1) j(1)] by auto
  then show "nat (task_number index n p) < nat (task_number index n t)" using i j(2) by simp
qed

text \<open>Property C2. A submitted workload can always be finished: let a client generate one of the four kinds of graph and
  submit it to schedulers with a non-negative data threshold, with room in the record of each task for the
  notifications of its parents. Once the servers took in the submissions, in whatever order, then from every state
  the threads of the schedulers can reach, in whatever order they acted, further rounds lead to a state in
  which each task of the workload ran exactly once, no queue holds a task and no child is left to notify.\<close>

theorem submitted_workload_can_finish:
  assumes "deployed c s" and "200 \<le> zc_msg_maxsize c"
    and "client_ok cl" and "cl_vec cl \<noteq> []" and "\<And>k. k < length (cl_vec cl) \<Longrightarrow> reach k"
    and "n = numTaskPerClient (cl_conf cl)" and "1 \<le> n" and "is_int n"
    and "dagType (cl_conf cl) \<in> {''BOT'', ''FanOut'', ''FanIn'', ''Pipeline''}" and "1 \<le> dagArg (cl_conf cl)"
    and "gen_dag_adjlist [] (dagType (cl_conf cl)) (dagArg (cl_conf cl)) n = Inr dag"
    and "submitMode (cl_conf cl) \<in> {''bestcase'', ''worstcase''}" and "records_fit c now (cl_index cl) dag n"
    and "zht_value c s ''num tasks recv'' = Some (num_to_str 0)"
    and "is_int (int (length (cl_vec cl)))" and "zht_value c s ''number of scheduler registered'' = Some (num_to_str (int (length (cl_vec cl))))"
    and "length ss = length (cl_vec cl)" and "list_all fresh ss" and "\<forall>st \<in> set ss. sc_waitQueue st = []"
    and "\<And>i. i \<in> {0..n - 1} \<Longrightarrow> room c (sc_id ` set ss) (workload_ids (cl_index cl) n) (length (parents_of dag i)) (submitted_record now (cl_index cl) dag i)"
    and "\<And>st. st \<in> set ss \<Longrightarrow> 0 \<le> dataSizeThreshold (sc_conf st)"
  shows "\<exists>outs cl' s1. client_main (zht_ops_of c) (\<lambda>_ s. s) now rnd reach cl s = Some (Inr (outs, cl', s1)) \<and> (\<exists>chs. list_all2 chunks_of outs chs)
    \<and> (\<forall>chs t0 nt y. list_all2 chunks_of outs chs \<longrightarrow> net_reach (zht_ops_of c) t0 (net_start chs ss s1) nt \<longrightarrow>
        (\<exists>nt'. net_reach (zht_ops_of c) t0 nt nt' \<and> net_idle nt')
        \<and> (net_idle nt \<longrightarrow> sys_reach c (sys_start (workload_children (cl_index cl) dag) nt) y \<longrightarrow>
            (\<exists>y'. sys_reach c y y' \<and> mset (y_ran y') = mset_set (workload_ids (cl_index cl) n) \<and> settled y')))"
proof -
  let ?ix = "cl_index cl" and ?T = "workload_ids (cl_index cl) n" and ?G = "workload_children (cl_index cl) dag"
  let ?V = "\<lambda>t. submitted_record now ?ix dag (task_number ?ix n t)"
  have wf: "dag_wf n dag" using gen_dag_wf [OF assms(9,10,7)] assms(11) by auto
  note light = workload_light [where now = now, OF wf assms(20)]
  have finish: "\<exists>y'. sys_reach c y y' \<and> mset (y_ran y') = mset_set ?T \<and> settled y'"
    if nt: "submitted c ?T ?G (sys_start ?G nt)" "map sc_id (nt_scheds nt) = map sc_id ss" "map sc_conf (nt_scheds nt) = map sc_conf ss"
        "\<forall>i \<in> {0..n - 1}. zht_value c (nt_store nt) (client_task_id ?ix i) = Some (value_to_str (submitted_record now ?ix dag i))"
      and y: "sys_reach c (sys_start ?G nt) y" for nt y
  proof (rule workload_can_always_finish [where rank = "\<lambda>t. nat (task_number ?ix n t)" and V = ?V, OF nt(1) y])
    show "nat (task_number ?ix n p) < nat (task_number ?ix n t)" if "p \<in> ?T" "t \<in> set (?G p)" for p t using light(2) that by blast
    have "sc_id ` set (nt_scheds nt) = sc_id ` set ss" using nt(2) by (metis set_map)
    then show "light_workload c (sc_id ` set (y_scheds (sys_start ?G nt))) ?T ?G ?V" using light(1) by (simp add: sys_start_def)
    show "zht_value c (y_store (sys_start ?G nt)) t = Some (value_to_str (?V t))" if "t \<in> ?T" for t
      using that nt(4) by (auto simp: workload_ids_def sys_start_def)
    show "0 \<le> dataSizeThreshold (sc_conf st)" if "st \<in> set (y_scheds (sys_start ?G nt))" for st
    proof -
      have "sc_conf st \<in> sc_conf ` set ss" using that nt(3) by (metis (no_types, lifting) image_eqI set_map sys.select_convs(2) sys_start_def)
      then show ?thesis using assms(21) by auto
    qed
  qed
  show ?thesis using workload_submitted [where reach = reach and rnd = rnd, OF assms(1-8,11) wf assms(12-19)] finish by blast
qed

lemma demo_client_facts:
  "client_ok demo_client" "fresh (demo_sched [] [])" "gen_dag_adjlist [] ''Pipeline'' 2 2 = Inr [(0, [1]), (1, [])]"
  "records_fit demo_conf (\<lambda>_. 5) 0 [(0, [1]), (1, [])] 2"
proof -
  have l: "line_ok ''u d m''" unfolding line_ok_def
    by (rule exI [of _ "''u''"], rule exI [of _ "''d''"], rule exI [of _ "''m''"]) (simp add: field_ok_def)
  then show "client_ok demo_client" by (simp add: client_ok_def demo_client_def)
  show "fresh (demo_sched [] [])" using demo_tasks_ok by (simp add: fresh_def sched_ok_def demo_sched_def demo_mconf_facts)
  show "gen_dag_adjlist [] ''Pipeline'' 2 2 = Inr [(0, [1]), (1, [])]" by code_simp
  have ids: "client_task_id 0 0 = ''00''" "client_task_id 0 1 = ''01''" by code_simp+
  let ?d = "[(0, [1]), (1, [])] :: adj_list"
  let ?rest = "''~~nonumtaskfin~~nonumworksteal~~nonumworkstealfail~~nonumtaskwait~~nonumtaskready~~nonumcoreavail~~nonumallcore~~nooutputsize~~''"
  have v: "value_to_str (task_record 0 0 (children_of ?d 0) (int (length (parents_of ?d 0)))) =
      ''00~~0~~noparents~~01??~~nodataname~~nodatasize~~noalldatasize~~notasklength'' @ ?rest @ ''nosubmittime~~''"
    "value_to_str (task_record 0 1 (children_of ?d 1) (int (length (parents_of ?d 1)))) =
      ''01~~1~~noparents~~nochildren~~nodataname~~nodatasize~~noalldatasize~~notasklength'' @ ?rest @ ''nosubmittime~~''"
    "value_to_str (submitted_record (\<lambda>_. 5) 0 ?d 0) =
      ''00~~0~~noparents~~01??~~nodataname~~nodatasize~~noalldatasize~~notasklength'' @ ?rest @ ''5~~''"
    "value_to_str (submitted_record (\<lambda>_. 5) 0 ?d 1) =
      ''01~~1~~noparents~~nochildren~~nodataname~~nodatasize~~noalldatasize~~notasklength'' @ ?rest @ ''5~~''"
    by code_simp+
  have "{0..2 - 1} = {0, 1 :: int}" by auto
  then show "records_fit demo_conf (\<lambda>_. 5) 0 ?d 2"
    unfolding records_fit_def using ids v by (simp add: demo_conf_def key_ok_def val_ok_def field_ok_def int_range_defs)
qed

theorem workload_runs_in_order_witness:
  "\<exists>s outs cl' s1 chs nt. client_main (zht_ops_of demo_conf) (\<lambda>_ s. s) (\<lambda>_. 5) 0 (\<lambda>_. True) demo_client s = Some (Inr (outs, cl', s1))
     \<and> list_all2 chunks_of outs chs \<and> net_reach (zht_ops_of demo_conf) 0 (net_start chs [demo_sched [] []] s1) nt \<and> net_idle nt
     \<and> zht_value demo_conf (nt_store nt) ''num tasks recv'' = Some ''2''"
proof -
  have nn: "num_to_str 0 = ''0''" "num_to_str 1 = ''1''" "num_to_str 2 = ''2''" by code_simp+
  obtain s where s: "deployed demo_conf s" "zht_value demo_conf s ''num tasks recv'' = Some ''0''"
      "zht_value demo_conf s ''number of scheduler registered'' = Some ''1''"
    using regist_first [OF demo_deployed, of "demo_sched [] []"] by (fastforce simp: demo_conf_def demo_sched_def)
  have "\<exists>outs cl' s1. client_main (zht_ops_of demo_conf) (\<lambda>_ s. s) (\<lambda>_. 5) 0 (\<lambda>_. True) demo_client s = Some (Inr (outs, cl', s1)) \<and> (\<exists>chs. list_all2 chunks_of outs chs)
    \<and> (\<forall>chs t0 nt. list_all2 chunks_of outs chs \<longrightarrow> net_reach (zht_ops_of demo_conf) t0 (net_start chs [demo_sched [] []] s1) nt \<longrightarrow>
        (\<exists>nt'. net_reach (zht_ops_of demo_conf) t0 nt nt' \<and> net_idle nt')
        \<and> (net_idle nt \<longrightarrow> zht_value demo_conf (nt_store nt) ''num tasks recv'' = Some (num_to_str 2)
            \<and> (\<forall>y. sys_reach demo_conf (sys_start (workload_children (cl_index demo_client) [(0, [1]), (1, [])]) nt) y \<longrightarrow>
                all_ids wait_ids (y_scheds y) + all_ids ready_ids (y_scheds y) + mset (y_ran y) = mset_set (workload_ids (cl_index demo_client) 2)
                \<and> (\<forall>i j xs zs. j \<in> set (children_of [(0, [1]), (1, [])] i) \<longrightarrow> y_ran y = xs @ client_task_id (cl_index demo_client) j # zs \<longrightarrow>
                    client_task_id (cl_index demo_client) i \<in> set xs \<and> client_task_id (cl_index demo_client) j \<notin> set xs \<union> set zs))))"
    by (rule workload_runs_in_order [OF s(1) _ demo_client_facts(1)])
      (use demo_client_facts s(2,3) nn in \<open>simp_all add: demo_client_def demo_conf_def int_range_defs demo_sched_def\<close>)
  then obtain outs cl' s1 chs where r: "client_main (zht_ops_of demo_conf) (\<lambda>_ s. s) (\<lambda>_. 5) 0 (\<lambda>_. True) demo_client s = Some (Inr (outs, cl', s1))"
      "list_all2 chunks_of outs chs"
      "\<And>nt. net_reach (zht_ops_of demo_conf) 0 (net_start chs [demo_sched [] []] s1) nt \<Longrightarrow>
        (\<exists>nt'. net_reach (zht_ops_of demo_conf) 0 nt nt' \<and> net_idle nt') \<and> (net_idle nt \<longrightarrow> zht_value demo_conf (nt_store nt) ''num tasks recv'' = Some ''2'')"
    unfolding nn by blast
  obtain nt where nt: "net_reach (zht_ops_of demo_conf) 0 (net_start chs [demo_sched [] []] s1) nt" "net_idle nt" using r(3) [OF net_reach.init] by blast
  with r(3) [OF nt(1)] r(1,2) show ?thesis by blast
qed

lemma demo_room:
  assumes "i \<in> {0..2 - 1}"
  shows "room demo_conf {''n0''} (workload_ids 0 2) (length (parents_of [(0, [1]), (1, [])] i)) (submitted_record (\<lambda>_. 5) 0 [(0, [1]), (1, [])] i)"
  unfolding room_def
proof (intro allI impI)
  let ?d = "[(0, [1]), (1, [])] :: adj_list" and ?r = "submitted_record (\<lambda>_. 5) 0 [(0, [1]), (1, [])]"
  let ?rest = "''??~~0??~~0~~notasklength~~nonumtaskfin~~nonumworksteal~~nonumworkstealfail~~nonumtaskwait~~nonumtaskready~~nonumcoreavail~~nonumallcore~~nooutputsize~~5~~''"
  have T: "workload_ids 0 2 = {''00'', ''01''}"
  proof -
    have "{0..2 - 1} = {0, 1 :: int}" by auto
    moreover have "client_task_id 0 0 = ''00''" "client_task_id 0 1 = ''01''" by code_simp+
    ultimately show ?thesis by (simp add: workload_ids_def)
  qed
  have wf: "dag_wf 2 ?d" by (simp add: dag_wf_def upto.simps)
  have p: "length (parents_of ?d 0) = 0" "length (parents_of ?d 1) = 1" by code_simp+
  have fit: "val_ok (zc_msg_maxsize demo_conf) (value_to_str (?r i))" "value_ok (?r i)"
    using demo_client_facts(4) assms record_value_ok(2) [where now = "\<lambda>_. 5", OF wf assms] by (simp_all add: records_fit_def int_range_defs)
  have v: "value_to_str (informed_by [(''n0'', ''00'')] (?r 1)) = ''01~~0~~n0??~~nochildren~~n000'' @ ?rest"
    "value_to_str (informed_by [(''n0'', ''01'')] (?r 1)) = ''01~~0~~n0??~~nochildren~~n001'' @ ?rest" by code_simp+
  have r1: "?r 1 = default_value\<lparr>v_id := ''01'', v_indegree := Some 1, v_children := [], v_submittime := Some 5\<rparr>" by code_simp
  have one: "value_ok (informed_by [(''n0'', t)] (?r 1)) \<and> val_ok (zc_msg_maxsize demo_conf) (value_to_str (informed_by [(''n0'', t)] (?r 1)))"
    if "t \<in> {''00'', ''01''}" for t
  proof
    show "val_ok (zc_msg_maxsize demo_conf) (value_to_str (informed_by [(''n0'', t)] (?r 1)))"
      using that v by (auto simp: demo_conf_def val_ok_def field_ok_def)
    show "value_ok (informed_by [(''n0'', t)] (?r 1))"
      unfolding r1 using that by (auto simp: informed_by_def parent_done_def done_item_def default_value_def value_ok_def field_ok_def opt_ok_def int_range_defs)
  qed
  fix us assume us: "length us \<le> length (parents_of ?d i)" "set us \<subseteq> {''n0''} \<times> workload_ids 0 2"
  show "value_ok (informed_by us (?r i)) \<and> val_ok (zc_msg_maxsize demo_conf) (value_to_str (informed_by us (?r i)))"
  proof (cases us)
    case Nil
    then show ?thesis using fit by (simp add: informed_by_def)
  next
    case (Cons u us')
    have "i = 0 \<or> i = 1" using assms by auto
    then have i: "i = 1" using us(1) p(1) Cons by (metis Suc_not_Zero le_zero_eq length_Cons)
    then have "us' = []" using us(1) unfolding i p(2) Cons by simp
    moreover obtain t where "u = (''n0'', t)" "t \<in> {''00'', ''01''}" using us(2) unfolding Cons T by auto
    ultimately show ?thesis using one i Cons by simp
  qed
qed

theorem submitted_workload_can_finish_witness:
  "\<exists>s outs cl' s1 chs nt y. client_main (zht_ops_of demo_conf) (\<lambda>_ s. s) (\<lambda>_. 5) 0 (\<lambda>_. True) demo_client s = Some (Inr (outs, cl', s1))
     \<and> net_reach (zht_ops_of demo_conf) 0 (net_start chs [demo_sched [] []] s1) nt \<and> net_idle nt
     \<and> sys_reach demo_conf (sys_start (workload_children 0 [(0, [1]), (1, [])]) nt) y \<and> mset (y_ran y) = mset_set (workload_ids 0 2) \<and> settled y"
proof -
  have nn: "num_to_str 0 = ''0''" "num_to_str 1 = ''1''" by code_simp+
  obtain s where s: "deployed demo_conf s" "zht_value demo_conf s ''num tasks recv'' = Some ''0''"
      "zht_value demo_conf s ''number of scheduler registered'' = Some ''1''"
    using regist_first [OF demo_deployed, of "demo_sched [] []"] by (fastforce simp: demo_conf_def demo_sched_def)
  have ix: "cl_index demo_client = 0" "sc_id ` set [demo_sched [] []] = {''n0''}" by (simp_all add: demo_client_def demo_sched_def)
  have "\<exists>outs cl' s1. client_main (zht_ops_of demo_conf) (\<lambda>_ s. s) (\<lambda>_. 5) 0 (\<lambda>_. True) demo_client s = Some (Inr (outs, cl', s1)) \<and> (\<exists>chs. list_all2 chunks_of outs chs)
    \<and> (\<forall>chs t0 nt y. list_all2 chunks_of outs chs \<longrightarrow> net_reach (zht_ops_of demo_conf) t0 (net_start chs [demo_sched [] []] s1) nt \<longrightarrow>
        (\<exists>nt'. net_reach (zht_ops_of demo_conf) t0 nt nt' \<and> net_idle nt')
        \<and> (net_idle nt \<longrightarrow> sys_reach demo_conf (sys_start (workload_children (cl_index demo_client) [(0, [1]), (1, [])]) nt) y \<longrightarrow>
            (\<exists>y'. sys_reach demo_conf y y' \<and> mset (y_ran y') = mset_set (workload_ids (cl_index demo_client) 2) \<and> settled y')))"
  proof (rule submitted_workload_can_finish [OF s(1) _ demo_client_facts(1)])
    show "room demo_conf (sc_id ` set [demo_sched [] []]) (workload_ids (cl_index demo_client) 2) (length (parents_of [(0, [1]), (1, [])] i))
        (submitted_record (\<lambda>_. 5) (cl_index demo_client) [(0, [1]), (1, [])] i)" if "i \<in> {0..2 - 1}" for i
      unfolding ix by (rule demo_room [OF that])
  qed (use demo_client_facts s(2,3) nn in \<open>simp_all add: demo_client_def demo_conf_def int_range_defs demo_sched_def demo_mconf_facts\<close>)
  then obtain outs cl' s1 chs where r: "client_main (zht_ops_of demo_conf) (\<lambda>_ s. s) (\<lambda>_. 5) 0 (\<lambda>_. True) demo_client s = Some (Inr (outs, cl', s1))"
      "list_all2 chunks_of outs chs"
      "\<And>nt y. net_reach (zht_ops_of demo_conf) 0 (net_start chs [demo_sched [] []] s1) nt \<Longrightarrow> (\<exists>nt'. net_reach (zht_ops_of demo_conf) 0 nt nt' \<and> net_idle nt')
        \<and> (net_idle nt \<longrightarrow> sys_reach demo_conf (sys_start (workload_children 0 [(0, [1]), (1, [])]) nt) y \<longrightarrow>
            (\<exists>y'. sys_reach demo_conf y y' \<and> mset (y_ran y') = mset_set (workload_ids 0 2) \<and> settled y'))"
    unfolding ix by blast
  obtain nt where nt: "net_reach (zht_ops_of demo_conf) 0 (net_start chs [demo_sched [] []] s1) nt" "net_idle nt" using r(3) [OF net_reach.init] by blast
  with r(3) [OF nt(1)] r(1) sys_reach.init show ?thesis by blast
qed

end
